(* ===== verification/Komms_Prelude.thy ===== *)
theory Komms_Prelude
  imports Main "HOL-Library.Word" "HOL-Library.List_Lexorder"
begin

text \<open>
  The shared vocabulary of the development.

  \<^item> Machine integers are words of their width and byte strings are lists of 8-bit words. A fixed
    array \<^verbatim>\<open>[u8; N]\<close> is a byte string whose length is \<open>N\<close>; the length is part of the well-formedness
    predicate of the value it belongs to. \<^verbatim>\<open>usize\<close> is \<open>nat\<close>: every sum the code takes of slice lengths
    and bounded counts stays below \<open>2 ^ 64\<close>, and where the code uses \<^verbatim>\<open>checked_add\<close> on such sums the
    failing branch is the one the following bounds check takes as well.
  \<^item> \<^verbatim>\<open>Result<T, E>\<close> is the sum \<open>'e + 'a\<close> with the error on the left, and \<open>try_then\<close> is the \<^verbatim>\<open>?\<close>
    operator.
  \<^item> \<^verbatim>\<open>to_le_bytes\<close> and \<^verbatim>\<open>from_le_bytes\<close> at the widths the wire formats use.
  \<^item> \<^verbatim>\<open>&bytes[i..j]\<close> is \<open>subslice i j bytes\<close>. Slicing is total in HOL; in the model each slice and each
    index stands behind the length check the source makes first.
  \<^item> \<^verbatim>\<open>core::str::from_utf8\<close> is \<open>utf8_valid\<close>, and a \<^verbatim>\<open>&str\<close> is a byte string that satisfies it.
  \<^item> The locale \<open>strict_codec\<close> is the contract the wire formats of the protocol crate share: decoding
    inverts encoding, and an accepted byte string is the one canonical encoding of its value.
\<close>

unbundle bit_operations_syntax

section \<open>Types\<close>

type_synonym u8 = "8 word"
type_synonym u16 = "16 word"
type_synonym u32 = "32 word"
type_synonym u64 = "64 word"
type_synonym bytes = "u8 list"

text \<open>\<^verbatim>\<open>kult-protocol/src/error.rs\<close>: the failures the protocol layer reports.\<close>

datatype ProtocolError =
    Malformed
  | EnvelopeTooLarge
  | BundleTooLarge
  | TooManyBundleEntries
  | TooLarge
  | BadPadding
  | MtuTooSmall
  | TooManyFragments
  | ReassemblyOverflow
  | IntegrityMismatch
  | AdmissionWorkExhausted

type_synonym 'a result = "ProtocolError + 'a"

text \<open>
  The payload decoders classify their input: a supported value, something a later version may
  understand, or bytes that violate the format (\<^verbatim>\<open>DecodedAttachmentManifest\<close>, \<^verbatim>\<open>DecodedEphemeral\<close>,
  \<^verbatim>\<open>DecodedMention\<close>, \<^verbatim>\<open>DecodedPoll\<close>, \<^verbatim>\<open>DecodedGroupAuthority\<close>, \<^verbatim>\<open>DecodedCallControl\<close>).
\<close>

datatype 'a decoded = DecodedValue 'a | DecodedUnsupported | DecodedMalformed

fun decoded_value :: "'a decoded \<Rightarrow> 'a option" where
  "decoded_value (DecodedValue x) = Some x"
| "decoded_value _ = None"

text \<open>\<^verbatim>\<open>kult-protocol/src/content.rs\<close>: the frame limits every payload format is sized against.\<close>

definition CONTENT_HEADER_LEN :: nat where [simp]: "CONTENT_HEADER_LEN = 28"
definition MAX_CONTENT_FRAME_LEN :: nat where [simp]: "MAX_CONTENT_FRAME_LEN = 65535"
definition MAX_CONTENT_PAYLOAD_LEN :: nat where
  [simp]: "MAX_CONTENT_PAYLOAD_LEN = MAX_CONTENT_FRAME_LEN - CONTENT_HEADER_LEN"
definition MAX_COLLECTION_ENTRIES :: nat where [simp]: "MAX_COLLECTION_ENTRIES = 64"

section \<open>Results\<close>

definition try_then :: "'e + 'a \<Rightarrow> ('a \<Rightarrow> 'e + 'b) \<Rightarrow> 'e + 'b" where
  "try_then m f = (case m of Inl e \<Rightarrow> Inl e | Inr x \<Rightarrow> f x)"

definition ok_or :: "'a option \<Rightarrow> 'e \<Rightarrow> 'e + 'a" where
  "ok_or m e = (case m of None \<Rightarrow> Inl e | Some x \<Rightarrow> Inr x)"

definition ok :: "'e + 'a \<Rightarrow> 'a option" where
  "ok m = (case m of Inl _ \<Rightarrow> None | Inr x \<Rightarrow> Some x)"

section \<open>Slices and vectors\<close>

definition subslice :: "nat \<Rightarrow> nat \<Rightarrow> 'a list \<Rightarrow> 'a list" where
  "subslice i j xs = take (j - i) (drop i xs)"

definition starts_with :: "'a list \<Rightarrow> 'a list \<Rightarrow> bool" where
  "starts_with xs p \<longleftrightarrow> take (length p) xs = p"

definition strip_prefix :: "'a list \<Rightarrow> 'a list \<Rightarrow> 'a list option" where
  "strip_prefix xs p = (if starts_with xs p then Some (drop (length p) xs) else None)"

text \<open>A byte-string literal \<^verbatim>\<open>b"..."\<close>, and the array \<^verbatim>\<open>[0u8; N]\<close>.\<close>

definition ascii :: "string \<Rightarrow> bytes" where
  "ascii s = map of_char s"

definition zeros :: "nat \<Rightarrow> bytes" where
  "zeros n = replicate n 0"

definition vec_resize :: "nat \<Rightarrow> 'a \<Rightarrow> 'a list \<Rightarrow> 'a list" where
  "vec_resize n v xs = take n xs @ replicate (n - length xs) v"

text \<open>\<^verbatim>\<open>as_chunks::<N>().0\<close>: the leading full chunks of exactly \<open>n\<close> elements.\<close>

function as_chunks :: "nat \<Rightarrow> 'a list \<Rightarrow> 'a list list" where
  "as_chunks n xs =
     (if n = 0 \<or> length xs < n then [] else take n xs # as_chunks n (drop n xs))"
  by pat_completeness auto
termination
  by (relation "measure (\<lambda>(n, xs). length xs)") auto

declare as_chunks.simps [simp del]

text \<open>The loop \<^verbatim>\<open>previous.is_some_and(|p| p >= x)\<close> rejects: adjacent elements strictly increase.\<close>

fun strictly_increasing :: "'a::linorder list \<Rightarrow> bool" where
  "strictly_increasing (x # y # ys) \<longleftrightarrow> x < y \<and> strictly_increasing (y # ys)"
| "strictly_increasing _ \<longleftrightarrow> True"

text \<open>\<^verbatim>\<open>slice::binary_search\<close>, the index of a match.\<close>

function bsearch :: "'a::linorder list \<Rightarrow> 'a \<Rightarrow> nat \<Rightarrow> nat \<Rightarrow> nat option" where
  "bsearch xs x lo hi =
     (if lo \<ge> hi then None
      else let mid = lo + (hi - lo) div 2 in
        if xs ! mid = x then Some mid
        else if xs ! mid < x then bsearch xs x (mid + 1) hi
        else bsearch xs x lo mid)"
  by pat_completeness auto
termination
  by (relation "measure (\<lambda>(xs, x, lo, hi). hi - lo)") auto

declare bsearch.simps [simp del]

definition binary_search :: "'a::linorder list \<Rightarrow> 'a \<Rightarrow> nat option" where
  "binary_search xs x = bsearch xs x 0 (length xs)"

text \<open>\<^verbatim>\<open>iter().position(p)\<close>.\<close>

fun find_index :: "('a \<Rightarrow> bool) \<Rightarrow> 'a list \<Rightarrow> nat option" where
  "find_index P [] = None"
| "find_index P (a # as) = (if P a then Some 0 else map_option Suc (find_index P as))"

section \<open>Little-endian integers\<close>

fun le_bytes :: "nat \<Rightarrow> nat \<Rightarrow> bytes" where
  "le_bytes 0 n = []"
| "le_bytes (Suc k) n = word_of_nat n # le_bytes k (n div 256)"

fun le_nat :: "bytes \<Rightarrow> nat" where
  "le_nat [] = 0"
| "le_nat (b # bs) = unat b + 256 * le_nat bs"

definition to_le16 :: "u16 \<Rightarrow> bytes" where "to_le16 w = le_bytes 2 (unat w)"
definition to_le32 :: "u32 \<Rightarrow> bytes" where "to_le32 w = le_bytes 4 (unat w)"
definition to_le64 :: "u64 \<Rightarrow> bytes" where "to_le64 w = le_bytes 8 (unat w)"

definition from_le16 :: "bytes \<Rightarrow> u16" where "from_le16 bs = word_of_nat (le_nat bs)"
definition from_le32 :: "bytes \<Rightarrow> u32" where "from_le32 bs = word_of_nat (le_nat bs)"
definition from_le64 :: "bytes \<Rightarrow> u64" where "from_le64 bs = word_of_nat (le_nat bs)"

text \<open>\<^verbatim>\<open>u64::checked_add\<close>, \<^verbatim>\<open>u32::checked_add\<close>, \<^verbatim>\<open>saturating_sub\<close> and \<^verbatim>\<open>saturating_add\<close> on words.\<close>

definition checked_add :: "'a::len word \<Rightarrow> 'a word \<Rightarrow> 'a word option" where
  "checked_add a b = (if unat a + unat b < 2 ^ LENGTH('a) then Some (a + b) else None)"

definition saturating_sub :: "'a::len word \<Rightarrow> 'a word \<Rightarrow> 'a word" where
  "saturating_sub a b = (if a < b then 0 else a - b)"

definition saturating_add :: "'a::len word \<Rightarrow> 'a word \<Rightarrow> 'a word" where
  "saturating_add a b = (case checked_add a b of None \<Rightarrow> - 1 | Some c \<Rightarrow> c)"

section \<open>UTF-8\<close>

text \<open>
  \<^verbatim>\<open>core::str::from_utf8\<close> accepts exactly the well-formed sequences of the Unicode standard's
  table: no overlong forms, no surrogates, nothing above \<^verbatim>\<open>U+10FFFF\<close>.
\<close>

definition utf8_cont :: "u8 \<Rightarrow> bool" where
  "utf8_cont b \<longleftrightarrow> 0x80 \<le> b \<and> b \<le> 0xBF"

definition utf8_second3 :: "u8 \<Rightarrow> u8 \<Rightarrow> bool" where
  "utf8_second3 a b \<longleftrightarrow>
     (if a = 0xE0 then 0xA0 \<le> b \<and> b \<le> 0xBF
      else if a = 0xED then 0x80 \<le> b \<and> b \<le> 0x9F
      else utf8_cont b)"

definition utf8_second4 :: "u8 \<Rightarrow> u8 \<Rightarrow> bool" where
  "utf8_second4 a b \<longleftrightarrow>
     (if a = 0xF0 then 0x90 \<le> b \<and> b \<le> 0xBF
      else if a = 0xF4 then 0x80 \<le> b \<and> b \<le> 0x8F
      else utf8_cont b)"

fun utf8_valid :: "bytes \<Rightarrow> bool" where
  "utf8_valid [] \<longleftrightarrow> True"
| "utf8_valid (a # r) \<longleftrightarrow>
     (if a \<le> 0x7F then utf8_valid r
      else if 0xC2 \<le> a \<and> a \<le> 0xDF then
        (case r of b # r1 \<Rightarrow> utf8_cont b \<and> utf8_valid r1 | _ \<Rightarrow> False)
      else if 0xE0 \<le> a \<and> a \<le> 0xEF then
        (case r of b # c # r2 \<Rightarrow> utf8_second3 a b \<and> utf8_cont c \<and> utf8_valid r2 | _ \<Rightarrow> False)
      else if 0xF0 \<le> a \<and> a \<le> 0xF4 then
        (case r of b # c # d # r3 \<Rightarrow>
             utf8_second4 a b \<and> utf8_cont c \<and> utf8_cont d \<and> utf8_valid r3 | _ \<Rightarrow> False)
      else False)"

text \<open>\<^verbatim>\<open>str::chars\<close>: the scalar values of a valid string.\<close>

definition utf8_merge :: "u32 \<Rightarrow> u8 \<Rightarrow> u32" where
  "utf8_merge acc b = push_bit 6 acc OR (ucast b AND 0x3F)"

fun utf8_chars :: "bytes \<Rightarrow> u32 list" where
  "utf8_chars [] = []"
| "utf8_chars (a # r) =
     (if a \<le> 0x7F then ucast a # utf8_chars r
      else if a \<le> 0xDF then
        (case r of b # r1 \<Rightarrow> utf8_merge (ucast a AND 0x1F) b # utf8_chars r1 | _ \<Rightarrow> [])
      else if a \<le> 0xEF then
        (case r of b # c # r2 \<Rightarrow>
             utf8_merge (utf8_merge (ucast a AND 0x0F) b) c # utf8_chars r2 | _ \<Rightarrow> [])
      else
        (case r of b # c # d # r3 \<Rightarrow>
             utf8_merge (utf8_merge (utf8_merge (ucast a AND 0x07) b) c) d # utf8_chars r3
         | _ \<Rightarrow> []))"

text \<open>\<^verbatim>\<open>str::is_char_boundary\<close>.\<close>

definition is_char_boundary :: "bytes \<Rightarrow> nat \<Rightarrow> bool" where
  "is_char_boundary s i \<longleftrightarrow>
     (if i = 0 then True else if i \<ge> length s then i = length s else \<not> utf8_cont (s ! i))"

section \<open>Lemmas on results\<close>

declare Let_def [simp]

named_theorems result_simps \<open>inversion of result-valued code\<close>

lemma try_then_Inr [simp]: "try_then (Inr x) f = f x"
  by (simp add: try_then_def)

lemma try_then_Inl [simp]: "try_then (Inl e) f = Inl e"
  by (simp add: try_then_def)

lemma try_then_cong [fundef_cong]:
  "m = m' \<Longrightarrow> (\<And>x. m' = Inr x \<Longrightarrow> f x = f' x) \<Longrightarrow> try_then m f = try_then m' f'"
  by (cases m') auto

lemma try_then_eq_Inr [result_simps]:
  "(try_then m f = Inr y) = (\<exists>x. m = Inr x \<and> f x = Inr y)"
  by (cases m) auto

lemma try_then_eq_Inl [result_simps]:
  "(try_then m f = Inl e) = (m = Inl e \<or> (\<exists>x. m = Inr x \<and> f x = Inl e))"
  by (cases m) auto

lemma ok_or_simps [simp]: "ok_or None e = Inl e" "ok_or (Some x) e = Inr x"
  by (simp_all add: ok_or_def)

lemma ok_or_eq_Inr [result_simps]: "(ok_or m e = Inr x) = (m = Some x)"
  by (cases m) auto

lemma ok_simps [simp]: "ok (Inl e) = None" "ok (Inr x) = Some x"
  by (simp_all add: ok_def)

lemma ok_eq_Some [result_simps]: "(ok m = Some x) = (m = Inr x)"
  by (cases m) auto

lemma decoded_value_eq_Some [result_simps]: "(decoded_value d = Some x) = (d = DecodedValue x)"
  by (cases d) auto

lemma if_Inl_eq_Inr [result_simps]: "((if c then Inl e else r) = Inr x) = (\<not> c \<and> r = Inr x)"
  by simp

section \<open>Lemmas on slices\<close>

named_theorems wire_simps \<open>reading fields back out of a concatenation\<close>

declare nth_append [wire_simps] drop_Cons' [wire_simps] take_Cons' [wire_simps]

lemma subslice_append [wire_simps]:
  "subslice i j (xs @ ys) = subslice i j xs @ subslice (i - length xs) (j - length xs) ys"
proof -
  have "(j - i) - (length xs - i) = (j - length xs) - (i - length xs)" by arith
  then show ?thesis by (simp add: subslice_def)
qed

lemma subslice_Cons [wire_simps]:
  "subslice i j (x # xs) =
     (if i = 0 then (if j = 0 then [] else x # subslice 0 (j - 1) xs) else subslice (i - 1) (j - 1) xs)"
  by (cases i; cases j) (simp_all add: subslice_def)

lemma subslice_Nil [simp]: "subslice i j [] = []"
  by (simp add: subslice_def)

lemma subslice_empty [simp]: "j \<le> i \<Longrightarrow> subslice i j xs = []"
  by (simp add: subslice_def)

lemma subslice_beyond [simp]: "length xs \<le> i \<Longrightarrow> subslice i j xs = []"
  by (simp add: subslice_def)

lemma subslice_all [simp]: "length xs \<le> j \<Longrightarrow> subslice 0 j xs = xs"
  by (simp add: subslice_def)

lemma length_subslice [simp]: "j \<le> length xs \<Longrightarrow> length (subslice i j xs) = j - i"
  by (simp add: subslice_def)

named_theorems peel_simps \<open>putting the fields of a byte string back together\<close>

lemma subslice_peel [peel_simps]: "i \<le> j \<Longrightarrow> subslice i j xs @ drop j xs = drop i xs"
  by (simp add: subslice_def) (metis add.commute append_take_drop_id drop_drop le_add_diff_inverse2)

lemma nth_peel [peel_simps]: "i < length xs \<Longrightarrow> j = Suc i \<Longrightarrow> xs ! i # drop j xs = drop i xs"
  by (simp add: Cons_nth_drop_Suc)

lemma subslice_join: "i \<le> j \<Longrightarrow> j \<le> k \<Longrightarrow> subslice i j xs @ subslice j k xs = subslice i k xs"
proof -
  assume ij: "i \<le> j" and jk: "j \<le> k"
  have "subslice j k xs = take (k - j) (drop (j - i) (drop i xs))"
    using ij by (simp add: subslice_def)
  moreover have "take (j - i) (drop i xs) @ take (k - j) (drop (j - i) (drop i xs))
      = take (j - i + (k - j)) (drop i xs)"
    by (simp only: take_add)
  ultimately show ?thesis using ij jk by (simp add: subslice_def)
qed

lemma split_front:
  assumes "n \<le> length xs"
  obtains a r where "xs = a @ r" "length a = n" "length r = length xs - n"
proof
  show "xs = take n xs @ drop n xs" by simp
  show "length (take n xs) = n" using assms by simp
  show "length (drop n xs) = length xs - n" by simp
qed

lemma starts_with_append [simp]: "starts_with (p @ xs) p"
  by (simp add: starts_with_def)

lemma starts_with_iff: "starts_with xs p \<longleftrightarrow> (\<exists>r. xs = p @ r)"
  by (metis append_eq_conv_conj append_take_drop_id starts_with_def)

lemma strip_prefix_append [simp]: "strip_prefix (p @ xs) p = Some xs"
  by (simp add: strip_prefix_def)

lemma strip_prefix_eq_Some: "strip_prefix xs p = Some r \<longleftrightarrow> xs = p @ r"
  by (auto simp: strip_prefix_def starts_with_iff)

lemma length_ascii [simp]: "length (ascii s) = length s"
  by (simp add: ascii_def)

lemma length_zeros [simp]: "length (zeros n) = n"
  by (simp add: zeros_def)

lemma length_vec_resize [simp]: "length (vec_resize n v xs) = n"
  by (simp add: vec_resize_def)

section \<open>Cursors\<close>

text \<open>
  \<open>reads b i j x\<close>: a cursor that moves over \<open>b\<close> from \<open>i\<close> to \<open>j\<close> passes exactly the bytes \<open>x\<close>. Each read of a
  cursor-based decoder is characterised by the bytes it passes, so that a decoder's accepted inputs
  follow by joining the reads.
\<close>

definition reads :: "bytes \<Rightarrow> nat \<Rightarrow> nat \<Rightarrow> bytes \<Rightarrow> bool" where
  "reads b i j x \<longleftrightarrow> j = i + length x \<and> j \<le> length b \<and> take (length x) (drop i b) = x"

lemma reads_append: "reads b i k (x @ y) \<longleftrightarrow> (\<exists>j. reads b i j x \<and> reads b j k y)"
proof -
  have "take (length x + length y) (drop i b) = x @ y
      \<longleftrightarrow> take (length x) (drop i b) = x \<and> take (length y) (drop (i + length x) b) = y"
    if "i + length x + length y \<le> length b"
    using that by (auto simp: take_add append_eq_append_conv add.commute)
  then show ?thesis by (auto simp: reads_def)
qed

lemma reads_Cons: "reads b i k (x # y) \<longleftrightarrow> (\<exists>j. reads b i j [x] \<and> reads b j k y)"
  using reads_append [of b i k "[x]" y] by simp

lemma reads_append_len:
  "reads b i k (x @ y) \<longleftrightarrow> reads b i (i + length x) x \<and> reads b (i + length x) k y"
  by (auto simp: reads_append) (auto simp: reads_def)

lemma reads_appendI: "reads b i j x \<Longrightarrow> reads b j k y \<Longrightarrow> reads b i k (x @ y)"
  by (auto simp: reads_append)

lemma reads_ConsI: "reads b i j [x] \<Longrightarrow> reads b j k y \<Longrightarrow> reads b i k (x # y)"
  by (auto simp: reads_Cons [of _ _ _ _ y])

lemmas readsI = reads_appendI reads_ConsI [of _ _ _ _ _ "_ @ _"] reads_ConsI [of _ _ _ _ _ "_ # _"]

lemma reads_Nil [simp]: "reads b i j [] \<longleftrightarrow> j = i \<and> i \<le> length b"
  by (auto simp: reads_def)

lemma reads_mid [simp]: "i = length p \<Longrightarrow> j = i + length x \<Longrightarrow> reads (p @ x @ r) i j x"
  by (simp add: reads_def)

lemma reads_length: "reads b i j x \<Longrightarrow> j = i + length x"
  by (simp add: reads_def)

lemma reads_subslice: "j = i + n \<Longrightarrow> reads b i j x \<and> length x = n \<longleftrightarrow> j \<le> length b \<and> x = subslice i j b"
  by (auto simp: reads_def subslice_def)

lemma reads_all: "reads b 0 (length b) x \<longleftrightarrow> x = b"
  by (auto simp: reads_def)

lemma reads_to_end: "reads b i (length b) x \<longleftrightarrow> i \<le> length b \<and> x = drop i b"
  by (auto simp: reads_def)

lemma reads_single: "reads b i j [v] \<longleftrightarrow> j = i + 1 \<and> i < length b \<and> v = b ! i"
  by (auto simp: reads_def take_Suc_conv_app_nth hd_drop_conv_nth take_Suc)

section \<open>Lemmas on chunks and sortedness\<close>

lemma as_chunks_short [simp]: "length xs < n \<Longrightarrow> as_chunks n xs = []"
  by (simp add: as_chunks.simps)

lemma as_chunks_append [simp]:
  "0 < n \<Longrightarrow> length c = n \<Longrightarrow> as_chunks n (c @ xs) = c # as_chunks n xs"
  by (simp add: as_chunks.simps [of n "c @ xs"])

lemma as_chunks_concat:
  "0 < n \<Longrightarrow> (\<And>c. c \<in> set cs \<Longrightarrow> length c = n) \<Longrightarrow> as_chunks n (concat cs) = cs"
  by (induction cs) auto

lemma concat_as_chunks: "0 < n \<Longrightarrow> n dvd length xs \<Longrightarrow> concat (as_chunks n xs) = xs"
proof (induction n xs rule: as_chunks.induct)
  case (1 n xs)
  show ?case
  proof (cases "length xs < n")
    case True
    with "1.prems" have "xs = []" by (auto dest: dvd_imp_le)
    then show ?thesis using "1.prems" by simp
  next
    case False
    then have "n dvd length (drop n xs)" using "1.prems" by simp
    with False "1.IH" "1.prems" show ?thesis by (simp add: as_chunks.simps [of n xs])
  qed
qed

lemma as_chunks_length: "c \<in> set (as_chunks n xs) \<Longrightarrow> length c = n"
proof (induction n xs rule: as_chunks.induct)
  case (1 n xs)
  then show ?case by (auto simp: as_chunks.simps [of n xs] split: if_splits)
qed

lemma length_as_chunks: "0 < n \<Longrightarrow> length xs = k * n \<Longrightarrow> length (as_chunks n xs) = k"
proof (induction k arbitrary: xs)
  case (Suc k)
  then show ?case by (simp add: as_chunks.simps [of n xs])
qed simp

lemma strictly_increasing_Cons:
  "strictly_increasing (x # xs) \<longleftrightarrow> (case xs of [] \<Rightarrow> True | y # _ \<Rightarrow> x < y) \<and> strictly_increasing xs"
  by (cases xs) auto

lemma strictly_increasing_iff: "strictly_increasing xs \<longleftrightarrow> sorted_wrt (<) xs"
proof (induction xs rule: strictly_increasing.induct)
  case (1 x y ys)
  then show ?case by (auto intro: less_trans)
qed simp_all

text \<open>\<^verbatim>\<open>sort_unstable\<close> followed by \<^verbatim>\<open>dedup\<close> yields the strictly increasing list of the elements.\<close>

lemma strict_remdups_adj: "sorted xs \<Longrightarrow> sorted_wrt (<) (remdups_adj xs)"
proof (induction xs rule: remdups_adj.induct)
  case (3 x y xs)
  show ?case
  proof (cases "x = y")
    case False
    with "3.prems" have "\<forall>z\<in>set (y # xs). x < z" by (auto simp: le_less)
    with False 3 show ?thesis by simp
  qed (use 3 in simp)
qed simp_all

lemma bsearch_iff:
  assumes "sorted_wrt (<) xs" and "hi \<le> length xs"
  shows "bsearch xs x lo hi = Some i \<longleftrightarrow> lo \<le> i \<and> i < hi \<and> xs ! i = x"
  using assms
proof (induction xs x lo hi rule: bsearch.induct)
  case (1 xs x lo hi)
  define mid where "mid = lo + (hi - lo) div 2"
  have mono: "xs ! i < xs ! j" if "i < j" "j < hi" for i j
    using "1.prems" that by (auto intro: sorted_wrt_nth_less)
  show ?case
  proof (cases "lo < hi")
    case True
    then have mid: "lo \<le> mid" "mid < hi" by (auto simp: mid_def)
    have unfold: "bsearch xs x lo hi = (if xs ! mid = x then Some mid
        else if xs ! mid < x then bsearch xs x (mid + 1) hi else bsearch xs x lo mid)"
      using True by (subst bsearch.simps) (simp add: mid_def)
    consider "xs ! mid = x" | "xs ! mid < x" | "x < xs ! mid" by force
    then show ?thesis
    proof cases
      case 1
      have "i = mid" if "lo \<le> i" "i < hi" "xs ! i = x"
        using mono [of i mid] mono [of mid i] that mid 1 by (metis less_irrefl linorder_neqE_nat)
      with mid 1 show ?thesis by (auto simp: unfold)
    next
      case 2
      have "mid < i" if "i < hi" "xs ! i = x"
        using mono [of i mid] that mid 2 by (metis less_asym linorder_neqE_nat)
      with 2 mid "1.IH"(1) [OF _ mid_def] True "1.prems" show ?thesis by (auto simp: unfold Suc_le_eq)
    next
      case 3
      have "i < mid" if "i < hi" "xs ! i = x"
        using mono [of mid i] that mid 3 by (metis less_asym linorder_neqE_nat)
      with 3 mid "1.IH"(2) [OF _ mid_def] True "1.prems" show ?thesis by (auto simp: unfold)
    qed
  qed (simp add: bsearch.simps)
qed

lemma binary_search_Some:
  "sorted_wrt (<) xs \<Longrightarrow> binary_search xs x = Some i \<longleftrightarrow> i < length xs \<and> xs ! i = x"
  by (simp add: binary_search_def bsearch_iff)

lemma binary_search_None: "sorted_wrt (<) xs \<Longrightarrow> binary_search xs x = None \<longleftrightarrow> x \<notin> set xs"
proof -
  assume s: "sorted_wrt (<) xs"
  have "binary_search xs x = None \<longleftrightarrow> (\<forall>i. binary_search xs x \<noteq> Some i)" by auto
  then show ?thesis using binary_search_Some [OF s] by (auto simp: in_set_conv_nth)
qed

section \<open>Lemmas on little-endian integers\<close>

lemma length_le_bytes [simp]: "length (le_bytes k n) = k"
  by (induction k arbitrary: n) auto

lemma le_nat_le_bytes: "le_nat (le_bytes k n) = n mod 256 ^ k"
proof (induction k arbitrary: n)
  case (Suc k)
  have "unat (word_of_nat n :: u8) = n mod 256" by (simp add: unat_of_nat)
  with Suc show ?case by (simp add: mod_mult2_eq mult.commute)
qed simp

lemma le_bytes_le_nat: "le_bytes (length bs) (le_nat bs) = bs"
proof (induction bs)
  case (Cons b bs)
  have "unat b < 256" using unsigned_less [of b] by simp
  then have "(unat b + 256 * le_nat bs) div 256 = le_nat bs" by simp
  moreover have "(word_of_nat (unat b + 256 * le_nat bs) :: u8) = b"
    unfolding of_nat_eq by (rule exI [of _ "le_nat bs"]) simp
  ultimately show ?case using Cons by simp
qed simp

lemma le_nat_less: "le_nat bs < 256 ^ length bs"
proof (induction bs)
  case (Cons b bs)
  have "unat b < 256" using unsigned_less [of b] by simp
  with Cons show ?case by simp
qed simp

lemma length_to_le [simp]:
  "length (to_le16 v) = 2" "length (to_le32 w) = 4" "length (to_le64 x) = 8"
  by (simp_all add: to_le16_def to_le32_def to_le64_def)

lemma to_le_not_Nil [simp]: "to_le16 v \<noteq> []" "to_le32 w \<noteq> []" "to_le64 x \<noteq> []"
  by (simp_all flip: length_0_conv)

lemma from_to_le [simp]:
  "from_le16 (to_le16 v) = v" "from_le32 (to_le32 w) = w" "from_le64 (to_le64 x) = x"
  using unsigned_less [of v, where 'a = nat] unsigned_less [of w, where 'a = nat]
    unsigned_less [of x, where 'a = nat]
  by (simp_all add: from_le16_def to_le16_def from_le32_def to_le32_def from_le64_def to_le64_def
      le_nat_le_bytes)

lemma unat_from_le16: "length bs = 2 \<Longrightarrow> unat (from_le16 bs) = le_nat bs"
  using le_nat_less [of bs] by (simp add: from_le16_def unat_of_nat)

lemma unat_from_le32: "length bs = 4 \<Longrightarrow> unat (from_le32 bs) = le_nat bs"
  using le_nat_less [of bs] by (simp add: from_le32_def unat_of_nat)

lemma unat_from_le64: "length bs = 8 \<Longrightarrow> unat (from_le64 bs) = le_nat bs"
  using le_nat_less [of bs] by (simp add: from_le64_def unat_of_nat)

lemma to_from_le16 [simp]: "length bs = 2 \<Longrightarrow> to_le16 (from_le16 bs) = bs"
  using le_bytes_le_nat [of bs] by (simp add: to_le16_def unat_from_le16)

lemma to_from_le32 [simp]: "length bs = 4 \<Longrightarrow> to_le32 (from_le32 bs) = bs"
  using le_bytes_le_nat [of bs] by (simp add: to_le32_def unat_from_le32)

lemma to_from_le64 [simp]: "length bs = 8 \<Longrightarrow> to_le64 (from_le64 bs) = bs"
  using le_bytes_le_nat [of bs] by (simp add: to_le64_def unat_from_le64)

lemma unat_word_of_nat_small [simp]:
  "n < 2 ^ LENGTH('a::len) \<Longrightarrow> unat (word_of_nat n :: 'a word) = n"
  by (simp add: unat_of_nat)

lemma checked_add_Some: "checked_add a b = Some c \<Longrightarrow> unat c = unat a + unat b"
  by (auto simp: checked_add_def unat_word_ariths split: if_splits)

lemma saturating_sub_unat: "unat (saturating_sub a b) = unat a - unat b"
  by (auto simp: saturating_sub_def unat_sub word_less_nat_alt word_le_nat_alt not_less)

section \<open>The contract of a strict codec\<close>

text \<open>
  \<open>wf\<close> is what the Rust type of the value guarantees (array lengths, valid UTF-8), \<open>encode\<close> may
  refuse a value, \<open>decode\<close> is \<open>None\<close> for every outcome but the accepted one.
\<close>

locale strict_codec =
  fixes wf :: "'a \<Rightarrow> bool"
    and encode :: "'a \<Rightarrow> 'e + bytes"
    and decode :: "bytes \<Rightarrow> 'a option"
  assumes decode_encode: "wf x \<Longrightarrow> encode x = Inr b \<Longrightarrow> decode b = Some x"
    and encode_decode: "decode b = Some x \<Longrightarrow> encode x = Inr b"
    and decode_wf: "decode b = Some x \<Longrightarrow> wf x"
begin

lemma encode_injective: "wf x \<Longrightarrow> wf y \<Longrightarrow> encode x = Inr b \<Longrightarrow> encode y = Inr b \<Longrightarrow> x = y"
  by (drule (1) decode_encode)+ simp

lemma decode_injective: "decode b = Some x \<Longrightarrow> decode b' = Some x \<Longrightarrow> b = b'"
  by (drule encode_decode)+ simp

lemma accepts_iff: "decode b = Some x \<longleftrightarrow> wf x \<and> encode x = Inr b"
  using decode_encode encode_decode decode_wf by blast

lemma refuses_iff: "decode b = None \<longleftrightarrow> (\<forall>x. wf x \<longrightarrow> encode x \<noteq> Inr b)"
  using accepts_iff by (metis not_None_eq)

end

section \<open>Positions and counters\<close>

lemma find_index_Some: "find_index P xs = Some i \<Longrightarrow> i < length xs \<and> P (xs ! i)"
  by (induction xs arbitrary: i) (auto split: if_splits)

lemma find_index_None: "find_index P xs = None \<longleftrightarrow> (\<forall>x\<in>set xs. \<not> P x)"
  by (induction xs) auto

lemma distinct_remove_nth:
  assumes "distinct (map f xs)" "i < length xs"
  shows "distinct (map f (take i xs @ drop (Suc i) xs))" "f (xs ! i) \<notin> f ` set (take i xs @ drop (Suc i) xs)"
    "set (take i xs @ drop (Suc i) xs) \<subseteq> set xs"
proof -
  have "xs = take i xs @ xs ! i # drop (Suc i) xs" using assms(2) by (simp add: id_take_nth_drop)
  then have "distinct (map f (take i xs @ xs ! i # drop (Suc i) xs))"
    "set xs = set (take i xs @ xs ! i # drop (Suc i) xs)" using assms(1) by metis+
  then show "distinct (map f (take i xs @ drop (Suc i) xs))" "f (xs ! i) \<notin> f ` set (take i xs @ drop (Suc i) xs)"
    "set (take i xs @ drop (Suc i) xs) \<subseteq> set xs" by auto
qed

lemma unat_u32: "unat (m :: u32) < 4294967296"
  using unsigned_less [of m, where ?'a = nat] by simp

lemma unat_next: "unat n < unat m \<Longrightarrow> unat (n + 1 :: u32) = Suc (unat n)" for m :: u32
  using unat_u32 [of m] by (simp add: unat_word_ariths)

lemma unat_of_nat_u32: "i < unat (b :: u32) \<Longrightarrow> unat (word_of_nat i :: u32) = i"
  using unat_u32 [of b] by (simp add: unsigned_of_nat take_bit_nat_eq_self)

end
