(* ===== verification/Padding.thy ===== *)
theory Padding
  imports Komms_Prelude
begin

text \<open>
  \<^verbatim>\<open>kult-protocol/src/padding.rs\<close>: ISO/IEC 7816-4 padding to the normative size buckets.

  \<open>pad\<close>, \<open>pad_to_minimum\<close> and \<open>unpad\<close> are the source's functions; the backward scan of \<open>unpad\<close> is
  \<open>unpad_scan\<close>. The lemmas show that \<open>unpad\<close> accepts exactly the outputs of \<open>pad_to_minimum\<close>, and that
  the length an observer sees is the least bucket that fits.
\<close>

definition PAD_BUCKETS :: "nat list" where
  "PAD_BUCKETS = [192, 512, 1024, 4096, 16384, 65536]"

definition pad_to_minimum :: "bytes \<Rightarrow> nat \<Rightarrow> bytes result" where
  "pad_to_minimum plaintext minimum =
     (let needed = length plaintext + 1 in
      try_then (ok_or (List.find (\<lambda>b. b \<ge> needed \<and> b \<ge> minimum) PAD_BUCKETS) TooLarge)
        (\<lambda>bucket. Inr (vec_resize bucket 0 (plaintext @ [0x80]))))"

definition pad :: "bytes \<Rightarrow> bytes result" where
  "pad plaintext = pad_to_minimum plaintext 0"

text \<open>The loop \<^verbatim>\<open>while i > 0 && padded[i - 1] == 0x00 { i -= 1; }\<close>, from the given \<open>i\<close>.\<close>

fun unpad_scan :: "bytes \<Rightarrow> nat \<Rightarrow> nat" where
  "unpad_scan padded 0 = 0"
| "unpad_scan padded (Suc i) = (if padded ! i = 0 then unpad_scan padded i else Suc i)"

definition unpad :: "bytes \<Rightarrow> bytes result" where
  "unpad padded =
     (if length padded \<notin> set PAD_BUCKETS then Inl BadPadding
      else let i = unpad_scan padded (length padded) in
        if i = 0 \<or> padded ! (i - 1) \<noteq> 0x80 then Inl BadPadding
        else Inr (take (i - 1) padded))"

section \<open>The scan stops at the marker\<close>

lemma unpad_scan_skip:
  "(\<And>j. i \<le> j \<Longrightarrow> j < i + n \<Longrightarrow> bs ! j = 0) \<Longrightarrow> unpad_scan bs (i + n) = unpad_scan bs i"
  by (induction n) auto

lemma unpad_scan_marker:
  assumes "m \<noteq> 0"
  shows "unpad_scan (p @ [m] @ replicate n 0) (length p + 1 + n) = length p + 1"
proof -
  have "unpad_scan (p @ [m] @ replicate n 0) (length p + 1 + n)
      = unpad_scan (p @ [m] @ replicate n 0) (length p + 1)"
    by (rule unpad_scan_skip) (auto simp: nth_append nth_Cons')
  then show ?thesis using assms by simp
qed

lemma unpad_scan_le: "unpad_scan bs k \<le> k"
  by (induction k) auto

lemma unpad_scan_tail: "unpad_scan bs k \<le> i \<Longrightarrow> i < k \<Longrightarrow> bs ! i = 0"
  by (induction k) (auto simp: less_Suc_eq split: if_splits)

lemma unpad_scan_split:
  assumes "unpad_scan bs (length bs) = Suc i"
  shows "bs = take i bs @ [bs ! i] @ replicate (length bs - Suc i) 0"
proof -
  have i: "i < length bs" using unpad_scan_le [of bs "length bs"] assms by simp
  have "drop (Suc i) bs = replicate (length bs - Suc i) 0"
    by (rule nth_equalityI) (use assms unpad_scan_tail [of bs "length bs"] in auto)
  then show ?thesis using i by (metis append.assoc append_Cons append_Nil id_take_nth_drop)
qed

section \<open>Padding and unpadding\<close>

lemma pad_to_minimum_eq:
  "pad_to_minimum p m = Inr b \<longleftrightarrow>
     (\<exists>k. List.find (\<lambda>k. k \<ge> length p + 1 \<and> k \<ge> m) PAD_BUCKETS = Some k
        \<and> b = p @ [0x80] @ replicate (k - (length p + 1)) 0)"
  by (auto simp: pad_to_minimum_def Let_def result_simps vec_resize_def find_Some_iff)

lemma unpad_eq:
  "unpad b = Inr p \<longleftrightarrow>
     length b \<in> set PAD_BUCKETS \<and> (\<exists>n. b = p @ [0x80] @ replicate n 0)"
proof
  assume u: "unpad b = Inr p"
  then obtain i where i: "unpad_scan b (length b) = Suc i" "b ! i = 0x80" "p = take i b"
    and l: "length b \<in> set PAD_BUCKETS"
    by (cases "unpad_scan b (length b)") (auto simp: unpad_def Let_def split: if_splits)
  then show "length b \<in> set PAD_BUCKETS \<and> (\<exists>n. b = p @ [0x80] @ replicate n 0)"
    using unpad_scan_split [OF i(1)] by metis
next
  assume r: "length b \<in> set PAD_BUCKETS \<and> (\<exists>n. b = p @ [0x80] @ replicate n 0)"
  then obtain n where b: "b = p @ [0x80] @ replicate n 0" by blast
  have "unpad_scan b (length b) = length p + 1"
    using unpad_scan_marker [of "0x80" p n] by (simp add: b)
  then show "unpad b = Inr p" using r by (simp add: unpad_def b nth_append)
qed

lemma find_own_bucket:
  assumes "n \<in> set PAD_BUCKETS" and "k \<le> n"
  shows "List.find (\<lambda>b. b \<ge> k \<and> b \<ge> n) PAD_BUCKETS = Some n"
proof -
  have "n = 192 \<or> n = 512 \<or> n = 1024 \<or> n = 4096 \<or> n = 16384 \<or> n = 65536"
    using assms(1) by (simp add: PAD_BUCKETS_def)
  then show ?thesis using assms(2) by (elim disjE) (simp_all add: PAD_BUCKETS_def)
qed

text \<open>
  Unpadding and padding agree exactly: a byte string unpads to a payload if and only if padding
  that payload to at least the string's own length produces the string. So every padded message is
  recovered, and nothing else is accepted.
\<close>

theorem unpad_iff_pad: "unpad b = Inr p \<longleftrightarrow> pad_to_minimum p (length b) = Inr b"
proof
  assume "unpad b = Inr p"
  then obtain n where b: "b = p @ [0x80] @ replicate n 0" and l: "length b \<in> set PAD_BUCKETS"
    by (auto simp: unpad_eq)
  from l have "List.find (\<lambda>k. k \<ge> length p + 1 \<and> k \<ge> length b) PAD_BUCKETS = Some (length b)"
    by (rule find_own_bucket) (simp add: b)
  then show "pad_to_minimum p (length b) = Inr b"
    unfolding pad_to_minimum_eq using b by auto
next
  assume "pad_to_minimum p (length b) = Inr b"
  then obtain k where k: "List.find (\<lambda>k. k \<ge> length p + 1 \<and> k \<ge> length b) PAD_BUCKETS = Some k"
    and b: "b = p @ [0x80] @ replicate (k - (length p + 1)) 0"
    unfolding pad_to_minimum_eq by blast
  from k have "k \<in> set PAD_BUCKETS" "length p + 1 \<le> k" by (auto simp: find_Some_iff)
  then show "unpad b = Inr p" unfolding unpad_eq using b by auto
qed

lemma find_least_bucket:
  "List.find (\<lambda>k. k \<ge> n \<and> k \<ge> m) PAD_BUCKETS = Some k \<Longrightarrow>
     k = Min {k \<in> set PAD_BUCKETS. max n m \<le> k}"
proof -
  assume f: "List.find (\<lambda>k. k \<ge> n \<and> k \<ge> m) PAD_BUCKETS = Some k"
  then have "k \<in> set PAD_BUCKETS" "max n m \<le> k" by (auto simp: find_Some_iff)
  moreover have "k \<le> k'" if "k' \<in> set PAD_BUCKETS" "max n m \<le> k'" for k'
    using f that by (auto simp: PAD_BUCKETS_def split: if_splits)
  ultimately show ?thesis by (intro Min_eqI [symmetric]) auto
qed

text \<open>
  Padding hides the payload length inside a bucket: it is refused (as too large) only when the
  payload with its marker byte, or the requested minimum, exceeds the largest bucket of 65,536
  bytes; otherwise the output has the length of the least bucket that fits both, whatever the
  payload, and unpads to it.
\<close>

theorem pad_to_least_bucket:
  "case pad_to_minimum p m of
     Inl e \<Rightarrow> e = TooLarge \<and> 65536 < max (length p + 1) m
   | Inr b \<Rightarrow> length b = Min {k \<in> set PAD_BUCKETS. max (length p + 1) m \<le> k} \<and> unpad b = Inr p"
proof (cases "List.find (\<lambda>k. k \<ge> length p + 1 \<and> k \<ge> m) PAD_BUCKETS")
  case None
  then have "65536 < max (length p + 1) m" by (auto simp: PAD_BUCKETS_def split: if_splits)
  with None show ?thesis by (simp add: pad_to_minimum_def Let_def)
next
  case (Some k)
  define b where "b = p @ [0x80] @ replicate (k - (length p + 1)) 0"
  have p: "pad_to_minimum p m = Inr b" unfolding pad_to_minimum_eq b_def using Some by blast
  from Some have k: "k \<in> set PAD_BUCKETS" "length p + 1 \<le> k" by (auto simp: find_Some_iff)
  have l: "length b = k" using k by (simp add: b_def)
  have "unpad b = Inr p" unfolding unpad_eq using k l by (auto simp: b_def)
  then show ?thesis using p l find_least_bucket [OF Some] by simp
qed

end
