(* ===== verification/Admission.thy ===== *)
theory Admission
  imports Komms_Prelude
begin

text \<open>
  \<^verbatim>\<open>kult-protocol/src/admission.rs\<close>: the fixed-header wrapper around a first-contact handshake and the
  bounded proof of work it carries.

  SHA-256 and HMAC-SHA-256 come from the \<^verbatim>\<open>sha2\<close> and \<^verbatim>\<open>hmac\<close> crates and are parameters (\<open>sha\<close>,
  \<open>hmac\<close>). The lemmas show that the wrapper is a strict codec, that the leading-zero test is the
  numeric bound on the digest it stands for, and that the bounded solver is sound and examines every
  nonce it claims to.
\<close>

section \<open>Constants\<close>

definition ADMISSION_MAGIC :: bytes where "ADMISSION_MAGIC = ascii ''KFA1''"
definition CONTENT_ID_DOMAIN :: bytes where "CONTENT_ID_DOMAIN = ascii ''Komms-admission-content-v1''"
definition PUZZLE_DOMAIN :: bytes where "PUZZLE_DOMAIN = ascii ''Komms-admission-puzzle-v1''"
definition INVITATION_PROOF_DOMAIN :: bytes where
  "INVITATION_PROOF_DOMAIN = ascii ''Komms-admission-invitation-proof-v1''"
definition ADMISSION_ENVELOPE_VERSION :: u8 where [simp]: "ADMISSION_ENVELOPE_VERSION = 1"
definition ADMISSION_ENVELOPE_HEADER_LEN :: nat where [simp]: "ADMISSION_ENVELOPE_HEADER_LEN = 168"
definition MAX_ADMISSION_TARGET_BUNDLE_BYTES :: nat where
  [simp]: "MAX_ADMISSION_TARGET_BUNDLE_BYTES = 32768"
definition MAX_ADMISSION_SEALED_FLIGHT_BYTES :: nat where
  [simp]: "MAX_ADMISSION_SEALED_FLIGHT_BYTES = 16384"
definition MAX_ADMISSION_ENVELOPE_BYTES :: nat where
  [simp]: "MAX_ADMISSION_ENVELOPE_BYTES = ADMISSION_ENVELOPE_HEADER_LEN
     + MAX_ADMISSION_TARGET_BUNDLE_BYTES + MAX_ADMISSION_SEALED_FLIGHT_BYTES"
definition MAX_ADMISSION_PUZZLE_ATTEMPTS :: u32 where
  [simp]: "MAX_ADMISSION_PUZZLE_ATTEMPTS = push_bit 22 1"
definition MIN_ADMISSION_DIFFICULTY :: u8 where [simp]: "MIN_ADMISSION_DIFFICULTY = 8"
definition MAX_ADMISSION_DIFFICULTY :: u8 where [simp]: "MAX_ADMISSION_DIFFICULTY = 20"

section \<open>Data\<close>

datatype AdmissionProofKind = Puzzle | Invitation

fun proof_kind_code :: "AdmissionProofKind \<Rightarrow> u8" where
  "proof_kind_code Puzzle = 1"
| "proof_kind_code Invitation = 2"

definition proof_kind_try_from :: "u8 \<Rightarrow> AdmissionProofKind result" where
  "proof_kind_try_from v = (if v = 1 then Inr Puzzle else if v = 2 then Inr Invitation else Inl Malformed)"

record AdmissionContext =
  target_account :: bytes
  target_device :: bytes
  bundle_digest :: bytes
  validity_epoch :: u64

record AdmissionEnvelope =
  adm_context :: AdmissionContext
  adm_content_id :: bytes
  adm_proof_kind :: AdmissionProofKind
  adm_proof :: bytes
  adm_target_bundle :: bytes
  adm_sealed_flight :: bytes

record ParsedAdmission =
  pa_proof_kind :: AdmissionProofKind
  pa_target_account :: bytes
  pa_target_device :: bytes
  pa_bundle_digest :: bytes
  pa_validity_epoch :: u64
  pa_content_id :: bytes
  pa_proof :: bytes
  pa_target_bundle :: bytes
  pa_sealed_flight :: bytes

section \<open>The wrapper\<close>

definition validate_lengths :: "AdmissionContext \<Rightarrow> bytes \<Rightarrow> bytes \<Rightarrow> unit result" where
  "validate_lengths ctx tb flight =
     (if target_account ctx = zeros 32 \<or> target_device ctx = zeros 32 \<or> bundle_digest ctx = zeros 32
        \<or> tb = [] \<or> length tb > MAX_ADMISSION_TARGET_BUNDLE_BYTES
        \<or> flight = [] \<or> length flight > MAX_ADMISSION_SEALED_FLIGHT_BYTES
      then Inl Malformed else Inr ())"

definition introduction_content_id :: "(bytes \<Rightarrow> bytes) \<Rightarrow> AdmissionContext \<Rightarrow> bytes \<Rightarrow> bytes" where
  "introduction_content_id sha ctx flight =
     take 16 (sha (CONTENT_ID_DOMAIN @ [ADMISSION_ENVELOPE_VERSION] @ target_account ctx
       @ target_device ctx @ bundle_digest ctx @ to_le64 (validity_epoch ctx) @ sha flight))"

definition admission_new ::
  "(bytes \<Rightarrow> bytes) \<Rightarrow> AdmissionContext \<Rightarrow> AdmissionProofKind \<Rightarrow> bytes \<Rightarrow> bytes \<Rightarrow> bytes
     \<Rightarrow> AdmissionEnvelope result" where
  "admission_new sha ctx kind pf tb flight =
     try_then (validate_lengths ctx tb flight) (\<lambda>_.
       Inr \<lparr>adm_context = ctx, adm_content_id = introduction_content_id sha ctx flight,
            adm_proof_kind = kind, adm_proof = pf, adm_target_bundle = tb,
            adm_sealed_flight = flight\<rparr>)"

definition admission_encode :: "(bytes \<Rightarrow> bytes) \<Rightarrow> AdmissionEnvelope \<Rightarrow> bytes result" where
  "admission_encode sha e =
     try_then (validate_lengths (adm_context e) (adm_target_bundle e) (adm_sealed_flight e)) (\<lambda>_.
       if adm_content_id e \<noteq> introduction_content_id sha (adm_context e) (adm_sealed_flight e)
       then Inl Malformed
       else if length (adm_target_bundle e) \<ge> 2 ^ 32 \<or> length (adm_sealed_flight e) \<ge> 2 ^ 32
       then Inl Malformed
       else Inr (ADMISSION_MAGIC @ ADMISSION_ENVELOPE_VERSION # proof_kind_code (adm_proof_kind e)
         # zeros 2
         @ target_account (adm_context e) @ target_device (adm_context e)
         @ bundle_digest (adm_context e) @ to_le64 (validity_epoch (adm_context e))
         @ adm_content_id e @ adm_proof e
         @ to_le32 (word_of_nat (length (adm_target_bundle e)))
         @ to_le32 (word_of_nat (length (adm_sealed_flight e)))
         @ adm_target_bundle e @ adm_sealed_flight e))"

definition admission_parse :: "bytes \<Rightarrow> ParsedAdmission result" where
  "admission_parse b =
     (if length b < ADMISSION_ENVELOPE_HEADER_LEN \<or> length b > MAX_ADMISSION_ENVELOPE_BYTES
        \<or> take 4 b \<noteq> ADMISSION_MAGIC \<or> b ! 4 \<noteq> ADMISSION_ENVELOPE_VERSION
        \<or> subslice 6 8 b \<noteq> zeros 2
      then Inl Malformed
      else try_then (proof_kind_try_from (b ! 5)) (\<lambda>kind.
        let bundle_len = unat (from_le32 (subslice 160 164 b));
            sealed_len = unat (from_le32 (subslice 164 168 b)) in
        if bundle_len = 0 \<or> bundle_len > MAX_ADMISSION_TARGET_BUNDLE_BYTES
          \<or> sealed_len = 0 \<or> sealed_len > MAX_ADMISSION_SEALED_FLIGHT_BYTES
          \<or> ADMISSION_ENVELOPE_HEADER_LEN + bundle_len + sealed_len \<noteq> length b
        then Inl Malformed
        else
          let split = ADMISSION_ENVELOPE_HEADER_LEN + bundle_len;
              p = \<lparr>pa_proof_kind = kind, pa_target_account = subslice 8 40 b,
                   pa_target_device = subslice 40 72 b, pa_bundle_digest = subslice 72 104 b,
                   pa_validity_epoch = from_le64 (subslice 104 112 b),
                   pa_content_id = subslice 112 128 b, pa_proof = subslice 128 160 b,
                   pa_target_bundle = subslice ADMISSION_ENVELOPE_HEADER_LEN split b,
                   pa_sealed_flight = drop split b\<rparr> in
          try_then (validate_lengths
              \<lparr>target_account = pa_target_account p, target_device = pa_target_device p,
               bundle_digest = pa_bundle_digest p, validity_epoch = pa_validity_epoch p\<rparr>
              (pa_target_bundle p) (pa_sealed_flight p)) (\<lambda>_. Inr p)))"

definition parsed_context :: "ParsedAdmission \<Rightarrow> AdmissionContext" where
  "parsed_context p = \<lparr>target_account = pa_target_account p, target_device = pa_target_device p,
     bundle_digest = pa_bundle_digest p, validity_epoch = pa_validity_epoch p\<rparr>"

definition admission_decode :: "(bytes \<Rightarrow> bytes) \<Rightarrow> bytes \<Rightarrow> AdmissionEnvelope result" where
  "admission_decode sha b =
     try_then (admission_parse b) (\<lambda>p.
       let ctx = parsed_context p in
       if introduction_content_id sha ctx (pa_sealed_flight p) \<noteq> pa_content_id p
       then Inl IntegrityMismatch
       else Inr \<lparr>adm_context = ctx, adm_content_id = pa_content_id p,
              adm_proof_kind = pa_proof_kind p, adm_proof = pa_proof p,
              adm_target_bundle = pa_target_bundle p, adm_sealed_flight = pa_sealed_flight p\<rparr>)"

definition is_encoded :: "bytes \<Rightarrow> bool" where
  "is_encoded b = starts_with b ADMISSION_MAGIC"

definition verified_content_id :: "(bytes \<Rightarrow> bytes) \<Rightarrow> bytes \<Rightarrow> bytes option" where
  "verified_content_id sha b =
     (case admission_parse b of
        Inl _ \<Rightarrow> None
      | Inr p \<Rightarrow>
          (if pa_content_id p = introduction_content_id sha (parsed_context p) (pa_sealed_flight p)
           then Some (pa_content_id p) else None))"

section \<open>The puzzle\<close>

definition puzzle_digest :: "(bytes \<Rightarrow> bytes) \<Rightarrow> AdmissionContext \<Rightarrow> bytes \<Rightarrow> bytes \<Rightarrow> bytes" where
  "puzzle_digest sha ctx cid nonce =
     sha (PUZZLE_DOMAIN @ target_account ctx @ target_device ctx @ bundle_digest ctx
       @ to_le64 (validity_epoch ctx) @ cid @ nonce)"

definition has_leading_zero_bits :: "bytes \<Rightarrow> u8 \<Rightarrow> bool" where
  "has_leading_zero_bits digest difficulty =
     (let full = unat (difficulty div 8); remainder = unat (difficulty mod 8) in
      list_all (\<lambda>b. b = 0) (take full digest)
      \<and> (remainder = 0 \<or> drop_bit (8 - remainder) (digest ! full) = 0))"

definition verify_admission_puzzle ::
  "(bytes \<Rightarrow> bytes) \<Rightarrow> AdmissionContext \<Rightarrow> bytes \<Rightarrow> bytes \<Rightarrow> u8 \<Rightarrow> bool" where
  "verify_admission_puzzle sha ctx cid nonce difficulty =
     (if \<not> (MIN_ADMISSION_DIFFICULTY \<le> difficulty \<and> difficulty \<le> MAX_ADMISSION_DIFFICULTY)
      then False
      else has_leading_zero_bits (puzzle_digest sha ctx cid nonce) difficulty)"

definition admission_invitation_proof ::
  "(bytes \<Rightarrow> bytes \<Rightarrow> bytes) \<Rightarrow> bytes \<Rightarrow> AdmissionContext \<Rightarrow> bytes \<Rightarrow> bytes" where
  "admission_invitation_proof hmac invitation ctx cid =
     hmac invitation (INVITATION_PROOF_DOMAIN @ target_account ctx @ target_device ctx
       @ bundle_digest ctx @ to_le64 (validity_epoch ctx) @ cid)"

text \<open>The carry loop over the nonce bytes, and the attempt loop over \<open>0..max_attempts\<close>.\<close>

fun increment_nonce :: "bytes \<Rightarrow> bytes" where
  "increment_nonce [] = []"
| "increment_nonce (b # bs) = (if b + 1 = 0 then 0 # increment_nonce bs else (b + 1) # bs)"

fun solve_attempts :: "(bytes \<Rightarrow> bool) \<Rightarrow> nat \<Rightarrow> bytes \<Rightarrow> bytes result" where
  "solve_attempts ok_nonce 0 nonce = Inl AdmissionWorkExhausted"
| "solve_attempts ok_nonce (Suc n) nonce =
     (if ok_nonce nonce then Inr nonce else solve_attempts ok_nonce n (increment_nonce nonce))"

text \<open>\<open>seed\<close> is the 32 random bytes the generator fills the nonce with.\<close>

definition solve_admission_puzzle ::
  "(bytes \<Rightarrow> bytes) \<Rightarrow> AdmissionContext \<Rightarrow> bytes \<Rightarrow> u8 \<Rightarrow> u32 \<Rightarrow> bytes \<Rightarrow> bytes result" where
  "solve_admission_puzzle sha ctx cid difficulty max_attempts seed =
     (if \<not> (MIN_ADMISSION_DIFFICULTY \<le> difficulty \<and> difficulty \<le> MAX_ADMISSION_DIFFICULTY)
        \<or> max_attempts = 0 \<or> max_attempts > MAX_ADMISSION_PUZZLE_ATTEMPTS
      then Inl Malformed
      else solve_attempts (\<lambda>nonce. verify_admission_puzzle sha ctx cid nonce difficulty)
             (unat max_attempts) seed)"

section \<open>The wrapper is a strict codec\<close>

definition wf_admission :: "AdmissionEnvelope \<Rightarrow> bool" where
  "wf_admission e \<longleftrightarrow>
     length (target_account (adm_context e)) = 32 \<and> length (target_device (adm_context e)) = 32
     \<and> length (bundle_digest (adm_context e)) = 32 \<and> length (adm_content_id e) = 16
     \<and> length (adm_proof e) = 32"

lemma length_ADMISSION_MAGIC [simp]: "length ADMISSION_MAGIC = 4"
  by (simp add: ADMISSION_MAGIC_def)

lemma proof_kind_code_inverse [simp]: "proof_kind_try_from (proof_kind_code k) = Inr k"
  by (cases k) (simp_all add: proof_kind_try_from_def)

lemma proof_kind_try_from_code: "proof_kind_try_from v = Inr k \<Longrightarrow> proof_kind_code k = v"
  by (auto simp: proof_kind_try_from_def split: if_splits)

lemma validate_lengths_ok:
  "validate_lengths ctx tb flight = Inr u \<longleftrightarrow>
     target_account ctx \<noteq> zeros 32 \<and> target_device ctx \<noteq> zeros 32 \<and> bundle_digest ctx \<noteq> zeros 32
     \<and> tb \<noteq> [] \<and> length tb \<le> 32768 \<and> flight \<noteq> [] \<and> length flight \<le> 16384"
  by (auto simp: validate_lengths_def)

lemma admission_decode_encode:
  assumes "wf_admission e" and "admission_encode sha e = Inr b"
  shows "admission_decode sha b = Inr e"
proof -
  obtain ctx cid k pf tb flight where e: "e = \<lparr>adm_context = ctx, adm_content_id = cid,
      adm_proof_kind = k, adm_proof = pf, adm_target_bundle = tb, adm_sealed_flight = flight\<rparr>"
    by (cases e)
  obtain acct dev dig ep where ctx: "ctx = \<lparr>target_account = acct, target_device = dev,
      bundle_digest = dig, validity_epoch = ep\<rparr>"
    by (cases ctx)
  from assms(1) have l [simp]: "length acct = 32" "length dev = 32" "length dig = 32"
      "length cid = 16" "length pf = 32"
    by (simp_all add: wf_admission_def e ctx)
  from assms(2) have v: "validate_lengths ctx tb flight = Inr ()"
    and cid: "cid = introduction_content_id sha ctx flight"
    and b: "b = ADMISSION_MAGIC @ 1 # proof_kind_code k # zeros 2 @ acct @ dev @ dig @ to_le64 ep
      @ cid @ pf @ to_le32 (word_of_nat (length tb)) @ to_le32 (word_of_nat (length flight))
      @ tb @ flight"
    by (auto simp: admission_encode_def result_simps e ctx split: if_splits)
  from v have len: "length tb \<le> 32768" "length flight \<le> 16384" "tb \<noteq> []" "flight \<noteq> []"
    by (simp_all add: validate_lengths_ok)
  have "admission_parse b = Inr \<lparr>pa_proof_kind = k, pa_target_account = acct, pa_target_device = dev,
      pa_bundle_digest = dig, pa_validity_epoch = ep, pa_content_id = cid, pa_proof = pf,
      pa_target_bundle = tb, pa_sealed_flight = flight\<rparr>"
    using v len by (simp add: admission_parse_def b wire_simps nth_append ctx)
  then show ?thesis
    by (simp add: admission_decode_def parsed_context_def e cid ctx)
qed

lemma admission_encode_decode:
  assumes "admission_decode sha b = Inr e"
  shows "admission_encode sha e = Inr b \<and> wf_admission e"
proof -
  from assms obtain p where p: "admission_parse b = Inr p"
    and cid: "introduction_content_id sha (parsed_context p) (pa_sealed_flight p) = pa_content_id p"
    and e: "e = \<lparr>adm_context = parsed_context p, adm_content_id = pa_content_id p,
      adm_proof_kind = pa_proof_kind p, adm_proof = pa_proof p,
      adm_target_bundle = pa_target_bundle p, adm_sealed_flight = pa_sealed_flight p\<rparr>"
    by (auto simp: admission_decode_def result_simps Let_def split: if_splits)
  define n where "n = 168 + unat (from_le32 (subslice 160 164 b))"
  from p obtain k where k: "proof_kind_code k = b ! 5" and magic: "take 4 b = ADMISSION_MAGIC"
    and ver: "b ! 4 = 1" and pad: "subslice 6 8 b = zeros 2" and len: "168 \<le> length b"
    and n: "n + unat (from_le32 (subslice 164 168 b)) = length b"
    and v: "validate_lengths (parsed_context p) (pa_target_bundle p) (pa_sealed_flight p) = Inr ()"
    and pv: "p = \<lparr>pa_proof_kind = k, pa_target_account = subslice 8 40 b,
       pa_target_device = subslice 40 72 b, pa_bundle_digest = subslice 72 104 b,
       pa_validity_epoch = from_le64 (subslice 104 112 b),
       pa_content_id = subslice 112 128 b, pa_proof = subslice 128 160 b,
       pa_target_bundle = subslice 168 n b, pa_sealed_flight = drop n b\<rparr>"
    by (auto simp: admission_parse_def result_simps Let_def parsed_context_def n_def
        dest: proof_kind_try_from_code split: if_splits)
  from n have nb: "n \<le> length b" "168 \<le> n" by (auto simp: n_def)
  have lens: "word_of_nat (n - 168) = from_le32 (subslice 160 164 b)"
    "word_of_nat (length b - n) = from_le32 (subslice 164 168 b)"
  proof -
    show "word_of_nat (n - 168) = from_le32 (subslice 160 164 b)" by (simp add: n_def)
    have "length b - n = unat (from_le32 (subslice 164 168 b))" using n by simp
    then show "word_of_nat (length b - n) = from_le32 (subslice 164 168 b)" by simp
  qed
  have "admission_encode sha e = Inr (take 4 b @ b ! 4 # b ! 5 # subslice 6 8 b @ subslice 8 40 b
      @ subslice 40 72 b @ subslice 72 104 b @ subslice 104 112 b @ subslice 112 128 b
      @ subslice 128 160 b @ subslice 160 164 b @ subslice 164 168 b @ subslice 168 n b @ drop n b)"
    using cid len nb v v [unfolded validate_lengths_ok]
    by (simp add: admission_encode_def e pv parsed_context_def magic ver pad k lens)
  also have "\<dots> = Inr b"
    using len nb by (simp add: peel_simps)
  finally have "admission_encode sha e = Inr b" .
  moreover have "wf_admission e"
    using len by (simp add: wf_admission_def e pv parsed_context_def)
  ultimately show ?thesis ..
qed

interpretation adm: strict_codec wf_admission "admission_encode sha" "\<lambda>b. ok (admission_decode sha b)"
  for sha
  by unfold_locales
    (auto simp: ok_eq_Some dest: admission_encode_decode intro: admission_decode_encode)

section \<open>The leading-zero test\<close>

fun be_nat :: "bytes \<Rightarrow> nat" where
  "be_nat [] = 0"
| "be_nat (b # bs) = unat b * 256 ^ length bs + be_nat bs"

lemma be_nat_less: "be_nat bs < 256 ^ length bs"
proof (induction bs)
  case (Cons b bs)
  have "unat b + 1 \<le> 256" using unsigned_less [of b, where 'a = nat] by simp
  then have "(unat b + 1) * 256 ^ length bs \<le> 256 * 256 ^ length bs" by (rule mult_right_mono) simp
  moreover have "be_nat (b # bs) < (unat b + 1) * 256 ^ length bs" using Cons by simp
  ultimately have "be_nat (b # bs) < 256 * 256 ^ length bs" by (rule order_less_le_trans [rotated])
  then show ?case by simp
qed simp

lemma be_nat_append: "be_nat (xs @ ys) = be_nat xs * 256 ^ length ys + be_nat ys"
  by (induction xs) (auto simp: algebra_simps power_add)

lemma be_nat_bound: "be_nat (xs @ ys) < c * 256 ^ length ys \<longleftrightarrow> be_nat xs < c"
  using be_nat_less [of ys]
  by (simp add: be_nat_append flip: div_less_iff_less_mult)

lemma be_nat_zero: "be_nat bs = 0 \<longleftrightarrow> list_all (\<lambda>b. b = 0) bs"
  by (induction bs) (auto simp: unat_eq_0)

lemma drop_bit_word_zero: "drop_bit n (x :: 'a::len word) = 0 \<longleftrightarrow> unat x < 2 ^ n"
proof -
  have "drop_bit n x = 0 \<longleftrightarrow> drop_bit n (unat x) = 0"
    by (simp add: unat_drop_bit_eq flip: unat_eq_0)
  then show ?thesis by (simp add: drop_bit_eq_div div_eq_0_iff)
qed

text \<open>
  The puzzle test reads the digest as a big-endian number: a 32-byte digest has \<open>k\<close> leading zero
  bits exactly when that number is below \<open>2 ^ (256 - k)\<close>.
\<close>

theorem has_leading_zero_bits_iff:
  assumes "length digest = 32"
  shows "has_leading_zero_bits digest k \<longleftrightarrow> be_nat digest < 2 ^ (256 - unat k)"
proof -
  define full where "full = unat k div 8"
  define r where "r = unat k mod 8"
  have k: "unat k = 8 * full + r" by (simp add: full_def r_def)
  have full: "full < 32" using unsigned_less [of k, where 'a = nat] by (simp add: full_def)
  have code: "has_leading_zero_bits digest k \<longleftrightarrow> list_all (\<lambda>b. b = 0) (take full digest)
      \<and> (r = 0 \<or> drop_bit (8 - r) (digest ! full) = 0)"
    by (simp add: has_leading_zero_bits_def full_def r_def unat_div unat_mod)
  have d: "digest = take full digest @ drop full digest" by simp
  show ?thesis
  proof (cases "r = 0")
    case True
    have "256 - unat k = 8 * length (drop full digest)"
      using assms full by (simp add: k True)
    then have "(2::nat) ^ (256 - unat k) = 1 * 256 ^ length (drop full digest)"
      by (simp only: power_mult) simp
    then have "be_nat digest < 2 ^ (256 - unat k) \<longleftrightarrow> be_nat (take full digest) = 0"
      using be_nat_bound [of "take full digest" "drop full digest" 1] d by (metis less_one)
    then show ?thesis by (simp add: code True be_nat_zero)
  next
    case False
    have r: "r < 8" by (simp add: r_def)
    define rest where "rest = drop (Suc full) digest"
    have d: "digest = (take full digest @ [digest ! full]) @ rest"
      using assms full by (simp add: rest_def id_take_nth_drop)
    have "256 - unat k = 8 * length rest + (8 - r)"
      using assms full r by (simp add: k rest_def)
    then have "(2::nat) ^ (256 - unat k) = 2 ^ (8 - r) * 256 ^ length rest"
      by (simp add: power_add power_mult)
    then have "be_nat digest < 2 ^ (256 - unat k)
        \<longleftrightarrow> be_nat (take full digest @ [digest ! full]) < 2 ^ (8 - r)"
      using be_nat_bound [of "take full digest @ [digest ! full]" rest "2 ^ (8 - r)"] d by metis
    also have "\<dots> \<longleftrightarrow> be_nat (take full digest) = 0 \<and> unat (digest ! full) < 2 ^ (8 - r)"
    proof -
      have "(2::nat) ^ (8 - r) \<le> 2 ^ 8" by (rule power_increasing) auto
      then have le: "(2::nat) ^ (8 - r) \<le> 256" by simp
      show ?thesis
      proof (cases "be_nat (take full digest)")
        case (Suc n)
        with le show ?thesis by (simp add: be_nat_append)
      qed (simp add: be_nat_append)
    qed
    finally show ?thesis using False by (simp add: code be_nat_zero drop_bit_word_zero)
  qed
qed

theorem has_leading_zero_bits_iff_witness:
  "length (0 # 8 # zeros 30) = 32 \<and>
     has_leading_zero_bits (0 # 8 # zeros 30) 12 = (be_nat (0 # 8 # zeros 30) < 2 ^ 244)"
  using has_leading_zero_bits_iff [of "0 # 8 # zeros 30" 12] by simp

section \<open>The bounded solver\<close>

lemma length_increment_nonce [simp]: "length (increment_nonce bs) = length bs"
  by (induction bs) auto

lemma le_bytes_mod: "le_bytes k (n mod 256 ^ k) = le_bytes k n"
  by (metis le_bytes_le_nat le_nat_le_bytes length_le_bytes)

lemma increment_nonce_eq: "increment_nonce bs = le_bytes (length bs) (le_nat bs + 1)"
proof (induction bs)
  case (Cons b bs)
  show ?case
  proof (cases "b + 1 = 0")
    case True
    then have "(unat b + 1) mod 256 = 0"
      using unat_word_ariths(1) [of b 1] by (simp add: True)
    then have "unat b = 255" using unsigned_less [of b, where 'a = nat] by simp presburger
    then have n: "unat b + 256 * le_nat bs + 1 = 256 * (le_nat bs + 1)" by simp
    have "(word_of_nat (256 * (le_nat bs + 1)) :: u8) = 0" by (simp only: word_of_nat_eq_0_iff) simp
    with True Cons show ?thesis by (simp only: le_nat.simps n list.size) (simp del: of_nat_mult)
  next
    case False
    then have u: "unat (b + 1) = unat b + 1" by (metis add.commute unatSuc Suc_eq_plus1)
    then have lt: "unat b + 1 < 256" using unsigned_less [of "b + 1", where 'a = nat] by simp
    have "(word_of_nat (unat b + 256 * le_nat bs + 1) :: u8) = b + 1"
      unfolding of_nat_eq by (rule exI [of _ "le_nat bs"]) (simp add: u)
    moreover have "(unat b + 256 * le_nat bs + 1) div 256 = le_nat bs" using lt by simp
    ultimately show ?thesis using False le_bytes_le_nat [of bs] by simp
  qed
qed simp

lemma iterated_increment: "(increment_nonce ^^ i) bs = le_bytes (length bs) (le_nat bs + i)"
proof (induction i)
  case 0
  show ?case by (simp add: le_bytes_le_nat)
next
  case (Suc i)
  then have "(increment_nonce ^^ Suc i) bs
      = le_bytes (length bs) ((le_nat bs + i) mod 256 ^ length bs + 1)"
    by (simp add: increment_nonce_eq [of "le_bytes _ _"] le_nat_le_bytes)
  also have "\<dots> = le_bytes (length bs) (le_nat bs + Suc i)"
    using le_bytes_mod [of "length bs" "(le_nat bs + i) mod 256 ^ length bs + 1"]
      le_bytes_mod [of "length bs" "le_nat bs + Suc i"]
    by (metis add_Suc_right mod_add_left_eq Suc_eq_plus1)
  finally show ?case .
qed

lemma solve_attempts_eq:
  "solve_attempts P n seed =
     (case List.find (\<lambda>i. P ((increment_nonce ^^ i) seed)) [0..<n] of
        None \<Rightarrow> Inl AdmissionWorkExhausted | Some i \<Rightarrow> Inr ((increment_nonce ^^ i) seed))"
proof (induction n arbitrary: seed)
  case (Suc n)
  have "[0..<Suc n] = 0 # map Suc [0..<n]" by (simp add: map_Suc_upt upt_conv_Cons)
  moreover have "List.find Q (map Suc xs) = map_option Suc (List.find (\<lambda>i. Q (Suc i)) xs)" for Q xs
    by (induction xs) auto
  ultimately show ?case using Suc
    by (auto simp: funpow_swap1 split: option.splits)
qed simp

text \<open>
  The bounded puzzle solver returns the first passing nonce of the \<open>max_attempts\<close> consecutive
  256-bit little-endian counters that start at the random seed, and reports exhaustion exactly when
  none of them passes.
\<close>

theorem solve_admission_puzzle_first:
  assumes "length seed = 32" and "8 \<le> difficulty" and "difficulty \<le> 20"
    and "0 < max_attempts" and "max_attempts \<le> MAX_ADMISSION_PUZZLE_ATTEMPTS"
  shows "solve_admission_puzzle sha ctx cid difficulty max_attempts seed =
    (case List.find (\<lambda>i. verify_admission_puzzle sha ctx cid (le_bytes 32 (le_nat seed + i)) difficulty)
            [0..<unat max_attempts] of
       None \<Rightarrow> Inl AdmissionWorkExhausted
     | Some i \<Rightarrow> Inr (le_bytes 32 (le_nat seed + i)))"
  using assms
  by (simp add: solve_admission_puzzle_def solve_attempts_eq iterated_increment word_gt_0 not_less
      split: option.split)

theorem solve_admission_puzzle_first_witness:
  "solve_admission_puzzle (\<lambda>_. zeros 32) \<lparr>target_account = [], target_device = [],
      bundle_digest = [], validity_epoch = 0\<rparr> [] 8 1 (zeros 32) =
    (case List.find (\<lambda>i. verify_admission_puzzle (\<lambda>_. zeros 32) \<lparr>target_account = [],
        target_device = [], bundle_digest = [], validity_epoch = 0\<rparr> []
        (le_bytes 32 (le_nat (zeros 32) + i)) 8) [0..<unat (1 :: u32)] of
       None \<Rightarrow> Inl AdmissionWorkExhausted
     | Some i \<Rightarrow> Inr (le_bytes 32 (le_nat (zeros 32) + i)))"
  by (rule solve_admission_puzzle_first) simp_all

end
