(* ===== verification/Attachment.thy ===== *)
theory Attachment
  imports Komms_Prelude
begin

text \<open>
  \<^verbatim>\<open>kult-protocol/src/attachment.rs\<close>: the canonical attachment manifest.

  The decoder walks the input with a cursor; the model passes the offset explicitly. BLAKE3 is a
  parameter (\<open>b3\<close>). The lemmas show that the manifest format is a strict codec, that the media-type
  scanner accepts exactly the two-part token syntax, and that the chunk count of an accepted object
  is the ceiling the format documents.
\<close>

section \<open>Constants\<close>

definition ATTACHMENT_MANIFEST_VERSION :: u8 where [simp]: "ATTACHMENT_MANIFEST_VERSION = 1"
definition MAX_ATTACHMENT_MANIFEST_LEN :: nat where [simp]: "MAX_ATTACHMENT_MANIFEST_LEN = 1024"
definition ATTACHMENT_CHUNK_DATA_LEN :: u32 where [simp]: "ATTACHMENT_CHUNK_DATA_LEN = 49152"
definition MAX_PRIMARY_OBJECT_LEN :: u64 where [simp]: "MAX_PRIMARY_OBJECT_LEN = 536870912"
definition MAX_PRIMARY_CHUNKS :: u32 where [simp]: "MAX_PRIMARY_CHUNKS = 10923"
definition MAX_PREVIEW_OBJECT_LEN :: u64 where [simp]: "MAX_PREVIEW_OBJECT_LEN = 262144"
definition MAX_PREVIEW_CHUNKS :: u32 where [simp]: "MAX_PREVIEW_CHUNKS = 6"
definition MAX_ATTACHMENT_FILENAME_LEN :: nat where [simp]: "MAX_ATTACHMENT_FILENAME_LEN = 255"
definition MAX_ATTACHMENT_MEDIA_TYPE_LEN :: nat where [simp]: "MAX_ATTACHMENT_MEDIA_TYPE_LEN = 127"

section \<open>Data\<close>

datatype AttachmentRole = Primary | Preview

fun role_code :: "AttachmentRole \<Rightarrow> u8" where
  "role_code Primary = 0"
| "role_code Preview = 1"

definition role_decode :: "u8 \<Rightarrow> AttachmentRole result" where
  "role_decode v = (if v = 0 then Inr Primary else if v = 1 then Inr Preview else Inl Malformed)"

record AttachmentObject =
  obj_role :: AttachmentRole
  object_id :: bytes
  total_len :: u64
  chunk_data_len :: u32
  obj_chunk_count :: u32
  content_hash :: bytes
  media_type :: bytes
  filename :: "bytes option"

record AttachmentManifest =
  attachment_key :: bytes
  primary :: AttachmentObject
  preview :: "AttachmentObject option"

section \<open>Validation\<close>

definition chunk_count :: "u64 \<Rightarrow> u32" where
  "chunk_count n =
     (if n = 0 then 0 else ucast ((n - 1) div ucast ATTACHMENT_CHUNK_DATA_LEN + 1))"

definition attachment_chunk_count :: "u64 \<Rightarrow> u32" where
  "attachment_chunk_count n = chunk_count n"

definition is_media_token :: "u8 \<Rightarrow> bool" where
  "is_media_token b \<longleftrightarrow> (0x61 \<le> b \<and> b \<le> 0x7A) \<or> (0x30 \<le> b \<and> b \<le> 0x39) \<or> b \<in> set (ascii ''!#$&^_.+-'')"

text \<open>The scanning loop: \<open>None\<close> is the early \<^verbatim>\<open>return false\<close>.\<close>

fun media_scan :: "bytes \<Rightarrow> nat \<Rightarrow> nat option \<Rightarrow> nat option option" where
  "media_scan [] i slash = Some slash"
| "media_scan (b # bs) i slash =
     (if b = 0x2F then (if slash = None then media_scan bs (i + 1) (Some i) else None)
      else if \<not> is_media_token b then None
      else media_scan bs (i + 1) slash)"

definition valid_media_type :: "bytes \<Rightarrow> bool" where
  "valid_media_type v =
     (if v = [] \<or> length v > MAX_ATTACHMENT_MEDIA_TYPE_LEN \<or> \<not> list_all (\<lambda>b. b \<le> 0x7F) v then False
      else (case media_scan v 0 None of
              Some (Some index) \<Rightarrow> index > 0 \<and> index + 1 < length v
            | _ \<Rightarrow> False))"

definition valid_filename :: "bytes option \<Rightarrow> bool" where
  "valid_filename f =
     (case f of
        None \<Rightarrow> True
      | Some v \<Rightarrow>
          (if v = [] \<or> length v > MAX_ATTACHMENT_FILENAME_LEN \<or> v = ascii ''.'' \<or> v = ascii ''..''
             \<or> list_ex (\<lambda>c. c = 0x2F \<or> c = 0x5C) (utf8_chars v)
           then False
           else \<not> list_ex (\<lambda>c. c \<le> 0x1F \<or> (0x7F \<le> c \<and> c \<le> 0x9F)) (utf8_chars v)))"

definition validate_object :: "(bytes \<Rightarrow> bytes) \<Rightarrow> AttachmentObject \<Rightarrow> unit result" where
  "validate_object b3 obj =
     (if chunk_data_len obj \<noteq> ATTACHMENT_CHUNK_DATA_LEN
        \<or> obj_chunk_count obj \<noteq> chunk_count (total_len obj)
        \<or> (total_len obj = 0 \<and> content_hash obj \<noteq> b3 [])
        \<or> \<not> valid_media_type (media_type obj)
        \<or> \<not> valid_filename (filename obj)
      then Inl Malformed
      else (case obj_role obj of
          Primary \<Rightarrow>
            if total_len obj > MAX_PRIMARY_OBJECT_LEN \<or> obj_chunk_count obj > MAX_PRIMARY_CHUNKS
            then Inl TooLarge else Inr ()
        | Preview \<Rightarrow>
            if total_len obj > MAX_PREVIEW_OBJECT_LEN \<or> obj_chunk_count obj > MAX_PREVIEW_CHUNKS
              \<or> \<not> (media_type obj = ascii ''image/jpeg'' \<or> media_type obj = ascii ''image/png'')
              \<or> filename obj \<noteq> None
            then Inl Malformed else Inr ()))"

definition validate_manifest :: "(bytes \<Rightarrow> bytes) \<Rightarrow> AttachmentManifest \<Rightarrow> unit result" where
  "validate_manifest b3 m =
     (if obj_role (primary m) \<noteq> Primary then Inl Malformed
      else try_then (validate_object b3 (primary m)) (\<lambda>_.
        (case preview m of
           None \<Rightarrow> Inr ()
         | Some p \<Rightarrow>
             if obj_role p \<noteq> Preview \<or> object_id p = object_id (primary m) \<or> filename p \<noteq> None
             then Inl Malformed
             else validate_object b3 p)))"

section \<open>The cursor\<close>

type_synonym 'a read = "('a \<times> nat) result"

definition take_at :: "bytes \<Rightarrow> nat \<Rightarrow> nat \<Rightarrow> bytes read" where
  "take_at b off n =
     (if off + n \<le> length b then Inr (subslice off (off + n) b, off + n) else Inl Malformed)"

definition take_array :: "nat \<Rightarrow> bytes \<Rightarrow> nat \<Rightarrow> bytes read" where
  "take_array n b off = take_at b off n"

definition take_u8 :: "bytes \<Rightarrow> nat \<Rightarrow> u8 read" where
  "take_u8 b off = try_then (take_at b off 1) (\<lambda>(v, off). Inr (v ! 0, off))"

definition take_u16 :: "bytes \<Rightarrow> nat \<Rightarrow> u16 read" where
  "take_u16 b off = try_then (take_array 2 b off) (\<lambda>(v, off). Inr (from_le16 v, off))"

definition take_u32 :: "bytes \<Rightarrow> nat \<Rightarrow> u32 read" where
  "take_u32 b off = try_then (take_array 4 b off) (\<lambda>(v, off). Inr (from_le32 v, off))"

definition take_u64 :: "bytes \<Rightarrow> nat \<Rightarrow> u64 read" where
  "take_u64 b off = try_then (take_array 8 b off) (\<lambda>(v, off). Inr (from_le64 v, off))"

section \<open>Encoding and decoding\<close>

definition encode_object :: "(bytes \<Rightarrow> bytes) \<Rightarrow> bytes \<Rightarrow> AttachmentObject \<Rightarrow> bytes result" where
  "encode_object b3 out obj =
     try_then (validate_object b3 obj) (\<lambda>_.
       let name = (case filename obj of None \<Rightarrow> [] | Some v \<Rightarrow> v) in
       Inr (out @ [role_code (obj_role obj)] @ object_id obj @ to_le64 (total_len obj)
         @ to_le32 (chunk_data_len obj) @ to_le32 (obj_chunk_count obj) @ content_hash obj
         @ [word_of_nat (length (media_type obj))] @ media_type obj
         @ to_le16 (word_of_nat (length name)) @ name))"

definition encode_attachment_manifest ::
  "(bytes \<Rightarrow> bytes) \<Rightarrow> AttachmentManifest \<Rightarrow> bytes result" where
  "encode_attachment_manifest b3 m =
     try_then (validate_manifest b3 m) (\<lambda>_.
       let objects = (if preview m \<noteq> None then 1 else 0) + 1 :: nat in
       try_then (encode_object b3
           ([ATTACHMENT_MANIFEST_VERSION, 0] @ attachment_key m @ [word_of_nat objects])
           (primary m)) (\<lambda>out.
       try_then (case preview m of None \<Rightarrow> Inr out | Some p \<Rightarrow> encode_object b3 out p) (\<lambda>out.
       if length out > MAX_ATTACHMENT_MANIFEST_LEN then Inl TooLarge else Inr out)))"

definition decode_object :: "bytes \<Rightarrow> nat \<Rightarrow> AttachmentObject read" where
  "decode_object b off =
     try_then (take_u8 b off) (\<lambda>(r, off).
     try_then (role_decode r) (\<lambda>role.
     try_then (take_array 16 b off) (\<lambda>(oid, off).
     try_then (take_u64 b off) (\<lambda>(tlen, off).
     try_then (take_u32 b off) (\<lambda>(dlen, off).
     try_then (take_u32 b off) (\<lambda>(cnt, off).
     try_then (take_array 32 b off) (\<lambda>(hash, off).
     try_then (take_u8 b off) (\<lambda>(mlen, off).
     try_then (take_at b off (unat mlen)) (\<lambda>(media, off).
     if \<not> utf8_valid media then Inl Malformed else
     try_then (take_u16 b off) (\<lambda>(flen, off).
     try_then (take_at b off (unat flen)) (\<lambda>(name, off).
     try_then (if name = [] then Inr None
               else if utf8_valid name then Inr (Some name) else Inl Malformed) (\<lambda>fname.
     Inr (\<lparr>obj_role = role, object_id = oid, total_len = tlen, chunk_data_len = dlen,
           obj_chunk_count = cnt, content_hash = hash, media_type = media, filename = fname\<rparr>,
          off)))))))))))))"

definition decode_v1 :: "(bytes \<Rightarrow> bytes) \<Rightarrow> bytes \<Rightarrow> AttachmentManifest result" where
  "decode_v1 b3 b =
     try_then (take_array 32 b 2) (\<lambda>(key, off).
     try_then (take_u8 b off) (\<lambda>(object_count, off).
     if \<not> (1 \<le> object_count \<and> object_count \<le> 2) then Inl Malformed else
     try_then (decode_object b off) (\<lambda>(prim, off).
     try_then (if object_count = 2
               then try_then (decode_object b off) (\<lambda>(p, off). Inr (Some p, off))
               else Inr (None, off)) (\<lambda>(prev, off).
     if off \<noteq> length b then Inl Malformed
     else
       let m = \<lparr>attachment_key = key, primary = prim, preview = prev\<rparr> in
       try_then (validate_manifest b3 m) (\<lambda>_. Inr m)))))"

definition decode_attachment_manifest ::
  "(bytes \<Rightarrow> bytes) \<Rightarrow> bytes \<Rightarrow> AttachmentManifest decoded" where
  "decode_attachment_manifest b3 b =
     (if length b > MAX_ATTACHMENT_MANIFEST_LEN \<or> length b < 2 then DecodedMalformed
      else if b ! 0 \<noteq> ATTACHMENT_MANIFEST_VERSION \<or> b ! 1 \<noteq> 0 then DecodedUnsupported
      else if length b < 35 then DecodedMalformed
      else (case decode_v1 b3 b of Inr m \<Rightarrow> DecodedValue m | Inl _ \<Rightarrow> DecodedMalformed))"

section \<open>The manifest is a strict codec\<close>

lemma take_at_iff: "take_at b off n = Inr (v, j) \<longleftrightarrow> reads b off j v \<and> length v = n"
  by (auto simp: take_at_def reads_def subslice_def)

lemma take_u8_iff: "take_u8 b off = Inr (v, j) \<longleftrightarrow> reads b off j [v]"
  by (auto simp: take_u8_def result_simps take_at_iff length_Suc_conv)

lemma take_array_iff: "take_array n b off = Inr (v, j) \<longleftrightarrow> reads b off j v \<and> length v = n"
  by (simp add: take_array_def take_at_iff)

lemma take_u16_iff: "take_u16 b off = Inr (v, j) \<longleftrightarrow> reads b off j (to_le16 v)"
  by (auto simp: take_u16_def result_simps take_array_iff)

lemma take_u32_iff: "take_u32 b off = Inr (v, j) \<longleftrightarrow> reads b off j (to_le32 v)"
  by (auto simp: take_u32_def result_simps take_array_iff)

lemma take_u64_iff: "take_u64 b off = Inr (v, j) \<longleftrightarrow> reads b off j (to_le64 v)"
  by (auto simp: take_u64_def result_simps take_array_iff)

lemmas cursor_iff = take_at_iff take_array_iff take_u8_iff take_u16_iff take_u32_iff take_u64_iff

lemma role_decode_iff: "role_decode v = Inr r \<longleftrightarrow> v = role_code r"
  by (cases r) (auto simp: role_decode_def)

text \<open>What the Rust types guarantee, and the bytes of one object.\<close>

definition wf_object :: "AttachmentObject \<Rightarrow> bool" where
  "wf_object obj \<longleftrightarrow> length (object_id obj) = 16 \<and> length (content_hash obj) = 32
     \<and> utf8_valid (media_type obj)
     \<and> (case filename obj of None \<Rightarrow> True | Some v \<Rightarrow> utf8_valid v)"

definition wf_manifest :: "AttachmentManifest \<Rightarrow> bool" where
  "wf_manifest m \<longleftrightarrow> length (attachment_key m) = 32 \<and> wf_object (primary m)
     \<and> (case preview m of None \<Rightarrow> True | Some p \<Rightarrow> wf_object p)"

definition name_bytes :: "AttachmentObject \<Rightarrow> bytes" where
  "name_bytes obj = (case filename obj of None \<Rightarrow> [] | Some v \<Rightarrow> v)"

definition object_bytes :: "AttachmentObject \<Rightarrow> bytes" where
  "object_bytes obj = [role_code (obj_role obj)] @ object_id obj @ to_le64 (total_len obj)
     @ to_le32 (chunk_data_len obj) @ to_le32 (obj_chunk_count obj) @ content_hash obj
     @ [word_of_nat (length (media_type obj))] @ media_type obj
     @ to_le16 (word_of_nat (length (name_bytes obj))) @ name_bytes obj"

definition sized_object :: "AttachmentObject \<Rightarrow> bool" where
  "sized_object obj \<longleftrightarrow> length (media_type obj) < 256 \<and> length (name_bytes obj) < 65536
     \<and> filename obj \<noteq> Some []"

lemma word_length_eq:
  "length x = unat (v :: 'a::len word) \<longleftrightarrow> v = word_of_nat (length x) \<and> length x < 2 ^ LENGTH('a)"
  using unsigned_less [of v, where 'a = nat] by auto

lemma decode_object_iff:
  "decode_object b off = Inr (obj, j) \<longleftrightarrow>
     reads b off j (object_bytes obj) \<and> wf_object obj \<and> sized_object obj"
proof (cases obj)
  case (fields role oid tlen dlen cnt hash media fname)
  have name: "(if n = [] then Inr None else if utf8_valid n then Inr (Some n) else Inl Malformed)
        = Inr f \<longleftrightarrow> n = (case f of None \<Rightarrow> [] | Some v \<Rightarrow> v) \<and> f \<noteq> Some []
          \<and> (case f of None \<Rightarrow> True | Some v \<Rightarrow> utf8_valid v)" for n :: bytes and f :: "bytes option"
    by (auto split: option.splits)
  show ?thesis
    unfolding decode_object_def fields
    by (simp add: result_simps cursor_iff role_decode_iff name split_paired_Ex reads_append
        object_bytes_def wf_object_def sized_object_def name_bytes_def reads_Cons [of b _ _ _ "_ # _"]
        reads_Cons [of b _ _ _ "_ @ _"] word_length_eq) blast
qed


lemma encode_object_eq:
  "encode_object b3 out obj = try_then (validate_object b3 obj) (\<lambda>_. Inr (out @ object_bytes obj))"
  by (simp add: encode_object_def object_bytes_def name_bytes_def)

lemma valid_object_sized:
  "validate_object b3 obj = Inr u \<Longrightarrow>
     sized_object obj \<and> length (media_type obj) \<le> 127 \<and> length (name_bytes obj) \<le> 255"
  by (auto simp: validate_object_def valid_media_type_def valid_filename_def sized_object_def
      name_bytes_def split: if_splits option.splits)

lemma length_object_bytes:
  "wf_object obj \<Longrightarrow>
     length (object_bytes obj) = 68 + length (media_type obj) + length (name_bytes obj)"
  by (simp add: object_bytes_def wf_object_def)

definition manifest_bytes :: "AttachmentManifest \<Rightarrow> bytes" where
  "manifest_bytes m = attachment_key m @ [case preview m of None \<Rightarrow> 1 | Some _ \<Rightarrow> 2]
     @ object_bytes (primary m) @ (case preview m of None \<Rightarrow> [] | Some p \<Rightarrow> object_bytes p)"

lemma valid_manifest_parts:
  assumes "validate_manifest b3 m = Inr ()"
  shows "validate_object b3 (primary m) = Inr ()"
    and "preview m = Some p \<Longrightarrow> validate_object b3 p = Inr () \<and> name_bytes p = []"
  using assms
  by (auto simp: validate_manifest_def result_simps name_bytes_def split: if_splits option.splits)

lemma length_manifest_bytes:
  assumes "validate_manifest b3 m = Inr ()" and "wf_manifest m"
  shows "length (manifest_bytes m) \<le> 678"
proof -
  note v = valid_manifest_parts [OF assms(1)]
  have "length (object_bytes (primary m)) \<le> 450"
    using assms(2) valid_object_sized [OF v(1)] by (simp add: length_object_bytes wf_manifest_def)
  moreover have "length (object_bytes p) \<le> 195" if "preview m = Some p" for p
    using assms(2) that v(2) [OF that] valid_object_sized [of b3 p "()"]
    by (auto simp: length_object_bytes wf_manifest_def)
  ultimately show ?thesis using assms(2)
    by (auto simp: manifest_bytes_def wf_manifest_def split: option.splits)
qed

lemma encode_manifest_eq:
  assumes "wf_manifest m"
  shows "encode_attachment_manifest b3 m =
    try_then (validate_manifest b3 m) (\<lambda>_. Inr ([1, 0] @ manifest_bytes m))"
proof (cases "validate_manifest b3 m")
  case (Inr u)
  then have u: "validate_manifest b3 m = Inr ()" by simp
  note v = valid_manifest_parts [OF u]
  from length_manifest_bytes [OF u assms] u v show ?thesis
    by (auto simp: encode_attachment_manifest_def encode_object_eq manifest_bytes_def
        split: option.splits)
qed (simp add: encode_attachment_manifest_def)

lemma object_count_choice:
  "(1 \<le> v \<and> v \<le> 2) \<longleftrightarrow> v = 1 \<or> v = 2" for v :: u8
  by (auto simp: word_le_nat_alt word_unat_eq_iff)

lemma decode_v1_iff:
  "decode_v1 b3 b = Inr m \<longleftrightarrow>
     wf_manifest m \<and> validate_manifest b3 m = Inr () \<and> reads b 2 (length b) (manifest_bytes m)"
proof (cases m)
  case (fields key prim prev)
  have sized: "sized_object prim \<and> (\<forall>p. prev = Some p \<longrightarrow> sized_object p)"
    if "validate_manifest b3 m = Inr ()"
    using valid_manifest_parts [OF that] valid_object_sized by (auto simp: fields)
  have ne: "(1 :: u8) \<noteq> 2" by simp
  show ?thesis
  proof (cases prev)
    case None
    with sized show ?thesis unfolding fields decode_v1_def
      by (simp add: result_simps cursor_iff decode_object_iff split_paired_Ex reads_append
          manifest_bytes_def wf_manifest_def object_count_choice
          reads_Cons [of b _ _ _ "object_bytes _"])
        (use ne in blast)
  next
    case (Some p)
    with sized show ?thesis unfolding fields decode_v1_def
      by (simp add: result_simps cursor_iff decode_object_iff split_paired_Ex reads_append
          manifest_bytes_def wf_manifest_def object_count_choice reads_Cons [of b _ _ _ "_ @ _"])
        (auto split: if_splits)
  qed
qed

lemma decode_manifest_iff:
  "decode_attachment_manifest b3 b = DecodedValue m \<longleftrightarrow>
     wf_manifest m \<and> encode_attachment_manifest b3 m = Inr b"
proof -
  have "2 \<le> length b \<and> b ! 0 = 1 \<and> b ! 1 = 0 \<and> reads b 2 (length b) x \<longleftrightarrow> b = [1, 0] @ x" for x
    using reads_all [of b "[1, 0] @ x"]
    by (auto simp: reads_append reads_Cons [of _ _ _ 1] reads_Cons [of _ _ _ 0] reads_single numeral_2_eq_2)
  then have eq: "length b \<ge> 2 \<and> b ! 0 = 1 \<and> b ! 1 = 0 \<and> decode_v1 b3 b = Inr m \<longleftrightarrow>
      wf_manifest m \<and> validate_manifest b3 m = Inr () \<and> b = [1, 0] @ manifest_bytes m"
    unfolding decode_v1_iff by blast
  have "decode_attachment_manifest b3 b = DecodedValue m \<longleftrightarrow>
      35 \<le> length b \<and> length b \<le> 1024 \<and> length b \<ge> 2 \<and> b ! 0 = 1 \<and> b ! 1 = 0
        \<and> decode_v1 b3 b = Inr m"
    by (auto simp: decode_attachment_manifest_def split: sum.splits)
  also have "\<dots> \<longleftrightarrow> wf_manifest m \<and> validate_manifest b3 m = Inr () \<and> b = [1, 0] @ manifest_bytes m"
    unfolding eq using length_manifest_bytes [of b3 m]
    by (auto simp: manifest_bytes_def wf_manifest_def)
  also have "\<dots> \<longleftrightarrow> wf_manifest m \<and> encode_attachment_manifest b3 m = Inr b"
    by (auto simp: encode_manifest_eq result_simps)
  finally show ?thesis .
qed

interpretation manifest: strict_codec wf_manifest "encode_attachment_manifest b3"
  "\<lambda>b. decoded_value (decode_attachment_manifest b3 b)" for b3
  by unfold_locales (simp_all add: decoded_value_eq_Some decode_manifest_iff)

text \<open>
  The manifest format is canonical: the decoder accepts exactly the byte strings the encoder
  produces, each for the one manifest that encodes to it, so an accepted manifest also satisfies
  every bound the encoder enforces.
\<close>

theorem attachment_manifest_canonical:
  "decode_attachment_manifest b3 b = DecodedValue m \<longleftrightarrow>
     wf_manifest m \<and> encode_attachment_manifest b3 m = Inr b"
  using manifest.accepts_iff [of b3 b m] by (simp add: decoded_value_eq_Some)

section \<open>Media types\<close>

lemma slash_no_token: "\<not> is_media_token 0x2F"
  by (simp add: is_media_token_def ascii_def)

lemma token_ascii: "is_media_token b \<Longrightarrow> b \<le> 0x7F"
  by (auto simp: is_media_token_def ascii_def word_le_nat_alt)

lemma media_scan_after:
  "media_scan bs i (Some k) = Some r \<longleftrightarrow> r = Some k \<and> list_all is_media_token bs"
  by (induction bs arbitrary: i) (auto simp: slash_no_token)

lemma media_scan_before:
  "media_scan bs i None = Some (Some k) \<longleftrightarrow>
     (\<exists>t s. bs = t @ 0x2F # s \<and> list_all is_media_token (t @ s) \<and> k = i + length t)"
proof (induction bs arbitrary: i)
  case (Cons b bs)
  show ?case
  proof (cases "b = 0x2F")
    case True
    then show ?thesis
      by (auto simp: media_scan_after Cons_eq_append_conv slash_no_token)
  next
    case False
    have shift: "(\<exists>t s. b # bs = t @ 0x2F # s \<and> Q t s) \<longleftrightarrow> (\<exists>t s. bs = t @ 0x2F # s \<and> Q (b # t) s)" for Q
      using False by (auto simp: Cons_eq_append_conv)
    show ?thesis unfolding shift using Cons False by auto
  qed
qed simp

text \<open>
  The one-pass media-type scanner accepts exactly the type/subtype strings: two non-empty runs
  of the permitted lower-case token bytes around a single slash, at most 127 bytes in all.
\<close>

theorem valid_media_type_iff:
  "valid_media_type v \<longleftrightarrow>
     (\<exists>t s. v = t @ 0x2F # s \<and> t \<noteq> [] \<and> s \<noteq> [] \<and> list_all is_media_token (t @ s) \<and> length v \<le> 127)"
proof -
  have ascii: "list_all (\<lambda>b. b \<le> 0x7F) (t @ 0x2F # s)" if "list_all is_media_token (t @ s)" for t s
    using that by (auto simp: list_all_iff intro: token_ascii)
  have "valid_media_type v \<longleftrightarrow> v \<noteq> [] \<and> length v \<le> 127 \<and> list_all (\<lambda>b. b \<le> 0x7F) v
      \<and> (\<exists>k. media_scan v 0 None = Some (Some k) \<and> 0 < k \<and> k + 1 < length v)"
    by (auto simp: valid_media_type_def split: option.splits)
  also have "\<dots> \<longleftrightarrow> (\<exists>t s. v = t @ 0x2F # s \<and> t \<noteq> [] \<and> s \<noteq> [] \<and> list_all is_media_token (t @ s)
      \<and> length v \<le> 127)"
    unfolding media_scan_before using ascii by fastforce
  finally show ?thesis .
qed

section \<open>Chunk counts\<close>

text \<open>
  For every object length the format admits, the 32-bit chunk count is the exact ceiling of
  the length over the chunk size: nothing is lost in the narrowing cast.
\<close>

theorem chunk_count_ceiling:
  assumes "n \<le> MAX_PRIMARY_OBJECT_LEN"
  shows "unat (chunk_count n) = (unat n + 49151) div 49152"
proof (cases "n = 0")
  case False
  then have pos: "0 < unat n" by (simp add: unat_gt_0)
  have le: "unat n \<le> 536870912" using assms by (simp add: word_le_nat_alt)
  have "unat (n - 1) = unat n - 1" using pos by (simp add: unat_sub word_le_nat_alt)
  then have "unat ((n - 1) div 49152 + 1) = (unat n - 1) div 49152 + 1"
    using le by (simp add: unat_word_ariths unat_div)
  moreover from this le have "unat ((n - 1) div 49152 + 1) < 2 ^ 32" by simp
  ultimately have "unat (chunk_count n) = (unat n - 1) div 49152 + 1"
    using False by (simp add: chunk_count_def unsigned_ucast_eq unsigned_take_bit_eq take_bit_eq_mod)
  also have "\<dots> = (unat n - 1 + 49152) div 49152" by simp
  also have "unat n - 1 + 49152 = unat n + 49151" using pos by simp
  finally show ?thesis .
qed (simp add: chunk_count_def)

theorem chunk_count_ceiling_witness: "unat (chunk_count 49153) = 2"
  using chunk_count_ceiling [of 49153] by simp

end
