(* ===== verification/Ephemeral.thy ===== *)
theory Ephemeral
  imports Attachment
begin

text \<open>
  \<^verbatim>\<open>kult-protocol/src/ephemeral.rs\<close>: disappearing text and view-once attachments.

  The exact deadline and the coarse relay-visible one are bound together by \<open>retention_bucket\<close>. The
  lemmas characterise the bucket, show that the payload format is a strict codec on everything that
  fits a content frame, and record the one value the encoder emits and the decoder refuses.
\<close>

section \<open>Constants and data\<close>

definition RETENTION_BUCKET_SECS :: u64 where [simp]: "RETENTION_BUCKET_SECS = 3600"
definition EPHEMERAL_HEADER_LEN :: nat where [simp]: "EPHEMERAL_HEADER_LEN = 1 + 1 + 2 + 8 + 8 + 4"
definition MAX_EPHEMERAL_PAYLOAD_LEN :: nat where
  [simp]: "MAX_EPHEMERAL_PAYLOAD_LEN = EPHEMERAL_HEADER_LEN + MAX_CONTENT_PAYLOAD_LEN"
definition EPHEMERAL_VERSION :: u8 where [simp]: "EPHEMERAL_VERSION = 1"
definition MODE_DISAPPEARING_TEXT :: u8 where [simp]: "MODE_DISAPPEARING_TEXT = 1"
definition MODE_VIEW_ONCE_ATTACHMENT :: u8 where [simp]: "MODE_VIEW_ONCE_ATTACHMENT = 2"

text \<open>The fields are \<^verbatim>\<open>expires_at\<close>, \<^verbatim>\<open>retention_until\<close> and the mode's body.\<close>

datatype Ephemeral =
    DisappearingText u64 u64 bytes
  | ViewOnceAttachment u64 u64 AttachmentManifest

section \<open>Operations\<close>

definition retention_bucket :: "u64 \<Rightarrow> u64 result" where
  "retention_bucket expires_at =
     (let remainder = expires_at mod RETENTION_BUCKET_SECS in
      if remainder = 0 then Inr expires_at
      else ok_or (checked_add expires_at (RETENTION_BUCKET_SECS - remainder)) Malformed)"

definition encode_payload :: "u8 \<Rightarrow> u64 \<Rightarrow> bytes \<Rightarrow> bytes result" where
  "encode_payload mode expires_at body =
     try_then (retention_bucket expires_at) (\<lambda>retention_until.
       if EPHEMERAL_HEADER_LEN + length body > MAX_EPHEMERAL_PAYLOAD_LEN \<or> length body > 2 ^ 32 - 1
       then Inl TooLarge
       else Inr ([EPHEMERAL_VERSION, mode] @ to_le16 0 @ to_le64 expires_at @ to_le64 retention_until
         @ to_le32 (word_of_nat (length body)) @ body))"

definition encode_disappearing_text_payload :: "u64 \<Rightarrow> bytes \<Rightarrow> bytes result" where
  "encode_disappearing_text_payload expires_at txt =
     (if txt = [] \<or> length txt > MAX_CONTENT_PAYLOAD_LEN - EPHEMERAL_HEADER_LEN
      then Inl (if length txt > MAX_CONTENT_PAYLOAD_LEN - EPHEMERAL_HEADER_LEN then TooLarge
                else Malformed)
      else encode_payload MODE_DISAPPEARING_TEXT expires_at txt)"

definition encode_view_once_attachment_payload ::
  "(bytes \<Rightarrow> bytes) \<Rightarrow> u64 \<Rightarrow> AttachmentManifest \<Rightarrow> bytes result" where
  "encode_view_once_attachment_payload b3 expires_at m =
     try_then (encode_attachment_manifest b3 m) (\<lambda>body.
       encode_payload MODE_VIEW_ONCE_ATTACHMENT expires_at body)"

definition decode_ephemeral_payload :: "(bytes \<Rightarrow> bytes) \<Rightarrow> bytes \<Rightarrow> Ephemeral decoded" where
  "decode_ephemeral_payload b3 b =
     (if length b < EPHEMERAL_HEADER_LEN \<or> length b > MAX_EPHEMERAL_PAYLOAD_LEN then DecodedMalformed
      else if b ! 0 \<noteq> EPHEMERAL_VERSION then DecodedUnsupported
      else if subslice 2 4 b \<noteq> [0, 0] then DecodedUnsupported
      else
        let expires_at = from_le64 (subslice 4 12 b);
            retention_until = from_le64 (subslice 12 20 b);
            body_len = unat (from_le32 (subslice 20 24 b)) in
        if expires_at = 0 \<or> ok (retention_bucket expires_at) \<noteq> Some retention_until
          \<or> body_len \<noteq> length b - EPHEMERAL_HEADER_LEN
        then DecodedMalformed
        else
          let body = drop EPHEMERAL_HEADER_LEN b in
          if b ! 1 = MODE_DISAPPEARING_TEXT then
            (if utf8_valid body \<and> body \<noteq> []
             then DecodedValue (DisappearingText expires_at retention_until body)
             else DecodedMalformed)
          else if b ! 1 = MODE_VIEW_ONCE_ATTACHMENT then
            (case decode_attachment_manifest b3 body of
               DecodedValue m \<Rightarrow> DecodedValue (ViewOnceAttachment expires_at retention_until m)
             | DecodedUnsupported \<Rightarrow> DecodedUnsupported
             | DecodedMalformed \<Rightarrow> DecodedMalformed)
          else DecodedUnsupported)"

section \<open>The retention bucket\<close>

lemma retention_bucket_unat:
  "retention_bucket x = Inr r \<longleftrightarrow>
     3600 dvd unat r \<and> unat x \<le> unat r \<and> unat r < unat x + 3600"
proof -
  define m where "m = unat x mod 3600"
  have m: "unat (x mod 3600) = m" by (simp add: m_def unat_mod)
  have zero: "x mod 3600 = 0 \<longleftrightarrow> m = 0" unfolding m [symmetric] by (simp add: unat_eq_0)
  have mlt: "m < 3600" by (simp add: m_def)
  have diff: "unat (3600 - x mod 3600) = 3600 - m"
    using mlt by (subst unat_sub) (simp_all add: word_le_nat_alt m)
  obtain q where q: "unat x = 3600 * q + m" unfolding m_def by (metis mult_div_mod_eq)
  have lt: "unat r < 2 ^ 64" "unat x < 2 ^ 64"
    using unsigned_less [of r, where 'a = nat] unsigned_less [of x, where 'a = nat] by simp_all
  have "retention_bucket x = Inr r \<longleftrightarrow> unat r = 3600 * (if m = 0 then q else q + 1)"
  proof (cases "m = 0")
    case True
    with zero q show ?thesis by (auto simp: retention_bucket_def word_unat_eq_iff)
  next
    case False
    have "unat (x + (3600 - x mod 3600)) = 3600 * (q + 1)" if "3600 * (q + 1) < 2 ^ 64"
      using that q mlt diff by (simp add: unat_word_ariths)
    with False zero q diff lt mlt show ?thesis
      by (auto simp: retention_bucket_def checked_add_def ok_or_eq_Inr word_unat_eq_iff)
  qed
  also have "\<dots> \<longleftrightarrow> 3600 dvd unat r \<and> unat x \<le> unat r \<and> unat r < unat x + 3600"
  proof
    assume "unat r = 3600 * (if m = 0 then q else q + 1)"
    then show "3600 dvd unat r \<and> unat x \<le> unat r \<and> unat r < unat x + 3600"
      using mlt q by simp
  next
    assume *: "3600 dvd unat r \<and> unat x \<le> unat r \<and> unat r < unat x + 3600"
    then obtain k where k: "unat r = 3600 * k" by blast
    consider "k \<le> q" | "k = q + 1" | "q + 2 \<le> k" by linarith
    then show "unat r = 3600 * (if m = 0 then q else q + 1)"
      using * mlt unfolding k q by cases auto
  qed
  finally show ?thesis .
qed

text \<open>
  The relay-visible retention hint is the least multiple of one hour that is not before the
  exact deadline, and it is refused exactly when that multiple does not fit 64 bits.
\<close>

theorem retention_bucket_least_hour:
  "retention_bucket x = Inr r \<longleftrightarrow> 3600 dvd unat r \<and> unat x \<le> unat r \<and> unat r < unat x + 3600"
  by (rule retention_bucket_unat)

section \<open>The payload is a strict codec\<close>

text \<open>
  The source has one encoder per mode; \<open>encode_ephemeral_value\<close> joins them. It passes the deadline only,
  as the callers do, so the coarse deadline of the value must be the one the encoder derives.
\<close>

fun encode_ephemeral_value :: "(bytes \<Rightarrow> bytes) \<Rightarrow> Ephemeral \<Rightarrow> bytes result" where
  "encode_ephemeral_value b3 (DisappearingText x r t) = encode_disappearing_text_payload x t"
| "encode_ephemeral_value b3 (ViewOnceAttachment x r m) = encode_view_once_attachment_payload b3 x m"

fun wf_ephemeral :: "Ephemeral \<Rightarrow> bool" where
  "wf_ephemeral (DisappearingText x r t) \<longleftrightarrow> x \<noteq> 0 \<and> retention_bucket x = Inr r \<and> utf8_valid t"
| "wf_ephemeral (ViewOnceAttachment x r m) \<longleftrightarrow> x \<noteq> 0 \<and> retention_bucket x = Inr r \<and> wf_manifest m"

text \<open>The bytes of a payload, and when the decoder reaches the body.\<close>

definition ephemeral_frame :: "u8 \<Rightarrow> u64 \<Rightarrow> u64 \<Rightarrow> bytes \<Rightarrow> bytes" where
  "ephemeral_frame mode x r body = 1 # mode # [0, 0] @ to_le64 x @ to_le64 r
     @ to_le32 (word_of_nat (length body)) @ body"

lemma length_ephemeral_frame [simp]: "length (ephemeral_frame mode x r body) = 24 + length body"
  by (simp add: ephemeral_frame_def)

lemma to_le16_zero: "to_le16 0 = [0, 0]"
  by (simp add: to_le16_def numeral_2_eq_2)

lemma encode_payload_iff:
  "encode_payload mode x body = Inr b \<longleftrightarrow>
     (\<exists>r. retention_bucket x = Inr r \<and> length body \<le> 65507 \<and> b = ephemeral_frame mode x r body)"
  by (auto simp: encode_payload_def result_simps ephemeral_frame_def to_le16_zero)

lemma frame_iff:
  "24 \<le> length b \<and> b ! 0 = 1 \<and> b ! 1 = mode \<and> subslice 2 4 b = [0, 0] \<and> x = from_le64 (subslice 4 12 b)
     \<and> r = from_le64 (subslice 12 20 b) \<and> unat (from_le32 (subslice 20 24 b)) = length b - 24
     \<and> body = drop 24 b
   \<longleftrightarrow> b = ephemeral_frame mode x r body \<and> length body < 2 ^ 32" (is "?L \<longleftrightarrow> ?R")
proof
  assume ?L
  then have l: "24 \<le> length b" and e: "length b - 24 = unat (from_le32 (subslice 20 24 b))"
    by auto
  have n: "word_of_nat (length b - 24) = from_le32 (subslice 20 24 b)" by (simp add: e)
  have "ephemeral_frame mode x r body = b ! 0 # b ! 1 # subslice 2 4 b @ subslice 4 12 b @ subslice 12 20 b
      @ subslice 20 24 b @ drop 24 b"
    using \<open>?L\<close> n by (simp add: ephemeral_frame_def)
  also have "\<dots> = b" using l by (cases "b = []") (simp_all add: peel_simps)
  finally show ?R using \<open>?L\<close> unsigned_less [of "from_le32 (subslice 20 24 b)", where 'a = nat] by simp
next
  assume ?R
  then show ?L by (simp add: ephemeral_frame_def wire_simps)
qed

lemma ephemeral_text_iff:
  assumes "length b \<le> 65507"
  shows "decode_ephemeral_payload b3 b = DecodedValue (DisappearingText x r t) \<longleftrightarrow>
    wf_ephemeral (DisappearingText x r t) \<and> encode_disappearing_text_payload x t = Inr b"
proof -
  have "decode_ephemeral_payload b3 b = DecodedValue (DisappearingText x r t) \<longleftrightarrow>
      (24 \<le> length b \<and> b ! 0 = 1 \<and> b ! 1 = 1 \<and> subslice 2 4 b = [0, 0]
        \<and> x = from_le64 (subslice 4 12 b) \<and> r = from_le64 (subslice 12 20 b)
        \<and> unat (from_le32 (subslice 20 24 b)) = length b - 24 \<and> t = drop 24 b)
      \<and> x \<noteq> 0 \<and> retention_bucket x = Inr r \<and> length b \<le> 65531 \<and> utf8_valid t \<and> t \<noteq> []"
    by (auto simp: decode_ephemeral_payload_def ok_eq_Some split: decoded.splits)
  also have "\<dots> \<longleftrightarrow> wf_ephemeral (DisappearingText x r t)
      \<and> encode_disappearing_text_payload x t = Inr b"
    unfolding frame_iff using assms
    by (auto simp: encode_disappearing_text_payload_def encode_payload_iff)
  finally show ?thesis .
qed

lemma ephemeral_attachment_iff:
  "decode_ephemeral_payload b3 b = DecodedValue (ViewOnceAttachment x r m) \<longleftrightarrow>
    wf_ephemeral (ViewOnceAttachment x r m) \<and> encode_view_once_attachment_payload b3 x m = Inr b"
proof -
  have "decode_ephemeral_payload b3 b = DecodedValue (ViewOnceAttachment x r m) \<longleftrightarrow>
      (\<exists>body. (24 \<le> length b \<and> b ! 0 = 1 \<and> b ! 1 = 2 \<and> subslice 2 4 b = [0, 0]
        \<and> x = from_le64 (subslice 4 12 b) \<and> r = from_le64 (subslice 12 20 b)
        \<and> unat (from_le32 (subslice 20 24 b)) = length b - 24 \<and> body = drop 24 b)
      \<and> x \<noteq> 0 \<and> retention_bucket x = Inr r \<and> length b \<le> 65531
      \<and> decode_attachment_manifest b3 body = DecodedValue m)"
    by (auto simp: decode_ephemeral_payload_def ok_eq_Some split: decoded.splits)
  also have "\<dots> \<longleftrightarrow> wf_ephemeral (ViewOnceAttachment x r m)
      \<and> encode_view_once_attachment_payload b3 x m = Inr b"
    unfolding frame_iff
    by (auto simp: encode_view_once_attachment_payload_def encode_payload_iff
        result_simps decode_manifest_iff)
  finally show ?thesis .
qed

text \<open>A payload inside a content frame has at most \<^const>\<open>MAX_CONTENT_PAYLOAD_LEN\<close> bytes.\<close>

definition decode_framed_ephemeral :: "(bytes \<Rightarrow> bytes) \<Rightarrow> bytes \<Rightarrow> Ephemeral option" where
  "decode_framed_ephemeral b3 b =
     (if length b \<le> MAX_CONTENT_PAYLOAD_LEN then decoded_value (decode_ephemeral_payload b3 b)
      else None)"

lemma encoded_ephemeral_framed:
  assumes "encode_ephemeral_value b3 e = Inr b" and "wf_ephemeral e"
  shows "length b \<le> 65507"
proof (cases e)
  case (DisappearingText x r t)
  with assms show ?thesis
    by (auto simp: encode_disappearing_text_payload_def encode_payload_iff ephemeral_frame_def
        split: if_splits)
next
  case (ViewOnceAttachment x r m)
  with assms obtain body where body: "encode_attachment_manifest b3 m = Inr body"
    and b: "\<exists>r. b = ephemeral_frame 2 x r body" and wf: "wf_manifest m"
    by (auto simp: encode_view_once_attachment_payload_def result_simps encode_payload_iff)
  from body wf have "length body \<le> 680"
    using length_manifest_bytes [of b3 m] by (auto simp: encode_manifest_eq result_simps)
  with b show ?thesis by (auto simp: ephemeral_frame_def)
qed

lemma decode_framed_ephemeral_iff:
  "decode_framed_ephemeral b3 b = Some e \<longleftrightarrow> wf_ephemeral e \<and> encode_ephemeral_value b3 e = Inr b"
  using encoded_ephemeral_framed [of b3 e b]
  by (cases e)
    (auto simp: decode_framed_ephemeral_def decoded_value_eq_Some ephemeral_text_iff
      ephemeral_attachment_iff)

interpretation ephemeral: strict_codec wf_ephemeral "encode_ephemeral_value b3"
  "decode_framed_ephemeral b3" for b3
  by unfold_locales (simp_all add: decode_framed_ephemeral_iff)

text \<open>
  Within a content frame the ephemeral payload format is canonical: the decoder accepts exactly
  the encodings of disappearing texts and view-once manifests with a non-zero deadline, and the
  relay hint it returns is the hour bucket of that deadline.
\<close>

theorem ephemeral_payload_canonical:
  assumes "length b \<le> MAX_CONTENT_PAYLOAD_LEN"
  shows "decode_ephemeral_payload b3 b = DecodedValue e \<longleftrightarrow>
    wf_ephemeral e \<and> encode_ephemeral_value b3 e = Inr b"
  using assms ephemeral.accepts_iff [of b3 b e]
  by (simp add: decode_framed_ephemeral_def decoded_value_eq_Some)

theorem ephemeral_payload_canonical_witness:
  "decode_ephemeral_payload (\<lambda>_. zeros 32) (ephemeral_frame 1 60 3600 [0x68, 0x69])
     = DecodedValue (DisappearingText 60 3600 [0x68, 0x69])"
proof -
  have "retention_bucket 60 = Inr 3600" by (simp add: retention_bucket_unat)
  then have "wf_ephemeral (DisappearingText 60 3600 [0x68, 0x69])
      \<and> encode_disappearing_text_payload 60 [0x68, 0x69] = Inr (ephemeral_frame 1 60 3600 [0x68, 0x69])"
    by (simp add: encode_disappearing_text_payload_def encode_payload_iff)
  then show ?thesis
    using ephemeral_payload_canonical [of "ephemeral_frame 1 60 3600 [0x68, 0x69]" "\<lambda>_. zeros 32"
        "DisappearingText 60 3600 [0x68, 0x69]"]
    by simp
qed

text \<open>
  C40. The encoder has no guard for a zero deadline: it emits a payload for it, and the decoder
  reports every such payload as malformed.
\<close>

theorem zero_deadline_encodes_undecodable:
  assumes "txt \<noteq> []" and "length txt \<le> 65483"
  shows "\<exists>b. encode_disappearing_text_payload 0 txt = Inr b
    \<and> decode_ephemeral_payload b3 b = DecodedMalformed"
proof -
  have "retention_bucket 0 = Inr 0" by (simp add: retention_bucket_def)
  then have "encode_disappearing_text_payload 0 txt = Inr (ephemeral_frame 1 0 0 txt)"
    using assms by (simp add: encode_disappearing_text_payload_def encode_payload_iff)
  moreover have "decode_ephemeral_payload b3 (ephemeral_frame 1 0 0 txt) = DecodedMalformed"
    using assms by (simp add: decode_ephemeral_payload_def ephemeral_frame_def wire_simps)
  ultimately show ?thesis by blast
qed

theorem zero_deadline_encodes_undecodable_witness:
  "\<exists>b. encode_disappearing_text_payload 0 [0x68] = Inr b
    \<and> decode_ephemeral_payload (\<lambda>_. zeros 32) b = DecodedMalformed"
  by (rule zero_deadline_encodes_undecodable) simp_all

end
