(* ===== verification/Envelope.thy ===== *)
theory Envelope
  imports Admission Ephemeral
begin

text \<open>
  \<^verbatim>\<open>kult-protocol/src/envelope.rs\<close>: the sealed envelope, the only unit the carriers move.

  Both wire versions are covered. The lemmas show that the bounded encoder and the decoder form a
  strict codec, that retention hints minted by \<open>retention_bucket\<close> are always accepted, and that the
  deduplication id of a first-contact envelope does not depend on what surrounds the introduction.
\<close>

section \<open>Constants and data\<close>

definition ENVELOPE_VERSION_V1 :: u8 where [simp]: "ENVELOPE_VERSION_V1 = 1"
definition ENVELOPE_VERSION_V2 :: u8 where [simp]: "ENVELOPE_VERSION_V2 = 2"
definition ENVELOPE_HEADER_LEN :: nat where [simp]: "ENVELOPE_HEADER_LEN = 1 + 1 + 32 + 8"
definition ENVELOPE_V1_HEADER_LEN :: nat where [simp]: "ENVELOPE_V1_HEADER_LEN = 1 + 1 + 32"
definition ENVELOPE_V2_HEADER_LEN :: nat where [simp]: "ENVELOPE_V2_HEADER_LEN = ENVELOPE_HEADER_LEN"
definition MAX_ENVELOPE_BYTES :: nat where [simp]: "MAX_ENVELOPE_BYTES = 128 * 1024"

datatype EnvelopeKind = Message | Handshake | Receipt | Fragment | GroupControl | GroupMessage

fun kind_code :: "EnvelopeKind \<Rightarrow> u8" where
  "kind_code Message = 0x01"
| "kind_code Handshake = 0x02"
| "kind_code Receipt = 0x03"
| "kind_code Fragment = 0x04"
| "kind_code GroupControl = 0x05"
| "kind_code GroupMessage = 0x06"

definition kind_try_from :: "u8 \<Rightarrow> EnvelopeKind result" where
  "kind_try_from v =
     (if v = 0x01 then Inr Message else if v = 0x02 then Inr Handshake
      else if v = 0x03 then Inr Receipt else if v = 0x04 then Inr Fragment
      else if v = 0x05 then Inr GroupControl else if v = 0x06 then Inr GroupMessage
      else Inl Malformed)"

record Envelope =
  env_kind :: EnvelopeKind
  env_token :: bytes
  env_retention_until :: "u64 option"
  env_body :: bytes

section \<open>Operations\<close>

definition envelope_new :: "EnvelopeKind \<Rightarrow> bytes \<Rightarrow> bytes \<Rightarrow> Envelope" where
  "envelope_new kind token body =
     \<lparr>env_kind = kind, env_token = token, env_retention_until = None, env_body = body\<rparr>"

definition envelope_new_retained :: "EnvelopeKind \<Rightarrow> bytes \<Rightarrow> u64 \<Rightarrow> bytes \<Rightarrow> Envelope result" where
  "envelope_new_retained kind token retention body =
     (if retention = 0 \<or> retention mod RETENTION_BUCKET_SECS \<noteq> 0 then Inl Malformed
      else Inr \<lparr>env_kind = kind, env_token = token, env_retention_until = Some retention,
                env_body = body\<rparr>)"

definition header_len :: "Envelope \<Rightarrow> nat" where
  "header_len e =
     (if env_retention_until e \<noteq> None then ENVELOPE_V2_HEADER_LEN else ENVELOPE_V1_HEADER_LEN)"

definition encoded_len :: "Envelope \<Rightarrow> nat" where
  "encoded_len e = header_len e + length (env_body e)"

definition envelope_encode :: "Envelope \<Rightarrow> bytes" where
  "envelope_encode e =
     [if env_retention_until e \<noteq> None then ENVELOPE_VERSION_V2 else ENVELOPE_VERSION_V1]
     @ [kind_code (env_kind e)] @ env_token e
     @ (case env_retention_until e of None \<Rightarrow> [] | Some r \<Rightarrow> to_le64 r) @ env_body e"

definition try_encode :: "Envelope \<Rightarrow> bytes result" where
  "try_encode e =
     (if encoded_len e > MAX_ENVELOPE_BYTES then Inl EnvelopeTooLarge else Inr (envelope_encode e))"

definition envelope_decode :: "bytes \<Rightarrow> Envelope result" where
  "envelope_decode b =
     (if length b > MAX_ENVELOPE_BYTES then Inl EnvelopeTooLarge
      else if length b < ENVELOPE_V1_HEADER_LEN then Inl Malformed
      else try_then (kind_try_from (b ! 1)) (\<lambda>kind.
        try_then
          (if b ! 0 = ENVELOPE_VERSION_V1 then Inr (None, ENVELOPE_V1_HEADER_LEN)
           else if b ! 0 = ENVELOPE_VERSION_V2 \<and> length b \<ge> ENVELOPE_V2_HEADER_LEN then
             (let v = from_le64 (subslice ENVELOPE_V1_HEADER_LEN ENVELOPE_V2_HEADER_LEN b) in
              if v = 0 \<or> v mod RETENTION_BUCKET_SECS \<noteq> 0 then Inl Malformed
              else Inr (Some v, ENVELOPE_V2_HEADER_LEN))
           else Inl Malformed) (\<lambda>(retention, hlen).
        Inr \<lparr>env_kind = kind, env_token = subslice 2 ENVELOPE_V1_HEADER_LEN b,
             env_retention_until = retention, env_body = drop hlen b\<rparr>)))"

definition content_id :: "(bytes \<Rightarrow> bytes) \<Rightarrow> (bytes \<Rightarrow> bytes) \<Rightarrow> Envelope \<Rightarrow> bytes" where
  "content_id sha b3 e =
     (case (if env_kind e = Handshake then verified_content_id sha (env_body e) else None) of
        Some cid \<Rightarrow> cid
      | None \<Rightarrow> take 16 (b3 (envelope_encode e)))"

section \<open>The envelope is a strict codec\<close>

text \<open>The constructors and the decoder only build these envelopes.\<close>

definition wf_envelope :: "Envelope \<Rightarrow> bool" where
  "wf_envelope e \<longleftrightarrow> length (env_token e) = 32
     \<and> (case env_retention_until e of None \<Rightarrow> True | Some r \<Rightarrow> r \<noteq> 0 \<and> r mod RETENTION_BUCKET_SECS = 0)"

lemma kind_try_from_iff: "kind_try_from v = Inr k \<longleftrightarrow> v = kind_code k"
  by (cases k) (auto simp: kind_try_from_def)

lemma length_envelope_encode: "wf_envelope e \<Longrightarrow> length (envelope_encode e) = encoded_len e"
  by (auto simp: wf_envelope_def envelope_encode_def encoded_len_def header_len_def split: option.splits)

lemma envelope_decode_encode:
  assumes "wf_envelope e" and "try_encode e = Inr b"
  shows "envelope_decode b = Inr e"
proof -
  obtain k tok ret body where e: "e = \<lparr>env_kind = k, env_token = tok, env_retention_until = ret,
      env_body = body\<rparr>" by (cases e)
  have b: "b = envelope_encode e" and "encoded_len e \<le> 131072"
    using assms(2) by (auto simp: try_encode_def split: if_splits)
  then have len: "length b \<le> 131072" using assms(1) by (simp add: length_envelope_encode)
  have k: "kind_try_from (kind_code k) = Inr k" by (simp add: kind_try_from_iff)
  show ?thesis
    using assms(1) len
    by (cases ret) (simp_all add: b e envelope_decode_def envelope_encode_def wf_envelope_def wire_simps k)
qed

lemma envelope_encode_decode:
  assumes "envelope_decode b = Inr e"
  shows "try_encode e = Inr b \<and> wf_envelope e"
proof -
  obtain k tok ret body where e: "e = \<lparr>env_kind = k, env_token = tok, env_retention_until = ret,
      env_body = body\<rparr>" by (cases e)
  from assms have len: "length b \<le> 131072" "34 \<le> length b" and k: "kind_code k = b ! 1"
    and tok: "tok = subslice 2 34 b"
    by (auto simp: envelope_decode_def result_simps kind_try_from_iff e split: if_splits)
  then have ne: "b \<noteq> []" by auto
  show ?thesis
  proof (cases ret)
    case None
    then have v: "b ! 0 = 1" and body: "body = drop 34 b"
      using assms by (auto simp: envelope_decode_def result_simps e split: if_splits)
    have "envelope_encode e = b ! 0 # b ! 1 # subslice 2 34 b @ drop 34 b"
      by (simp add: envelope_encode_def e None v k tok body)
    also have "\<dots> = b" using len ne by (simp add: peel_simps)
    finally show ?thesis using len
      by (simp add: try_encode_def encoded_len_def header_len_def wf_envelope_def e None tok body)
  next
    case (Some r)
    then have v: "b ! 0 = 2" and body: "body = drop 42 b" and l: "42 \<le> length b"
      and r: "r = from_le64 (subslice 34 42 b)" and ok: "r \<noteq> 0" "r mod 3600 = 0"
      using assms
      by (auto simp: envelope_decode_def result_simps e split: if_splits del: mod_0_imp_dvd)
    have "envelope_encode e = b ! 0 # b ! 1 # subslice 2 34 b @ subslice 34 42 b @ drop 42 b"
      using l by (simp add: envelope_encode_def e Some v k tok body r)
    also have "\<dots> = b" using l ne by (simp add: peel_simps)
    finally show ?thesis using len l ok
      by (simp add: try_encode_def encoded_len_def header_len_def wf_envelope_def e Some tok body)
  qed
qed

interpretation env: strict_codec wf_envelope try_encode "\<lambda>b. ok (envelope_decode b)"
  by unfold_locales
    (auto simp: ok_eq_Some dest: envelope_encode_decode intro: envelope_decode_encode)

text \<open>
  Envelopes have one encoding: the decoder accepts exactly the outputs of the bounded encoder,
  and it returns the envelope that was encoded, in both wire versions.
\<close>

theorem envelope_canonical:
  "envelope_decode b = Inr e \<longleftrightarrow> wf_envelope e \<and> try_encode e = Inr b"
  using env.accepts_iff [of b e] by (simp add: ok_eq_Some)

section \<open>Retention hints and content ids\<close>

text \<open>
  A retention hint that the ephemeral layer derives from a non-zero deadline is accepted by
  the retained-envelope constructor, and the envelope it builds survives the wire.
\<close>

theorem derived_retention_accepted:
  assumes "retention_bucket deadline = Inr r" and "deadline \<noteq> 0" and "length token = 32"
    and "length body \<le> MAX_ENVELOPE_BYTES - ENVELOPE_V2_HEADER_LEN"
  shows "\<exists>e b. envelope_new_retained k token r body = Inr e \<and> try_encode e = Inr b
    \<and> envelope_decode b = Inr e \<and> env_retention_until e = Some r"
proof -
  from assms(1) have "3600 dvd unat r" "unat deadline \<le> unat r"
    by (simp_all add: retention_bucket_unat)
  moreover have "0 < unat deadline" using assms(2) by (simp add: unat_gt_0)
  moreover have "unat (r mod 3600) = unat r mod 3600" by (simp add: unat_mod)
  ultimately have r: "r \<noteq> 0" "r mod 3600 = 0"
    by (auto simp: unat_eq_0 [symmetric] simp del: unat_eq_0)
  define e where "e = \<lparr>env_kind = k, env_token = token, env_retention_until = Some r, env_body = body\<rparr>"
  have wf: "wf_envelope e" using r assms(3) by (simp add: wf_envelope_def e_def)
  have enc: "try_encode e = Inr (envelope_encode e)"
    using assms(4) by (simp add: try_encode_def encoded_len_def header_len_def e_def)
  with wf have "envelope_decode (envelope_encode e) = Inr e" by (rule envelope_decode_encode)
  with enc r show ?thesis by (auto simp: envelope_new_retained_def e_def)
qed

theorem derived_retention_accepted_witness:
  "\<exists>e b. envelope_new_retained Message (zeros 32) 3600 [] = Inr e \<and> try_encode e = Inr b
    \<and> envelope_decode b = Inr e \<and> env_retention_until e = Some 3600"
  by (rule derived_retention_accepted [of 60]) (simp_all add: retention_bucket_unat)

text \<open>
  The deduplication id of a first-contact envelope is the introduction's own id. It is the same
  whatever token, retention hint, proof or prekey bundle carries the introduction, so a retry
  with fresh work is recognised as the same request.
\<close>

theorem introduction_content_id_stable:
  assumes "wf_admission a" and "admission_encode sha a = Inr body"
    and "env_kind e = Handshake" and "env_body e = body"
  shows "content_id sha b3 e = introduction_content_id sha (adm_context a) (adm_sealed_flight a)"
proof -
  from admission_decode_encode [OF assms(1,2)]
  have "verified_content_id sha body = Some (adm_content_id a)"
    by (auto simp: admission_decode_def verified_content_id_def result_simps split: if_splits sum.splits)
  moreover have "adm_content_id a = introduction_content_id sha (adm_context a) (adm_sealed_flight a)"
    using assms(2) by (auto simp: admission_encode_def result_simps split: if_splits)
  ultimately show ?thesis using assms(3,4) by (simp add: content_id_def)
qed

theorem introduction_content_id_stable_witness:
  "let a = \<lparr>adm_context = \<lparr>target_account = replicate 32 1, target_device = replicate 32 2,
             bundle_digest = replicate 32 3, validity_epoch = 4\<rparr>,
           adm_content_id = zeros 16, adm_proof_kind = Puzzle, adm_proof = zeros 32,
           adm_target_bundle = [5], adm_sealed_flight = [6]\<rparr>;
       sha = (\<lambda>_. zeros 32)
   in \<exists>body. admission_encode sha a = Inr body
     \<and> content_id sha sha (envelope_new Handshake (zeros 32) body)
         = introduction_content_id sha (adm_context a) (adm_sealed_flight a)"
proof -
  define a where "a = \<lparr>adm_context = \<lparr>target_account = replicate 32 1,
      target_device = replicate 32 2, bundle_digest = replicate 32 3, validity_epoch = 4\<rparr>,
    adm_content_id = zeros 16, adm_proof_kind = Puzzle, adm_proof = zeros 32,
    adm_target_bundle = [5], adm_sealed_flight = [6]\<rparr>"
  have "take 16 (zeros 32) = zeros 16" by (simp add: zeros_def)
  then obtain body where enc: "admission_encode (\<lambda>_. zeros 32) a = Inr body"
    by (simp add: a_def admission_encode_def validate_lengths_def introduction_content_id_def)
      (simp add: zeros_def)
  have "wf_admission a" by (simp add: a_def wf_admission_def)
  from introduction_content_id_stable [OF this enc,
      of "envelope_new Handshake (zeros 32) body" "\<lambda>_. zeros 32"] enc
  show ?thesis by (auto simp: envelope_new_def a_def)
qed

end
