(* ===== verification/Bundle.thy ===== *)
theory Bundle
  imports Envelope
begin

text \<open>
  \<^verbatim>\<open>kult-protocol/src/bundle.rs\<close>: courier bundles, a magic followed by length-prefixed envelopes.

  The export loop and the import loop keep the source's running checks. The lemmas show that import
  accepts exactly what export produces, and that every accepted bundle is within both limits.
\<close>

section \<open>Operations\<close>

definition BUNDLE_MAGIC :: bytes where "BUNDLE_MAGIC = ascii ''KKB1''"
definition MAX_BUNDLE_BYTES :: nat where [simp]: "MAX_BUNDLE_BYTES = 16 * 1024 * 1024"
definition MAX_BUNDLE_ENVELOPES :: nat where [simp]: "MAX_BUNDLE_ENVELOPES = 4096"

fun export_loop :: "Envelope list \<Rightarrow> bytes \<Rightarrow> bytes result" where
  "export_loop [] out = Inr out"
| "export_loop (e # es) out =
     try_then (try_encode e) (\<lambda>b.
       if length out + 4 + length b > MAX_BUNDLE_BYTES then Inl BundleTooLarge
       else export_loop es (out @ to_le32 (word_of_nat (length b)) @ b))"

definition bundle_export :: "Envelope list \<Rightarrow> bytes result" where
  "bundle_export es =
     (if length es > MAX_BUNDLE_ENVELOPES then Inl TooManyBundleEntries
      else export_loop es BUNDLE_MAGIC)"

function import_loop :: "bytes \<Rightarrow> Envelope list \<Rightarrow> Envelope list result" where
  "import_loop cursor envs =
     (if cursor = [] then Inr envs
      else if length envs \<ge> MAX_BUNDLE_ENVELOPES then Inl TooManyBundleEntries
      else if length cursor < 4 then Inl Malformed
      else
        let len = unat (from_le32 (take 4 cursor)) in
        if len > MAX_ENVELOPE_BYTES then Inl EnvelopeTooLarge
        else if length cursor < 4 + len then Inl Malformed
        else try_then (envelope_decode (subslice 4 (4 + len) cursor)) (\<lambda>e.
          import_loop (drop (4 + len) cursor) (envs @ [e])))"
  by pat_completeness auto
termination
  by (relation "measure (\<lambda>(cursor, _). length cursor)") auto

declare import_loop.simps [simp del]

definition bundle_import :: "bytes \<Rightarrow> Envelope list result" where
  "bundle_import b =
     (if length b > MAX_BUNDLE_BYTES then Inl BundleTooLarge
      else try_then (ok_or (strip_prefix b BUNDLE_MAGIC) Malformed) (\<lambda>rest. import_loop rest []))"

section \<open>Import accepts exactly the exports\<close>

definition entry :: "Envelope \<Rightarrow> bytes" where
  "entry e = to_le32 (word_of_nat (length (envelope_encode e))) @ envelope_encode e"

definition small_envelope :: "Envelope \<Rightarrow> bool" where
  "small_envelope e \<longleftrightarrow> wf_envelope e \<and> encoded_len e \<le> 131072"

lemma try_encode_small: "small_envelope e \<Longrightarrow> try_encode e = Inr (envelope_encode e)"
  by (simp add: small_envelope_def try_encode_def)

lemma export_loop_iff:
  assumes "list_all wf_envelope es" and "length out \<le> 16777216"
  shows "export_loop es out = Inr b \<longleftrightarrow>
    list_all small_envelope es \<and> b = out @ concat (map entry es) \<and> length b \<le> 16777216"
  using assms
proof (induction es arbitrary: out)
  case (Cons e es)
  show ?case
  proof (cases "encoded_len e \<le> 131072")
    case True
    then have small: "small_envelope e" using Cons.prems by (simp add: small_envelope_def)
    show ?thesis
    proof (cases "length out + 4 + length (envelope_encode e) > 16777216")
      case True
      then show ?thesis using small by (auto simp: try_encode_small entry_def)
    next
      case False
      then have "length (out @ entry e) \<le> 16777216" by (simp add: entry_def)
      with Cons False small show ?thesis
        by (simp add: try_encode_small) (simp add: entry_def)
    qed
  next
    case False
    then show ?thesis by (simp add: try_encode_def small_envelope_def)
  qed
qed auto

lemma import_loop_entry:
  assumes "small_envelope e" and "length envs < 4096"
  shows "import_loop (entry e @ rest) envs = import_loop rest (envs @ [e])"
proof -
  have len: "length (envelope_encode e) \<le> 131072"
    using assms(1) by (simp add: small_envelope_def length_envelope_encode)
  have "envelope_decode (envelope_encode e) = Inr e"
    using assms(1) by (intro envelope_decode_encode try_encode_small) (auto simp: small_envelope_def)
  then show ?thesis using assms(2) len
    by (subst import_loop.simps) (auto simp: entry_def wire_simps)
qed

lemma import_loop_complete:
  assumes "list_all small_envelope es" and "length envs + length es \<le> 4096"
  shows "import_loop (concat (map entry es)) envs = Inr (envs @ es)"
  using assms
proof (induction es arbitrary: envs)
  case Nil
  then show ?case by (simp add: import_loop.simps)
next
  case (Cons e es)
  then show ?case by (simp add: import_loop_entry)
qed

lemma import_loop_sound:
  "import_loop cursor envs = Inr all \<Longrightarrow> length envs \<le> 4096 \<Longrightarrow>
     \<exists>es. all = envs @ es \<and> cursor = concat (map entry es) \<and> list_all small_envelope es
       \<and> length all \<le> 4096"
proof (induction cursor envs rule: import_loop.induct)
  case (1 cursor envs)
  show ?case
  proof (cases "cursor = []")
    case True
    with "1.prems" show ?thesis by (auto simp: import_loop.simps [of "[]"])
  next
    case False
    define len where "len = unat (from_le32 (take 4 cursor))"
    from "1.prems"(1) False obtain e where
      conds: "length envs < 4096" "4 \<le> length cursor" "len \<le> 131072" "4 + len \<le> length cursor"
      and dec: "envelope_decode (subslice 4 (4 + len) cursor) = Inr e"
      and rest: "import_loop (drop (4 + len) cursor) (envs @ [e]) = Inr all"
      by (subst (asm) import_loop.simps)
        (auto simp: result_simps len_def not_less simp flip: len_def split: if_splits)
    have "\<exists>es. all = (envs @ [e]) @ es \<and> drop (4 + len) cursor = concat (map entry es)
        \<and> list_all small_envelope es \<and> length all \<le> 4096"
      using "1.IH" [OF False _ _ len_def _ _ dec rest] conds by simp
    then obtain es where es: "all = (envs @ [e]) @ es" "drop (4 + len) cursor = concat (map entry es)"
        "list_all small_envelope es" "length all \<le> 4096" by blast
    from dec have small: "small_envelope e" and enc: "envelope_encode e = subslice 4 (4 + len) cursor"
      using envelope_encode_decode [OF dec] by (auto simp: small_envelope_def try_encode_def split: if_splits)
    have "entry e = take 4 cursor @ subslice 4 (4 + len) cursor"
      using conds by (simp add: entry_def enc len_def)
    then have "entry e @ concat (map entry es) = cursor"
      using conds es(2) by (simp add: subslice_peel flip: es(2))
    with es small show ?thesis by (intro exI [of _ "e # es"]) simp
  qed
qed


text \<open>
  C4. A courier bundle is accepted exactly when it is the export of the well-formed envelopes that
  import returns: nothing export emits is refused, and nothing else is accepted.
\<close>

theorem bundle_import_iff_export:
  "bundle_import b = Inr es \<longleftrightarrow> list_all wf_envelope es \<and> bundle_export es = Inr b"
proof -
  have magic: "length BUNDLE_MAGIC = 4" by (simp add: BUNDLE_MAGIC_def)
  have small: "list_all small_envelope es \<Longrightarrow> list_all wf_envelope es"
    by (auto simp: list_all_iff small_envelope_def)
  have "bundle_import b = Inr es \<longleftrightarrow>
      length b \<le> 16777216 \<and> (\<exists>rest. b = BUNDLE_MAGIC @ rest \<and> import_loop rest [] = Inr es)"
    by (auto simp: bundle_import_def result_simps strip_prefix_eq_Some not_less)
  also have "\<dots> \<longleftrightarrow> list_all small_envelope es \<and> length es \<le> 4096
      \<and> b = BUNDLE_MAGIC @ concat (map entry es) \<and> length b \<le> 16777216"
    using import_loop_complete [of es "[]"] import_loop_sound [of _ "[]" es] by auto
  also have "\<dots> \<longleftrightarrow> list_all wf_envelope es \<and> bundle_export es = Inr b"
    using export_loop_iff [of es BUNDLE_MAGIC b] small
    by (auto simp: bundle_export_def magic not_less)
  finally show ?thesis .
qed

end
