(* ===== verification/BTree_Map.thy ===== *)
theory BTree_Map
  imports Komms_Prelude
begin

text \<open>
  \<^verbatim>\<open>alloc::collections::BTreeMap\<close> as the code uses it: a finite map iterated in key order. The model is
  the association list the iterator yields. The locale \<open>ordered_map\<close> is the contract the components
  rely on; they use the lemmas proved inside it through the interpretation \<open>bt\<close>.
\<close>

section \<open>The contract\<close>

locale ordered_map =
  fixes valid :: "'m \<Rightarrow> bool"
    and get :: "'m \<Rightarrow> 'k::linorder \<Rightarrow> 'v option"
    and put :: "'k \<Rightarrow> 'v \<Rightarrow> 'm \<Rightarrow> 'm"
    and remove :: "'k \<Rightarrow> 'm \<Rightarrow> 'm"
    and keys :: "'m \<Rightarrow> 'k list"
  assumes valid_put: "valid m \<Longrightarrow> valid (put k v m)"
    and valid_remove: "valid m \<Longrightarrow> valid (remove k m)"
    and get_put: "valid m \<Longrightarrow> get (put k v m) k' = (if k' = k then Some v else get m k')"
    and get_remove: "valid m \<Longrightarrow> get (remove k m) k' = (if k' = k then None else get m k')"
    and keys_sorted: "valid m \<Longrightarrow> sorted_wrt (<) (keys m)"
    and keys_get: "valid m \<Longrightarrow> k \<in> set (keys m) \<longleftrightarrow> get m k \<noteq> None"
begin

lemma keys_distinct: "valid m \<Longrightarrow> distinct (keys m)"
  using keys_sorted strict_sorted_iff by blast

lemma set_keys: "valid m \<Longrightarrow> set (keys m) = {k. get m k \<noteq> None}"
  using keys_get by blast

lemma keys_unique:
  "valid m \<Longrightarrow> valid m' \<Longrightarrow> (\<And>k. get m k = None \<longleftrightarrow> get m' k = None) \<Longrightarrow> keys m = keys m'"
  by (rule strict_sorted_equal) (auto simp: keys_sorted set_keys)

lemma length_keys: "valid m \<Longrightarrow> length (keys m) = card {k. get m k \<noteq> None}"
  using distinct_card [OF keys_distinct] by (simp add: set_keys)

lemma length_put:
  assumes "valid m"
  shows "length (keys (put k v m)) = (if get m k = None then length (keys m) + 1 else length (keys m))"
proof -
  have "{k'. get (put k v m) k' \<noteq> None} = insert k (set (keys m))"
    using assms by (auto simp: get_put set_keys split: if_splits)
  then have "length (keys (put k v m)) = card (insert k (set (keys m)))"
    using assms by (simp add: length_keys valid_put)
  moreover have "k \<in> set (keys m) \<longleftrightarrow> get m k \<noteq> None" using assms by (rule keys_get)
  moreover have "card (set (keys m)) = length (keys m)" using assms by (simp add: distinct_card keys_distinct)
  ultimately show ?thesis by (auto simp: card_insert_if)
qed

lemma length_remove_le: "valid m \<Longrightarrow> length (keys (remove k m)) \<le> length (keys m)"
proof -
  assume m: "valid m"
  then have "{k'. get (remove k m) k' \<noteq> None} \<subseteq> {k'. get m k' \<noteq> None}"
    by (auto simp: get_remove split: if_splits)
  moreover have "finite {k'. get m k' \<noteq> None}" using m set_keys [of m] by (metis finite_set)
  ultimately show ?thesis using m by (simp add: length_keys valid_remove card_mono)
qed

end

section \<open>The model\<close>

type_synonym ('k, 'v) btree = "('k \<times> 'v) list"

definition bt_valid :: "('k::linorder, 'v) btree \<Rightarrow> bool" where
  "bt_valid m \<longleftrightarrow> strictly_increasing (map fst m)"

definition bt_get :: "('k, 'v) btree \<Rightarrow> 'k \<Rightarrow> 'v option" where
  "bt_get m k = map_of m k"

fun bt_insert :: "'k::linorder \<Rightarrow> 'v \<Rightarrow> ('k, 'v) btree \<Rightarrow> ('k, 'v) btree" where
  "bt_insert k v [] = [(k, v)]"
| "bt_insert k v ((k', v') # m) =
     (if k < k' then (k, v) # (k', v') # m
      else if k = k' then (k, v) # m
      else (k', v') # bt_insert k v m)"

definition bt_remove :: "'k \<Rightarrow> ('k, 'v) btree \<Rightarrow> ('k, 'v) btree" where
  "bt_remove k m = filter (\<lambda>(k', _). k' \<noteq> k) m"

definition bt_retain :: "('v \<Rightarrow> bool) \<Rightarrow> ('k, 'v) btree \<Rightarrow> ('k, 'v) btree" where
  "bt_retain p m = filter (\<lambda>(_, v). p v) m"

definition bt_keys :: "('k, 'v) btree \<Rightarrow> 'k list" where
  "bt_keys m = map fst m"

definition bt_values :: "('k, 'v) btree \<Rightarrow> 'v list" where
  "bt_values m = map snd m"

section \<open>The model meets the contract\<close>

lemma bt_valid_Cons:
  "bt_valid ((k, v) # m) \<longleftrightarrow> (\<forall>k'\<in>set (bt_keys m). k < k') \<and> bt_valid m"
  by (auto simp: bt_valid_def bt_keys_def strictly_increasing_iff)

lemma bt_valid_Nil [simp]: "bt_valid []"
  by (simp add: bt_valid_def)

lemma bt_get_Nil [simp]: "bt_get [] k = None"
  by (simp add: bt_get_def)

lemma bt_get_Cons: "bt_get ((k', v) # m) k = (if k = k' then Some v else bt_get m k)"
  by (auto simp: bt_get_def)

lemma bt_keys_Cons [simp]: "bt_keys ((k, v) # m) = k # bt_keys m"
  by (simp add: bt_keys_def)

lemma bt_keys_Nil [simp]: "bt_keys [] = []"
  by (simp add: bt_keys_def)

lemma bt_keys_get: "k \<in> set (bt_keys m) \<longleftrightarrow> bt_get m k \<noteq> None"
  by (induction m) (auto simp: bt_get_Cons split: if_splits)

lemma set_bt_keys_insert: "set (bt_keys (bt_insert k v m)) = insert k (set (bt_keys m))"
  by (induction k v m rule: bt_insert.induct) auto

lemma bt_valid_insert: "bt_valid m \<Longrightarrow> bt_valid (bt_insert k v m)"
  by (induction k v m rule: bt_insert.induct)
    (auto simp: bt_valid_Cons set_bt_keys_insert)

lemma bt_get_insert:
  "bt_valid m \<Longrightarrow> bt_get (bt_insert k v m) k' = (if k' = k then Some v else bt_get m k')"
  by (induction k v m rule: bt_insert.induct) (auto simp: bt_get_Cons bt_valid_Cons)

lemma bt_valid_filter: "bt_valid m \<Longrightarrow> bt_valid (filter p m)"
  by (auto simp: bt_valid_def strictly_increasing_iff sorted_wrt_map intro: sorted_wrt_filter)

lemma bt_get_remove: "bt_get (bt_remove k m) k' = (if k' = k then None else bt_get m k')"
  by (induction m) (auto simp: bt_remove_def bt_get_Cons)

lemma bt_insert_insert [simp]: "bt_insert k v (bt_insert k v' m) = bt_insert k v m"
  by (induction k v m rule: bt_insert.induct) auto

lemma bt_remove_insert [simp]: "bt_remove k (bt_insert k v m) = bt_remove k m"
  by (induction k v m rule: bt_insert.induct) (auto simp: bt_remove_def)

lemma bt_get_retain:
  "bt_valid m \<Longrightarrow> bt_get (bt_retain p m) k = (case bt_get m k of None \<Rightarrow> None | Some v \<Rightarrow> if p v then Some v else None)"
proof (induction m)
  case (Cons x m)
  obtain k' v where x: "x = (k', v)" by (cases x)
  have "k \<notin> set (bt_keys m)" if "k = k'" using Cons.prems that by (auto simp: x bt_valid_Cons)
  then have "bt_get m k = None" if "k = k'" using that by (simp add: bt_keys_get)
  with Cons show ?case by (auto simp: x bt_retain_def bt_get_Cons bt_valid_Cons)
qed (simp add: bt_retain_def)

lemma bt_valid_retain: "bt_valid m \<Longrightarrow> bt_valid (bt_retain p m)"
  by (simp add: bt_retain_def bt_valid_filter)

lemma length_bt_retain: "length (bt_retain p m) \<le> length m"
  by (simp add: bt_retain_def)

lemma length_bt_keys [simp]: "length (bt_keys m) = length m"
  by (simp add: bt_keys_def)

lemma bt_valid_remove: "bt_valid m \<Longrightarrow> bt_valid (bt_remove k m)"
  by (simp add: bt_remove_def bt_valid_filter)

lemma bt_keys_sorted: "bt_valid m \<Longrightarrow> sorted_wrt (<) (bt_keys m)"
  by (simp add: bt_valid_def bt_keys_def strictly_increasing_iff)

text \<open>A map is determined by its lookups.\<close>

lemma bt_get_ext: "bt_valid m \<Longrightarrow> bt_valid m' \<Longrightarrow> (\<And>k. bt_get m k = bt_get m' k) \<Longrightarrow> m = m'"
proof (induction m arbitrary: m')
  case Nil
  show ?case
  proof (cases m')
    case (Cons a r)
    then show ?thesis using Nil.prems(3) [of "fst a"] by (cases a) (simp add: bt_get_Cons)
  qed simp
next
  case (Cons a m)
  obtain k v where a: "a = (k, v)" by (cases a)
  have "m' \<noteq> []" using Cons.prems(3) [of k] by (auto simp: a bt_get_Cons)
  then obtain k' v' r where m': "m' = (k', v') # r" by (cases m') auto
  have lt: "\<And>j. j \<in> set (bt_keys m) \<Longrightarrow> k < j" "\<And>j. j \<in> set (bt_keys r) \<Longrightarrow> k' < j"
    and ok: "bt_valid m" "bt_valid r"
    using Cons.prems(1,2) by (auto simp: a m' bt_valid_Cons)
  have "bt_get (a # m) k \<noteq> None" "bt_get m' k' \<noteq> None" by (simp_all add: a m' bt_get_Cons)
  then have "k \<in> set (bt_keys m')" "k' \<in> set (bt_keys (a # m))"
    unfolding bt_keys_get using Cons.prems(3) by simp_all
  then have k: "k' = k" using lt by (auto simp: a m' dest: less_asym)
  then have v: "v' = v" using Cons.prems(3) [of k] by (simp add: a m' bt_get_Cons)
  have "bt_get m j = bt_get r j" for j
  proof (cases "j = k")
    case True
    have "k \<notin> set (bt_keys m)" "k \<notin> set (bt_keys r)" using lt k by auto
    then show ?thesis using True by (simp add: bt_keys_get)
  next
    case False
    then show ?thesis using Cons.prems(3) [of j] by (simp add: a m' k bt_get_Cons)
  qed
  then have "m = r" using Cons.IH ok by blast
  then show ?case by (simp add: a m' k v)
qed

interpretation bt: ordered_map bt_valid bt_get bt_insert bt_remove bt_keys
  by unfold_locales
    (simp_all add: bt_valid_insert bt_valid_remove bt_get_insert bt_get_remove bt_keys_sorted
      bt_keys_get)

end
