(* ===== verification/Fragmentation.thy ===== *)
theory Fragmentation
  imports Envelope BTree_Map
begin

text \<open>
  \<^verbatim>\<open>kult-protocol/src/fragmentation.rs\<close>: splitting an envelope for a small-MTU link and the stateful
  reassembler on the other side.

  BLAKE3 is the parameter \<open>b3\<close>. The lemmas show the invariant every reassembler state satisfies under
  arbitrary input, that a completed payload always matches the id of its fragments, and that the
  fragments of a payload reassemble to it in any order, with duplicates and with the fragments of
  other messages in between.
\<close>

section \<open>Fragmentation\<close>

definition FRAG_HEADER_LEN :: nat where [simp]: "FRAG_HEADER_LEN = 4 + 2 + 2"
definition REASSEMBLY_WINDOW_SECS :: u64 where [simp]: "REASSEMBLY_WINDOW_SECS = 24 * 3600"
definition MAX_FRAGMENTS :: nat where [simp]: "MAX_FRAGMENTS = 1024"
definition MAX_PARTIALS :: nat where [simp]: "MAX_PARTIALS = 256"

definition msg_id :: "(bytes \<Rightarrow> bytes) \<Rightarrow> bytes \<Rightarrow> bytes" where
  "msg_id b3 payload = take 4 (b3 payload)"

text \<open>\<^verbatim>\<open>slice::chunks\<close>: as \<^verbatim>\<open>as_chunks\<close>, with a shorter last chunk.\<close>

function chunks :: "nat \<Rightarrow> 'a list \<Rightarrow> 'a list list" where
  "chunks n xs = (if n = 0 \<or> xs = [] then [] else take n xs # chunks n (drop n xs))"
  by pat_completeness auto
termination
  by (relation "measure (\<lambda>(n, xs). length xs)") auto

declare chunks.simps [simp del]

definition fragment :: "(bytes \<Rightarrow> bytes) \<Rightarrow> bytes \<Rightarrow> nat \<Rightarrow> bytes list result" where
  "fragment b3 payload mtu =
     (if length payload > MAX_ENVELOPE_BYTES then Inl EnvelopeTooLarge
      else if mtu \<le> FRAG_HEADER_LEN then Inl MtuTooSmall
      else
        let slice_len = mtu - FRAG_HEADER_LEN;
            count = max ((length payload + slice_len - 1) div slice_len) 1 in
        if count > MAX_FRAGMENTS then Inl TooManyFragments
        else
          let mid = msg_id b3 payload;
              out = map (\<lambda>(i, chunk). mid @ to_le16 (word_of_nat i) @ to_le16 (word_of_nat count) @ chunk)
                      (enumerate 0 (chunks slice_len payload)) in
          Inr (if payload = [] then out @ [mid @ to_le16 0 @ to_le16 1] else out))"

section \<open>The reassembler\<close>

record Partial =
  part_count :: u16
  parts :: "(u16, bytes) btree"
  part_bytes :: nat
  first_seen :: u64

type_synonym Reassembler = "(bytes, Partial) btree"

definition reassembler_new :: Reassembler where
  "reassembler_new = []"

definition in_window :: "u64 \<Rightarrow> Partial \<Rightarrow> bool" where
  "in_window now p \<longleftrightarrow> saturating_sub now (first_seen p) \<le> REASSEMBLY_WINDOW_SECS"

definition purge :: "u64 \<Rightarrow> Reassembler \<Rightarrow> Reassembler" where
  "purge now st = bt_retain (in_window now) st"

text \<open>
  The body of \<^verbatim>\<open>insert\<close> in three steps: find or open the partial message, then store the slice and
  finish when every index is present. \<open>Inl\<close> of \<open>find_partial\<close> is an early return.
\<close>

definition find_partial ::
  "Reassembler \<Rightarrow> bytes \<Rightarrow> u16 \<Rightarrow> u64 \<Rightarrow> (Reassembler \<times> ProtocolError) + (Reassembler \<times> Partial)" where
  "find_partial st mid count now =
     (case bt_get st mid of
        Some p \<Rightarrow>
          if part_count p \<noteq> count then Inl (bt_remove mid st, IntegrityMismatch) else Inr (st, p)
      | None \<Rightarrow>
          if length st \<ge> MAX_PARTIALS then Inl (st, ReassemblyOverflow)
          else
            let p = \<lparr>part_count = count, parts = [], part_bytes = 0, first_seen = now\<rparr> in
            Inr (bt_insert mid p st, p))"

definition store_part ::
  "(bytes \<Rightarrow> bytes) \<Rightarrow> Reassembler \<Rightarrow> bytes \<Rightarrow> Partial \<Rightarrow> u16 \<Rightarrow> bytes
     \<Rightarrow> Reassembler \<times> bytes option result" where
  "store_part b3 st mid p index part =
     (if bt_get (parts p) index \<noteq> None then (st, Inr None)
      else if part_bytes p + length part > MAX_ENVELOPE_BYTES then (bt_remove mid st, Inl ReassemblyOverflow)
      else
        let p = p\<lparr>part_bytes := part_bytes p + length part, parts := bt_insert index part (parts p)\<rparr>;
            st = bt_insert mid p st in
        if length (parts p) = unat (part_count p) then
          let st = bt_remove mid st; payload = concat (bt_values (parts p)) in
          if msg_id b3 payload \<noteq> mid then (st, Inl IntegrityMismatch) else (st, Inr (Some payload))
        else (st, Inr None))"

definition reassembler_insert ::
  "(bytes \<Rightarrow> bytes) \<Rightarrow> Reassembler \<Rightarrow> bytes \<Rightarrow> u64 \<Rightarrow> Reassembler \<times> bytes option result" where
  "reassembler_insert b3 st frag now =
     (let st = purge now st in
      if length frag < FRAG_HEADER_LEN then (st, Inl Malformed)
      else
        let mid = take 4 frag;
            index = from_le16 (subslice 4 6 frag);
            count = from_le16 (subslice 6 8 frag);
            part = drop FRAG_HEADER_LEN frag in
        if count = 0 \<or> unat count > MAX_FRAGMENTS \<or> index \<ge> count then
          (st, Inl (if unat count > MAX_FRAGMENTS then TooManyFragments else Malformed))
        else (case find_partial st mid count now of
            Inl (st, e) \<Rightarrow> (st, Inl e)
          | Inr (st, p) \<Rightarrow> store_part b3 st mid p index part))"

definition missing :: "Reassembler \<Rightarrow> u64 \<Rightarrow> (bytes \<times> u16 list) list" where
  "missing st now =
     map (\<lambda>(mid, p). (mid, filter (\<lambda>i. bt_get (parts p) i = None)
                           (map word_of_nat [0..<unat (part_count p)])))
       (filter (\<lambda>(_, p). in_window now p) st)"

definition pending :: "Reassembler \<Rightarrow> nat" where
  "pending st = length st"

text \<open>A run of the reassembler over arriving fragment bodies with their arrival times.\<close>

fun feed :: "(bytes \<Rightarrow> bytes) \<Rightarrow> Reassembler \<Rightarrow> (bytes \<times> u64) list
    \<Rightarrow> Reassembler \<times> bytes option result list" where
  "feed b3 st [] = (st, [])"
| "feed b3 st ((f, t) # evs) =
     (let (st, r) = reassembler_insert b3 st f t; (st, rs) = feed b3 st evs in (st, r # rs))"

section \<open>The state invariant\<close>

definition stored :: "(u16, bytes) btree \<Rightarrow> nat" where
  "stored m = sum_list (map length (bt_values m))"

definition partial_ok :: "Partial \<Rightarrow> bool" where
  "partial_ok p \<longleftrightarrow> unat (part_count p) \<le> MAX_FRAGMENTS \<and> bt_valid (parts p)
     \<and> (\<forall>i. bt_get (parts p) i \<noteq> None \<longrightarrow> i < part_count p)
     \<and> 0 < length (parts p) \<and> length (parts p) < unat (part_count p)
     \<and> part_bytes p = stored (parts p) \<and> part_bytes p \<le> MAX_ENVELOPE_BYTES"

definition reassembler_ok :: "Reassembler \<Rightarrow> bool" where
  "reassembler_ok st \<longleftrightarrow> bt_valid st \<and> length st \<le> MAX_PARTIALS
     \<and> (\<forall>mid p. bt_get st mid = Some p \<longrightarrow> length mid = 4 \<and> partial_ok p)"

lemma stored_insert: "bt_get m k = None \<Longrightarrow> stored (bt_insert k v m) = length v + stored m"
  by (induction k v m rule: bt_insert.induct)
    (auto simp: stored_def bt_values_def bt_get_Cons split: if_splits)

lemma purge_ok: "reassembler_ok st \<Longrightarrow> reassembler_ok (purge now st)"
  using length_bt_retain [of "in_window now" st]
  by (auto simp: reassembler_ok_def purge_def bt_valid_retain bt_get_retain split: option.splits if_splits)

lemma remove_ok: "reassembler_ok st \<Longrightarrow> reassembler_ok (bt_remove mid st)"
  using bt.length_remove_le [of st mid]
  by (auto simp: reassembler_ok_def bt.valid_remove bt.get_remove split: if_splits)

lemma insert_ok:
  assumes "reassembler_ok st" "length mid = 4" "partial_ok p" "bt_get st mid \<noteq> None \<or> length st < MAX_PARTIALS"
  shows "reassembler_ok (bt_insert mid p st)"
  using assms bt.length_put [of st mid p]
  by (auto simp: reassembler_ok_def bt.valid_put bt.get_put split: if_splits)

text \<open>What \<open>store_part\<close> needs of the partial message it is handed.\<close>

definition storable :: "Partial \<Rightarrow> bool" where
  "storable p \<longleftrightarrow> unat (part_count p) \<le> MAX_FRAGMENTS \<and> bt_valid (parts p)
     \<and> (\<forall>i. bt_get (parts p) i \<noteq> None \<longrightarrow> i < part_count p)
     \<and> length (parts p) < unat (part_count p) \<and> part_bytes p = stored (parts p)"

definition with_part :: "Partial \<Rightarrow> u16 \<Rightarrow> bytes \<Rightarrow> Partial" where
  "with_part p index part =
     p\<lparr>part_bytes := part_bytes p + length part, parts := bt_insert index part (parts p)\<rparr>"

lemma with_part_ok:
  assumes "storable p" "index < part_count p" "bt_get (parts p) index = None"
    and "part_bytes p + length part \<le> MAX_ENVELOPE_BYTES"
    and "length (parts (with_part p index part)) \<noteq> unat (part_count p)"
  shows "partial_ok (with_part p index part)"
  using assms bt.length_put [of "parts p" index part]
  by (auto simp: partial_ok_def storable_def with_part_def bt.valid_put bt.get_put stored_insert
      split: if_splits)

text \<open>The three ways a fragment leaves the table: unchanged, without the message, or extended.\<close>

lemma store_part_cases:
  "store_part b3 st mid p index part =
     (if bt_get (parts p) index \<noteq> None then (st, Inr None)
      else if part_bytes p + length part > MAX_ENVELOPE_BYTES then (bt_remove mid st, Inl ReassemblyOverflow)
      else if length (parts (with_part p index part)) = unat (part_count p) then
        (bt_remove mid st,
         let payload = concat (bt_values (parts (with_part p index part))) in
         if msg_id b3 payload \<noteq> mid then Inl IntegrityMismatch else Inr (Some payload))
      else (bt_insert mid (with_part p index part) st, Inr None))"
  by (simp add: store_part_def with_part_def)

lemma find_partial_cases:
  assumes "find_partial st mid count now = Inr (st', p)"
  obtains (known) "bt_get st mid = Some p" "st' = st" "part_count p = count"
  | (fresh) "bt_get st mid = None" "length st < MAX_PARTIALS" "st' = bt_insert mid p st"
      "p = \<lparr>part_count = count, parts = [], part_bytes = 0, first_seen = now\<rparr>"
proof (cases "bt_get st mid")
  case None
  with assms show ?thesis by (intro fresh) (auto simp: find_partial_def split: if_splits)
next
  case (Some q)
  with assms show ?thesis by (intro known) (simp_all add: find_partial_def split: if_splits)
qed

lemma find_partial_storable:
  assumes "reassembler_ok st" "find_partial st mid count now = Inr (st', p)"
    and "count \<noteq> 0" "unat count \<le> MAX_FRAGMENTS"
  shows "storable p \<and> part_count p = count"
  using assms(2)
proof (cases rule: find_partial_cases)
  case known
  with assms(1) have "partial_ok p" by (auto simp: reassembler_ok_def)
  with known show ?thesis by (auto simp: partial_ok_def storable_def)
next
  case fresh
  with assms(3,4) show ?thesis by (simp add: storable_def stored_def bt_values_def unat_gt_0)
qed

lemma store_part_ok:
  assumes "reassembler_ok st" "length mid = 4" "find_partial st mid count now = Inr (st', p)"
    and "count \<noteq> 0" "unat count \<le> MAX_FRAGMENTS" "index < count"
  shows "reassembler_ok (fst (store_part b3 st' mid p index part))"
proof -
  have p: "storable p" "part_count p = count"
    using find_partial_storable [OF assms(1,3,4,5)] by simp_all
  have ext: "partial_ok (with_part p index part)"
    if "bt_get (parts p) index = None" "part_bytes p + length part \<le> MAX_ENVELOPE_BYTES"
      "length (parts (with_part p index part)) \<noteq> unat (part_count p)"
    using that p assms(6) by (intro with_part_ok) auto
  from assms(3) show ?thesis
  proof (cases rule: find_partial_cases)
    case known
    with ext assms(1,2) show ?thesis
      by (auto simp: store_part_cases not_less intro: remove_ok insert_ok)
  next
    case fresh
    then have "bt_get (parts p) index = None" by simp
    with fresh ext assms(1,2) show ?thesis
      by (auto simp: store_part_cases not_less intro: remove_ok insert_ok)
  qed
qed

lemma find_partial_error_ok:
  "reassembler_ok st \<Longrightarrow> find_partial st mid count now = Inl (st', e) \<Longrightarrow> reassembler_ok st'"
  by (auto simp: find_partial_def remove_ok split: option.splits if_splits)

lemma reassembler_insert_ok:
  assumes "reassembler_ok st"
  shows "reassembler_ok (fst (reassembler_insert b3 st frag now))"
  using purge_ok [OF assms, of now]
  by (auto simp: reassembler_insert_def not_le not_less find_partial_error_ok
      intro!: store_part_ok split: sum.splits)

lemma feed_ok: "reassembler_ok st \<Longrightarrow> reassembler_ok (fst (feed b3 st evs))"
proof (induction b3 st evs rule: feed.induct)
  case (2 b3 st f t evs)
  then show ?case using reassembler_insert_ok [OF "2.prems", of b3 f t]
    by (auto split: prod.splits)
qed simp

lemma feed_append:
  "feed b3 st (xs @ ys) =
     (let (st1, rs) = feed b3 st xs; (st2, rs') = feed b3 st1 ys in (st2, rs @ rs'))"
  by (induction b3 st xs rule: feed.induct) (auto split: prod.splits)

lemma length_feed [simp]: "length (snd (feed b3 st evs)) = length evs"
  by (induction b3 st evs rule: feed.induct) (auto split: prod.splits)

section \<open>What fragment produces\<close>

definition frag_body :: "bytes \<Rightarrow> nat \<Rightarrow> nat \<Rightarrow> bytes \<Rightarrow> bytes" where
  "frag_body mid n i part = mid @ to_le16 (word_of_nat i) @ to_le16 (word_of_nat n) @ part"

lemma concat_chunks: "0 < n \<Longrightarrow> concat (chunks n xs) = xs"
  by (induction n xs rule: chunks.induct) (simp add: chunks.simps)

lemma length_chunks: "0 < n \<Longrightarrow> length (chunks n xs) = (length xs + n - 1) div n"
proof (induction n xs rule: chunks.induct)
  case (1 n xs)
  show ?case
  proof (cases "xs = []")
    case True
    with "1.prems" show ?thesis by (simp add: chunks.simps)
  next
    case False
    then have pos: "0 < length xs" by simp
    have "length (chunks n xs) = 1 + (length xs - n + n - 1) div n"
      using 1 False by (simp add: chunks.simps [of n xs])
    also have "\<dots> = (length xs + n - 1) div n"
    proof (cases "n \<le> length xs")
      case True
      have "length xs + n - 1 = (length xs - 1) + n" using pos by linarith
      then have "(length xs + n - 1) div n = (length xs - 1) div n + 1"
        using "1.prems" by (simp only: div_add_self2)
      with True show ?thesis by simp
    next
      case False
      obtain k where "length xs = Suc k" using pos gr0_conv_Suc by blast
      with False have "(length xs + n - 1) div n = 1" by (intro div_nat_eqI) auto
      with False "1.prems" show ?thesis by simp
    qed
    finally show ?thesis .
  qed
qed

lemma fragment_bodies:
  assumes "fragment b3 payload mtu = Inr frs"
  obtains cs where "concat cs = payload" "0 < length cs" "length cs \<le> MAX_FRAGMENTS"
    "length payload \<le> MAX_ENVELOPE_BYTES"
    "frs = map (\<lambda>i. frag_body (msg_id b3 payload) (length cs) i (cs ! i)) [0..<length cs]"
proof -
  define n where "n = mtu - FRAG_HEADER_LEN"
  define cs where "cs = (if payload = [] then [[]] else chunks n payload)"
  from assms have bounds: "length payload \<le> MAX_ENVELOPE_BYTES" "0 < n"
    by (auto simp: fragment_def n_def split: if_splits)
  have len: "length cs = max ((length payload + n - 1) div n) 1"
  proof (cases "payload = []")
    case False
    then have "1 \<le> (length payload + n - 1) div n"
      using bounds(2) by (simp add: Suc_le_eq div_greater_zero_iff) (cases payload; simp)
    with False bounds show ?thesis by (simp add: cs_def length_chunks)
  qed (use bounds in \<open>simp add: cs_def\<close>)
  have frs: "frs = map (\<lambda>(i, c). frag_body (msg_id b3 payload) (length cs) i c) (enumerate 0 cs)"
    using assms
    by (subst len)
      (auto simp: n_def cs_def fragment_def frag_body_def chunks.simps [of _ "[]"] split: if_splits)
  have le: "length cs \<le> MAX_FRAGMENTS"
    using assms unfolding len n_def by (auto simp: fragment_def split: if_splits)
  show thesis
  proof (rule that)
    show "concat cs = payload" using bounds by (simp add: cs_def concat_chunks)
    show "frs = map (\<lambda>i. frag_body (msg_id b3 payload) (length cs) i (cs ! i)) [0..<length cs]"
      unfolding frs by (rule nth_equalityI) (simp_all add: enumerate_eq_zip)
  qed (use len le bounds in simp_all)
qed

section \<open>Reassembly\<close>

text \<open>The table holds exactly the parts with indices in \<open>S\<close> of the message \<open>cs\<close>.\<close>

definition tracks :: "Reassembler \<Rightarrow> bytes \<Rightarrow> bytes list \<Rightarrow> nat set \<Rightarrow> u64 \<Rightarrow> bool" where
  "tracks st mid cs S t0 \<longleftrightarrow> S \<subseteq> {..<length cs} \<and>
     (\<exists>p. bt_get st mid = Some p \<and> part_count p = word_of_nat (length cs) \<and> first_seen p = t0
       \<and> (\<forall>i. bt_get (parts p) i = (if unat i \<in> S then Some (cs ! unat i) else None)))"

definition holds_parts :: "(u16, bytes) btree \<Rightarrow> bytes list \<Rightarrow> nat set \<Rightarrow> bool" where
  "holds_parts m cs S \<longleftrightarrow> bt_valid m \<and> S \<subseteq> {..<length cs} \<and> length cs \<le> MAX_FRAGMENTS
     \<and> (\<forall>i. bt_get m i = (if unat i \<in> S then Some (cs ! unat i) else None))"

lemma unat_small: "i < 1024 \<Longrightarrow> unat (word_of_nat i :: u16) = i"
  by simp

lemma holds_parts_keys:
  assumes "holds_parts m cs S"
  shows "bt_keys m = map word_of_nat (sorted_list_of_set S)"
proof (rule strict_sorted_equal)
  have fin: "finite S" and small: "\<And>i. i \<in> S \<Longrightarrow> i < 1024"
    using assms by (auto simp: holds_parts_def intro: finite_subset)
  show "sorted_wrt (<) (bt_keys m)" using assms bt.keys_sorted by (auto simp: holds_parts_def)
  have "sorted_wrt (<) (sorted_list_of_set S)" by simp
  then show "sorted_wrt (<) (map word_of_nat (sorted_list_of_set S) :: u16 list)"
    unfolding sorted_wrt_map
    by (rule sorted_wrt_mono_rel [rotated]) (use fin in \<open>auto simp: word_less_nat_alt dest!: small\<close>)
  have "set (bt_keys m) = {i. unat i \<in> S}"
    using assms bt.set_keys [of m] by (auto simp: holds_parts_def split: if_splits)
  also have "\<dots> = word_of_nat ` S"
  proof (intro equalityI subsetI)
    fix i :: u16
    assume "i \<in> {i. unat i \<in> S}"
    then show "i \<in> word_of_nat ` S" by (intro image_eqI [of _ _ "unat i"]) simp_all
  next
    fix i :: u16
    assume "i \<in> word_of_nat ` S"
    then obtain n where "i = word_of_nat n" "n \<in> S" by blast
    with small [of n] show "i \<in> {i. unat i \<in> S}" by simp
  qed
  finally show "set (bt_keys m) = set (map word_of_nat (sorted_list_of_set S))" using fin by simp
qed

lemma bt_values_keys: "bt_valid m \<Longrightarrow> bt_values m = map (\<lambda>k. the (bt_get m k)) (bt_keys m)"
proof (induction m)
  case (Cons x m)
  obtain k v where x: "x = (k, v)" by (cases x)
  have "k \<notin> set (bt_keys m)" using Cons.prems by (auto simp: x bt_valid_Cons)
  with Cons show ?case
    by (auto simp: x bt_values_def bt_valid_Cons bt_get_Cons intro!: map_cong)
qed (simp add: bt_values_def)

lemma holds_parts_values:
  assumes "holds_parts m cs S"
  shows "bt_values m = map ((!) cs) (sorted_list_of_set S)"
proof -
  have fin: "finite S" and small: "\<And>i. i \<in> S \<Longrightarrow> i < 1024"
    using assms by (auto simp: holds_parts_def intro: finite_subset)
  have "bt_values m = map (\<lambda>k. the (bt_get m k)) (map word_of_nat (sorted_list_of_set S))"
    using assms by (simp add: bt_values_keys holds_parts_keys holds_parts_def flip: holds_parts_keys)
  also have "\<dots> = map ((!) cs) (sorted_list_of_set S)"
    using assms fin small by (auto simp: holds_parts_def dest: small)
  finally show ?thesis .
qed

lemma holds_parts_length: "holds_parts m cs S \<Longrightarrow> length m = card S"
  using holds_parts_keys [of m cs S] by (metis length_bt_keys length_map length_sorted_list_of_set)

lemma holds_parts_full:
  "holds_parts m cs {..<length cs} \<Longrightarrow> concat (bt_values m) = concat cs"
  by (simp add: holds_parts_values lessThan_atLeast0 map_nth)

lemma holds_parts_stored:
  assumes "holds_parts m cs S" and "j < length cs" and "j \<notin> S"
  shows "stored m + length (cs ! j) \<le> length (concat cs)"
proof -
  have fin: "finite S" and sub: "insert j S \<subseteq> {..<length cs}"
    using assms by (auto simp: holds_parts_def intro: finite_subset)
  have "stored m = (\<Sum>i\<in>S. length (cs ! i))"
    using fin by (simp add: stored_def holds_parts_values [OF assms(1)] sum_list_distinct_conv_sum_set comp_def)
  then have "stored m + length (cs ! j) = (\<Sum>i\<in>insert j S. length (cs ! i))"
    using fin assms(3) by simp
  also have "\<dots> \<le> (\<Sum>i<length cs. length (cs ! i))"
    using sub by (intro sum_mono2) auto
  also have "\<dots> = length (concat cs)"
    by (simp add: length_concat sum_list_sum_nth lessThan_atLeast0)
  finally show ?thesis .
qed


text \<open>
  The window: the times of a run are at most \<^const>\<open>REASSEMBLY_WINDOW_SECS\<close> after the first own fragment.
\<close>

definition timely :: "u64 \<Rightarrow> u64 \<Rightarrow> bool" where
  "timely t0 t \<longleftrightarrow> saturating_sub t t0 \<le> REASSEMBLY_WINDOW_SECS"

lemma purge_get:
  "reassembler_ok st \<Longrightarrow> bt_get (purge now st) k =
     (case bt_get st k of None \<Rightarrow> None | Some p \<Rightarrow> if in_window now p then Some p else None)"
  by (simp add: purge_def bt_get_retain reassembler_ok_def)

lemma tracks_purge: "reassembler_ok st \<Longrightarrow> tracks st mid cs S t0 \<Longrightarrow> timely t0 t \<Longrightarrow> tracks (purge t st) mid cs S t0"
  by (auto simp: tracks_def purge_get in_window_def timely_def)

lemma find_partial_other:
  assumes "reassembler_ok st" "other \<noteq> mid"
  shows "find_partial st other count now = Inl (st', e) \<Longrightarrow> bt_get st' mid = bt_get st mid"
    and "find_partial st other count now = Inr (st', p) \<Longrightarrow>
      bt_valid st' \<and> bt_get st' mid = bt_get st mid"
  using assms
  by (auto simp: find_partial_def reassembler_ok_def bt.get_remove bt.get_put bt.valid_put
      split: option.splits if_splits)

lemma store_part_other:
  "bt_valid st \<Longrightarrow> other \<noteq> mid \<Longrightarrow>
     bt_get (fst (store_part b3 st other p index part)) mid = bt_get st mid"
  by (simp add: store_part_cases bt.get_remove bt.get_put)

lemma insert_other:
  assumes "reassembler_ok st" "take 4 f \<noteq> mid"
  shows "bt_get (fst (reassembler_insert b3 st f t)) mid = bt_get (purge t st) mid"
  using find_partial_other [OF purge_ok [OF assms(1), of t] assms(2)] assms(2)
  by (auto simp: reassembler_insert_def store_part_other split: sum.splits)

lemma tracks_other:
  assumes "reassembler_ok st" "take 4 f \<noteq> mid" "tracks st mid cs S t0" "timely t0 t"
  shows "tracks (fst (reassembler_insert b3 st f t)) mid cs S t0"
  using tracks_purge [OF assms(1,3,4)] insert_other [OF assms(1,2), of b3 t]
  by (simp add: tracks_def)

text \<open>Inserting an own fragment, once the partial message is found.\<close>

lemma insert_own:
  assumes "length mid = 4" "j < length cs" "length cs \<le> MAX_FRAGMENTS"
  shows "reassembler_insert b3 st (frag_body mid (length cs) j part) t =
    (case find_partial (purge t st) mid (word_of_nat (length cs)) t of
       Inl (st, e) \<Rightarrow> (st, Inl e)
     | Inr (st, p) \<Rightarrow> store_part b3 st mid p (word_of_nat j) part)"
proof -
  have "\<not> (word_of_nat (length cs) :: u16) \<le> word_of_nat j"
    using assms by (simp add: word_le_nat_alt)
  moreover have "(word_of_nat (length cs) :: u16) \<noteq> 0"
    using assms by (auto simp: word_unat_eq_iff)
  ultimately show ?thesis
    using assms by (simp add: reassembler_insert_def frag_body_def wire_simps)
qed

lemma store_own:
  assumes "storable p" "part_count p = word_of_nat (length cs)" "holds_parts (parts p) cs S"
    and "j < length cs" "length (concat cs) \<le> MAX_ENVELOPE_BYTES"
  shows "store_part b3 st mid p (word_of_nat j) (cs ! j) =
    (if j \<in> S then (st, Inr None)
     else if insert j S = {..<length cs} then
       (bt_remove mid st,
        if msg_id b3 (concat cs) \<noteq> mid then Inl IntegrityMismatch else Inr (Some (concat cs)))
     else (bt_insert mid (with_part p (word_of_nat j) (cs ! j)) st, Inr None))"
  and "j \<notin> S \<Longrightarrow> holds_parts (parts (with_part p (word_of_nat j) (cs ! j))) cs (insert j S)"
proof -
  have cs: "length cs \<le> 1024" and S: "S \<subseteq> {..<length cs}" using assms(3) by (auto simp: holds_parts_def)
  have j: "unat (word_of_nat j :: u16) = j" using cs assms(4) by simp
  have get: "bt_get (parts p) (word_of_nat j) = (if j \<in> S then Some (cs ! j) else None)"
    using assms(3) j by (simp add: holds_parts_def)
  show holds: "holds_parts (parts (with_part p (word_of_nat j) (cs ! j))) cs (insert j S)" if "j \<notin> S"
    using assms(3,4) j that unfolding holds_parts_def with_part_def
    by (auto simp: bt.get_put bt.valid_put)
  have full: "length (parts (with_part p (word_of_nat j) (cs ! j))) = unat (part_count p)
      \<longleftrightarrow> insert j S = {..<length cs}" if "j \<notin> S"
  proof -
    have "insert j S \<subseteq> {..<length cs}" using S assms(4) by auto
    then have "card (insert j S) = length cs \<longleftrightarrow> insert j S = {..<length cs}"
      by (metis card_lessThan card_subset_eq finite_lessThan)
    then show ?thesis using holds_parts_length [OF holds [OF that]] assms(2) cs by simp
  qed
  have room: "\<not> part_bytes p + length (cs ! j) > MAX_ENVELOPE_BYTES" if "j \<notin> S"
    using holds_parts_stored [OF assms(3,4) that] assms(1,5) by (simp add: storable_def)
  have joined: "concat (bt_values (parts (with_part p (word_of_nat j) (cs ! j)))) = concat cs"
    if "j \<notin> S" "insert j S = {..<length cs}"
    using holds_parts_full holds [OF that(1)] that(2) by metis
  show "store_part b3 st mid p (word_of_nat j) (cs ! j) =
    (if j \<in> S then (st, Inr None)
     else if insert j S = {..<length cs} then
       (bt_remove mid st,
        if msg_id b3 (concat cs) \<noteq> mid then Inl IntegrityMismatch else Inr (Some (concat cs)))
     else (bt_insert mid (with_part p (word_of_nat j) (cs ! j)) st, Inr None))"
  proof (cases "j \<in> S")
    case True
    then show ?thesis by (simp add: store_part_cases get)
  next
    case False
    show ?thesis
      unfolding store_part_cases get full [OF False] using False joined room by (simp del: MAX_ENVELOPE_BYTES_def)
  qed
qed

lemma tracks_holds:
  assumes "reassembler_ok st" "tracks st mid cs S t0" "length cs \<le> MAX_FRAGMENTS"
  obtains p where "bt_get st mid = Some p" "storable p" "part_count p = word_of_nat (length cs)"
    "first_seen p = t0" "holds_parts (parts p) cs S"
proof -
  from assms(2) obtain p where p: "bt_get st mid = Some p" "part_count p = word_of_nat (length cs)"
      "first_seen p = t0" "\<forall>i. bt_get (parts p) i = (if unat i \<in> S then Some (cs ! unat i) else None)"
      and S: "S \<subseteq> {..<length cs}"
    by (auto simp: tracks_def)
  from assms(1) p(1) have "partial_ok p" by (auto simp: reassembler_ok_def)
  then have "storable p" "holds_parts (parts p) cs S"
    using p S assms(3) by (auto simp: partial_ok_def storable_def holds_parts_def)
  with p that show thesis by blast
qed

lemma holds_tracks:
  "bt_valid st \<Longrightarrow> part_count p = word_of_nat (length cs) \<Longrightarrow> first_seen p = t0 \<Longrightarrow>
     holds_parts (parts p) cs S \<Longrightarrow> tracks (bt_insert mid p st) mid cs S t0"
  by (auto simp: tracks_def holds_parts_def bt.get_put)

text \<open>The outcome of one own fragment: recorded, or the message is complete.\<close>

lemma own_step:
  assumes "reassembler_ok st" "length mid = 4" "j < length cs" "length cs \<le> MAX_FRAGMENTS"
    and "length (concat cs) \<le> MAX_ENVELOPE_BYTES" "msg_id b3 (concat cs) = mid"
    and "tracks st mid cs S t0 \<and> timely t0 t
      \<or> bt_get st mid = None \<and> length st < MAX_PARTIALS \<and> S = {} \<and> t = t0"
  defines "r \<equiv> reassembler_insert b3 st (frag_body mid (length cs) j (cs ! j)) t"
  shows "if insert j S = {..<length cs} \<and> j \<notin> S
    then snd r = Inr (Some (concat cs)) \<and> bt_get (fst r) mid = None
    else snd r = Inr None \<and> tracks (fst r) mid cs (insert j S) t0"
proof -
  let ?st = "purge t st"
  have ok: "reassembler_ok ?st" using assms(1) by (rule purge_ok)
  then have valid: "bt_valid ?st" by (simp add: reassembler_ok_def)
  obtain st' p where find: "find_partial ?st mid (word_of_nat (length cs)) t = Inr (st', p)"
    and p: "storable p" "part_count p = word_of_nat (length cs)" "holds_parts (parts p) cs S"
      "first_seen p = t0"
    and st': "st' = ?st \<and> tracks ?st mid cs S t0 \<or> st' = bt_insert mid p ?st \<and> S = {}"
    using assms(7)
  proof (elim disjE conjE)
    assume "tracks st mid cs S t0" "timely t0 t"
    with assms(1) have tr: "tracks ?st mid cs S t0" by (rule tracks_purge)
    from tracks_holds [OF ok tr assms(4)] obtain p where "bt_get ?st mid = Some p" "storable p"
        "part_count p = word_of_nat (length cs)" "first_seen p = t0" "holds_parts (parts p) cs S"
      by blast
    with tr show thesis by (intro that [of ?st p]) (simp_all add: find_partial_def)
  next
    assume new: "bt_get st mid = None" "length st < MAX_PARTIALS" "S = {}" "t = t0"
    define p where "p = \<lparr>part_count = word_of_nat (length cs), parts = [], part_bytes = 0, first_seen = t\<rparr>"
    have "bt_get ?st mid = None" using new assms(1) by (simp add: purge_get)
    moreover have "length ?st < MAX_PARTIALS"
      using new(2) length_bt_retain [of "in_window t" st] by (simp add: purge_def)
    ultimately have "find_partial ?st mid (word_of_nat (length cs)) t = Inr (bt_insert mid p ?st, p)"
      by (simp add: find_partial_def p_def)
    moreover have "storable p" "holds_parts (parts p) cs {}"
      using assms(3,4) by (auto simp: p_def storable_def holds_parts_def stored_def bt_values_def)
    ultimately show thesis using new by (intro that [of "bt_insert mid p ?st" p]) (simp_all add: p_def)
  qed
  have r: "r = store_part b3 st' mid p (word_of_nat j) (cs ! j)"
    unfolding r_def using assms(2-4) by (simp add: insert_own find)
  have sp: "r = (if j \<in> S then (st', Inr None)
      else if insert j S = {..<length cs} then (bt_remove mid st', Inr (Some (concat cs)))
      else (bt_insert mid (with_part p (word_of_nat j) (cs ! j)) st', Inr None))"
    unfolding r using store_own(1) [OF p(1-3) assms(3,5)] assms(6) by simp
  have v': "bt_valid st'" using st' valid by (auto simp: bt.valid_put)
  show ?thesis
  proof (cases "j \<in> S")
    case True
    then have "tracks st' mid cs S t0" using st' by auto
    with True show ?thesis by (simp add: sp insert_absorb)
  next
    case False
    have "tracks (bt_insert mid (with_part p (word_of_nat j) (cs ! j)) st') mid cs (insert j S) t0"
      using store_own(2) [OF p(1-3) assms(3,5) False] p(2,4) v'
      by (intro holds_tracks) (simp_all add: with_part_def)
    with False show ?thesis using v' by (simp add: sp bt.get_remove)
  qed
qed

section \<open>Runs\<close>

definition frag_list :: "bytes \<Rightarrow> bytes list \<Rightarrow> bytes list" where
  "frag_list mid cs = map (\<lambda>i. frag_body mid (length cs) i (cs ! i)) [0..<length cs]"

text \<open>The indices of the own fragments among the arrived bodies, and a run that stays in the window.\<close>

definition arrived :: "bytes \<Rightarrow> bytes list \<Rightarrow> (bytes \<times> u64) list \<Rightarrow> nat set" where
  "arrived mid cs evs = {i. i < length cs \<and> frag_list mid cs ! i \<in> fst ` set evs}"

definition run_ok :: "bytes \<Rightarrow> bytes list \<Rightarrow> u64 \<Rightarrow> (bytes \<times> u64) list \<Rightarrow> bool" where
  "run_ok mid frs t0 evs \<longleftrightarrow>
     list_all (\<lambda>(f, t). (f \<in> set frs \<or> take 4 f \<noteq> mid) \<and> timely t0 t) evs"

lemma frag_list_nth: "i < length cs \<Longrightarrow> frag_list mid cs ! i = frag_body mid (length cs) i (cs ! i)"
  by (simp add: frag_list_def)

lemma length_frag_list [simp]: "length (frag_list mid cs) = length cs"
  by (simp add: frag_list_def)

lemma take_frag_list: "length mid = 4 \<Longrightarrow> f \<in> set (frag_list mid cs) \<Longrightarrow> take 4 f = mid"
  by (auto simp: frag_list_def frag_body_def)

lemma frag_list_inj:
  assumes "length cs \<le> MAX_FRAGMENTS" "i < length cs" "j < length cs"
    and "frag_list mid cs ! i = frag_list mid cs ! j"
  shows "i = j"
proof -
  have "to_le16 (word_of_nat i) = to_le16 (word_of_nat j)"
    using assms by (simp add: frag_list_nth frag_body_def)
  then have "(word_of_nat i :: u16) = word_of_nat j" by (metis from_to_le(1))
  then have "unat (word_of_nat i :: u16) = unat (word_of_nat j :: u16)" by simp
  with assms show ?thesis by simp
qed

lemma arrived_own:
  assumes "length cs \<le> MAX_FRAGMENTS" "j < length cs"
  shows "arrived mid cs ((frag_list mid cs ! j, t) # evs) = insert j (arrived mid cs evs)"
  using assms(2) frag_list_inj [OF assms(1), of _ j mid] by (auto simp: arrived_def)

lemma arrived_other:
  assumes "length mid = 4" "take 4 f \<noteq> mid"
  shows "arrived mid cs ((f, t) # evs) = arrived mid cs evs"
  using assms take_frag_list [of mid _ cs] by (auto simp: arrived_def)

lemma arrived_sub: "arrived mid cs evs \<subseteq> {..<length cs}"
  by (auto simp: arrived_def)

text \<open>As long as an index is missing, every own fragment is recorded and answered by \<open>None\<close>.\<close>

lemma incomplete_run:
  assumes "length mid = 4" "length cs \<le> MAX_FRAGMENTS" "length (concat cs) \<le> MAX_ENVELOPE_BYTES"
    and "msg_id b3 (concat cs) = mid"
    and "reassembler_ok st" "tracks st mid cs S t0" "run_ok mid (frag_list mid cs) t0 evs"
    and "S \<union> arrived mid cs evs \<noteq> {..<length cs}"
  shows "tracks (fst (feed b3 st evs)) mid cs (S \<union> arrived mid cs evs) t0
    \<and> list_all2 (\<lambda>(f, t) r. f \<in> set (frag_list mid cs) \<longrightarrow> r = Inr None) evs (snd (feed b3 st evs))"
  using assms(5-8)
proof (induction evs arbitrary: st S)
  case Nil
  then show ?case by (simp add: arrived_def)
next
  case (Cons ev evs)
  obtain f t where ev: "ev = (f, t)" by (cases ev)
  define r where "r = reassembler_insert b3 st f t"
  have S: "S \<subseteq> {..<length cs}" using Cons.prems(2) by (simp add: tracks_def)
  have ok: "reassembler_ok (fst r)" unfolding r_def by (rule reassembler_insert_ok [OF Cons.prems(1)])
  have t: "timely t0 t" and run: "run_ok mid (frag_list mid cs) t0 evs"
    and f: "f \<in> set (frag_list mid cs) \<or> take 4 f \<noteq> mid"
    using Cons.prems(3) by (auto simp: ev run_ok_def)
  have feed: "feed b3 st (ev # evs) = (fst (feed b3 (fst r) evs), snd r # snd (feed b3 (fst r) evs))"
    by (simp add: ev r_def split: prod.splits)
  show ?case
  proof (cases "f \<in> set (frag_list mid cs)")
    case True
    then obtain j where j: "j < length cs" "f = frag_list mid cs ! j" by (auto simp: in_set_conv_nth)
    have un: "S \<union> arrived mid cs (ev # evs) = insert j S \<union> arrived mid cs evs"
      using j assms(2) by (simp add: ev arrived_own)
    have ne: "insert j S \<union> arrived mid cs evs \<noteq> {..<length cs}" using Cons.prems(4) unfolding un .
    then have "insert j S \<noteq> {..<length cs}"
      using arrived_sub [of mid cs evs] by (metis sup.absorb1)
    moreover have "if insert j S = {..<length cs} \<and> j \<notin> S
        then snd r = Inr (Some (concat cs)) \<and> bt_get (fst r) mid = None
        else snd r = Inr None \<and> tracks (fst r) mid cs (insert j S) t0"
      unfolding r_def j(2) frag_list_nth [OF j(1)]
      by (rule own_step [OF Cons.prems(1) assms(1) j(1) assms(2-4)]) (use Cons.prems(2) t in blast)
    ultimately have step: "snd r = Inr None" "tracks (fst r) mid cs (insert j S) t0" by simp_all
    from Cons.IH [OF ok step(2) run ne] step(1) show ?thesis
      unfolding un feed by (simp add: ev)
  next
    case False
    then have o: "take 4 f \<noteq> mid" using f by blast
    have un: "arrived mid cs (ev # evs) = arrived mid cs evs"
      using o assms(1) by (simp add: ev arrived_other)
    have "tracks (fst r) mid cs S t0"
      unfolding r_def using Cons.prems(1) o Cons.prems(2) t by (rule tracks_other)
    from Cons.IH [OF ok this run] Cons.prems(4) [unfolded un] False show ?thesis
      unfolding un feed by (simp add: ev)
  qed
qed

text \<open>The same from a table without the message, when the first arrival is an own fragment.\<close>

definition starts_run :: "bytes \<Rightarrow> bytes list \<Rightarrow> u64 \<Rightarrow> Reassembler \<Rightarrow> (bytes \<times> u64) list \<Rightarrow> bool" where
  "starts_run mid frs t0 st evs \<longleftrightarrow> reassembler_ok st \<and> bt_get st mid = None \<and> pending st < MAX_PARTIALS
     \<and> run_ok mid frs t0 evs \<and> evs \<noteq> [] \<and> fst (hd evs) \<in> set frs \<and> snd (hd evs) = t0"

lemma started_run:
  assumes "length mid = 4" "length cs \<le> MAX_FRAGMENTS" "length (concat cs) \<le> MAX_ENVELOPE_BYTES"
    and "msg_id b3 (concat cs) = mid" "starts_run mid (frag_list mid cs) t0 st evs"
    and "arrived mid cs evs \<noteq> {..<length cs}"
  shows "tracks (fst (feed b3 st evs)) mid cs (arrived mid cs evs) t0
    \<and> list_all2 (\<lambda>(f, t) r. f \<in> set (frag_list mid cs) \<longrightarrow> r = Inr None) evs (snd (feed b3 st evs))"
proof -
  from assms(5) obtain f evs' where evs: "evs = (f, t0) # evs'" and f: "f \<in> set (frag_list mid cs)"
    by (cases evs) (auto simp: starts_run_def)
  then obtain j where j: "j < length cs" "f = frag_list mid cs ! j" by (auto simp: in_set_conv_nth)
  have st: "reassembler_ok st" "bt_get st mid = None \<and> length st < MAX_PARTIALS"
    and run: "run_ok mid (frag_list mid cs) t0 evs'"
    using assms(5) by (auto simp: starts_run_def pending_def evs run_ok_def)
  define r where "r = reassembler_insert b3 st f t0"
  have un: "arrived mid cs evs = {j} \<union> arrived mid cs evs'"
    using j assms(2) by (simp add: evs arrived_own)
  have "if insert j {} = {..<length cs} \<and> j \<notin> {}
      then snd r = Inr (Some (concat cs)) \<and> bt_get (fst r) mid = None
      else snd r = Inr None \<and> tracks (fst r) mid cs (insert j {}) t0"
    unfolding r_def j(2) frag_list_nth [OF j(1)]
    by (rule own_step [OF st(1) assms(1) j(1) assms(2-4)]) (use st(2) in blast)
  moreover have "{j} \<noteq> {..<length cs}"
    using assms(6) arrived_sub [of mid cs evs'] unfolding un by (metis sup.absorb1)
  ultimately have step: "snd r = Inr None" "tracks (fst r) mid cs {j} t0" by simp_all
  have ok: "reassembler_ok (fst r)" unfolding r_def by (rule reassembler_insert_ok [OF st(1)])
  have feed: "feed b3 st evs = (fst (feed b3 (fst r) evs'), snd r # snd (feed b3 (fst r) evs'))"
    by (simp add: evs r_def split: prod.splits)
  from incomplete_run [OF assms(1-4) ok step(2) run] assms(6) step(1) show ?thesis
    unfolding un feed by (simp add: evs)
qed

lemma last_feed:
  "last (snd (feed b3 st (evs @ [(x, t)]))) = snd (reassembler_insert b3 (fst (feed b3 st evs)) x t)"
  by (simp add: feed_append split: prod.splits)

lemma completed_run:
  assumes "length mid = 4" "length cs \<le> MAX_FRAGMENTS" "length (concat cs) \<le> MAX_ENVELOPE_BYTES"
    and "msg_id b3 (concat cs) = mid" "starts_run mid (frag_list mid cs) t0 st (evs @ [(x, t)])"
    and "j < length cs" "x = frag_list mid cs ! j" "j \<notin> arrived mid cs evs"
    and "insert j (arrived mid cs evs) = {..<length cs}"
  shows "last (snd (feed b3 st (evs @ [(x, t)]))) = Inr (Some (concat cs))
    \<and> list_all2 (\<lambda>(f, t) r. f \<in> set (frag_list mid cs) \<longrightarrow> r = Inr None) evs (snd (feed b3 st evs))"
proof -
  have st: "reassembler_ok st" using assms(5) by (simp add: starts_run_def)
  have ne: "arrived mid cs evs \<noteq> {..<length cs}" using assms(6,8) by auto
  let ?st = "fst (feed b3 st evs)"
  have "list_all2 (\<lambda>(f, t) r. f \<in> set (frag_list mid cs) \<longrightarrow> r = Inr None) evs (snd (feed b3 st evs))
    \<and> (tracks ?st mid cs (arrived mid cs evs) t0 \<and> timely t0 t
       \<or> bt_get ?st mid = None \<and> length ?st < MAX_PARTIALS \<and> arrived mid cs evs = {} \<and> t = t0)"
  proof (cases "evs = []")
    case True
    then show ?thesis using assms(5) by (simp add: starts_run_def arrived_def pending_def)
  next
    case False
    then have "starts_run mid (frag_list mid cs) t0 st evs" "timely t0 t"
      using assms(5) by (auto simp: starts_run_def run_ok_def)
    with started_run [OF assms(1-4) _ ne] show ?thesis by simp
  qed
  then have l: "list_all2 (\<lambda>(f, t) r. f \<in> set (frag_list mid cs) \<longrightarrow> r = Inr None) evs (snd (feed b3 st evs))"
    and t: "tracks ?st mid cs (arrived mid cs evs) t0 \<and> timely t0 t
       \<or> bt_get ?st mid = None \<and> length ?st < MAX_PARTIALS \<and> arrived mid cs evs = {} \<and> t = t0"
    by blast+
  have "snd (reassembler_insert b3 ?st x t) = Inr (Some (concat cs))"
    using own_step [OF feed_ok [OF st] assms(1,6,2-4) t] assms(8,9)
    unfolding assms(7) frag_list_nth [OF assms(6)] by simp
  with l show ?thesis unfolding last_feed by blast
qed

section \<open>Properties\<close>

lemma bt_get_member: "bt_valid m \<Longrightarrow> (k, v) \<in> set m \<longleftrightarrow> bt_get m k = Some v"
  by (simp add: bt_get_def bt_valid_def strictly_increasing_iff strict_sorted_iff)

text \<open>
  C5. Whatever bodies arrive in whatever order, the table stays consistent (at most 256 partial
  messages, each incomplete, with in-range indices and an exact byte count) and the bytes it
  buffers never exceed 256 times the envelope limit.
\<close>

theorem reassembler_bounded:
  "let st = fst (feed b3 reassembler_new evs) in
     reassembler_ok st \<and> sum_list (map (\<lambda>(_, p). stored (parts p)) st) \<le> MAX_PARTIALS * MAX_ENVELOPE_BYTES"
proof -
  define st where "st = fst (feed b3 reassembler_new evs)"
  have ok: "reassembler_ok st"
    unfolding st_def by (rule feed_ok) (simp add: reassembler_ok_def reassembler_new_def)
  have "stored (parts p) \<le> 131072" if "(k, p) \<in> set st" for k p
  proof -
    from that ok have "partial_ok p" by (auto simp: reassembler_ok_def bt_get_member)
    then show ?thesis by (simp add: partial_ok_def)
  qed
  then have "sum_list (map (\<lambda>(_, p). stored (parts p)) st) \<le> sum_list (map (\<lambda>_. 131072) st)"
    by (intro sum_list_mono) auto
  also have "\<dots> = length st * 131072" by (simp add: sum_list_triv)
  also have "\<dots> \<le> 256 * 131072" using ok by (simp add: reassembler_ok_def)
  finally show ?thesis using ok unfolding st_def by simp
qed

text \<open>
  A payload is delivered only if its hash prefix is the id its fragments carried, it is within
  the envelope limit, and its partial state is gone, so it cannot be delivered from the same parts
  again.
\<close>

theorem delivered_payload_verified:
  assumes "reassembler_ok st" and "reassembler_insert b3 st f now = (st', Inr (Some payload))"
  shows "msg_id b3 payload = take 4 f \<and> bt_get st' (take 4 f) = None
    \<and> length payload \<le> MAX_ENVELOPE_BYTES"
proof -
  let ?st = "purge now st"
  have ok: "reassembler_ok ?st" using assms(1) by (rule purge_ok)
  from assms(2) obtain st1 p where
    c: "from_le16 (subslice 6 8 f) \<noteq> 0" "unat (from_le16 (subslice 6 8 f)) \<le> MAX_FRAGMENTS" and
    find: "find_partial ?st (take 4 f) (from_le16 (subslice 6 8 f)) now = Inr (st1, p)" and
    store: "store_part b3 st1 (take 4 f) p (from_le16 (subslice 4 6 f)) (drop 8 f) = (st', Inr (Some payload))"
    by (auto simp: reassembler_insert_def split: if_splits sum.splits)
  have p: "storable p" using find_partial_storable [OF ok find c] by simp
  have v: "bt_valid st1"
    using find ok by (cases rule: find_partial_cases) (auto simp: reassembler_ok_def bt.valid_put)
  let ?p = "with_part p (from_le16 (subslice 4 6 f)) (drop 8 f)"
  from store have eq: "st' = bt_remove (take 4 f) st1" "payload = concat (bt_values (parts ?p))"
      "msg_id b3 payload = take 4 f" "bt_get (parts p) (from_le16 (subslice 4 6 f)) = None"
      "part_bytes p + length (drop 8 f) \<le> 131072"
    by (auto simp: store_part_cases split: if_splits)
  have "length payload = stored (parts ?p)"
    by (simp add: eq(2) stored_def length_concat)
  also have "\<dots> = length (drop 8 f) + stored (parts p)"
    using eq(4) by (simp add: with_part_def stored_insert)
  also have "\<dots> \<le> 131072" using eq(5) p by (simp add: storable_def)
  finally show ?thesis using eq v by (simp add: bt.get_remove)
qed

lemma zeros_take [simp]: "n \<le> m \<Longrightarrow> take n (zeros m) = zeros n"
  by (simp add: zeros_def)

theorem delivered_payload_verified_witness:
  "\<exists>st'. reassembler_insert (\<lambda>_. zeros 32) reassembler_new (frag_body (zeros 4) 1 0 [7]) 0 = (st', Inr (Some [7]))
    \<and> msg_id (\<lambda>_. zeros 32) [7] = take 4 (frag_body (zeros 4) 1 0 [7])
    \<and> bt_get st' (take 4 (frag_body (zeros 4) 1 0 [7])) = None \<and> length [7 :: u8] \<le> MAX_ENVELOPE_BYTES"
proof -
  have ok: "reassembler_ok reassembler_new" by (simp add: reassembler_ok_def reassembler_new_def)
  have "reassembler_insert (\<lambda>_. zeros 32) reassembler_new (frag_body (zeros 4) 1 0 [7]) 0
      = ([], Inr (Some [7]))"
    using insert_own [of "zeros 4" 0 "[[7]]" "\<lambda>_. zeros 32" reassembler_new "[7]" 0]
    by (simp add: reassembler_new_def purge_def bt_retain_def find_partial_def store_part_def
        bt_remove_def bt_values_def msg_id_def)
  from delivered_payload_verified [OF ok this] this show ?thesis by blast
qed

lemma fragment_frag_list:
  assumes "\<forall>x. length (b3 x) = 32" and "fragment b3 payload mtu = Inr frs"
  obtains cs where "frs = frag_list (msg_id b3 payload) cs" "concat cs = payload"
    "length cs \<le> MAX_FRAGMENTS" "length (concat cs) \<le> MAX_ENVELOPE_BYTES"
    "length (msg_id b3 payload) = 4"
proof -
  from assms(1) have "length (msg_id b3 payload) = 4" by (simp add: msg_id_def)
  with fragment_bodies [OF assms(2)] that show thesis by (metis frag_list_def)
qed

lemma arrived_nth: "i < length cs \<Longrightarrow> i \<in> arrived mid cs evs \<longleftrightarrow> frag_list mid cs ! i \<in> fst ` set evs"
  by (simp add: arrived_def)

lemma own_fragments:
  assumes "\<forall>x. length (b3 x) = 32" and "fragment b3 payload mtu = Inr frs"
    and "x \<in> set frs" and "x \<notin> fst ` set evs" and "set frs \<subseteq> insert x (fst ` set evs)"
  obtains cs j where "frs = frag_list (msg_id b3 payload) cs" "concat cs = payload"
    "length cs \<le> MAX_FRAGMENTS" "length (concat cs) \<le> MAX_ENVELOPE_BYTES" "length (msg_id b3 payload) = 4"
    "j < length cs" "x = frag_list (msg_id b3 payload) cs ! j" "j \<notin> arrived (msg_id b3 payload) cs evs"
    "insert j (arrived (msg_id b3 payload) cs evs) = {..<length cs}"
proof -
  let ?mid = "msg_id b3 payload"
  obtain cs where cs: "frs = frag_list ?mid cs" "concat cs = payload" "length cs \<le> MAX_FRAGMENTS"
      "length (concat cs) \<le> MAX_ENVELOPE_BYTES" "length ?mid = 4"
    using fragment_frag_list [OF assms(1,2)] by blast
  obtain j where j: "j < length cs" "x = frag_list ?mid cs ! j"
    using assms(3) unfolding cs(1) by (metis in_set_conv_nth length_frag_list)
  have "j \<notin> arrived ?mid cs evs" using assms(4) j by (simp add: arrived_nth)
  moreover have "insert j (arrived ?mid cs evs) = {..<length cs}"
  proof
    show "insert j (arrived ?mid cs evs) \<subseteq> {..<length cs}" using j arrived_sub by auto
    show "{..<length cs} \<subseteq> insert j (arrived ?mid cs evs)"
    proof
      fix i
      assume i: "i \<in> {..<length cs}"
      then have "frag_list ?mid cs ! i \<in> insert x (fst ` set evs)"
        using assms(5) unfolding cs(1) by (metis lessThan_iff length_frag_list nth_mem subsetD)
      then show "i \<in> insert j (arrived ?mid cs evs)"
        using i j frag_list_inj [OF cs(3), of i j ?mid] by (auto simp: arrived_def)
    qed
  qed
  ultimately show thesis using that cs j by blast
qed

text \<open>
  C3. Reassembly is independent of order, duplication and interleaving. A run starts with some own
  fragment in a table with room, stays within the 24-hour window, and contains own fragments in any
  order and number among arbitrary bodies with other ids. The arrival that makes the set complete
  returns exactly the original payload, and no own fragment before it returns anything.
\<close>

theorem reassembly_any_order:
  assumes "\<forall>x. length (b3 x) = 32" and "fragment b3 payload mtu = Inr frs"
    and "starts_run (msg_id b3 payload) frs t0 st (evs @ [(x, t)])"
    and "x \<in> set frs" and "x \<notin> fst ` set evs" and "set frs \<subseteq> insert x (fst ` set evs)"
  shows "last (snd (feed b3 st (evs @ [(x, t)]))) = Inr (Some payload)
    \<and> list_all2 (\<lambda>(f, _) r. f \<in> set frs \<longrightarrow> r = Inr None) evs (snd (feed b3 st evs))"
proof -
  let ?mid = "msg_id b3 payload"
  obtain cs j where cs: "frs = frag_list ?mid cs" "concat cs = payload" "length cs \<le> MAX_FRAGMENTS"
      "length (concat cs) \<le> MAX_ENVELOPE_BYTES" "length ?mid = 4"
    and j: "j < length cs" "x = frag_list ?mid cs ! j" "j \<notin> arrived ?mid cs evs" "insert j (arrived ?mid cs evs) = {..<length cs}"
    using own_fragments [OF assms(1,2,4-6)] by blast
  show ?thesis
    using completed_run [OF cs(5,3,4) _ assms(3) [unfolded cs(1)] j] unfolding cs(1) by (simp add: cs(2))
qed

lemma two_fragments:
  "fragment (\<lambda>_. zeros 32) [1, 2] 9 = Inr [frag_body (zeros 4) 2 0 [1], frag_body (zeros 4) 2 1 [2]]"
  by (simp add: fragment_def chunks.simps msg_id_def frag_body_def max_def)

lemma two_fragments_distinct: "frag_body (zeros 4) 2 0 [1] \<noteq> frag_body (zeros 4) 2 1 [2]"
  by (simp add: frag_body_def to_le16_def numeral_2_eq_2)

theorem reassembly_any_order_witness:
  "last (snd (feed (\<lambda>_. zeros 32) reassembler_new
      ([(frag_body (zeros 4) 2 1 [2], 5)] @ [(frag_body (zeros 4) 2 0 [1], 6)]))) = Inr (Some [1, 2])"
proof -
  have "starts_run (msg_id (\<lambda>_. zeros 32) [1, 2]) [frag_body (zeros 4) 2 0 [1], frag_body (zeros 4) 2 1 [2]]
      5 reassembler_new ([(frag_body (zeros 4) 2 1 [2], 5)] @ [(frag_body (zeros 4) 2 0 [1], 6)])"
    by (simp add: starts_run_def reassembler_ok_def reassembler_new_def pending_def run_ok_def
        timely_def saturating_sub_def)
  from reassembly_any_order [OF _ two_fragments this] two_fragments_distinct show ?thesis by simp
qed

text \<open>
  The NACK report is exact: during an incomplete run the entry for the message lists precisely
  the indices whose fragments have not arrived, in order. Retransmitting those fragments is what
  the previous property needs to complete the message.
\<close>

theorem missing_exact:
  assumes "\<forall>x. length (b3 x) = 32" and "fragment b3 payload mtu = Inr frs"
    and "starts_run (msg_id b3 payload) frs t0 st evs" and "\<not> set frs \<subseteq> fst ` set evs"
    and "timely t0 now"
  shows "(msg_id b3 payload, map word_of_nat (filter (\<lambda>i. frs ! i \<notin> fst ` set evs) [0..<length frs]))
    \<in> set (missing (fst (feed b3 st evs)) now)"
proof -
  let ?mid = "msg_id b3 payload" and ?st = "fst (feed b3 st evs)"
  obtain cs where cs: "frs = frag_list ?mid cs" "concat cs = payload" "length cs \<le> MAX_FRAGMENTS"
      "length (concat cs) \<le> MAX_ENVELOPE_BYTES" "length ?mid = 4"
    using fragment_frag_list [OF assms(1,2)] by blast
  have ne: "arrived ?mid cs evs \<noteq> {..<length cs}"
    using assms(4) unfolding cs(1)
    by (metis arrived_nth in_set_conv_nth length_frag_list lessThan_iff subsetI)
  have ok: "reassembler_ok ?st" using assms(3) by (intro feed_ok) (simp add: starts_run_def)
  have tr: "tracks ?st ?mid cs (arrived ?mid cs evs) t0"
    using started_run [OF cs(5,3,4) _ assms(3) [unfolded cs(1)] ne] by (simp add: cs(2))
  obtain p where p: "bt_get ?st ?mid = Some p" "part_count p = word_of_nat (length cs)"
      "first_seen p = t0" "holds_parts (parts p) cs (arrived ?mid cs evs)"
    using tracks_holds [OF ok tr cs(3)] by blast
  have mem: "(?mid, p) \<in> set (filter (\<lambda>(_, p). in_window now p) ?st)"
    using p(1,3) assms(5) ok by (simp add: bt_get_member reassembler_ok_def in_window_def timely_def)
  have get: "bt_get (parts p) (word_of_nat i) = None \<longleftrightarrow> frs ! i \<notin> fst ` set evs" if "i < length cs" for i
    using that p(4) cs(3) unfolding cs(1) by (auto simp: holds_parts_def arrived_def)
  have "filter (\<lambda>i. bt_get (parts p) i = None) (map word_of_nat [0..<unat (part_count p)])
      = map word_of_nat (filter (\<lambda>i. frs ! i \<notin> fst ` set evs) [0..<length frs])"
  proof -
    have "length frs = length cs" by (simp add: cs(1))
    moreover have "filter (\<lambda>i. bt_get (parts p) (word_of_nat i) = None) [0..<length cs]
        = filter (\<lambda>i. frs ! i \<notin> fst ` set evs) [0..<length cs]"
      by (rule filter_cong) (simp_all only: get set_upt atLeastLessThan_iff)
    ultimately show ?thesis using cs(3) by (simp add: filter_map comp_def p(2))
  qed
  with mem show ?thesis unfolding missing_def by force
qed

theorem missing_exact_witness:
  "(zeros 4, [0]) \<in> set (missing (fst (feed (\<lambda>_. zeros 32) reassembler_new
      [(frag_body (zeros 4) 2 1 [2], 5)])) 6)"
proof -
  have m: "msg_id (\<lambda>_. zeros 32) [1, 2] = zeros 4" by (simp add: msg_id_def)
  have "starts_run (msg_id (\<lambda>_. zeros 32) [1, 2]) [frag_body (zeros 4) 2 0 [1], frag_body (zeros 4) 2 1 [2]]
      5 reassembler_new [(frag_body (zeros 4) 2 1 [2], 5)]"
    by (simp add: starts_run_def reassembler_ok_def reassembler_new_def pending_def run_ok_def
        timely_def saturating_sub_def)
  from missing_exact [OF _ two_fragments this, of 6] two_fragments_distinct m show ?thesis
    by (simp add: timely_def saturating_sub_def)
qed

end
