(* ===== verification/Mention.thy ===== *)
theory Mention
  imports Komms_Prelude
begin

text \<open>
  \<^verbatim>\<open>kult-protocol/src/mention.rs\<close>: group mentions, a text with spans that point into a sorted table of
  peer keys.

  A decoded mention keeps the encoded table and spans, and two iterators expose them. The lemmas show
  that decoding and then iterating gives back exactly the text and spans that were encoded, and that
  the 64-bit mask of used targets accepts exactly the tables in which every entry is referenced.
\<close>

section \<open>Constants and data\<close>

definition MENTION_VERSION :: u8 where [simp]: "MENTION_VERSION = 1"
definition MENTION_HEADER_LEN :: nat where [simp]: "MENTION_HEADER_LEN = 8"
definition MENTION_TARGET_LEN :: nat where [simp]: "MENTION_TARGET_LEN = 32"
definition MENTION_SPAN_LEN :: nat where [simp]: "MENTION_SPAN_LEN = 9"
definition MAX_MENTION_TEXT_LEN :: nat where [simp]: "MAX_MENTION_TEXT_LEN = 16384"
definition MAX_MENTION_TARGETS :: nat where [simp]: "MAX_MENTION_TARGETS = 64"
definition MAX_MENTION_SPANS :: nat where [simp]: "MAX_MENTION_SPANS = 64"
definition MAX_MENTION_PAYLOAD_LEN :: nat where
  [simp]: "MAX_MENTION_PAYLOAD_LEN = MENTION_HEADER_LEN + MAX_MENTION_TARGETS * MENTION_TARGET_LEN
     + MAX_MENTION_TEXT_LEN + MAX_MENTION_SPANS * MENTION_SPAN_LEN"

record MentionSpan =
  span_start :: u32
  span_end :: u32
  span_target :: bytes

record Mention =
  mention_text :: bytes
  mention_targets :: bytes
  mention_spans :: bytes

section \<open>The iterators\<close>

definition target_count :: "Mention \<Rightarrow> nat" where
  "target_count m = length (mention_targets m) div MENTION_TARGET_LEN"

definition span_count :: "Mention \<Rightarrow> nat" where
  "span_count m = length (mention_spans m) div MENTION_SPAN_LEN"

text \<open>One step yields the item and the remaining bytes; \<open>None\<close> ends the iteration.\<close>

definition targets_next :: "bytes \<Rightarrow> (bytes \<times> bytes) option" where
  "targets_next remaining =
     (if length remaining < MENTION_TARGET_LEN then None
      else Some (take MENTION_TARGET_LEN remaining, drop MENTION_TARGET_LEN remaining))"

definition spans_next :: "bytes \<Rightarrow> bytes \<Rightarrow> (MentionSpan \<times> bytes) option" where
  "spans_next targets remaining =
     (if length remaining < MENTION_SPAN_LEN then None
      else
        let b = take MENTION_SPAN_LEN remaining;
            target_start = unat (b ! 8) * MENTION_TARGET_LEN in
        if target_start + MENTION_TARGET_LEN > length targets then None
        else Some (\<lparr>span_start = from_le32 (take 4 b), span_end = from_le32 (subslice 4 8 b),
                    span_target = subslice target_start (target_start + MENTION_TARGET_LEN) targets\<rparr>,
                   drop MENTION_SPAN_LEN remaining))"

function collect_targets :: "bytes \<Rightarrow> bytes list" where
  "collect_targets r = (case targets_next r of None \<Rightarrow> [] | Some (x, r') \<Rightarrow> x # collect_targets r')"
  by pat_completeness auto
termination
  by (relation "measure length") (auto simp: targets_next_def split: if_splits)

function collect_spans :: "bytes \<Rightarrow> bytes \<Rightarrow> MentionSpan list" where
  "collect_spans targets r =
     (case spans_next targets r of None \<Rightarrow> [] | Some (x, r') \<Rightarrow> x # collect_spans targets r')"
  by pat_completeness auto
termination
  by (relation "measure (\<lambda>(_, r). length r)") (auto simp: spans_next_def split: if_splits)

declare collect_targets.simps [simp del] collect_spans.simps [simp del]

definition targets_of :: "Mention \<Rightarrow> bytes list" where
  "targets_of m = collect_targets (mention_targets m)"

definition spans_of :: "Mention \<Rightarrow> MentionSpan list" where
  "spans_of m = collect_spans (mention_targets m) (mention_spans m)"

section \<open>Encoding\<close>

definition bad_span :: "bytes \<Rightarrow> nat \<Rightarrow> nat \<Rightarrow> nat \<Rightarrow> nat \<Rightarrow> bool" where
  "bad_span txt index previous_end start stop \<longleftrightarrow>
     start \<ge> stop \<or> stop > length txt \<or> \<not> is_char_boundary txt start \<or> \<not> is_char_boundary txt stop
     \<or> (index > 0 \<and> start < previous_end)"

fun validate_spans :: "bytes \<Rightarrow> nat \<Rightarrow> nat \<Rightarrow> MentionSpan list \<Rightarrow> unit result" where
  "validate_spans txt index previous_end [] = Inr ()"
| "validate_spans txt index previous_end (s # ss) =
     (if bad_span txt index previous_end (unat (span_start s)) (unat (span_end s)) then Inl Malformed
      else validate_spans txt (index + 1) (unat (span_end s)) ss)"

definition validate_text_and_spans :: "bytes \<Rightarrow> MentionSpan list \<Rightarrow> unit result" where
  "validate_text_and_spans txt spans =
     (if txt = [] \<or> spans = [] then Inl Malformed
      else if length txt > MAX_MENTION_TEXT_LEN \<or> length spans > MAX_MENTION_SPANS then Inl TooLarge
      else validate_spans txt 0 0 spans)"

fun push_spans :: "bytes list \<Rightarrow> MentionSpan list \<Rightarrow> bytes \<Rightarrow> bytes result" where
  "push_spans targets [] out = Inr out"
| "push_spans targets (s # ss) out =
     try_then (ok_or (binary_search targets (span_target s)) Malformed) (\<lambda>target_index.
       push_spans targets ss (out @ to_le32 (span_start s) @ to_le32 (span_end s)
         @ [word_of_nat target_index]))"

definition encode_mention_payload :: "bytes \<Rightarrow> MentionSpan list \<Rightarrow> bytes result" where
  "encode_mention_payload txt spans =
     try_then (validate_text_and_spans txt spans) (\<lambda>_.
       let targets = remdups_adj (sort (map span_target spans)) in
       if targets = [] \<or> length targets > MAX_MENTION_TARGETS then Inl TooLarge
       else if MENTION_HEADER_LEN + length targets * MENTION_TARGET_LEN + length txt
           + length spans * MENTION_SPAN_LEN > MAX_MENTION_PAYLOAD_LEN then Inl TooLarge
       else push_spans targets spans
         ([MENTION_VERSION, 0, word_of_nat (length targets), word_of_nat (length spans)]
           @ to_le32 (word_of_nat (length txt)) @ concat targets @ txt))"

section \<open>Decoding\<close>

fun scan_spans :: "bytes \<Rightarrow> nat \<Rightarrow> nat \<Rightarrow> nat \<Rightarrow> u64 \<Rightarrow> bytes list \<Rightarrow> u64 result" where
  "scan_spans txt tcount index previous_end used [] = Inr used"
| "scan_spans txt tcount index previous_end used (span # rest) =
     (let start = unat (from_le32 (take 4 span)); stop = unat (from_le32 (subslice 4 8 span));
          target_index = unat (span ! 8) in
      if bad_span txt index previous_end start stop \<or> target_index \<ge> tcount then Inl Malformed
      else scan_spans txt tcount (index + 1) stop (used OR push_bit target_index 1) rest)"

definition decode_mention_v1 :: "bytes \<Rightarrow> Mention result" where
  "decode_mention_v1 b =
     (let tcount = unat (b ! 2); scount = unat (b ! 3);
          text_len = unat (from_le32 (subslice 4 8 b)) in
      if \<not> (1 \<le> tcount \<and> tcount \<le> MAX_MENTION_TARGETS) \<or> \<not> (1 \<le> scount \<and> scount \<le> MAX_MENTION_SPANS)
        \<or> \<not> (1 \<le> text_len \<and> text_len \<le> MAX_MENTION_TEXT_LEN) then Inl Malformed
      else
        let text_start = MENTION_HEADER_LEN + tcount * MENTION_TARGET_LEN;
            spans_start = text_start + text_len in
        if spans_start + scount * MENTION_SPAN_LEN \<noteq> length b then Inl Malformed
        else
          let targets = subslice MENTION_HEADER_LEN text_start b in
          if \<not> strictly_increasing (as_chunks MENTION_TARGET_LEN targets) then Inl Malformed
          else
            let txt = subslice text_start spans_start b; encoded_spans = drop spans_start b in
            if \<not> utf8_valid txt then Inl Malformed
            else try_then (scan_spans txt tcount 0 0 0 (as_chunks MENTION_SPAN_LEN encoded_spans)) (\<lambda>used.
              let all_targets = (if tcount = 64 then - 1 else push_bit tcount 1 - 1) in
              if used \<noteq> all_targets then Inl Malformed
              else Inr \<lparr>mention_text = txt, mention_targets = targets, mention_spans = encoded_spans\<rparr>))"

definition decode_mention_payload :: "bytes \<Rightarrow> Mention decoded" where
  "decode_mention_payload b =
     (if length b > MAX_MENTION_PAYLOAD_LEN \<or> length b < MENTION_HEADER_LEN then DecodedMalformed
      else (case decode_mention_v1 b of
          Inr m \<Rightarrow> if b ! 0 \<noteq> MENTION_VERSION \<or> b ! 1 \<noteq> 0 then DecodedUnsupported else DecodedValue m
        | Inl _ \<Rightarrow> DecodedMalformed))"

section \<open>The iterators walk the chunks\<close>

lemma as_chunks_nth:
  "0 < n \<Longrightarrow> i * n + n \<le> length xs \<Longrightarrow> as_chunks n xs ! i = subslice (i * n) (i * n + n) xs"
proof (induction i arbitrary: xs)
  case 0
  then show ?case by (simp add: as_chunks.simps [of n xs] subslice_def)
next
  case (Suc i)
  then have "as_chunks n xs ! Suc i = subslice (i * n) (i * n + n) (drop n xs)"
    by (simp add: as_chunks.simps [of n xs])
  then show ?case by (simp add: subslice_def add.commute)
qed

lemma length_as_chunks_div: "0 < n \<Longrightarrow> length (as_chunks n xs) = length xs div n"
proof (induction n xs rule: as_chunks.induct)
  case (1 n xs)
  then show ?case by (cases "length xs < n") (simp_all add: as_chunks.simps [of n xs] le_div_geq)
qed

lemma collect_targets_chunks: "collect_targets r = as_chunks 32 r"
proof (induction r rule: collect_targets.induct)
  case (1 r)
  show ?case
    using 1 by (cases "length r < 32")
      (simp_all add: collect_targets.simps [of r] targets_next_def as_chunks.simps [of 32 r])
qed

definition chunk_span :: "bytes list \<Rightarrow> bytes \<Rightarrow> MentionSpan" where
  "chunk_span ts c = \<lparr>span_start = from_le32 (take 4 c), span_end = from_le32 (subslice 4 8 c),
     span_target = ts ! unat (c ! 8)\<rparr>"

lemma collect_spans_chunks:
  "(\<And>c. c \<in> set (as_chunks 9 r) \<Longrightarrow> unat (c ! 8) < length targets div 32) \<Longrightarrow>
     collect_spans targets r = map (chunk_span (as_chunks 32 targets)) (as_chunks 9 r)"
proof (induction targets r rule: collect_spans.induct)
  case (1 targets r)
  show ?case
  proof (cases "length r < 9")
    case True
    then show ?thesis by (simp add: collect_spans.simps [of targets r] spans_next_def)
  next
    case False
    let ?i = "unat (r ! 8)"
    have r: "as_chunks 9 r = take 9 r # as_chunks 9 (drop 9 r)"
      using False by (simp add: as_chunks.simps [of 9 r])
    have "?i < length targets div 32" using "1.prems" [of "take 9 r"] False by (simp add: r)
    then have i: "?i * 32 + 32 \<le> length targets" by simp
    have next_r: "spans_next targets r = Some (chunk_span (as_chunks 32 targets) (take 9 r), drop 9 r)"
      using False i by (simp add: spans_next_def chunk_span_def as_chunks_nth mult.commute)
    have "collect_spans targets (drop 9 r) = map (chunk_span (as_chunks 32 targets)) (as_chunks 9 (drop 9 r))"
      using "1.IH" [OF next_r] "1.prems" by (simp add: r)
    then show ?thesis by (simp add: collect_spans.simps [of targets r] next_r r)
  qed
qed

section \<open>The scan\<close>

definition index_of :: "bytes \<Rightarrow> nat" where
  "index_of c = unat (c ! 8)"

definition mark :: "u64 \<Rightarrow> bytes list \<Rightarrow> u64" where
  "mark used cs = foldl (\<lambda>u c. u OR push_bit (index_of c) 1) used cs"

lemma scan_spans_iff:
  "scan_spans txt n index prev used cs = Inr u \<longleftrightarrow>
     validate_spans txt index prev (map (chunk_span ts) cs) = Inr ()
     \<and> (\<forall>c\<in>set cs. index_of c < n) \<and> u = mark used cs"
  by (induction "txt" n index prev used cs rule: scan_spans.induct)
    (auto simp: chunk_span_def mark_def index_of_def not_le)

lemma bit_mark: "i < 64 \<Longrightarrow> bit (mark used cs) i \<longleftrightarrow> bit used i \<or> i \<in> index_of ` set cs"
  by (induction cs arbitrary: used) (auto simp: mark_def bit_or_iff bit_exp_iff)

definition all_mask :: "nat \<Rightarrow> u64" where
  "all_mask n = (if n = 64 then - 1 else push_bit n 1 - 1)"

lemma bit_all_mask: "n \<le> 64 \<Longrightarrow> i < 64 \<Longrightarrow> bit (all_mask n) i \<longleftrightarrow> i < n"
proof (cases "n = 64")
  case False
  have "all_mask n = mask n" using False by (simp add: all_mask_def mask_eq_exp_minus_1 push_bit_of_1)
  then show "n \<le> 64 \<Longrightarrow> i < 64 \<Longrightarrow> ?thesis" by (simp add: bit_mask_iff)
qed (simp add: all_mask_def)

text \<open>The mask comparison is the test that every table entry is used.\<close>

lemma mark_all_iff:
  assumes "n \<le> 64" and "\<forall>c\<in>set cs. index_of c < n"
  shows "mark 0 cs = all_mask n \<longleftrightarrow> index_of ` set cs = {..<n}"
proof -
  have "mark 0 cs = all_mask n \<longleftrightarrow> (\<forall>i<64. i \<in> index_of ` set cs \<longleftrightarrow> i < n)"
    using assms(1) by (auto simp: bit_eq_iff bit_mark bit_all_mask)
  also have "\<dots> \<longleftrightarrow> index_of ` set cs = {..<n}"
    using assms by force
  finally show ?thesis .
qed

section \<open>The frame\<close>

definition mention_frame :: "bytes list \<Rightarrow> bytes \<Rightarrow> bytes list \<Rightarrow> bytes" where
  "mention_frame ts txt cs = [1, 0, word_of_nat (length ts), word_of_nat (length cs)]
     @ to_le32 (word_of_nat (length txt)) @ concat ts @ txt @ concat cs"

definition frame_ok :: "bytes list \<Rightarrow> bytes \<Rightarrow> bytes list \<Rightarrow> bool" where
  "frame_ok ts txt cs \<longleftrightarrow> (\<forall>t\<in>set ts. length t = 32) \<and> sorted_wrt (<) ts \<and> ts \<noteq> [] \<and> length ts \<le> 64
     \<and> utf8_valid txt \<and> txt \<noteq> [] \<and> length txt \<le> 16384
     \<and> (\<forall>c\<in>set cs. length c = 9) \<and> cs \<noteq> [] \<and> length cs \<le> 64"

lemma length_concat_const: "(\<And>x. x \<in> set xs \<Longrightarrow> length x = n) \<Longrightarrow> length (concat xs) = length xs * n"
  by (induction xs) auto

definition scan_ok :: "bytes list \<Rightarrow> bytes \<Rightarrow> bytes list \<Rightarrow> bool" where
  "scan_ok ts txt cs \<longleftrightarrow> validate_spans txt 0 0 (map (chunk_span ts) cs) = Inr ()
     \<and> index_of ` set cs = {..<length ts}"

lemma scan_spans_mask:
  assumes "length ts \<le> 64"
  shows "(\<exists>u. scan_spans txt (length ts) 0 0 0 cs = Inr u \<and> u = all_mask (length ts)) \<longleftrightarrow> scan_ok ts txt cs"
  unfolding scan_ok_def using mark_all_iff [OF assms, of cs]
  by (auto simp: scan_spans_iff [where ts = ts])

lemma decode_mention_frame:
  assumes "frame_ok ts txt cs"
  shows "decode_mention_payload (mention_frame ts txt cs) = DecodedValue m \<longleftrightarrow>
    scan_ok ts txt cs
    \<and> m = \<lparr>mention_text = txt, mention_targets = concat ts, mention_spans = concat cs\<rparr>"
proof -
  have ts: "length (concat ts) = length ts * 32" "as_chunks 32 (concat ts) = ts"
    and cs: "length (concat cs) = length cs * 9" "as_chunks 9 (concat cs) = cs"
    using assms by (auto simp: frame_ok_def length_concat_const as_chunks_concat)
  have pos: "0 < length ts" "0 < length cs" "0 < length txt" "length ts \<le> 64" "length cs \<le> 64"
    "length txt \<le> 16384" "sorted_wrt (<) ts" "utf8_valid txt"
    using assms by (simp_all add: frame_ok_def)
  let ?b = "mention_frame ts txt cs"
  have len: "length ?b = 8 + length ts * 32 + length txt + length cs * 9"
    by (simp add: mention_frame_def ts cs)
  have fields: "?b ! 2 = word_of_nat (length ts)" "?b ! 3 = word_of_nat (length cs)"
      "?b ! 0 = 1" "?b ! Suc 0 = 0" "subslice 4 8 ?b = to_le32 (word_of_nat (length txt))"
      "subslice 8 (8 + length ts * 32) ?b = concat ts"
      "subslice (8 + length ts * 32) (8 + length ts * 32 + length txt) ?b = txt"
      "drop (8 + length ts * 32 + length txt) ?b = concat cs"
    by (simp_all add: mention_frame_def wire_simps ts)
  have v1: "decode_mention_v1 ?b =
      try_then (scan_spans txt (length ts) 0 0 0 cs) (\<lambda>used.
        if used \<noteq> all_mask (length ts) then Inl Malformed
        else Inr \<lparr>mention_text = txt, mention_targets = concat ts, mention_spans = concat cs\<rparr>)"
    using pos(4-8) pos(1-3) [folded Suc_le_eq]
    by (simp add: decode_mention_v1_def fields ts cs len strictly_increasing_iff all_mask_def)
  have "decode_mention_payload ?b = DecodedValue m \<longleftrightarrow> decode_mention_v1 ?b = Inr m"
    using len pos by (auto simp: decode_mention_payload_def fields split: sum.splits)
  then show ?thesis
    unfolding v1 using scan_spans_mask [OF pos(4), of "txt" cs] by (auto simp: result_simps)
qed

lemma decode_mention_frame_only:
  assumes "decode_mention_payload b = DecodedValue m"
  obtains ts "txt" cs where "b = mention_frame ts txt cs" "frame_ok ts txt cs"
proof -
  define n k l where "n = unat (b ! 2)" and "k = unat (b ! 3)" and "l = unat (from_le32 (subslice 4 8 b))"
  define ts where "ts = as_chunks 32 (subslice 8 (8 + n * 32) b)"
  define cs where "cs = as_chunks 9 (drop (8 + n * 32 + l) b)"
  define t where "t = subslice (8 + n * 32) (8 + n * 32 + l) b"
  from assms have v1: "decode_mention_v1 b = Inr m" and ver: "b ! 0 = 1" "b ! Suc 0 = 0" and len8: "8 \<le> length b"
    by (auto simp: decode_mention_payload_def split: if_splits sum.splits)
  from v1 have bounds: "1 \<le> n" "n \<le> 64" "1 \<le> k" "k \<le> 64" "1 \<le> l" "l \<le> 16384"
    and len: "length b = 8 + n * 32 + l + k * 9"
    and sorted: "strictly_increasing ts" and utf: "utf8_valid t"
    by (auto simp: decode_mention_v1_def n_def k_def l_def ts_def t_def result_simps split: if_splits)
  have lens: "length ts = n" "length cs = k" "length t = l"
    by (simp_all add: ts_def cs_def t_def len length_as_chunks_div)
  have parts: "concat ts = subslice 8 (8 + n * 32) b" "concat cs = drop (8 + n * 32 + l) b"
    unfolding ts_def cs_def by (rule concat_as_chunks; simp add: len)+
  have words: "word_of_nat n = b ! 2" "word_of_nat k = b ! 3" "word_of_nat l = from_le32 (subslice 4 8 b)"
    by (simp_all add: n_def k_def l_def)
  have "mention_frame ts t cs = b ! 0 # b ! 1 # b ! 2 # b ! 3 # subslice 4 8 b
      @ subslice 8 (8 + n * 32) b @ t @ drop (8 + n * 32 + l) b"
    using len8 by (simp add: mention_frame_def lens parts words ver)
  also have "\<dots> = b" using len8 by (cases "b = []") (simp_all add: peel_simps t_def)
  finally have "b = mention_frame ts t cs" by simp
  moreover have "frame_ok ts t cs"
    using sorted utf lens bounds
    by (auto simp: frame_ok_def strictly_increasing_iff ts_def cs_def dest: as_chunks_length)
  ultimately show thesis by (rule that)
qed

section \<open>Mentions round trip\<close>

definition wf_mention :: "bytes \<times> MentionSpan list \<Rightarrow> bool" where
  "wf_mention ms \<longleftrightarrow> utf8_valid (fst ms) \<and> (\<forall>s\<in>set (snd ms). length (span_target s) = 32)"

definition mention_view :: "Mention \<Rightarrow> bytes \<times> MentionSpan list" where
  "mention_view m = (mention_text m, spans_of m)"

definition table :: "MentionSpan list \<Rightarrow> bytes list" where
  "table spans = remdups_adj (sort (map span_target spans))"

lemma set_table: "set (table spans) = span_target ` set spans"
  by (simp add: table_def)

lemma sorted_table: "sorted_wrt (<) (table spans)"
  by (simp add: table_def strict_remdups_adj)

lemma length_table: "length (table spans) \<le> length spans"
  using remdups_adj_length [of "sort (map span_target spans)"] by (simp add: table_def)

definition span_chunk :: "bytes list \<Rightarrow> MentionSpan \<Rightarrow> bytes" where
  "span_chunk ts s = to_le32 (span_start s) @ to_le32 (span_end s)
     @ [word_of_nat (the (binary_search ts (span_target s)))]"

lemma push_spans_eq:
  assumes "\<forall>s\<in>set ss. binary_search ts (span_target s) \<noteq> None"
  shows "push_spans ts ss out = Inr (out @ concat (map (span_chunk ts) ss))"
  using assms by (induction ts ss out rule: push_spans.induct) (auto simp: span_chunk_def)

lemma encode_mention_eq:
  "encode_mention_payload txt spans =
     try_then (validate_text_and_spans txt spans) (\<lambda>_.
       Inr (mention_frame (table spans) txt (map (span_chunk (table spans)) spans)))"
proof (cases "validate_text_and_spans txt spans")
  case (Inr u)
  then have v: "spans \<noteq> []" "length txt \<le> 16384" "length spans \<le> 64"
    by (auto simp: validate_text_and_spans_def split: if_splits)
  have ne: "table spans \<noteq> []" using v(1) set_table [of spans] by auto
  have "\<forall>s\<in>set spans. binary_search (table spans) (span_target s) \<noteq> None"
    by (simp add: binary_search_None [OF sorted_table] set_table)
  note push = push_spans_eq [OF this]
  have l: "length (table spans) \<le> 64" using length_table [of spans] v(3) by linarith
  have "MENTION_HEADER_LEN + length (table spans) * MENTION_TARGET_LEN + length txt
      + length spans * MENTION_SPAN_LEN \<le> MAX_MENTION_PAYLOAD_LEN"
    using l v(2,3) by simp
  with l ne show ?thesis
    unfolding encode_mention_payload_def Inr
    by (simp add: mention_frame_def push del: MAX_MENTION_PAYLOAD_LEN_def flip: table_def)
qed (simp add: encode_mention_payload_def)

lemma chunk_span_chunk:
  assumes "sorted_wrt (<) ts" and "span_target s \<in> set ts" and "length ts \<le> 64"
  shows "chunk_span ts (span_chunk ts s) = s" and "length (span_chunk ts s) = 9"
    and "index_of (span_chunk ts s) < length ts" and "ts ! index_of (span_chunk ts s) = span_target s"
proof -
  obtain i where i: "binary_search ts (span_target s) = Some i"
    using binary_search_None [OF assms(1)] assms(2) by blast
  then have "i < length ts" "ts ! i = span_target s" by (simp_all add: binary_search_Some [OF assms(1)])
  with i assms(3) show "chunk_span ts (span_chunk ts s) = s" "length (span_chunk ts s) = 9"
    "index_of (span_chunk ts s) < length ts" "ts ! index_of (span_chunk ts s) = span_target s"
    by (simp_all add: chunk_span_def span_chunk_def index_of_def wire_simps)
qed

lemma span_chunk_span:
  assumes "sorted_wrt (<) ts" and "length c = 9" and "index_of c < length ts" and "length ts \<le> 64"
  shows "span_chunk ts (chunk_span ts c) = c"
proof -
  have "binary_search ts (ts ! index_of c) = Some (index_of c)"
    using assms by (simp add: binary_search_Some)
  then have "span_chunk ts (chunk_span ts c) = take 4 c @ subslice 4 8 c @ [c ! 8]"
    using assms by (simp add: span_chunk_def chunk_span_def index_of_def)
  also have "\<dots> = take 4 c @ subslice 4 8 c @ c ! 8 # drop 9 c" using assms(2) by simp
  also have "\<dots> = c" using assms(2) by (simp add: peel_simps del: drop_all)
  finally show ?thesis .
qed

lemma spans_of_frame:
  assumes "frame_ok ts txt cs" and "scan_ok ts txt cs"
  shows "spans_of \<lparr>mention_text = txt, mention_targets = concat ts, mention_spans = concat cs\<rparr>
    = map (chunk_span ts) cs"
proof -
  have ts: "length (concat ts) = length ts * 32" "as_chunks 32 (concat ts) = ts"
    and cs: "as_chunks 9 (concat cs) = cs"
    using assms(1) by (auto simp: frame_ok_def length_concat_const as_chunks_concat)
  have "unat (c ! 8) < length ts" if "c \<in> set cs" for c
    using assms(2) that by (auto simp: scan_ok_def index_of_def)
  then show ?thesis using collect_spans_chunks [of "concat cs" "concat ts"]
    by (simp add: spans_of_def ts cs)
qed

lemma mention_encode_decode:
  assumes "decode_mention_payload b = DecodedValue m"
  shows "encode_mention_payload (mention_text m) (spans_of m) = Inr b \<and> wf_mention (mention_view m)"
proof -
  obtain ts t cs where b: "b = mention_frame ts t cs" and ok: "frame_ok ts t cs"
    using assms by (rule decode_mention_frame_only)
  with assms have scan: "scan_ok ts t cs"
    and m: "m = \<lparr>mention_text = t, mention_targets = concat ts, mention_spans = concat cs\<rparr>"
    by (simp_all add: decode_mention_frame)
  note spans = spans_of_frame [OF ok scan, folded m]
  have ts: "sorted_wrt (<) ts" "length ts \<le> 64" "\<forall>x\<in>set ts. length x = 32"
    and c9: "\<forall>c\<in>set cs. length c = 9" and idx: "index_of ` set cs = {..<length ts}"
    using ok scan by (auto simp: frame_ok_def scan_ok_def)
  have "span_target ` set (spans_of m) = (\<lambda>i. ts ! i) ` index_of ` set cs"
    by (simp add: spans image_image chunk_span_def index_of_def)
  also have "\<dots> = set ts" unfolding idx by (auto simp: in_set_conv_nth)
  finally have tb: "table (spans_of m) = ts"
    by (intro strict_sorted_equal) (simp_all add: sorted_table set_table ts)
  have "map (span_chunk ts) (spans_of m) = cs"
    unfolding spans map_map
    by (rule map_idI) (use ts c9 idx in \<open>auto intro!: span_chunk_span\<close>)
  moreover have "validate_text_and_spans t (spans_of m) = Inr ()"
    using ok scan by (simp add: validate_text_and_spans_def frame_ok_def scan_ok_def spans)
  ultimately have "encode_mention_payload (mention_text m) (spans_of m) = Inr b"
    by (simp add: encode_mention_eq tb b) (simp add: m)
  moreover have "wf_mention (mention_view m)"
  proof -
    have "\<forall>s\<in>set (spans_of m). span_target s \<in> set ts" using tb set_table by fastforce
    then show ?thesis using ts(3) ok by (simp add: wf_mention_def mention_view_def m frame_ok_def)
  qed
  ultimately show ?thesis ..
qed

lemma mention_decode_encode:
  assumes "wf_mention (t, spans)" and "encode_mention_payload t spans = Inr b"
  shows "\<exists>m. decode_mention_payload b = DecodedValue m \<and> mention_view m = (t, spans)
    \<and> targets_of m = table spans"
proof -
  let ?ts = "table spans" and ?cs = "map (span_chunk (table spans)) spans"
  from assms(2) have v: "validate_text_and_spans t spans = Inr ()" and b: "b = mention_frame ?ts t ?cs"
    by (auto simp: encode_mention_eq result_simps)
  then have t: "t \<noteq> []" "spans \<noteq> []" "length t \<le> 16384" "length spans \<le> 64"
    "validate_spans t 0 0 spans = Inr ()"
    by (auto simp: validate_text_and_spans_def split: if_splits)
  have l: "length ?ts \<le> 64" using length_table [of spans] t(4) by linarith
  have sc: "chunk_span ?ts (span_chunk ?ts s) = s" "length (span_chunk ?ts s) = 9"
      "index_of (span_chunk ?ts s) < length ?ts" "?ts ! index_of (span_chunk ?ts s) = span_target s"
    if "s \<in> set spans" for s
    using chunk_span_chunk [OF sorted_table _ l, of s] that by (simp_all add: set_table)
  have w32: "\<forall>x\<in>set ?ts. length x = 32" using assms(1) by (auto simp: set_table wf_mention_def)
  have ok: "frame_ok ?ts t ?cs"
    using w32 t l assms(1) sc(2) sorted_table set_table [of spans]
    by (auto simp: frame_ok_def wf_mention_def)
  have inv: "map (chunk_span ?ts) ?cs = spans" using sc(1) by (simp add: map_idI)
  have "{..<length ?ts} \<subseteq> index_of ` set ?cs"
  proof
    fix i assume i: "i \<in> {..<length ?ts}"
    then have "?ts ! i \<in> span_target ` set spans" using set_table [of spans] nth_mem by fastforce
    then obtain s where s: "s \<in> set spans" "?ts ! i = span_target s" by auto
    have "distinct ?ts" using sorted_table strict_sorted_iff by blast
    with i s sc(3,4) [OF s(1)] have "index_of (span_chunk ?ts s) = i"
      by (metis lessThan_iff nth_eq_iff_index_eq)
    with s(1) show "i \<in> index_of ` set ?cs" by force
  qed
  then have scan: "scan_ok ?ts t ?cs" using t(5) sc(3) unfolding scan_ok_def inv by auto
  define m where "m = \<lparr>mention_text = t, mention_targets = concat ?ts, mention_spans = concat ?cs\<rparr>"
  have "decode_mention_payload b = DecodedValue m"
    unfolding b m_def decode_mention_frame [OF ok] using scan by simp
  moreover have "mention_view m = (t, spans)"
    unfolding mention_view_def m_def using spans_of_frame [OF ok scan] inv by simp
  moreover have "targets_of m = ?ts"
    using w32 by (simp add: targets_of_def m_def collect_targets_chunks as_chunks_concat)
  ultimately show ?thesis by blast
qed

interpretation mention: strict_codec wf_mention "\<lambda>(t, spans). encode_mention_payload t spans"
  "\<lambda>b. map_option mention_view (decoded_value (decode_mention_payload b))"
  by unfold_locales
    (auto simp: decoded_value_eq_Some mention_view_def dest: mention_encode_decode mention_decode_encode)

text \<open>
  Mentions have one encoding. Decoding a payload and iterating its spans yields a text and spans
  exactly when encoding them yields the payload.
\<close>

theorem mention_payload_canonical:
  "(\<exists>m. decode_mention_payload b = DecodedValue m \<and> mention_text m = t \<and> spans_of m = spans) \<longleftrightarrow>
     wf_mention (t, spans) \<and> encode_mention_payload t spans = Inr b"
  using mention.accepts_iff [of b "(t, spans)"]
  by (auto simp: decoded_value_eq_Some mention_view_def)

definition good_span :: "bytes \<Rightarrow> MentionSpan \<Rightarrow> bool" where
  "good_span t s \<longleftrightarrow> unat (span_start s) < unat (span_end s) \<and> unat (span_end s) \<le> length t
     \<and> is_char_boundary t (unat (span_start s)) \<and> is_char_boundary t (unat (span_end s))"

definition before :: "MentionSpan \<Rightarrow> MentionSpan \<Rightarrow> bool" where
  "before s s' \<longleftrightarrow> unat (span_end s) \<le> unat (span_start s')"

lemma validate_spans_sorted:
  "validate_spans t i p ss = Inr () \<Longrightarrow>
     (\<forall>s\<in>set ss. good_span t s) \<and> sorted_wrt before ss
     \<and> (0 < i \<longrightarrow> (\<forall>s\<in>set ss. p \<le> unat (span_start s)))"
proof (induction ss arbitrary: i p)
  case (Cons s ss)
  from Cons.prems have ok: "\<not> bad_span t i p (unat (span_start s)) (unat (span_end s))"
    and rest: "validate_spans t (i + 1) (unat (span_end s)) ss = Inr ()"
    by (simp_all split: if_splits)
  from Cons.IH [OF rest] have ss: "\<forall>s\<in>set ss. good_span t s" "sorted_wrt before ss"
    "\<forall>s'\<in>set ss. unat (span_end s) \<le> unat (span_start s')" by auto
  have s: "good_span t s" "0 < i \<Longrightarrow> p \<le> unat (span_start s)"
    using ok by (auto simp: bad_span_def good_span_def)
  have "p \<le> unat (span_start s')" if "0 < i" "s' \<in> set ss" for s'
    using ss(3) s that by (fastforce simp: good_span_def)
  with ss s show ?case by (simp add: before_def [of s])
qed simp

text \<open>
  The spans of an accepted mention are non-empty, lie within the text on character boundaries, and
  are ordered without overlap; its target table is strictly sorted and holds exactly the peers the
  spans refer to.
\<close>

theorem accepted_mention_sound:
  assumes "decode_mention_payload b = DecodedValue m"
  shows "(\<forall>s\<in>set (spans_of m). good_span (mention_text m) s) \<and> sorted_wrt before (spans_of m)
    \<and> sorted_wrt (<) (targets_of m) \<and> set (targets_of m) = span_target ` set (spans_of m)"
proof -
  note enc = mention_encode_decode [OF assms]
  then have "validate_spans (mention_text m) 0 0 (spans_of m) = Inr ()"
    by (auto simp: encode_mention_eq result_simps validate_text_and_spans_def split: if_splits)
  moreover obtain m' where "decode_mention_payload b = DecodedValue m'"
      "targets_of m' = table (spans_of m)"
    using mention_decode_encode [of "mention_text m" "spans_of m" b] enc
    by (auto simp: mention_view_def)
  ultimately show ?thesis
    using assms validate_spans_sorted sorted_table set_table by auto
qed

theorem accepted_mention_sound_witness:
  "\<exists>m. decode_mention_payload (mention_frame [zeros 32] [0x40, 0x61]
        [to_le32 0 @ to_le32 2 @ [0]]) = DecodedValue m
    \<and> (\<forall>s\<in>set (spans_of m). good_span (mention_text m) s) \<and> sorted_wrt (<) (targets_of m)"
proof -
  let ?c = "to_le32 0 @ to_le32 2 @ [0]"
  have ok: "frame_ok [zeros 32] [0x40, 0x61] [?c]" by (simp add: frame_ok_def)
  have "chunk_span [zeros 32] ?c
      = \<lparr>span_start = 0, span_end = 2, span_target = zeros 32\<rparr>"
    by (simp add: chunk_span_def wire_simps)
  moreover have "index_of ?c = 0" by (simp add: index_of_def wire_simps)
  ultimately have "scan_ok [zeros 32] [0x40, 0x61] [?c]"
    by (simp add: scan_ok_def bad_span_def is_char_boundary_def lessThan_Suc)
  then have "decode_mention_payload (mention_frame [zeros 32] [0x40, 0x61] [?c]) = DecodedValue
      \<lparr>mention_text = [0x40, 0x61], mention_targets = concat [zeros 32], mention_spans = concat [?c]\<rparr>"
    unfolding decode_mention_frame [OF ok] by simp
  from this accepted_mention_sound [OF this] show ?thesis by blast
qed

end
