(* ===== verification/Edit.thy ===== *)
theory Edit
  imports Komms_Prelude
begin

text \<open>
  \<^verbatim>\<open>kult-protocol/src/edit.rs\<close>: the immutable message-edit payload, with the proof that it is a strict
  codec.
\<close>

definition EDIT_HEADER_LEN :: nat where [simp]: "EDIT_HEADER_LEN = 32 + 16 + 8 + 4"
definition MAX_EDIT_TEXT_LEN :: nat where [simp]: "MAX_EDIT_TEXT_LEN = 16384"
definition MAX_EDIT_PAYLOAD_LEN :: nat where
  [simp]: "MAX_EDIT_PAYLOAD_LEN = EDIT_HEADER_LEN + MAX_EDIT_TEXT_LEN"

record Edit =
  target_author :: bytes
  target_content_id :: bytes
  revision :: u64
  edit_text :: bytes

text \<open>\<^verbatim>\<open>DecodedEdit\<close> has no unsupported case: \<open>None\<close> is \<^verbatim>\<open>Malformed\<close>.\<close>

definition encode_edit_payload :: "Edit \<Rightarrow> bytes result" where
  "encode_edit_payload e =
     (let txt = edit_text e in
      if revision e = 0 \<or> txt = [] \<or> length txt > MAX_EDIT_TEXT_LEN
      then Inl (if length txt > MAX_EDIT_TEXT_LEN then TooLarge else Malformed)
      else Inr (target_author e @ target_content_id e @ to_le64 (revision e)
             @ to_le32 (word_of_nat (length txt)) @ txt))"

definition decode_edit_payload :: "bytes \<Rightarrow> Edit option" where
  "decode_edit_payload b =
     (if length b < EDIT_HEADER_LEN \<or> length b > MAX_EDIT_PAYLOAD_LEN then None
      else
        let rev = from_le64 (subslice 48 56 b); text_len = unat (from_le32 (subslice 56 60 b)) in
        if rev = 0 \<or> text_len = 0 \<or> text_len > MAX_EDIT_TEXT_LEN
          \<or> text_len \<noteq> length b - EDIT_HEADER_LEN
        then None
        else if utf8_valid (drop EDIT_HEADER_LEN b)
        then Some \<lparr>target_author = take 32 b, target_content_id = subslice 32 48 b, revision = rev,
                   edit_text = drop EDIT_HEADER_LEN b\<rparr>
        else None)"

definition wf_edit :: "Edit \<Rightarrow> bool" where
  "wf_edit e \<longleftrightarrow> length (target_author e) = 32 \<and> length (target_content_id e) = 16
     \<and> utf8_valid (edit_text e)"

lemma edit_decode_encode:
  assumes "wf_edit e" and "encode_edit_payload e = Inr b"
  shows "decode_edit_payload b = Some e"
proof -
  have l: "length (target_author e) = 32" "length (target_content_id e) = 16" "utf8_valid (edit_text e)"
    using assms(1) by (simp_all add: wf_edit_def)
  have e: "revision e \<noteq> 0" "edit_text e \<noteq> []" "length (edit_text e) \<le> 16384"
    and b: "b = target_author e @ target_content_id e @ to_le64 (revision e)
      @ to_le32 (word_of_nat (length (edit_text e))) @ edit_text e"
    using assms(2) by (auto simp: encode_edit_payload_def split: if_splits)
  show ?thesis using l e by (simp add: decode_edit_payload_def b wire_simps)
qed

lemma edit_encode_decode:
  assumes "decode_edit_payload b = Some e"
  shows "encode_edit_payload e = Inr b \<and> wf_edit e"
proof -
  from assms have l: "60 \<le> length b" "length b \<le> 16444"
    and n: "unat (from_le32 (subslice 56 60 b)) = length b - 60" and ne: "length b \<noteq> 60"
    and rev: "from_le64 (subslice 48 56 b) \<noteq> 0" and utf: "utf8_valid (drop 60 b)"
    and e: "e = \<lparr>target_author = take 32 b, target_content_id = subslice 32 48 b,
      revision = from_le64 (subslice 48 56 b), edit_text = drop 60 b\<rparr>"
    by (auto simp: decode_edit_payload_def split: if_splits)
  from l ne have ne': "60 < length b" by simp
  have w: "word_of_nat (length b - 60) = from_le32 (subslice 56 60 b)" by (simp add: n [symmetric])
  have "encode_edit_payload e = Inr (take 32 b @ subslice 32 48 b @ subslice 48 56 b @ subslice 56 60 b
      @ drop 60 b)"
    using l ne' rev by (simp add: encode_edit_payload_def e w)
  also have "\<dots> = Inr b" using l by (simp add: peel_simps)
  finally show ?thesis using l utf by (simp add: e wf_edit_def)
qed

interpretation edit: strict_codec wf_edit encode_edit_payload decode_edit_payload
  by unfold_locales (auto dest: edit_encode_decode intro: edit_decode_encode)

text \<open>
  The edit decoder accepts exactly the encodings of well-formed edits, and every accepted edit has
  a positive revision and a non-empty replacement of at most 16,384 bytes.
\<close>

theorem edit_payload_canonical:
  "decode_edit_payload b = Some e \<longleftrightarrow> wf_edit e \<and> encode_edit_payload e = Inr b"
  by (rule edit.accepts_iff)

end
