(* ===== verification/Poll.thy ===== *)
theory Poll
  imports Komms_Prelude
begin

text \<open>
  \<^verbatim>\<open>kult-protocol/src/poll.rs\<close>: poll creation, votes, creator closure and owner-moderated closure.

  Decoded events keep encoded lists, and their iterators index the bytes without a check of their own.
  A step of such an iterator is modelled with its panics: \<open>None\<close> is a panic, \<open>Some None\<close> the end. The
  lemmas show that the format is canonical for all four events and that no iterator of a decoded
  event panics.
\<close>

section \<open>Constants and data\<close>

definition POLL_VERSION :: u8 where [simp]: "POLL_VERSION = 1"
definition POLL_CLOSE_MANUAL :: u8 where [simp]: "POLL_CLOSE_MANUAL = 1"
definition MAX_POLL_QUESTION_LEN :: nat where [simp]: "MAX_POLL_QUESTION_LEN = 1024"
definition MIN_POLL_OPTIONS :: nat where [simp]: "MIN_POLL_OPTIONS = 2"
definition MAX_POLL_OPTIONS :: nat where [simp]: "MAX_POLL_OPTIONS = 12"
definition MAX_POLL_OPTION_TEXT_LEN :: nat where [simp]: "MAX_POLL_OPTION_TEXT_LEN = 256"
definition MAX_POLL_VOTERS :: nat where [simp]: "MAX_POLL_VOTERS = 64"
definition OP_CREATE :: u8 where [simp]: "OP_CREATE = 1"
definition OP_VOTE :: u8 where [simp]: "OP_VOTE = 2"
definition OP_CLOSE :: u8 where [simp]: "OP_CLOSE = 3"
definition OP_MODERATED_CLOSE :: u8 where [simp]: "OP_MODERATED_CLOSE = 4"
definition COMMON_HEADER_LEN :: nat where [simp]: "COMMON_HEADER_LEN = 4"
definition CREATE_HEADER_LEN :: nat where [simp]: "CREATE_HEADER_LEN = COMMON_HEADER_LEN + 8 + 2 + 1 + 1"
definition VOTE_LEN :: nat where [simp]: "VOTE_LEN = COMMON_HEADER_LEN + 32 + 16 + 16 + 8"
definition CLOSE_HEADER_LEN :: nat where [simp]: "CLOSE_HEADER_LEN = COMMON_HEADER_LEN + 32 + 16 + 1 + 3"
definition CLOSE_HEAD_LEN :: nat where [simp]: "CLOSE_HEAD_LEN = 32 + 16 + 16 + 8"
definition MODERATED_CLOSE_HEADER_LEN :: nat where
  [simp]: "MODERATED_CLOSE_HEADER_LEN = COMMON_HEADER_LEN + 32 + 32 + 16 + 8 + 1 + 3"

record PollOption =
  option_id :: bytes
  option_text :: bytes

record PollVote =
  vote_poll_author :: bytes
  vote_poll_id :: bytes
  vote_option_id :: bytes
  vote_revision :: u64

record PollVoteHead =
  head_voter :: bytes
  head_event_id :: bytes
  head_option_id :: bytes
  head_revision :: u64

record PollCreate =
  create_generation :: u64
  create_question :: bytes
  create_option_bytes :: bytes
  create_option_count :: u8
  create_voter_bytes :: bytes

record PollClose =
  close_poll_author :: bytes
  close_poll_id :: bytes
  close_head_bytes :: bytes

record PollModeratedClose =
  mod_group :: bytes
  mod_poll_author :: bytes
  mod_poll_id :: bytes
  mod_authority_generation :: u64
  mod_signature :: bytes
  mod_head_bytes :: bytes

datatype Poll =
    Create PollCreate
  | Vote PollVote
  | Close PollClose
  | ModeratedClose PollModeratedClose

section \<open>The iterators\<close>

definition options_next :: "bytes \<Rightarrow> u8 \<Rightarrow> (PollOption \<times> bytes \<times> u8) option option" where
  "options_next b remaining =
     (if remaining = 0 then Some None
      else if length b < 18 then None
      else
        let len = unat (from_le16 [b ! 16, b ! 17]) in
        if length b < 18 + len \<or> \<not> utf8_valid (subslice 18 (18 + len) b) then None
        else Some (Some (\<lparr>option_id = take 16 b, option_text = subslice 18 (18 + len) b\<rparr>,
                         drop (18 + len) b, remaining - 1)))"

definition voters_next :: "bytes \<Rightarrow> (bytes \<times> bytes) option option" where
  "voters_next b =
     (if b = [] then Some None
      else if length b < 32 then None
      else Some (Some (take 32 b, drop 32 b)))"

definition heads_next :: "bytes \<Rightarrow> (PollVoteHead \<times> bytes) option option" where
  "heads_next b =
     (if b = [] then Some None
      else if length b < CLOSE_HEAD_LEN then None
      else Some (Some (\<lparr>head_voter = take 32 b, head_event_id = subslice 32 48 b,
                        head_option_id = subslice 48 64 b, head_revision = from_le64 (subslice 64 72 b)\<rparr>,
                       drop CLOSE_HEAD_LEN b)))"

text \<open>Collecting an iterator: \<open>None\<close> when a step panics.\<close>

function collect_options :: "bytes \<Rightarrow> u8 \<Rightarrow> PollOption list option" where
  "collect_options b n =
     (case options_next b n of
        None \<Rightarrow> None
      | Some None \<Rightarrow> Some []
      | Some (Some (x, b', n')) \<Rightarrow> map_option ((#) x) (collect_options b' n'))"
  by pat_completeness auto
termination
  by (relation "measure (\<lambda>(b, _). length b)") (auto simp: options_next_def split: if_splits)

function collect_voters :: "bytes \<Rightarrow> bytes list option" where
  "collect_voters b =
     (case voters_next b of
        None \<Rightarrow> None
      | Some None \<Rightarrow> Some []
      | Some (Some (x, b')) \<Rightarrow> map_option ((#) x) (collect_voters b'))"
  by pat_completeness auto
termination
  by (relation "measure length") (auto simp: voters_next_def split: if_splits)

function collect_heads :: "bytes \<Rightarrow> PollVoteHead list option" where
  "collect_heads b =
     (case heads_next b of
        None \<Rightarrow> None
      | Some None \<Rightarrow> Some []
      | Some (Some (x, b')) \<Rightarrow> map_option ((#) x) (collect_heads b'))"
  by pat_completeness auto
termination
  by (relation "measure length") (auto simp: heads_next_def split: if_splits)

declare collect_options.simps [simp del] collect_voters.simps [simp del] collect_heads.simps [simp del]

section \<open>Encoding\<close>

fun sorted_voters_from :: "bytes option \<Rightarrow> bytes list \<Rightarrow> bool" where
  "sorted_voters_from previous [] = True"
| "sorted_voters_from previous (v # vs) =
     (if (case previous of Some p \<Rightarrow> p \<ge> v | None \<Rightarrow> False) then False
      else sorted_voters_from (Some v) vs)"

definition strictly_sorted_voters :: "bytes list \<Rightarrow> bool" where
  "strictly_sorted_voters vs = sorted_voters_from None vs"

fun check_options :: "PollOption list \<Rightarrow> PollOption list \<Rightarrow> unit result" where
  "check_options earlier [] = Inr ()"
| "check_options earlier (opt # rest) =
     (if option_text opt = [] \<or> length (option_text opt) > MAX_POLL_OPTION_TEXT_LEN
        \<or> list_ex (\<lambda>e. option_id e = option_id opt) earlier
      then Inl (if length (option_text opt) > MAX_POLL_OPTION_TEXT_LEN then TooLarge else Malformed)
      else check_options (earlier @ [opt]) rest)"

definition option_bytes :: "PollOption \<Rightarrow> bytes" where
  "option_bytes opt = option_id opt @ to_le16 (word_of_nat (length (option_text opt))) @ option_text opt"

definition encode_poll_create_payload ::
  "u64 \<Rightarrow> bytes \<Rightarrow> PollOption list \<Rightarrow> bytes list \<Rightarrow> bytes result" where
  "encode_poll_create_payload generation question options voters =
     (if generation = 0 \<or> question = [] \<or> length question > MAX_POLL_QUESTION_LEN
        \<or> \<not> (MIN_POLL_OPTIONS \<le> length options \<and> length options \<le> MAX_POLL_OPTIONS)
        \<or> voters = [] \<or> length voters > MAX_POLL_VOTERS \<or> \<not> strictly_sorted_voters voters
      then Inl Malformed
      else try_then (check_options [] options) (\<lambda>_.
        Inr ([POLL_VERSION, OP_CREATE, POLL_CLOSE_MANUAL, 0] @ to_le64 generation
          @ to_le16 (word_of_nat (length question)) @ [word_of_nat (length options)]
          @ [word_of_nat (length voters)] @ question
          @ concat (map option_bytes options) @ concat voters)))"

definition encode_poll_vote_payload :: "PollVote \<Rightarrow> bytes result" where
  "encode_poll_vote_payload vote =
     (if vote_revision vote = 0 then Inl Malformed
      else Inr ([POLL_VERSION, OP_VOTE, 0, 0] @ vote_poll_author vote @ vote_poll_id vote
             @ vote_option_id vote @ to_le64 (vote_revision vote)))"

definition head_bytes :: "PollVoteHead \<Rightarrow> bytes" where
  "head_bytes h = head_voter h @ head_event_id h @ head_option_id h @ to_le64 (head_revision h)"

definition encode_poll_close_payload :: "bytes \<Rightarrow> bytes \<Rightarrow> PollVoteHead list \<Rightarrow> bytes result" where
  "encode_poll_close_payload poll_author poll_id heads =
     (if length heads > MAX_POLL_VOTERS \<or> \<not> strictly_sorted_voters (map head_voter heads)
        \<or> list_ex (\<lambda>h. head_revision h = 0) heads
      then Inl Malformed
      else Inr ([POLL_VERSION, OP_CLOSE, 0, 0] @ poll_author @ poll_id @ [word_of_nat (length heads)]
             @ zeros 3 @ concat (map head_bytes heads)))"

definition poll_moderation_signing_bytes ::
  "bytes \<Rightarrow> bytes \<Rightarrow> bytes \<Rightarrow> u64 \<Rightarrow> PollVoteHead list \<Rightarrow> bytes result" where
  "poll_moderation_signing_bytes grp poll_author poll_id authority_generation heads =
     (if authority_generation = 0 \<or> length heads > MAX_POLL_VOTERS
        \<or> \<not> strictly_sorted_voters (map head_voter heads) \<or> list_ex (\<lambda>h. head_revision h = 0) heads
      then Inl Malformed
      else Inr ([POLL_VERSION, OP_MODERATED_CLOSE, 0, 0] @ grp @ poll_author @ poll_id
             @ to_le64 authority_generation @ [word_of_nat (length heads)] @ zeros 3
             @ concat (map head_bytes heads)))"

definition encode_poll_moderated_close_payload ::
  "bytes \<Rightarrow> bytes \<Rightarrow> bytes \<Rightarrow> u64 \<Rightarrow> PollVoteHead list \<Rightarrow> bytes \<Rightarrow> bytes result" where
  "encode_poll_moderated_close_payload grp poll_author poll_id authority_generation heads signature =
     try_then (poll_moderation_signing_bytes grp poll_author poll_id authority_generation heads)
       (\<lambda>out. Inr (out @ signature))"

section \<open>Decoding\<close>

text \<open>The option loop returns the final cursor; \<open>ids\<close> is the prefix of the id array filled so far.\<close>

fun scan_options :: "bytes \<Rightarrow> nat \<Rightarrow> bytes list \<Rightarrow> nat \<Rightarrow> nat option" where
  "scan_options b 0 ids cursor = Some cursor"
| "scan_options b (Suc n) ids cursor =
     (if cursor + 18 > length b then None
      else
        let oid = subslice cursor (cursor + 16) b in
        if oid \<in> set ids then None
        else
          let len = unat (from_le16 [b ! (cursor + 16), b ! (cursor + 17)]); cursor = cursor + 18 in
          if len = 0 \<or> len > MAX_POLL_OPTION_TEXT_LEN \<or> cursor + len > length b then None
          else if \<not> utf8_valid (subslice cursor (cursor + len) b) then None
          else scan_options b n (ids @ [oid]) (cursor + len))"

definition decode_create :: "bytes \<Rightarrow> Poll decoded" where
  "decode_create b =
     (if length b < CREATE_HEADER_LEN \<or> b ! 2 \<noteq> POLL_CLOSE_MANUAL \<or> b ! 3 \<noteq> 0 then DecodedMalformed
      else
        let generation = from_le64 (subslice 4 12 b);
            question_len = unat (from_le16 [b ! 12, b ! 13]);
            option_count = unat (b ! 14); voter_count = unat (b ! 15) in
        if generation = 0 \<or> question_len = 0 \<or> question_len > MAX_POLL_QUESTION_LEN
          \<or> \<not> (MIN_POLL_OPTIONS \<le> option_count \<and> option_count \<le> MAX_POLL_OPTIONS)
          \<or> voter_count = 0 \<or> voter_count > MAX_POLL_VOTERS
          \<or> CREATE_HEADER_LEN + question_len > length b then DecodedMalformed
        else
          let question_end = CREATE_HEADER_LEN + question_len;
              question = subslice CREATE_HEADER_LEN question_end b in
          if \<not> utf8_valid question then DecodedMalformed
          else (case scan_options b option_count [] question_end of
              None \<Rightarrow> DecodedMalformed
            | Some cursor \<Rightarrow>
                if cursor + voter_count * 32 \<noteq> length b then DecodedMalformed
                else if \<not> strictly_sorted_voters (as_chunks 32 (drop cursor b)) then DecodedMalformed
                else DecodedValue (Create \<lparr>create_generation = generation, create_question = question,
                    create_option_bytes = subslice question_end cursor b,
                    create_option_count = word_of_nat option_count,
                    create_voter_bytes = drop cursor b\<rparr>)))"

definition decode_vote :: "bytes \<Rightarrow> Poll decoded" where
  "decode_vote b =
     (if length b \<noteq> VOTE_LEN \<or> b ! 2 \<noteq> 0 \<or> b ! 3 \<noteq> 0 then DecodedMalformed
      else
        let rev = from_le64 (subslice 68 76 b) in
        if rev = 0 then DecodedMalformed
        else DecodedValue (Vote \<lparr>vote_poll_author = subslice 4 36 b, vote_poll_id = subslice 36 52 b,
               vote_option_id = subslice 52 68 b, vote_revision = rev\<rparr>))"

fun heads_ok :: "bytes option \<Rightarrow> bytes list \<Rightarrow> bool" where
  "heads_ok previous [] = True"
| "heads_ok previous (chunk # rest) =
     (let voter = take 32 chunk in
      if (case previous of Some p \<Rightarrow> p \<ge> voter | None \<Rightarrow> False) then False
      else if from_le64 (subslice 64 72 chunk) = 0 then False
      else heads_ok (Some voter) rest)"

definition decode_close :: "bytes \<Rightarrow> Poll decoded" where
  "decode_close b =
     (if length b < CLOSE_HEADER_LEN \<or> b ! 2 \<noteq> 0 \<or> b ! 3 \<noteq> 0 then DecodedMalformed
      else
        let count = unat (b ! 52) in
        if count > MAX_POLL_VOTERS \<or> subslice 53 56 b \<noteq> zeros 3
          \<or> CLOSE_HEADER_LEN + count * CLOSE_HEAD_LEN \<noteq> length b then DecodedMalformed
        else
          let heads = drop CLOSE_HEADER_LEN b in
          if \<not> heads_ok None (as_chunks CLOSE_HEAD_LEN heads) then DecodedMalformed
          else DecodedValue (Close \<lparr>close_poll_author = subslice 4 36 b, close_poll_id = subslice 36 52 b,
                 close_head_bytes = heads\<rparr>))"

definition decode_moderated_close :: "bytes \<Rightarrow> Poll decoded" where
  "decode_moderated_close b =
     (if length b < MODERATED_CLOSE_HEADER_LEN + 64 \<or> b ! 2 \<noteq> 0 \<or> b ! 3 \<noteq> 0 then DecodedMalformed
      else
        let gen = from_le64 (subslice 84 92 b); count = unat (b ! 92) in
        if gen = 0 \<or> count > MAX_POLL_VOTERS \<or> subslice 93 96 b \<noteq> zeros 3
          \<or> MODERATED_CLOSE_HEADER_LEN + count * CLOSE_HEAD_LEN + 64 \<noteq> length b then DecodedMalformed
        else
          let signature_at = length b - 64;
              heads = subslice MODERATED_CLOSE_HEADER_LEN signature_at b in
          if \<not> heads_ok None (as_chunks CLOSE_HEAD_LEN heads) then DecodedMalformed
          else DecodedValue (ModeratedClose \<lparr>mod_group = subslice 4 36 b, mod_poll_author = subslice 36 68 b,
                 mod_poll_id = subslice 68 84 b, mod_authority_generation = gen,
                 mod_signature = drop signature_at b, mod_head_bytes = heads\<rparr>))"

definition decode_poll_payload :: "bytes \<Rightarrow> Poll decoded" where
  "decode_poll_payload b =
     (if length b < COMMON_HEADER_LEN then DecodedMalformed
      else if b ! 0 \<noteq> POLL_VERSION then DecodedUnsupported
      else if b ! 1 = OP_CREATE then decode_create b
      else if b ! 1 = OP_VOTE then decode_vote b
      else if b ! 1 = OP_CLOSE then decode_close b
      else if b ! 1 = OP_MODERATED_CLOSE then decode_moderated_close b
      else DecodedMalformed)"

section \<open>Voters and vote heads\<close>

lemma sorted_voters_from_iff:
  "sorted_voters_from previous vs \<longleftrightarrow>
     (case (previous, vs) of (Some p, v # _) \<Rightarrow> p < v | _ \<Rightarrow> True) \<and> sorted_wrt (<) vs"
proof (induction previous vs rule: sorted_voters_from.induct)
  case (2 previous v vs)
  then show ?case
    by (cases vs) (auto simp: strictly_increasing_iff [symmetric] split: option.splits)
qed (simp split: option.split)

lemma strictly_sorted_voters_iff: "strictly_sorted_voters vs \<longleftrightarrow> sorted_wrt (<) vs"
  by (simp add: strictly_sorted_voters_def sorted_voters_from_iff)

definition chunk_head :: "bytes \<Rightarrow> PollVoteHead" where
  "chunk_head c = \<lparr>head_voter = take 32 c, head_event_id = subslice 32 48 c,
     head_option_id = subslice 48 64 c, head_revision = from_le64 (subslice 64 72 c)\<rparr>"

definition wf_head :: "PollVoteHead \<Rightarrow> bool" where
  "wf_head h \<longleftrightarrow> length (head_voter h) = 32 \<and> length (head_event_id h) = 16 \<and> length (head_option_id h) = 16"

lemma length_head_bytes [simp]: "wf_head h \<Longrightarrow> length (head_bytes h) = 72"
  by (simp add: head_bytes_def wf_head_def)

lemma chunk_head_bytes [simp]: "wf_head h \<Longrightarrow> chunk_head (head_bytes h) = h"
  by (simp add: chunk_head_def head_bytes_def wf_head_def wire_simps)

lemma head_bytes_chunk:
  assumes "length c = 72"
  shows "head_bytes (chunk_head c) = c"
proof -
  have "head_bytes (chunk_head c) = take 32 c @ subslice 32 48 c @ subslice 48 64 c @ subslice 64 72 c @ drop 72 c"
    using assms by (simp add: head_bytes_def chunk_head_def)
  also have "\<dots> = c" using assms by (simp add: peel_simps del: drop_all)
  finally show ?thesis .
qed

lemma wf_chunk_head [simp]: "length c = 72 \<Longrightarrow> wf_head (chunk_head c)"
  by (simp add: wf_head_def chunk_head_def)

lemma heads_ok_iff:
  "heads_ok previous cs \<longleftrightarrow> sorted_voters_from previous (map (head_voter \<circ> chunk_head) cs)
     \<and> (\<forall>c\<in>set cs. head_revision (chunk_head c) \<noteq> 0)"
  by (induction previous cs rule: heads_ok.induct) (auto simp: chunk_head_def)

lemma collect_heads_concat:
  "(\<And>h. h \<in> set hs \<Longrightarrow> wf_head h) \<Longrightarrow> collect_heads (concat (map head_bytes hs)) = Some hs"
proof (induction hs)
  case Nil
  show ?case by (simp add: collect_heads.simps heads_next_def)
next
  case (Cons h hs)
  then have h: "wf_head h" by simp
  then have "head_bytes h \<noteq> []" using length_head_bytes [OF h] by force
  then have "heads_next (head_bytes h @ r) = Some (Some (h, r))" for r
    using chunk_head_bytes [OF h] length_head_bytes [OF h]
    by (simp add: heads_next_def chunk_head_def subslice_append)
  with Cons show ?case by (subst collect_heads.simps) simp
qed

lemma collect_voters_concat:
  "(\<And>v. v \<in> set vs \<Longrightarrow> length v = 32) \<Longrightarrow> collect_voters (concat vs) = Some vs"
proof (induction vs)
  case Nil
  show ?case by (simp add: collect_voters.simps voters_next_def)
next
  case (Cons v vs)
  then have "length v = 32" by simp
  moreover from this have "v \<noteq> []" by auto
  ultimately have "voters_next (v @ r) = Some (Some (v, r))" for r by (simp add: voters_next_def)
  with Cons show ?case by (subst collect_voters.simps) simp
qed

section \<open>Options\<close>

definition option_ok :: "PollOption \<Rightarrow> bool" where
  "option_ok opt \<longleftrightarrow> length (option_id opt) = 16 \<and> utf8_valid (option_text opt)
     \<and> option_text opt \<noteq> [] \<and> length (option_text opt) \<le> 256"

lemma subslice_two: "i + 2 \<le> length b \<Longrightarrow> subslice i (i + 2) b = [b ! i, b ! (i + 1)]"
  by (simp add: subslice_def numeral_2_eq_2 take_Suc_conv_app_nth hd_drop_conv_nth take_Suc tl_drop drop_Suc)

lemma subslice_two_at:
  "c + 18 \<le> length b \<Longrightarrow> subslice (c + 16) (c + 18) b = [b ! (c + 16), b ! (c + 17)]"
proof -
  assume "c + 18 \<le> length b"
  moreover have "c + 16 + 2 = c + 18" "c + 16 + 1 = c + 17" by simp_all
  ultimately show ?thesis using subslice_two [of "c + 16" b] by metis
qed

lemma list_ex_image: "list_ex (\<lambda>e. f e = x) xs \<longleftrightarrow> x \<in> f ` set xs"
  by (auto simp: list_ex_iff)

lemma check_options_iff:
  "check_options earlier opts = Inr () \<longleftrightarrow>
     (\<forall>opt\<in>set opts. option_text opt \<noteq> [] \<and> length (option_text opt) \<le> 256)
     \<and> distinct (map option_id opts) \<and> option_id ` set earlier \<inter> option_id ` set opts = {}"
  by (induction earlier opts rule: check_options.induct) (auto simp: list_ex_image not_less)

text \<open>One round of the option loop passes the bytes of exactly one admissible option.\<close>

lemma option_read:
  assumes "len = unat (from_le16 [b ! (c + 16), b ! (c + 17)])" and "c + 18 \<le> length b"
    and "0 < len" "len \<le> 256" "c + 18 + len \<le> length b" "utf8_valid (subslice (c + 18) (c + 18 + len) b)"
  defines "opt \<equiv> \<lparr>option_id = subslice c (c + 16) b, option_text = subslice (c + 18) (c + 18 + len) b\<rparr>"
  shows "option_ok opt" and "reads b c (c + 18 + len) (option_bytes opt)"
proof -
  have "subslice (c + 16) (c + 18) b = [b ! (c + 16), b ! (c + 17)]"
    using assms(2) by (rule subslice_two_at)
  then have l: "to_le16 (word_of_nat len) = subslice (c + 16) (c + 18) b"
    unfolding assms(1) using assms(2) by simp
  have len: "length (option_text opt) = len" using assms(5) by (simp add: opt_def)
  then have "option_text opt \<noteq> []" using assms(3) by force
  moreover have "length (option_id opt) = 16" "utf8_valid (option_text opt)"
    using assms(2,6) by (simp_all add: opt_def)
  ultimately show "option_ok opt" using len assms(4) by (simp add: option_ok_def)
  have "option_bytes opt = subslice c (c + 16) b @ subslice (c + 16) (c + 18) b
      @ subslice (c + 18) (c + 18 + len) b"
    using l len by (simp add: option_bytes_def) (simp add: opt_def)
  also have "\<dots> = subslice c (c + 18 + len) b" by (simp add: subslice_join)
  finally show "reads b c (c + 18 + len) (option_bytes opt)"
    using assms(5) reads_subslice [of "c + 18 + len" c "18 + len" b "option_bytes opt"]
    by (simp add: add.assoc)
qed

lemma option_read_back:
  assumes "option_ok opt" and "reads b c j (option_bytes opt)"
  defines "len \<equiv> length (option_text opt)"
  shows "j = c + 18 + len" "c + 18 + len \<le> length b" "subslice c (c + 16) b = option_id opt"
    "unat (from_le16 [b ! (c + 16), b ! (c + 17)]) = len"
    "subslice (c + 18) (c + 18 + len) b = option_text opt" "0 < len" "len \<le> 256" "utf8_valid (option_text opt)"
proof -
  have ok: "length (option_id opt) = 16" "0 < len" "len \<le> 256" "utf8_valid (option_text opt)"
    using assms(1) by (auto simp: option_ok_def len_def)
  have b: "subslice c j b = option_bytes opt" "j = c + 18 + len" "j \<le> length b"
    using assms(2) ok by (auto simp: reads_def subslice_def option_bytes_def len_def)
  have part: "subslice (c + x) (c + y) b = subslice x y (option_bytes opt)" if "y \<le> 18 + len" for x y
    using that unfolding b(1) [symmetric] b(2)
    by (simp add: subslice_def drop_take add.commute min_def)
  show "j = c + 18 + len" "c + 18 + len \<le> length b" using b by simp_all
  show "subslice c (c + 16) b = option_id opt"
    using part [of 16 0] ok by (simp add: option_bytes_def wire_simps)
  have "[b ! (c + 16), b ! (c + 17)] = subslice (c + 16) (c + 18) b"
    using subslice_two_at [of c b] b by simp
  also have "\<dots> = to_le16 (word_of_nat len)"
    using part [of 18 16] ok by (simp add: option_bytes_def wire_simps len_def)
  finally show "unat (from_le16 [b ! (c + 16), b ! (c + 17)]) = len" using ok by simp
  show "subslice (c + 18) (c + 18 + len) b = option_text opt"
    using part [of "18 + len" 18] ok by (simp add: option_bytes_def wire_simps len_def add.assoc)
qed (use assms(1) in \<open>auto simp: option_ok_def len_def\<close>)

lemma scan_options_iff:
  "scan_options b n ids c = Some c' \<longleftrightarrow>
     (\<exists>opts. length opts = n \<and> (\<forall>opt\<in>set opts. option_ok opt) \<and> c \<le> length b
        \<and> reads b c c' (concat (map option_bytes opts))
        \<and> distinct (map option_id opts) \<and> set ids \<inter> option_id ` set opts = {}) \<or> (n = 0 \<and> c' = c)"
proof (induction n arbitrary: ids c)
  case 0
  then show ?case by auto
next
  case (Suc n)
  show ?case (is "?L \<longleftrightarrow> ?R")
  proof
    assume L: ?L
    define len where "len = unat (from_le16 [b ! (c + 16), b ! (c + 17)])"
    let ?opt = "\<lparr>option_id = subslice c (c + 16) b, option_text = subslice (c + 18) (c + 18 + len) b\<rparr>"
    from L have conds: "c + 18 \<le> length b" "0 < len" "len \<le> 256" "c + 18 + len \<le> length b"
        "utf8_valid (subslice (c + 18) (c + 18 + len) b)" "subslice c (c + 16) b \<notin> set ids"
      and rest: "scan_options b n (ids @ [subslice c (c + 16) b]) (c + 18 + len) = Some c'"
      by (auto simp: len_def split: if_splits)
    note opt = option_read [OF len_def conds(1-5)]
    from rest Suc.IH obtain opts where "length opts = n" "\<forall>opt\<in>set opts. option_ok opt"
        "reads b (c + 18 + len) c' (concat (map option_bytes opts))" "distinct (map option_id opts)"
        "set (ids @ [subslice c (c + 16) b]) \<inter> option_id ` set opts = {}"
      using conds(4) by (cases "n = 0") auto
    with opt conds show ?R
      by (intro disjI1 exI [of _ "?opt # opts"]) (auto simp: reads_append)
  next
    assume ?R
    then obtain opt opts where opts: "length opts = n" "option_ok opt" "\<forall>opt\<in>set opts. option_ok opt"
        "reads b c c' (option_bytes opt @ concat (map option_bytes opts))"
        "option_id opt \<notin> option_id ` set opts" "distinct (map option_id opts)"
        "set ids \<inter> insert (option_id opt) (option_id ` set opts) = {}"
      by (auto simp: length_Suc_conv)
    then obtain j where j: "reads b c j (option_bytes opt)" "reads b j c' (concat (map option_bytes opts))"
      by (auto simp: reads_append)
    note back1 = option_read_back [OF opts(2) j(1)]
    have "scan_options b n (ids @ [option_id opt]) j = Some c'"
      unfolding Suc.IH using opts j(2) back1(1,2) by (intro disjI1 exI [of _ opts]) auto
    with back1 opts(7) show ?L by (simp add: add.assoc)
  qed
qed

section \<open>Creation\<close>

definition create_frame :: "u64 \<Rightarrow> bytes \<Rightarrow> PollOption list \<Rightarrow> bytes list \<Rightarrow> bytes" where
  "create_frame gen q opts vs = [1, 1, 1, 0] @ to_le64 gen @ to_le16 (word_of_nat (length q))
     @ [word_of_nat (length opts), word_of_nat (length vs)] @ q
     @ concat (map option_bytes opts) @ concat vs"

definition create_ok :: "u64 \<Rightarrow> bytes \<Rightarrow> PollOption list \<Rightarrow> bytes list \<Rightarrow> bool" where
  "create_ok gen q opts vs \<longleftrightarrow> gen \<noteq> 0 \<and> q \<noteq> [] \<and> length q \<le> 1024 \<and> utf8_valid q
     \<and> 2 \<le> length opts \<and> length opts \<le> 12 \<and> (\<forall>opt\<in>set opts. option_ok opt) \<and> distinct (map option_id opts)
     \<and> vs \<noteq> [] \<and> length vs \<le> 64 \<and> sorted_wrt (<) vs \<and> (\<forall>v\<in>set vs. length v = 32)"

definition create_record :: "u64 \<Rightarrow> bytes \<Rightarrow> PollOption list \<Rightarrow> bytes list \<Rightarrow> PollCreate" where
  "create_record gen q opts vs = \<lparr>create_generation = gen, create_question = q,
     create_option_bytes = concat (map option_bytes opts),
     create_option_count = word_of_nat (length opts), create_voter_bytes = concat vs\<rparr>"

lemma length_concat_32: "\<forall>v\<in>set vs. length v = 32 \<Longrightarrow> length (concat vs) = length vs * 32"
  by (induction vs) auto

lemma decode_create_frame:
  assumes "create_ok gen q opts vs"
  shows "decode_create (create_frame gen q opts vs) = DecodedValue (Create (create_record gen q opts vs))"
proof -
  define ob where "ob = concat (map option_bytes opts)"
  define h where "h = [1, 1, 1, 0] @ to_le64 gen @ to_le16 (word_of_nat (length q))
     @ [word_of_nat (length opts), word_of_nat (length vs)]"
  let ?b = "h @ q @ ob @ concat vs"
  have frame: "create_frame gen q opts vs = ?b" by (simp add: create_frame_def h_def ob_def)
  have vs: "length (concat vs) = length vs * 32" "as_chunks 32 (concat vs) = vs"
    using assms by (auto simp: create_ok_def length_concat_32 as_chunks_concat)
  have pos: "gen \<noteq> 0" "q \<noteq> []" "length q \<le> 1024" "utf8_valid q" "2 \<le> length opts" "length opts \<le> 12"
    "vs \<noteq> []" "length vs \<le> 64" "sorted_wrt (<) vs"
    using assms by (simp_all add: create_ok_def)
  have lh: "length h = 16" by (simp add: h_def)
  have two: "[?b ! 12, ?b ! 13] = to_le16 (word_of_nat (length q))"
    using subslice_two [of 12 ?b] lh by (simp add: h_def wire_simps)
  have hd: "?b ! 2 = 1" "?b ! 3 = 0" "subslice 4 12 ?b = to_le64 gen"
      "?b ! 14 = word_of_nat (length opts)" "?b ! 15 = word_of_nat (length vs)"
    by (simp_all add: h_def wire_simps)
  have mid: "subslice 16 (16 + length q) ?b = q"
      "subslice (16 + length q) (16 + length q + length ob) ?b = ob"
      "drop (16 + length q + length ob) ?b = concat vs"
    using lh by (simp_all add: subslice_append)
  have "reads ((h @ q) @ ob @ concat vs) (16 + length q) (16 + length q + length ob) ob"
    using lh by (intro reads_mid) simp_all
  then have "reads ?b (16 + length q) (16 + length q + length ob) ob" by simp
  then have scan: "scan_options ?b (length opts) [] (16 + length q) = Some (16 + length q + length ob)"
    unfolding scan_options_iff using assms lh
    by (intro disjI1 exI [of _ opts]) (simp add: create_ok_def ob_def)
  show ?thesis
    unfolding frame using pos lh two
    by (simp add: decode_create_def hd mid scan vs strictly_sorted_voters_iff create_record_def
        flip: ob_def)
qed

lemma decode_create_only:
  assumes "decode_create b = DecodedValue p" and "b ! 0 = 1" and "b ! Suc 0 = 1"
  shows "\<exists>gen q opts vs. create_ok gen q opts vs \<and> b = create_frame gen q opts vs
    \<and> p = Create (create_record gen q opts vs)"
proof -
  define n k l where "n = unat (b ! 14)" and "k = unat (b ! 15)" and "l = unat (from_le16 [b ! 12, b ! 13])"
  from assms(1) obtain cursor where
    b: "16 \<le> length b" "b ! 2 = 1" "b ! 3 = 0" "from_le64 (subslice 4 12 b) \<noteq> 0" "0 < l" "l \<le> 1024"
      "2 \<le> n" "n \<le> 12" "0 < k" "k \<le> 64" "16 + l \<le> length b" "utf8_valid (subslice 16 (16 + l) b)"
      "cursor + k * 32 = length b" "strictly_sorted_voters (as_chunks 32 (drop cursor b))"
    and scan: "scan_options b n [] (16 + l) = Some cursor"
    and p: "p = Create \<lparr>create_generation = from_le64 (subslice 4 12 b),
      create_question = subslice 16 (16 + l) b, create_option_bytes = subslice (16 + l) cursor b,
      create_option_count = word_of_nat n, create_voter_bytes = drop cursor b\<rparr>"
    by (auto simp: decode_create_def n_def k_def l_def split: if_splits option.splits)
  from scan b(7) obtain opts where opts: "length opts = n" "\<forall>opt\<in>set opts. option_ok opt"
      "reads b (16 + l) cursor (concat (map option_bytes opts))" "distinct (map option_id opts)"
    by (auto simp: scan_options_iff)
  define vs where "vs = as_chunks 32 (drop cursor b)"
  have cur: "16 + l \<le> cursor" "cursor \<le> length b" "subslice (16 + l) cursor b = concat (map option_bytes opts)"
    using opts(3) by (auto simp: reads_def subslice_def)
  have lv: "length (drop cursor b) = k * 32" using b(13) by simp
  have vs: "concat vs = drop cursor b" "length vs = k" "\<forall>v\<in>set vs. length v = 32"
    unfolding vs_def
    by (rule concat_as_chunks length_as_chunks; simp only: lv; simp)+ (auto dest: as_chunks_length)
  define q gen where "q = subslice 16 (16 + l) b" and "gen = from_le64 (subslice 4 12 b)"
  have lq: "length q = l" using b(11) by (simp add: q_def)
  have le: "to_le16 (word_of_nat l) = [b ! 12, b ! 13]" "to_le64 gen = subslice 4 12 b"
    using b(1) by (simp_all add: l_def gen_def)
  have "create_frame gen q opts vs = b ! 0 # b ! 1 # b ! 2 # b ! 3 # subslice 4 12 b @ b ! 12 # b ! 13
      # b ! 14 # b ! 15 # subslice 16 (16 + l) b @ subslice (16 + l) cursor b @ drop cursor b"
    using assms(2,3) b(2,3) opts(1) vs lq le cur(3)
    by (simp add: create_frame_def n_def k_def) (simp add: q_def)
  also have "subslice 16 (16 + l) b @ subslice (16 + l) cursor b @ drop cursor b = drop 16 b"
    using cur(1) by (simp only: subslice_peel le_add1)
  also have "b ! 0 # b ! 1 # b ! 2 # b ! 3 # subslice 4 12 b @ b ! 12 # b ! 13 # b ! 14 # b ! 15 # drop 16 b = b"
    using b(1) by (cases "b = []") (simp_all add: peel_simps)
  finally have "b = create_frame gen q opts vs" by simp
  moreover have "create_ok gen q opts vs"
  proof -
    have "gen \<noteq> 0" "utf8_valid q" "sorted_wrt (<) vs"
      using b(4,12,14) by (simp_all add: gen_def q_def vs_def strictly_sorted_voters_iff)
    moreover have "q \<noteq> []" "vs \<noteq> []" using b(5,9) lq vs(2) by auto
    ultimately show ?thesis using b(6-8,10) lq vs(2,3) opts(1,2,4) by (simp add: create_ok_def)
  qed
  moreover have "p = Create (create_record gen q opts vs)"
    using p opts(1) cur(3) vs(1) by (simp add: create_record_def gen_def q_def)
  ultimately show ?thesis by blast
qed

section \<open>Votes and closures\<close>

definition wf_vote :: "PollVote \<Rightarrow> bool" where
  "wf_vote v \<longleftrightarrow> length (vote_poll_author v) = 32 \<and> length (vote_poll_id v) = 16 \<and> length (vote_option_id v) = 16"

lemma decode_vote_iff:
  assumes "4 \<le> length b" "b ! 0 = 1" "b ! Suc 0 = 2"
  shows "decode_vote b = DecodedValue p \<longleftrightarrow>
    (\<exists>v. p = Vote v \<and> wf_vote v \<and> encode_poll_vote_payload v = Inr b)" (is "?L \<longleftrightarrow> ?R")
proof
  assume ?L
  define v where "v = \<lparr>vote_poll_author = subslice 4 36 b, vote_poll_id = subslice 36 52 b,
      vote_option_id = subslice 52 68 b, vote_revision = from_le64 (subslice 68 76 b)\<rparr>"
  from \<open>?L\<close> have l: "length b = 76" and z: "b ! 2 = 0" "b ! 3 = 0"
    and r: "from_le64 (subslice 68 76 b) \<noteq> 0" and p: "p = Vote v"
    by (auto simp: decode_vote_def v_def split: if_splits)
  have "encode_poll_vote_payload v = Inr (b ! 0 # b ! 1 # b ! 2 # b ! 3 # subslice 4 36 b @ subslice 36 52 b
      @ subslice 52 68 b @ subslice 68 76 b @ drop 76 b)"
    using assms z r l by (simp add: encode_poll_vote_payload_def v_def)
  also have "\<dots> = Inr b" using l by (cases "b = []") (simp_all add: peel_simps del: drop_all)
  finally show ?R using l p by (auto simp: wf_vote_def v_def)
next
  assume ?R
  then obtain v where v: "p = Vote v" "wf_vote v" "encode_poll_vote_payload v = Inr b" by blast
  have "vote_revision v \<noteq> 0" and b: "b = [1, 2, 0, 0] @ vote_poll_author v @ vote_poll_id v
      @ vote_option_id v @ to_le64 (vote_revision v)"
    using v(3) by (auto simp: encode_poll_vote_payload_def split: if_splits)
  then show ?L using v(1,2) by (simp add: decode_vote_def b wf_vote_def wire_simps)
qed

lemma heads_chunks:
  assumes "\<forall>h\<in>set hs. wf_head h"
  shows "as_chunks 72 (concat (map head_bytes hs)) = map head_bytes hs"
    and "length (concat (map head_bytes hs)) = length hs * 72"
    and "map chunk_head (map head_bytes hs) = hs"
  using assms by (auto intro!: as_chunks_concat map_idI simp: length_concat comp_def sum_list_triv
      cong: map_cong)

lemma chunks_heads:
  assumes "length r = n * 72"
  shows "\<exists>hs. length hs = n \<and> (\<forall>h\<in>set hs. wf_head h) \<and> r = concat (map head_bytes hs)"
proof -
  define hs where "hs = map chunk_head (as_chunks 72 r)"
  have c72: "\<forall>c\<in>set (as_chunks 72 r). length c = 72" by (auto dest: as_chunks_length)
  then have "map head_bytes hs = as_chunks 72 r"
    by (simp add: hs_def head_bytes_chunk map_idI)
  moreover have "concat (as_chunks 72 r) = r" by (rule concat_as_chunks) (simp_all add: assms)
  moreover have "length hs = n" using assms by (simp add: hs_def length_as_chunks)
  ultimately show ?thesis using c72 by (intro exI [of _ hs]) (auto simp: hs_def)
qed

definition heads_valid :: "PollVoteHead list \<Rightarrow> bool" where
  "heads_valid hs \<longleftrightarrow> length hs \<le> 64 \<and> sorted_wrt (<) (map head_voter hs) \<and> (\<forall>h\<in>set hs. head_revision h \<noteq> 0)"

lemma heads_ok_valid:
  assumes "\<forall>h\<in>set hs. wf_head h"
  shows "heads_ok None (as_chunks 72 (concat (map head_bytes hs))) \<and> length hs \<le> 64 \<longleftrightarrow> heads_valid hs"
  using heads_chunks(3) [OF assms]
  by (auto simp: heads_chunks(1) [OF assms] heads_ok_iff sorted_voters_from_iff heads_valid_def assms
      simp flip: map_map)

lemma heads_invalid_iff:
  "(length hs > MAX_POLL_VOTERS \<or> \<not> strictly_sorted_voters (map head_voter hs)
     \<or> list_ex (\<lambda>h. head_revision h = 0) hs) \<longleftrightarrow> \<not> heads_valid hs"
  by (auto simp: heads_valid_def strictly_sorted_voters_iff list_ex_iff)

lemma encode_close_eq:
  "encode_poll_close_payload a i hs = (if heads_valid hs then
     Inr ([1, 3, 0, 0] @ a @ i @ [word_of_nat (length hs)] @ zeros 3 @ concat (map head_bytes hs))
     else Inl Malformed)"
  unfolding encode_poll_close_payload_def heads_invalid_iff by simp

lemma signing_bytes_eq:
  "poll_moderation_signing_bytes g a i gen hs = (if gen \<noteq> 0 \<and> heads_valid hs then
     Inr ([1, 4, 0, 0] @ g @ a @ i @ to_le64 gen @ [word_of_nat (length hs)] @ zeros 3
       @ concat (map head_bytes hs)) else Inl Malformed)"
  unfolding poll_moderation_signing_bytes_def heads_invalid_iff by simp

lemma decode_close_frame:
  assumes "length a = 32" "length i = 16" "\<forall>h\<in>set hs. wf_head h" "heads_valid hs"
  shows "decode_close ([1, 3, 0, 0] @ a @ i @ [word_of_nat (length hs)] @ zeros 3 @ concat (map head_bytes hs))
    = DecodedValue (Close \<lparr>close_poll_author = a, close_poll_id = i,
        close_head_bytes = concat (map head_bytes hs)\<rparr>)"
proof -
  have "heads_ok None (as_chunks 72 (concat (map head_bytes hs)))" "length hs \<le> 64"
    using heads_ok_valid [OF assms(3)] assms(4) by simp_all
  then show ?thesis
    using assms(1,2) by (simp add: decode_close_def wire_simps heads_chunks(2) [OF assms(3)])
qed

lemma decode_close_only:
  assumes "decode_close b = DecodedValue p" "b ! 0 = 1" "b ! Suc 0 = 3"
  shows "\<exists>a i hs. length a = 32 \<and> length i = 16 \<and> (\<forall>h\<in>set hs. wf_head h)
    \<and> p = Close \<lparr>close_poll_author = a, close_poll_id = i, close_head_bytes = concat (map head_bytes hs)\<rparr>
    \<and> encode_poll_close_payload a i hs = Inr b"
proof -
  define n where "n = unat (b ! 52)"
  from assms(1) have l: "length b = 56 + n * 72" and z: "b ! 2 = 0" "b ! 3 = 0" "subslice 53 56 b = zeros 3"
    and n: "n \<le> 64" and ok: "heads_ok None (as_chunks 72 (drop 56 b))"
    and p: "p = Close \<lparr>close_poll_author = subslice 4 36 b, close_poll_id = subslice 36 52 b,
      close_head_bytes = drop 56 b\<rparr>"
    by (auto simp: decode_close_def n_def split: if_splits)
  have "length (drop 56 b) = n * 72" using l by simp
  from chunks_heads [OF this] obtain hs where hs: "length hs = n" "\<forall>h\<in>set hs. wf_head h"
      "drop 56 b = concat (map head_bytes hs)" by blast
  have valid: "heads_valid hs" using heads_ok_valid [OF hs(2)] ok hs n by simp
  have "encode_poll_close_payload (subslice 4 36 b) (subslice 36 52 b) hs
      = Inr (b ! 0 # b ! 1 # b ! 2 # b ! 3 # subslice 4 36 b @ subslice 36 52 b @ b ! 52 # subslice 53 56 b
        @ drop 56 b)"
    using valid assms(2,3) z hs(1,3) by (simp add: encode_close_eq n_def)
  also have "\<dots> = Inr b" using l by (cases "b = []") (simp_all add: peel_simps)
  finally show ?thesis using p hs l by (intro exI [of _ "subslice 4 36 b"] exI [of _ "subslice 36 52 b"]
      exI [of _ hs]) simp
qed

lemma decode_moderated_frame:
  assumes "length g = 32" "length a = 32" "length i = 16" "length s = 64" "\<forall>h\<in>set hs. wf_head h"
    "heads_valid hs" "gen \<noteq> 0"
  shows "decode_moderated_close ([1, 4, 0, 0] @ g @ a @ i @ to_le64 gen @ [word_of_nat (length hs)] @ zeros 3
      @ concat (map head_bytes hs) @ s)
    = DecodedValue (ModeratedClose \<lparr>mod_group = g, mod_poll_author = a, mod_poll_id = i,
        mod_authority_generation = gen, mod_signature = s, mod_head_bytes = concat (map head_bytes hs)\<rparr>)"
proof -
  have "heads_ok None (as_chunks 72 (concat (map head_bytes hs)))" "length hs \<le> 64"
    using heads_ok_valid [OF assms(5)] assms(6) by simp_all
  then show ?thesis
    using assms(1-4,7) by (simp add: decode_moderated_close_def wire_simps heads_chunks(2) [OF assms(5)])
qed

lemma decode_moderated_only:
  assumes "decode_moderated_close b = DecodedValue p" "b ! 0 = 1" "b ! Suc 0 = 4"
  shows "\<exists>g a i gen hs s. length g = 32 \<and> length a = 32 \<and> length i = 16 \<and> length s = 64
    \<and> (\<forall>h\<in>set hs. wf_head h)
    \<and> p = ModeratedClose \<lparr>mod_group = g, mod_poll_author = a, mod_poll_id = i,
        mod_authority_generation = gen, mod_signature = s, mod_head_bytes = concat (map head_bytes hs)\<rparr>
    \<and> encode_poll_moderated_close_payload g a i gen hs s = Inr b"
proof -
  define n m where "n = unat (b ! 92)" and "m = length b - 64"
  define gen where "gen = from_le64 (subslice 84 92 b)"
  from assms(1) have l: "length b = 96 + n * 72 + 64"
    and z: "b ! 2 = 0" "b ! 3 = 0" "subslice 93 96 b = zeros 3"
    and n: "n \<le> 64" "gen \<noteq> 0" and ok: "heads_ok None (as_chunks 72 (subslice 96 m b))"
    and p: "p = ModeratedClose \<lparr>mod_group = subslice 4 36 b, mod_poll_author = subslice 36 68 b,
      mod_poll_id = subslice 68 84 b, mod_authority_generation = gen,
      mod_signature = drop m b, mod_head_bytes = subslice 96 m b\<rparr>"
    by (auto simp: decode_moderated_close_def n_def gen_def m_def split: if_splits)
  then have m: "m = 96 + n * 72" "m + 64 = length b" by (simp_all add: m_def)
  have "length (subslice 96 m b) = n * 72" using m by simp
  from chunks_heads [OF this] obtain hs where hs: "length hs = n" "\<forall>h\<in>set hs. wf_head h"
      "subslice 96 m b = concat (map head_bytes hs)" by blast
  have valid: "heads_valid hs" using heads_ok_valid [OF hs(2)] ok hs n by simp
  have lens: "length (subslice 4 36 b) = 32" "length (subslice 36 68 b) = 32" "length (subslice 68 84 b) = 16"
      "length (drop m b) = 64" "to_le64 gen = subslice 84 92 b" "96 \<le> length b" "96 \<le> m"
    using l m by (simp_all add: gen_def)
  have "encode_poll_moderated_close_payload (subslice 4 36 b) (subslice 36 68 b) (subslice 68 84 b) gen hs (drop m b)
      = Inr (b ! 0 # b ! 1 # b ! 2 # b ! 3 # subslice 4 36 b @ subslice 36 68 b @ subslice 68 84 b
        @ subslice 84 92 b @ b ! 92 # subslice 93 96 b @ subslice 96 m b @ drop m b)"
    using valid assms(2,3) z hs(1,3) n(2) lens(5)
    by (simp add: encode_poll_moderated_close_payload_def signing_bytes_eq n_def)
  also have "\<dots> = Inr b" using lens(6,7) by (cases "b = []") (simp_all add: peel_simps)
  finally show ?thesis using p hs lens(1-4)
    by (intro exI [of _ "subslice 4 36 b"] exI [of _ "subslice 36 68 b"] exI [of _ "subslice 68 84 b"]
        exI [of _ gen] exI [of _ hs] exI [of _ "drop m b"]) simp
qed

section \<open>The poll format is canonical\<close>

text \<open>A poll event as the encoders take it, with its lists collected from the iterators.\<close>

datatype PollEvent =
    CreateEvent u64 bytes "PollOption list" "bytes list"
  | VoteEvent PollVote
  | CloseEvent bytes bytes "PollVoteHead list"
  | ModeratedCloseEvent bytes bytes bytes u64 "PollVoteHead list" bytes

fun encode_event :: "PollEvent \<Rightarrow> bytes result" where
  "encode_event (CreateEvent gen q opts vs) = encode_poll_create_payload gen q opts vs"
| "encode_event (VoteEvent v) = encode_poll_vote_payload v"
| "encode_event (CloseEvent a i hs) = encode_poll_close_payload a i hs"
| "encode_event (ModeratedCloseEvent g a i gen hs s) = encode_poll_moderated_close_payload g a i gen hs s"

fun wf_event :: "PollEvent \<Rightarrow> bool" where
  "wf_event (CreateEvent gen q opts vs) \<longleftrightarrow> utf8_valid q
     \<and> (\<forall>opt\<in>set opts. length (option_id opt) = 16 \<and> utf8_valid (option_text opt))
     \<and> (\<forall>v\<in>set vs. length v = 32)"
| "wf_event (VoteEvent v) \<longleftrightarrow> wf_vote v"
| "wf_event (CloseEvent a i hs) \<longleftrightarrow> length a = 32 \<and> length i = 16 \<and> (\<forall>h\<in>set hs. wf_head h)"
| "wf_event (ModeratedCloseEvent g a i gen hs s) \<longleftrightarrow>
     length g = 32 \<and> length a = 32 \<and> length i = 16 \<and> length s = 64 \<and> (\<forall>h\<in>set hs. wf_head h)"

text \<open>Iterating every list of a decoded event; \<open>None\<close> when an iterator panics.\<close>

fun poll_event :: "Poll \<Rightarrow> PollEvent option" where
  "poll_event (Create c) =
     (case collect_options (create_option_bytes c) (create_option_count c) of
        None \<Rightarrow> None
      | Some opts \<Rightarrow> map_option (CreateEvent (create_generation c) (create_question c) opts)
                      (collect_voters (create_voter_bytes c)))"
| "poll_event (Vote v) = Some (VoteEvent v)"
| "poll_event (Close c) =
     map_option (CloseEvent (close_poll_author c) (close_poll_id c)) (collect_heads (close_head_bytes c))"
| "poll_event (ModeratedClose m) =
     map_option (\<lambda>hs. ModeratedCloseEvent (mod_group m) (mod_poll_author m) (mod_poll_id m)
       (mod_authority_generation m) hs (mod_signature m)) (collect_heads (mod_head_bytes m))"

lemma options_next_bytes:
  assumes "option_ok opt" and "n \<noteq> 0"
  shows "options_next (option_bytes opt @ r) n = Some (Some (opt, r, n - 1))"
proof -
  have r: "reads (option_bytes opt @ r) 0 (length (option_bytes opt)) (option_bytes opt)"
    by (simp add: reads_def)
  note f = option_read_back [OF assms(1) r]
  have l: "length (option_bytes opt) = 18 + length (option_text opt)" using f(1) by simp
  have "take 16 (option_bytes opt) = option_id opt"
    using assms(1) by (simp add: option_bytes_def option_ok_def)
  then show ?thesis
    using f assms(2) l by (simp add: options_next_def subslice_append)
qed

lemma collect_options_concat:
  "(\<forall>opt\<in>set opts. option_ok opt) \<Longrightarrow> length opts < 256 \<Longrightarrow>
     collect_options (concat (map option_bytes opts)) (word_of_nat (length opts)) = Some opts"
proof (induction opts)
  case Nil
  show ?case by (simp add: collect_options.simps options_next_def)
next
  case (Cons opt opts)
  have "(word_of_nat (length (opt # opts)) :: u8) \<noteq> 0"
    using Cons.prems by (simp add: word_unat_eq_iff del: of_nat_Suc)
  moreover have "(word_of_nat (length (opt # opts)) :: u8) - 1 = word_of_nat (length opts)" by simp
  ultimately show ?case
    using Cons by (subst collect_options.simps) (simp add: options_next_bytes del: of_nat_Suc)
qed

lemma encode_create_eq:
  assumes "wf_event (CreateEvent gen q opts vs)"
  shows "encode_poll_create_payload gen q opts vs = Inr b \<longleftrightarrow>
    create_ok gen q opts vs \<and> b = create_frame gen q opts vs"
proof -
  have ok: "(\<forall>opt\<in>set opts. option_text opt \<noteq> [] \<and> length (option_text opt) \<le> 256)
      \<longleftrightarrow> (\<forall>opt\<in>set opts. option_ok opt)"
    using assms by (auto simp: option_ok_def)
  have "encode_poll_create_payload gen q opts vs = Inr b \<longleftrightarrow> gen \<noteq> 0 \<and> q \<noteq> [] \<and> length q \<le> 1024
      \<and> 2 \<le> length opts \<and> length opts \<le> 12 \<and> vs \<noteq> [] \<and> length vs \<le> 64 \<and> sorted_wrt (<) vs
      \<and> check_options [] opts = Inr () \<and> b = create_frame gen q opts vs"
    by (auto simp: encode_poll_create_payload_def create_frame_def result_simps strictly_sorted_voters_iff)
  then show ?thesis using assms unfolding check_options_iff ok by (auto simp: create_ok_def)
qed

lemma poll_decode_encode:
  assumes "wf_event e" and "encode_event e = Inr b"
  shows "\<exists>p. decode_poll_payload b = DecodedValue p \<and> poll_event p = Some e"
proof (cases e)
  case (CreateEvent gen q opts vs)
  with assms have ok: "create_ok gen q opts vs" and b: "b = create_frame gen q opts vs"
    using encode_create_eq by auto
  have "decode_poll_payload b = decode_create b"
    by (simp add: decode_poll_payload_def b create_frame_def)
  moreover have "poll_event (Create (create_record gen q opts vs)) = Some e"
    using ok by (simp add: CreateEvent create_record_def create_ok_def collect_options_concat collect_voters_concat)
  ultimately show ?thesis using decode_create_frame [OF ok] b by simp
next
  case (VoteEvent v)
  with assms have v: "wf_vote v" "encode_poll_vote_payload v = Inr b" by simp_all
  then have h: "4 \<le> length b" "b ! 0 = 1" "b ! Suc 0 = 2"
    by (auto simp: encode_poll_vote_payload_def split: if_splits)
  then show ?thesis using decode_vote_iff [OF h] v VoteEvent
    by (intro exI [of _ "Vote v"]) (simp add: decode_poll_payload_def)
next
  case (CloseEvent a i hs)
  with assms have c: "length a = 32" "length i = 16" "\<forall>h\<in>set hs. wf_head h" "heads_valid hs"
    and b: "b = [1, 3, 0, 0] @ a @ i @ [word_of_nat (length hs)] @ zeros 3 @ concat (map head_bytes hs)"
    by (auto simp: encode_close_eq split: if_splits)
  have "decode_poll_payload b = decode_close b" by (simp add: decode_poll_payload_def b)
  then show ?thesis using decode_close_frame [OF c] c(3) CloseEvent
    by (simp add: b collect_heads_concat)
next
  case (ModeratedCloseEvent g a i gen hs s)
  with assms have c: "length g = 32" "length a = 32" "length i = 16" "length s = 64"
      "\<forall>h\<in>set hs. wf_head h" "heads_valid hs" "gen \<noteq> 0"
    and b: "b = [1, 4, 0, 0] @ g @ a @ i @ to_le64 gen @ [word_of_nat (length hs)] @ zeros 3
      @ concat (map head_bytes hs) @ s"
    by (auto simp: encode_poll_moderated_close_payload_def signing_bytes_eq split: if_splits)
  have "decode_poll_payload b = decode_moderated_close b" by (simp add: decode_poll_payload_def b)
  then show ?thesis using decode_moderated_frame [OF c] c(5) ModeratedCloseEvent
    by (simp add: b collect_heads_concat)
qed

lemma poll_encode_decode:
  assumes "decode_poll_payload b = DecodedValue p"
  shows "\<exists>e. poll_event p = Some e \<and> wf_event e \<and> encode_event e = Inr b"
proof -
  have h: "4 \<le> length b" "b ! 0 = 1"
    using assms by (auto simp: decode_poll_payload_def split: if_splits)
  consider "b ! Suc 0 = 1" "decode_create b = DecodedValue p" | "b ! Suc 0 = 2" "decode_vote b = DecodedValue p"
    | "b ! Suc 0 = 3" "decode_close b = DecodedValue p" | "b ! Suc 0 = 4" "decode_moderated_close b = DecodedValue p"
    using assms by (auto simp: decode_poll_payload_def split: if_splits)
  then show ?thesis
  proof cases
    case 1
    from decode_create_only [OF 1(2) h(2) 1(1)] obtain gen q opts vs where
      c: "create_ok gen q opts vs" "b = create_frame gen q opts vs" "p = Create (create_record gen q opts vs)"
      by blast
    have wf: "wf_event (CreateEvent gen q opts vs)" using c(1) by (auto simp: create_ok_def option_ok_def)
    have "poll_event p = Some (CreateEvent gen q opts vs)"
      using c by (simp add: create_record_def create_ok_def collect_options_concat collect_voters_concat)
    with wf c encode_create_eq [OF wf, of b] show ?thesis by auto
  next
    case 2
    from decode_vote_iff [OF h 2(1)] 2(2) obtain v where
      "p = Vote v" "wf_vote v" "encode_poll_vote_payload v = Inr b" by blast
    then show ?thesis by (intro exI [of _ "VoteEvent v"]) simp
  next
    case 3
    from decode_close_only [OF 3(2) h(2) 3(1)] obtain a i hs where
      "length a = 32" "length i = 16" "\<forall>h\<in>set hs. wf_head h" "encode_poll_close_payload a i hs = Inr b"
      "p = Close \<lparr>close_poll_author = a, close_poll_id = i, close_head_bytes = concat (map head_bytes hs)\<rparr>"
      by blast
    then show ?thesis by (intro exI [of _ "CloseEvent a i hs"]) (simp add: collect_heads_concat)
  next
    case 4
    from decode_moderated_only [OF 4(2) h(2) 4(1)] obtain g a i gen hs s where
      "length g = 32" "length a = 32" "length i = 16" "length s = 64" "\<forall>h\<in>set hs. wf_head h"
      "encode_poll_moderated_close_payload g a i gen hs s = Inr b"
      "p = ModeratedClose \<lparr>mod_group = g, mod_poll_author = a, mod_poll_id = i,
        mod_authority_generation = gen, mod_signature = s, mod_head_bytes = concat (map head_bytes hs)\<rparr>"
      by blast
    then show ?thesis by (intro exI [of _ "ModeratedCloseEvent g a i gen hs s"]) (simp add: collect_heads_concat)
  qed
qed

definition decode_event :: "bytes \<Rightarrow> PollEvent option" where
  "decode_event b = (case decode_poll_payload b of DecodedValue p \<Rightarrow> poll_event p | _ \<Rightarrow> None)"

interpretation poll: strict_codec wf_event encode_event decode_event
  by unfold_locales
    (auto simp: decode_event_def dest: poll_decode_encode poll_encode_decode split: decoded.splits)

text \<open>
  All four poll events have one encoding, and the unchecked iterators are safe: an accepted payload
  iterates without a panic to an event whose encoding is that payload, and every encoding is accepted
  and iterates back to its event.
\<close>

theorem poll_payload_canonical:
  "(\<exists>p. decode_poll_payload b = DecodedValue p \<and> poll_event p = Some e)
     \<longleftrightarrow> wf_event e \<and> encode_event e = Inr b"
  using poll.accepts_iff [of b e] by (auto simp: decode_event_def split: decoded.splits)

text \<open>
  No iterator of an accepted poll event can panic.
\<close>

theorem decoded_poll_never_panics:
  "decode_poll_payload b = DecodedValue p \<Longrightarrow> poll_event p \<noteq> None"
  using poll_encode_decode by fastforce

theorem decoded_poll_never_panics_witness:
  "\<exists>p. decode_poll_payload ([1, 3, 0, 0] @ zeros 32 @ zeros 16 @ [0] @ zeros 3) = DecodedValue p
    \<and> poll_event p \<noteq> None"
proof -
  have "heads_valid []" by (simp add: heads_valid_def)
  then have "decode_close ([1, 3, 0, 0] @ zeros 32 @ zeros 16 @ [0] @ zeros 3)
      = DecodedValue (Close \<lparr>close_poll_author = zeros 32, close_poll_id = zeros 16, close_head_bytes = []\<rparr>)"
    using decode_close_frame [of "zeros 32" "zeros 16" "[]"] by simp
  then have "decode_poll_payload ([1, 3, 0, 0] @ zeros 32 @ zeros 16 @ [0] @ zeros 3)
      = DecodedValue (Close \<lparr>close_poll_author = zeros 32, close_poll_id = zeros 16, close_head_bytes = []\<rparr>)"
    by (simp add: decode_poll_payload_def)
  from this decoded_poll_never_panics [OF this] show ?thesis by blast
qed

text \<open>
  The owner's moderation signature covers the whole event: an accepted moderated closure is the
  signing bytes of its own fields followed by the 64 signature bytes.
\<close>

theorem moderated_close_signed_in_full:
  assumes "decode_poll_payload b = DecodedValue p"
    and "poll_event p = Some (ModeratedCloseEvent g a i gen hs s)"
  shows "\<exists>signed. poll_moderation_signing_bytes g a i gen hs = Inr signed \<and> b = signed @ s \<and> length s = 64"
proof -
  from poll_encode_decode [OF assms(1)] assms(2)
  have "encode_poll_moderated_close_payload g a i gen hs s = Inr b" "length s = 64" by auto
  then show ?thesis by (auto simp: encode_poll_moderated_close_payload_def result_simps)
qed

theorem moderated_close_signed_in_full_witness:
  "\<exists>signed. poll_moderation_signing_bytes (zeros 32) (zeros 32) (zeros 16) 1 [] = Inr signed
    \<and> [1, 4, 0, 0] @ zeros 32 @ zeros 32 @ zeros 16 @ to_le64 1 @ [0] @ zeros 3 @ zeros 64 = signed @ zeros 64
    \<and> length (zeros 64) = 64"
proof -
  have v: "heads_valid []" by (simp add: heads_valid_def)
  let ?m = "\<lparr>mod_group = zeros 32, mod_poll_author = zeros 32, mod_poll_id = zeros 16,
        mod_authority_generation = 1, mod_signature = zeros 64, mod_head_bytes = []\<rparr>"
  let ?b = "[1, 4, 0, 0] @ zeros 32 @ zeros 32 @ zeros 16 @ to_le64 1 @ [0] @ zeros 3 @ zeros 64"
  have d: "decode_poll_payload ?b = DecodedValue (ModeratedClose ?m)"
    using decode_moderated_frame [of "zeros 32" "zeros 32" "zeros 16" "zeros 64" "[]" 1] v
    by (simp add: decode_poll_payload_def)
  have "poll_event (ModeratedClose ?m)
      = Some (ModeratedCloseEvent (zeros 32) (zeros 32) (zeros 16) 1 [] (zeros 64))"
    using collect_heads_concat [of "[]"] by simp
  from moderated_close_signed_in_full [OF d this] show ?thesis .
qed

end
