(* ===== verification/Group_Authority.thy ===== *)
theory Group_Authority
  imports Komms_Prelude
begin

text \<open>
  \<^verbatim>\<open>kult-protocol/src/group_authority.rs\<close>: the signed group-authority state, both wire versions, its
  validation, the owner-transfer chain and the bytes each signature covers.

  The \<^verbatim>\<open>checked_add\<close> sums of the encoder run over lengths of vectors in memory; they are \<open>nat\<close> sums here
  and the size limit that follows them is the branch that can fail.
\<close>

definition GROUP_AUTHORITY_VERSION :: u8 where [simp]: "GROUP_AUTHORITY_VERSION = 2"
definition LEGACY_GROUP_AUTHORITY_VERSION :: u8 where [simp]: "LEGACY_GROUP_AUTHORITY_VERSION = 1"
definition MAX_GROUP_NAME_LEN :: nat where [simp]: "MAX_GROUP_NAME_LEN = 256"
definition MAX_GROUP_MEMBER_IDENTITY_LEN :: nat where [simp]: "MAX_GROUP_MEMBER_IDENTITY_LEN = 512"
definition MAX_GROUP_AUTHORITY_MEMBERS :: nat where [simp]: "MAX_GROUP_AUTHORITY_MEMBERS = 64"
definition MAX_GROUP_DEVICE_AUTHORITY_BYTES :: nat where
  [simp]: "MAX_GROUP_DEVICE_AUTHORITY_BYTES = 1024 * 1024"
definition MAX_GROUP_AUTHORITY_STATE_BYTES :: nat where
  [simp]: "MAX_GROUP_AUTHORITY_STATE_BYTES = 4 * 1024 * 1024"

definition OP_STATE :: u8 where [simp]: "OP_STATE = 1"
definition HEADER_LEN_V1 :: nat where
  [simp]: "HEADER_LEN_V1 = 4 + 32 + 8 + 8 + 32 + 32 + 32 + 16 + 2 + 1 + 1 + 32"
definition HEADER_LEN_V2 :: nat where [simp]: "HEADER_LEN_V2 = HEADER_LEN_V1 + 32 + 4"
definition MEMBER_HEADER_LEN :: nat where [simp]: "MEMBER_HEADER_LEN = 35"
definition TRANSFER_LEN_V1 :: nat where [simp]: "TRANSFER_LEN_V1 = 160"
definition TRANSFER_FIXED_LEN_V2 :: nat where [simp]: "TRANSFER_FIXED_LEN_V2 = TRANSFER_LEN_V1 + 32 + 4"

datatype GroupRole = RoleOwner | RoleAdmin | RoleMember

fun role_byte :: "GroupRole \<Rightarrow> u8" where
  "role_byte RoleOwner = 1"
| "role_byte RoleAdmin = 2"
| "role_byte RoleMember = 3"

definition group_role_decode :: "u8 \<Rightarrow> GroupRole option" where
  "group_role_decode v =
     (if v = 1 then Some RoleOwner else if v = 2 then Some RoleAdmin
      else if v = 3 then Some RoleMember else None)"

record GroupAuthorityMember =
  peer :: bytes
  identity :: bytes
  role :: GroupRole

record OwnerTransferCertificate =
  tr_group :: bytes
  epoch :: u64
  tr_generation :: u64
  tr_prior_state_id :: bytes
  from_owner :: bytes
  to_owner :: bytes
  from_device :: bytes
  from_authority :: bytes
  tr_signature :: bytes

record SignedGroupAuthorityState =
  version :: u8
  ga_group :: bytes
  generation :: u64
  owner_epoch :: u64
  original_owner :: bytes
  owner :: bytes
  signer :: bytes
  signer_device :: bytes
  signer_authority :: bytes
  prior_state_id :: bytes
  name :: bytes
  members :: "GroupAuthorityMember list"
  secret_hash :: bytes
  transfers :: "OwnerTransferCertificate list"
  ga_signature :: bytes

section \<open>Signed bytes of a transfer\<close>

definition owner_transfer_signing_bytes ::
  "bytes \<Rightarrow> u64 \<Rightarrow> u64 \<Rightarrow> bytes \<Rightarrow> bytes \<Rightarrow> bytes \<Rightarrow> bytes result" where
  "owner_transfer_signing_bytes grp ep gen prior from_o to_o =
     (if ep = 0 \<or> gen = 0 \<or> prior = zeros 16 \<or> from_o = to_o then Inl Malformed
      else Inr (grp @ to_le64 ep @ to_le64 gen @ prior @ from_o @ to_o))"

definition owner_transfer_device_signing_bytes ::
  "bytes \<Rightarrow> u64 \<Rightarrow> u64 \<Rightarrow> bytes \<Rightarrow> bytes \<Rightarrow> bytes \<Rightarrow> bytes \<Rightarrow> bytes \<Rightarrow> bytes result" where
  "owner_transfer_device_signing_bytes grp ep gen prior from_o to_o dev auth =
     (if dev = zeros 32 \<or> auth = [] \<or> length auth > MAX_GROUP_DEVICE_AUTHORITY_BYTES
      then Inl Malformed
      else try_then (owner_transfer_signing_bytes grp ep gen prior from_o to_o) (\<lambda>legacy.
        Inr (GROUP_AUTHORITY_VERSION # legacy @ dev @ to_le32 (word_of_nat (length auth)) @ auth)))"

section \<open>Validation\<close>

text \<open>The roster loop carries the previous peer and the number of owners seen.\<close>

fun validate_members ::
  "bytes \<Rightarrow> bytes option \<Rightarrow> nat \<Rightarrow> GroupAuthorityMember list \<Rightarrow> nat result" where
  "validate_members own previous owner_count [] = Inr owner_count"
| "validate_members own previous owner_count (m # ms) =
     (if identity m = [] \<or> length (identity m) > MAX_GROUP_MEMBER_IDENTITY_LEN then Inl Malformed
      else if (case previous of None \<Rightarrow> False | Some p \<Rightarrow> p \<ge> peer m) then Inl Malformed
      else if role m = RoleOwner then
        (if peer m \<noteq> own then Inl Malformed
         else validate_members own (Some (peer m)) (owner_count + 1) ms)
      else validate_members own (Some (peer m)) owner_count ms)"

text \<open>The transfer loop carries the index, the expected owner and the previous generation.\<close>

fun validate_transfers ::
  "SignedGroupAuthorityState \<Rightarrow> nat \<Rightarrow> bytes \<Rightarrow> u64 \<Rightarrow> OwnerTransferCertificate list \<Rightarrow> bytes result" where
  "validate_transfers s index expected prev [] = Inr expected"
| "validate_transfers s index expected prev (t # ts) =
     (if tr_group t \<noteq> ga_group s \<or> epoch t \<noteq> word_of_nat index + 1 \<or> tr_generation t \<le> prev
        \<or> tr_generation t > generation s \<or> tr_prior_state_id t = zeros 16
        \<or> from_owner t \<noteq> expected \<or> from_owner t = to_owner t
      then Inl Malformed
      else validate_transfers s (index + 1) (to_owner t) (tr_generation t) ts)"

definition validate_devices :: "SignedGroupAuthorityState \<Rightarrow> unit result" where
  "validate_devices s =
     (if version s = GROUP_AUTHORITY_VERSION then
        (if signer_device s = zeros 32 \<or> signer_authority s = []
           \<or> length (signer_authority s) > MAX_GROUP_DEVICE_AUTHORITY_BYTES
           \<or> list_ex (\<lambda>t.
               let legacy = from_device t = zeros 32 \<and> from_authority t = [];
                   device_authorized = from_device t \<noteq> zeros 32 \<and> from_authority t \<noteq> []
                     \<and> length (from_authority t) \<le> MAX_GROUP_DEVICE_AUTHORITY_BYTES
               in \<not> legacy \<and> \<not> device_authorized) (transfers s)
         then Inl Malformed else Inr ())
      else if signer_device s \<noteq> zeros 32 \<or> signer_authority s \<noteq> []
        \<or> list_ex (\<lambda>t. from_device t \<noteq> zeros 32 \<or> from_authority t \<noteq> []) (transfers s)
      then Inl Malformed else Inr ())"

definition validate_signer :: "SignedGroupAuthorityState \<Rightarrow> unit result" where
  "validate_signer s =
     (if transfers s \<noteq> [] then
        let t = last (transfers s) in
        if signer s = owner s then
          (if generation s \<le> tr_generation t then Inl Malformed else Inr ())
        else if from_owner t \<noteq> signer s \<or> to_owner t \<noteq> owner s \<or> tr_generation t \<noteq> generation s
          \<or> tr_prior_state_id t \<noteq> prior_state_id s
        then Inl Malformed else Inr ()
      else if signer s \<noteq> owner s then Inl Malformed else Inr ())"

definition validate_state :: "SignedGroupAuthorityState \<Rightarrow> unit result" where
  "validate_state s =
     (if \<not> (version s = GROUP_AUTHORITY_VERSION \<or> version s = LEGACY_GROUP_AUTHORITY_VERSION)
        \<or> generation s = 0 \<or> name s = [] \<or> length (name s) > MAX_GROUP_NAME_LEN
        \<or> members s = [] \<or> length (members s) > MAX_GROUP_AUTHORITY_MEMBERS
        \<or> length (transfers s) > MAX_GROUP_AUTHORITY_MEMBERS
        \<or> unat (owner_epoch s) \<noteq> length (transfers s)
      then Inl Malformed
      else try_then (validate_devices s) (\<lambda>_.
        try_then (validate_members (owner s) None 0 (members s)) (\<lambda>owner_count.
          if owner_count \<noteq> 1 then Inl Malformed
          else try_then (validate_transfers s 0 (original_owner s) 0 (transfers s)) (\<lambda>expected_owner.
            if expected_owner \<noteq> owner s then Inl Malformed
            else validate_signer s))))"

section \<open>Encoding\<close>

definition member_bytes :: "GroupAuthorityMember \<Rightarrow> bytes" where
  "member_bytes m =
     peer m @ [role_byte (role m)] @ to_le16 (word_of_nat (length (identity m))) @ identity m"

definition transfer_bytes :: "u8 \<Rightarrow> OwnerTransferCertificate \<Rightarrow> bytes" where
  "transfer_bytes v t =
     to_le64 (epoch t) @ to_le64 (tr_generation t) @ tr_prior_state_id t @ from_owner t @ to_owner t
     @ (if v = GROUP_AUTHORITY_VERSION
        then from_device t @ to_le32 (word_of_nat (length (from_authority t))) @ from_authority t
        else [])
     @ tr_signature t"

definition members_len :: "SignedGroupAuthorityState \<Rightarrow> nat" where
  "members_len s = fold (\<lambda>m sum. sum + (MEMBER_HEADER_LEN + length (identity m))) (members s) 0"

definition transfers_len :: "SignedGroupAuthorityState \<Rightarrow> nat" where
  "transfers_len s =
     fold (\<lambda>t sum. sum + (if version s = GROUP_AUTHORITY_VERSION
                         then TRANSFER_FIXED_LEN_V2 + length (from_authority t)
                         else TRANSFER_LEN_V1)) (transfers s) 0"

definition group_authority_state_signing_bytes :: "SignedGroupAuthorityState \<Rightarrow> bytes result" where
  "group_authority_state_signing_bytes s =
     try_then (validate_state s) (\<lambda>_.
       let header_len = (if version s = GROUP_AUTHORITY_VERSION
                         then HEADER_LEN_V2 + length (signer_authority s) else HEADER_LEN_V1);
           capacity = header_len + length (name s) + members_len s + transfers_len s in
       if capacity + 64 > MAX_GROUP_AUTHORITY_STATE_BYTES then Inl TooLarge
       else Inr (
         [version s, OP_STATE, 0, 0] @ ga_group s @ to_le64 (generation s) @ to_le64 (owner_epoch s)
         @ original_owner s @ owner s @ signer s
         @ (if version s = GROUP_AUTHORITY_VERSION
            then signer_device s @ to_le32 (word_of_nat (length (signer_authority s)))
              @ signer_authority s
            else [])
         @ prior_state_id s @ to_le16 (word_of_nat (length (name s)))
         @ [word_of_nat (length (members s)), word_of_nat (length (transfers s))]
         @ secret_hash s @ name s
         @ concat (map member_bytes (members s))
         @ concat (map (transfer_bytes (version s)) (transfers s))))"

definition encode_group_authority_state :: "SignedGroupAuthorityState \<Rightarrow> bytes result" where
  "encode_group_authority_state s =
     try_then (group_authority_state_signing_bytes s) (\<lambda>out. Inr (out @ ga_signature s))"

section \<open>Decoding\<close>

type_synonym 'a ga_read = "('a \<times> nat) result"

definition ga_take :: "bytes \<Rightarrow> nat \<Rightarrow> nat \<Rightarrow> bytes ga_read" where
  "ga_take b off len =
     (let e = off + len in if e \<le> length b then Inr (subslice off e b, e) else Inl Malformed)"

definition ga_array :: "nat \<Rightarrow> bytes \<Rightarrow> bytes result" where
  "ga_array n v = (if length v = n then Inr v else Inl Malformed)"

definition read_array :: "nat \<Rightarrow> bytes \<Rightarrow> nat \<Rightarrow> bytes ga_read" where
  "read_array n b off =
     try_then (ga_take b off n) (\<lambda>(v, off). try_then (ga_array n v) (\<lambda>v. Inr (v, off)))"

definition read_u8 :: "bytes \<Rightarrow> nat \<Rightarrow> u8 ga_read" where
  "read_u8 b off = try_then (ga_take b off 1) (\<lambda>(v, off). Inr (v ! 0, off))"

definition read_u16 :: "bytes \<Rightarrow> nat \<Rightarrow> u16 ga_read" where
  "read_u16 b off = try_then (read_array 2 b off) (\<lambda>(v, off). Inr (from_le16 v, off))"

definition read_u32 :: "bytes \<Rightarrow> nat \<Rightarrow> u32 ga_read" where
  "read_u32 b off = try_then (read_array 4 b off) (\<lambda>(v, off). Inr (from_le32 v, off))"

definition read_u64 :: "bytes \<Rightarrow> nat \<Rightarrow> u64 ga_read" where
  "read_u64 b off = try_then (read_array 8 b off) (\<lambda>(v, off). Inr (from_le64 v, off))"

definition decode_member :: "bytes \<Rightarrow> nat \<Rightarrow> GroupAuthorityMember ga_read" where
  "decode_member b off =
     try_then (read_array 32 b off) (\<lambda>(p, off).
     try_then (read_u8 b off) (\<lambda>(r, off).
     try_then (ok_or (group_role_decode r) Malformed) (\<lambda>rl.
     try_then (read_u16 b off) (\<lambda>(identity_len, off).
     if unat identity_len = 0 \<or> unat identity_len > MAX_GROUP_MEMBER_IDENTITY_LEN then Inl Malformed
     else try_then (ga_take b off (unat identity_len)) (\<lambda>(ident, off).
     Inr (\<lparr>peer = p, identity = ident, role = rl\<rparr>, off))))))"

definition decode_transfer :: "u8 \<Rightarrow> bytes \<Rightarrow> bytes \<Rightarrow> nat \<Rightarrow> OwnerTransferCertificate ga_read" where
  "decode_transfer v grp b off =
     try_then (read_u64 b off) (\<lambda>(ep, off).
     try_then (read_u64 b off) (\<lambda>(gen, off).
     try_then (read_array 16 b off) (\<lambda>(prior, off).
     try_then (read_array 32 b off) (\<lambda>(from_o, off).
     try_then (read_array 32 b off) (\<lambda>(to_o, off).
     try_then (if v = GROUP_AUTHORITY_VERSION then
                 try_then (read_array 32 b off) (\<lambda>(dev, off).
                 try_then (read_u32 b off) (\<lambda>(authority_len, off).
                 if unat authority_len > MAX_GROUP_DEVICE_AUTHORITY_BYTES then Inl Malformed
                 else try_then (ga_take b off (unat authority_len)) (\<lambda>(auth, off).
                   Inr ((dev, auth), off))))
               else Inr ((zeros 32, []), off)) (\<lambda>((dev, auth), off).
     try_then (read_array 64 b off) (\<lambda>(sig, off).
     Inr (\<lparr>tr_group = grp, epoch = ep, tr_generation = gen, tr_prior_state_id = prior,
           from_owner = from_o, to_owner = to_o, from_device = dev, from_authority = auth,
           tr_signature = sig\<rparr>, off))))))))"

text \<open>\<^verbatim>\<open>for _ in 0..count\<close> with one read per round.\<close>

fun read_many :: "(bytes \<Rightarrow> nat \<Rightarrow> 'a ga_read) \<Rightarrow> nat \<Rightarrow> bytes \<Rightarrow> nat \<Rightarrow> 'a list ga_read" where
  "read_many f 0 b off = Inr ([], off)"
| "read_many f (Suc n) b off =
     try_then (f b off) (\<lambda>(x, off). try_then (read_many f n b off) (\<lambda>(xs, off). Inr (x # xs, off)))"

definition decode_state :: "bytes \<Rightarrow> u8 \<Rightarrow> SignedGroupAuthorityState result" where
  "decode_state b v =
     try_then (read_array 32 b 4) (\<lambda>(grp, off).
     try_then (read_u64 b off) (\<lambda>(gen, off).
     try_then (read_u64 b off) (\<lambda>(own_epoch, off).
     try_then (read_array 32 b off) (\<lambda>(orig, off).
     try_then (read_array 32 b off) (\<lambda>(own, off).
     try_then (read_array 32 b off) (\<lambda>(sgn, off).
     try_then (if v = GROUP_AUTHORITY_VERSION then
                 try_then (read_array 32 b off) (\<lambda>(dev, off).
                 try_then (read_u32 b off) (\<lambda>(authority_len, off).
                 if unat authority_len = 0 \<or> unat authority_len > MAX_GROUP_DEVICE_AUTHORITY_BYTES
                 then Inl Malformed
                 else try_then (ga_take b off (unat authority_len)) (\<lambda>(auth, off).
                   Inr ((dev, auth), off))))
               else Inr ((zeros 32, []), off)) (\<lambda>((dev, auth), off).
     try_then (read_array 16 b off) (\<lambda>(prior, off).
     try_then (read_u16 b off) (\<lambda>(name_len, off).
     try_then (read_u8 b off) (\<lambda>(member_count, off).
     try_then (read_u8 b off) (\<lambda>(transfer_count, off).
     try_then (read_array 32 b off) (\<lambda>(hash, off).
     if unat name_len = 0 \<or> unat name_len > MAX_GROUP_NAME_LEN \<or> unat member_count = 0
       \<or> unat member_count > MAX_GROUP_AUTHORITY_MEMBERS
       \<or> unat transfer_count > MAX_GROUP_AUTHORITY_MEMBERS
     then Inl Malformed
     else
     try_then (ga_take b off (unat name_len)) (\<lambda>(nm, off).
     if \<not> utf8_valid nm then Inl Malformed
     else
     try_then (read_many decode_member (unat member_count) b off) (\<lambda>(ms, off).
     try_then (read_many (decode_transfer v grp) (unat transfer_count) b off) (\<lambda>(ts, off).
     try_then (read_array 64 b off) (\<lambda>(sig, off).
     if off \<noteq> length b then Inl Malformed
     else
       let s = \<lparr>version = v, ga_group = grp, generation = gen, owner_epoch = own_epoch,
                original_owner = orig, owner = own, signer = sgn, signer_device = dev,
                signer_authority = auth, prior_state_id = prior, name = nm, members = ms,
                secret_hash = hash, transfers = ts, ga_signature = sig\<rparr> in
       try_then (validate_state s) (\<lambda>_. Inr s)))))))))))))))))"

definition decode_group_authority :: "bytes \<Rightarrow> SignedGroupAuthorityState decoded" where
  "decode_group_authority b =
     (if length b < 4 \<or> length b > MAX_GROUP_AUTHORITY_STATE_BYTES then DecodedMalformed
      else
        let v = b ! 0 in
        if v \<noteq> GROUP_AUTHORITY_VERSION \<and> v \<noteq> LEGACY_GROUP_AUTHORITY_VERSION then DecodedUnsupported
        else
          let header_len = (if v = GROUP_AUTHORITY_VERSION then HEADER_LEN_V2 else HEADER_LEN_V1) in
          if b ! 1 \<noteq> OP_STATE \<or> b ! 2 \<noteq> 0 \<or> b ! 3 \<noteq> 0 \<or> length b < header_len + 64
          then DecodedMalformed
          else case decode_state b v of Inr s \<Rightarrow> DecodedValue s | Inl _ \<Rightarrow> DecodedMalformed)"

section \<open>Cursor reads\<close>

definition wf_member :: "GroupAuthorityMember \<Rightarrow> bool" where
  "wf_member m \<longleftrightarrow> length (peer m) = 32"

definition wf_transfer :: "OwnerTransferCertificate \<Rightarrow> bool" where
  "wf_transfer t \<longleftrightarrow> length (tr_group t) = 32 \<and> length (tr_prior_state_id t) = 16
     \<and> length (from_owner t) = 32 \<and> length (to_owner t) = 32 \<and> length (from_device t) = 32
     \<and> length (tr_signature t) = 64"

definition wf_state :: "SignedGroupAuthorityState \<Rightarrow> bool" where
  "wf_state s \<longleftrightarrow> length (ga_group s) = 32 \<and> length (original_owner s) = 32 \<and> length (owner s) = 32
     \<and> length (signer s) = 32 \<and> length (signer_device s) = 32 \<and> length (prior_state_id s) = 16
     \<and> length (secret_hash s) = 32 \<and> length (ga_signature s) = 64 \<and> utf8_valid (name s)
     \<and> (\<forall>m\<in>set (members s). wf_member m) \<and> (\<forall>t\<in>set (transfers s). wf_transfer t)"

lemma ga_take_iff: "ga_take b off n = Inr (v, j) \<longleftrightarrow> reads b off j v \<and> length v = n"
  by (auto simp: ga_take_def reads_def subslice_def)

lemma read_array_iff: "read_array n b off = Inr (v, j) \<longleftrightarrow> reads b off j v \<and> length v = n"
  by (auto simp: read_array_def ga_array_def result_simps ga_take_iff split: if_splits)

lemma read_u8_iff: "read_u8 b off = Inr (v, j) \<longleftrightarrow> reads b off j [v]"
  by (auto simp: read_u8_def result_simps ga_take_iff length_Suc_conv)

lemma read_u16_iff: "read_u16 b off = Inr (v, j) \<longleftrightarrow> reads b off j (to_le16 v)"
  by (auto simp: read_u16_def result_simps read_array_iff)

lemma read_u32_iff: "read_u32 b off = Inr (v, j) \<longleftrightarrow> reads b off j (to_le32 v)"
  by (auto simp: read_u32_def result_simps read_array_iff)

lemma read_u64_iff: "read_u64 b off = Inr (v, j) \<longleftrightarrow> reads b off j (to_le64 v)"
  by (auto simp: read_u64_def result_simps read_array_iff)

lemmas ga_read_iff = ga_take_iff read_array_iff read_u8_iff read_u16_iff read_u32_iff read_u64_iff

text \<open>A length prefix and the bytes it announces.\<close>

lemma unat_is_length16:
  "length x = unat (w :: u16) \<longleftrightarrow> w = word_of_nat (length x) \<and> length x < 65536"
  using unsigned_less [of w, where 'a = nat] by auto

lemma unat_is_length32:
  "length x = unat (w :: u32) \<longleftrightarrow> w = word_of_nat (length x) \<and> length x < 4294967296"
  using unsigned_less [of w, where 'a = nat] by auto

lemma group_role_decode_iff: "group_role_decode r = Some rl \<longleftrightarrow> r = role_byte rl"
  by (cases rl) (auto simp: group_role_decode_def)

definition sized_member :: "GroupAuthorityMember \<Rightarrow> bool" where
  "sized_member m \<longleftrightarrow> identity m \<noteq> [] \<and> length (identity m) \<le> 512"

lemma decode_member_iff:
  "decode_member b off = Inr (m, j) \<longleftrightarrow> reads b off j (member_bytes m) \<and> wf_member m \<and> sized_member m"
proof
  assume "decode_member b off = Inr (m, j)"
  then show "reads b off j (member_bytes m) \<and> wf_member m \<and> sized_member m"
    by (auto simp: decode_member_def result_simps ga_read_iff group_role_decode_iff member_bytes_def
        wf_member_def sized_member_def unat_is_length16 intro!: readsI)
next
  assume a: "reads b off j (member_bytes m) \<and> wf_member m \<and> sized_member m"
  then obtain i1 i2 i3 where r: "read_array 32 b off = Inr (peer m, i1)"
      "read_u8 b i1 = Inr (role_byte (role m), i2)"
      "read_u16 b i2 = Inr (word_of_nat (length (identity m)), i3)"
      "ga_take b i3 (length (identity m)) = Inr (identity m, j)"
    by (auto simp: member_bytes_def reads_append reads_Cons [of b _ _ _ "_ @ _"] ga_read_iff wf_member_def)
  have "group_role_decode (role_byte (role m)) = Some (role m)" by (simp add: group_role_decode_iff)
  with r a show "decode_member b off = Inr (m, j)" by (simp add: decode_member_def sized_member_def)
qed

lemma read_many_iff:
  assumes "\<And>off x j. f b off = Inr (x, j) \<longleftrightarrow> reads b off j (enc x) \<and> P x"
  shows "off \<le> length b \<Longrightarrow> read_many f n b off = Inr (xs, j) \<longleftrightarrow>
    reads b off j (concat (map enc xs)) \<and> length xs = n \<and> (\<forall>x\<in>set xs. P x)"
proof (induction n arbitrary: off xs)
  case 0
  then show ?case by (auto simp: reads_def)
next
  case (Suc n)
  show ?case
  proof (cases xs)
    case Nil
    then show ?thesis by (auto simp: result_simps)
  next
    case (Cons y ys)
    have "i \<le> length b" if "reads b off i z" for i z using that by (simp add: reads_def)
    with Suc.IH assms Cons show ?thesis
      by (auto simp: result_simps reads_append split_paired_Ex)
  qed
qed

definition sized_transfer :: "u8 \<Rightarrow> bytes \<Rightarrow> OwnerTransferCertificate \<Rightarrow> bool" where
  "sized_transfer v grp t \<longleftrightarrow> tr_group t = grp
     \<and> (if v = 2 then length (from_authority t) \<le> 1048576
        else from_device t = zeros 32 \<and> from_authority t = [])"

lemma decode_transfer_iff:
  assumes "length grp = 32"
  shows "decode_transfer v grp b off = Inr (t, j) \<longleftrightarrow>
    reads b off j (transfer_bytes v t) \<and> wf_transfer t \<and> sized_transfer v grp t"
proof
  assume d: "decode_transfer v grp b off = Inr (t, j)"
  show "reads b off j (transfer_bytes v t) \<and> wf_transfer t \<and> sized_transfer v grp t"
  proof (cases "v = 2")
    case True
    with d assms show ?thesis
      by (auto simp: decode_transfer_def result_simps ga_read_iff transfer_bytes_def
          wf_transfer_def sized_transfer_def unat_is_length32 intro!: reads_appendI)
  next
    case False
    with d assms show ?thesis
      by (auto simp: decode_transfer_def result_simps ga_read_iff transfer_bytes_def
          wf_transfer_def sized_transfer_def intro!: reads_appendI)
  qed
next
  assume a: "reads b off j (transfer_bytes v t) \<and> wf_transfer t \<and> sized_transfer v grp t"
  then obtain i1 i2 i3 i4 i5 i6 where r: "read_u64 b off = Inr (epoch t, i1)"
      "read_u64 b i1 = Inr (tr_generation t, i2)" "read_array 16 b i2 = Inr (tr_prior_state_id t, i3)"
      "read_array 32 b i3 = Inr (from_owner t, i4)" "read_array 32 b i4 = Inr (to_owner t, i5)"
      and m: "reads b i5 i6 (if v = 2
        then from_device t @ to_le32 (word_of_nat (length (from_authority t))) @ from_authority t else [])"
      and l: "read_array 64 b i6 = Inr (tr_signature t, j)"
    by (auto simp: transfer_bytes_def reads_append ga_read_iff wf_transfer_def)
  show "decode_transfer v grp b off = Inr (t, j)"
  proof (cases "v = 2")
    case True
    with m a obtain k1 k2 where "read_array 32 b i5 = Inr (from_device t, k1)"
        "read_u32 b k1 = Inr (word_of_nat (length (from_authority t)), k2)"
        "ga_take b k2 (length (from_authority t)) = Inr (from_authority t, i6)"
      by (auto simp: reads_append ga_read_iff wf_transfer_def)
    with True r l a show ?thesis by (simp add: decode_transfer_def sized_transfer_def)
  next
    case False
    with m r l a show ?thesis by (simp add: decode_transfer_def sized_transfer_def)
  qed
qed

section \<open>The codec\<close>

definition state_body :: "SignedGroupAuthorityState \<Rightarrow> bytes" where
  "state_body s =
     ga_group s @ to_le64 (generation s) @ to_le64 (owner_epoch s)
     @ original_owner s @ owner s @ signer s
     @ (if version s = GROUP_AUTHORITY_VERSION
        then signer_device s @ to_le32 (word_of_nat (length (signer_authority s))) @ signer_authority s
        else [])
     @ prior_state_id s @ to_le16 (word_of_nat (length (name s)))
     @ [word_of_nat (length (members s))] @ [word_of_nat (length (transfers s))]
     @ secret_hash s @ name s
     @ concat (map member_bytes (members s))
     @ concat (map (transfer_bytes (version s)) (transfers s))"

lemma validate_members_sized:
  "validate_members own p n ms = Inr k \<Longrightarrow> m \<in> set ms \<Longrightarrow> sized_member m"
  by (induction own p n ms rule: validate_members.induct)
    (auto simp: sized_member_def split: if_splits option.splits)

lemma validate_transfers_group:
  "validate_transfers s i e g ts = Inr k \<Longrightarrow> t \<in> set ts \<Longrightarrow> tr_group t = ga_group s"
  by (induction s i e g ts rule: validate_transfers.induct) (auto split: if_splits)

lemma validate_stateD:
  assumes "validate_state s = Inr u"
  shows "version s = 2 \<or> version s = 1" "generation s \<noteq> 0" "name s \<noteq> []" "length (name s) \<le> 256"
    "members s \<noteq> []" "length (members s) \<le> 64" "length (transfers s) \<le> 64"
    "unat (owner_epoch s) = length (transfers s)" "validate_devices s = Inr ()"
    "validate_members (owner s) None 0 (members s) = Inr 1"
    "validate_transfers s 0 (original_owner s) 0 (transfers s) = Inr (owner s)"
    "validate_signer s = Inr ()"
  using assms by (auto simp: validate_state_def result_simps)

lemma validated_sizes:
  assumes v: "validate_state s = Inr u"
  shows "\<forall>m\<in>set (members s). sized_member m"
    and "\<forall>t\<in>set (transfers s). sized_transfer (version s) (ga_group s) t"
    and "version s = 2 \<Longrightarrow> signer_authority s \<noteq> [] \<and> length (signer_authority s) \<le> 1048576"
    and "version s \<noteq> 2 \<Longrightarrow> signer_device s = zeros 32 \<and> signer_authority s = []"
proof -
  note d = validate_stateD [OF v]
  show "\<forall>m\<in>set (members s). sized_member m" using validate_members_sized [OF d(10)] by blast
  show "\<forall>t\<in>set (transfers s). sized_transfer (version s) (ga_group s) t"
    using validate_transfers_group [OF d(11)] d(9)
    by (auto simp: sized_transfer_def validate_devices_def list_ex_iff split: if_splits)
  show "version s = 2 \<Longrightarrow> signer_authority s \<noteq> [] \<and> length (signer_authority s) \<le> 1048576"
    "version s \<noteq> 2 \<Longrightarrow> signer_device s = zeros 32 \<and> signer_authority s = []"
    using d(9) by (auto simp: validate_devices_def split: if_splits)
qed

lemma state_eta:
  "version s = v \<Longrightarrow> signer_device s = dev \<Longrightarrow> signer_authority s = auth \<Longrightarrow>
   \<lparr>version = v, ga_group = ga_group s, generation = generation s, owner_epoch = owner_epoch s,
    original_owner = original_owner s, owner = owner s, signer = signer s, signer_device = dev,
    signer_authority = auth, prior_state_id = prior_state_id s, name = name s, members = members s,
    secret_hash = secret_hash s, transfers = transfers s, ga_signature = ga_signature s\<rparr> = s"
  by auto

lemma decode_state_reads:
  assumes d: "decode_state b v = Inr s"
  shows "reads b 4 (length b) (state_body s @ ga_signature s) \<and> wf_state s
    \<and> validate_state s = Inr () \<and> version s = v"
proof -
  have mem: "reads b off j (concat (map member_bytes ms)) \<and> length ms = n \<and> (\<forall>m\<in>set ms. wf_member m)"
    if "read_many decode_member n b off = Inr (ms, j)" "reads b i off x" for n ms off j i x
    using read_many_iff [where f = decode_member and b = b and enc = member_bytes
        and P = "\<lambda>m. wf_member m \<and> sized_member m", OF decode_member_iff, of off n ms j] that
    by (auto simp: reads_def)
  have tra: "reads b off j (concat (map (transfer_bytes v) ts)) \<and> length ts = n
      \<and> (\<forall>t\<in>set ts. wf_transfer t)"
    if "read_many (decode_transfer v grp) n b off = Inr (ts, j)" "length grp = 32" "reads b i off x"
    for n ts off j grp i x
    using read_many_iff [where f = "decode_transfer v grp" and b = b and enc = "transfer_bytes v"
        and P = "\<lambda>t. wf_transfer t \<and> sized_transfer v grp t", OF decode_transfer_iff, of off n ts j] that
    by (auto simp: reads_def)
  show ?thesis
  proof (cases "v = 2")
    case True
    from d show ?thesis
      by (clarsimp simp: decode_state_def result_simps ga_read_iff True) (frule (1) mem, clarify,
        frule (2) tra [unfolded True], auto simp: state_body_def wf_state_def intro!: readsI)
  next
    case False
    from d show ?thesis
      by (clarsimp simp: decode_state_def result_simps ga_read_iff False) (frule (1) mem, clarify,
        frule (2) tra, auto simp: state_body_def wf_state_def False intro!: readsI)
  qed
qed

lemma reads_decode_state:
  assumes r: "reads b 4 (length b) (state_body s @ ga_signature s)" and w: "wf_state s"
    and v: "validate_state s = Inr ()"
  shows "decode_state b (version s) = Inr s"
proof -
  note wd = w [unfolded wf_state_def] and d = validate_stateD [OF v] and z = validated_sizes [OF v]
  from r wd obtain i1 i2 i3 i4 i5 i6 i7 i8 i9 j1 j2 j3 j4 j5 j6 where
      c1: "read_array 32 b 4 = Inr (ga_group s, i1)" "read_u64 b i1 = Inr (generation s, i2)"
      "read_u64 b i2 = Inr (owner_epoch s, i3)" "read_array 32 b i3 = Inr (original_owner s, i4)"
      "read_array 32 b i4 = Inr (owner s, i5)" "read_array 32 b i5 = Inr (signer s, i6)"
      and m: "reads b i6 i7 (if version s = 2
        then signer_device s @ to_le32 (word_of_nat (length (signer_authority s))) @ signer_authority s
        else [])"
      and c2: "read_array 16 b i7 = Inr (prior_state_id s, i8)"
      "read_u16 b i8 = Inr (word_of_nat (length (name s)), i9)"
      "read_u8 b i9 = Inr (word_of_nat (length (members s)), j1)"
      "read_u8 b j1 = Inr (word_of_nat (length (transfers s)), j2)"
      "read_array 32 b j2 = Inr (secret_hash s, j3)" "ga_take b j3 (length (name s)) = Inr (name s, j4)"
      and ms: "reads b j4 j5 (concat (map member_bytes (members s)))"
      and ts: "reads b j5 j6 (concat (map (transfer_bytes (version s)) (transfers s)))"
      and c3: "read_array 64 b j6 = Inr (ga_signature s, length b)"
    by (simp add: state_body_def reads_append reads_Cons [of b _ _ _ "_ @ _"]
        reads_Cons [of b _ _ _ "_ # _"] ga_read_iff) blast
  from ms ts have le: "j4 \<le> length b" "j5 \<le> length b" by (auto simp: reads_def)
  have c4: "read_many decode_member (length (members s)) b j4 = Inr (members s, j5)"
    using read_many_iff [where f = decode_member and b = b and enc = member_bytes
        and P = "\<lambda>m. wf_member m \<and> sized_member m", OF decode_member_iff le(1)] ms wd z(1) by blast
  have c5: "read_many (decode_transfer (version s) (ga_group s)) (length (transfers s)) b j5
      = Inr (transfers s, j6)"
    using read_many_iff [where f = "decode_transfer (version s) (ga_group s)" and b = b
        and enc = "transfer_bytes (version s)"
        and P = "\<lambda>t. wf_transfer t \<and> sized_transfer (version s) (ga_group s) t",
        OF decode_transfer_iff le(2)] ts wd z(2) by blast
  have n: "unat (word_of_nat (length (name s)) :: u16) = length (name s)"
      "unat (word_of_nat (length (members s)) :: u8) = length (members s)"
      "unat (word_of_nat (length (transfers s)) :: u8) = length (transfers s)"
    using d(4,6,7) by simp_all
  show ?thesis
  proof (cases "version s = 2")
    case True
    with m wd obtain k1 k2 where "read_array 32 b i6 = Inr (signer_device s, k1)"
        "read_u32 b k1 = Inr (word_of_nat (length (signer_authority s)), k2)"
        "ga_take b k2 (length (signer_authority s)) = Inr (signer_authority s, i7)"
      by (auto simp: reads_append ga_read_iff)
    moreover have "unat (word_of_nat (length (signer_authority s)) :: u32) = length (signer_authority s)"
      using z(3) [OF True] by simp
    ultimately show ?thesis
      using True c1 c2 c3 c4 c5 n wd z(3) [OF True] v d(3-7) by (simp add: decode_state_def state_eta)
  next
    case False
    with m have "i7 = i6" by simp
    with False c1 c2 c3 c4 c5 n wd z(4) v d(3-7) show ?thesis by (simp add: decode_state_def state_eta)
  qed
qed

lemma fold_sum: "fold (\<lambda>x acc. acc + f x) xs a = a + sum_list (map f xs)"
  for f :: "'a \<Rightarrow> nat"
  by (induction xs arbitrary: a) auto

lemma length_member_bytes: "wf_member m \<Longrightarrow> length (member_bytes m) = 35 + length (identity m)"
  by (simp add: wf_member_def member_bytes_def)

lemma length_transfer_bytes:
  "wf_transfer t \<Longrightarrow> length (transfer_bytes v t) = (if v = 2 then 196 + length (from_authority t) else 160)"
  by (simp add: wf_transfer_def transfer_bytes_def)

text \<open>The capacity the encoder computes before writing is the length it writes.\<close>

lemma length_state_body:
  assumes "wf_state s"
  shows "4 + length (state_body s) =
    (if version s = GROUP_AUTHORITY_VERSION then HEADER_LEN_V2 + length (signer_authority s) else HEADER_LEN_V1)
    + length (name s) + members_len s + transfers_len s"
proof -
  have "length (concat (map member_bytes (members s))) = members_len s"
    using assms by (simp add: wf_state_def members_len_def fold_sum length_concat length_member_bytes
        comp_def cong: map_cong)
  moreover have "length (concat (map (transfer_bytes (version s)) (transfers s))) = transfers_len s"
    using assms by (simp add: wf_state_def transfers_len_def fold_sum length_concat length_transfer_bytes
        comp_def cong: map_cong if_cong)
  ultimately show ?thesis using assms by (simp add: wf_state_def state_body_def)
qed

lemma signing_bytes_iff:
  assumes "wf_state s"
  shows "group_authority_state_signing_bytes s = Inr x \<longleftrightarrow>
    validate_state s = Inr () \<and> length x + 64 \<le> MAX_GROUP_AUTHORITY_STATE_BYTES
    \<and> x = [version s, 1, 0, 0] @ state_body s"
proof -
  have "group_authority_state_signing_bytes s = try_then (validate_state s) (\<lambda>_.
      if 4 + length (state_body s) + 64 > MAX_GROUP_AUTHORITY_STATE_BYTES then Inl TooLarge
      else Inr ([version s, 1, 0, 0] @ state_body s))"
    unfolding length_state_body [OF assms] group_authority_state_signing_bytes_def
    by (simp add: state_body_def)
  then show ?thesis by (auto simp: result_simps)
qed

lemma encode_authority_iff:
  assumes "wf_state s"
  shows "encode_group_authority_state s = Inr b \<longleftrightarrow>
    validate_state s = Inr () \<and> length b \<le> MAX_GROUP_AUTHORITY_STATE_BYTES
    \<and> b = [version s, 1, 0, 0] @ state_body s @ ga_signature s"
  using assms by (auto simp: encode_group_authority_state_def result_simps signing_bytes_iff wf_state_def)

lemma header_reads:
  "4 \<le> length b \<and> b ! 0 = v \<and> b ! 1 = 1 \<and> b ! 2 = 0 \<and> b ! 3 = 0 \<and> reads b 4 (length b) x \<longleftrightarrow>
     b = [v, 1, 0, 0] @ x"
proof -
  have "4 \<le> length b \<and> b ! 0 = v \<and> b ! 1 = 1 \<and> b ! 2 = 0 \<and> b ! 3 = 0 \<longleftrightarrow> reads b 0 4 [v, 1, 0, 0]"
    by (auto simp: reads_Cons [of _ _ _ _ "_ # _"] reads_single eval_nat_numeral)
  then show ?thesis using reads_all [of b "[v, 1, 0, 0] @ x"] reads_append_len [of b 0 "length b" "[v, 1, 0, 0]" x]
    by (auto simp: eval_nat_numeral)
qed

lemma validated_min_length:
  assumes "wf_state s" "validate_state s = Inr ()"
  shows "(if version s = 2 then HEADER_LEN_V2 else HEADER_LEN_V1) + 64 \<le> 4 + length (state_body s) + 64"
  unfolding length_state_body [OF assms(1)] by simp

lemma decode_authority_iff:
  "decode_group_authority b = DecodedValue s \<longleftrightarrow> wf_state s \<and> encode_group_authority_state s = Inr b"
proof
  assume d: "decode_group_authority b = DecodedValue s"
  then have l: "4 \<le> length b" "length b \<le> MAX_GROUP_AUTHORITY_STATE_BYTES"
    and h: "b ! 1 = 1" "b ! 2 = 0" "b ! 3 = 0" and st: "decode_state b (b ! 0) = Inr s"
    by (auto simp: decode_group_authority_def split: if_splits sum.splits)
  from decode_state_reads [OF st] have r: "reads b 4 (length b) (state_body s @ ga_signature s)"
    and w: "wf_state s" and v: "validate_state s = Inr ()" and ver: "b ! 0 = version s" by auto
  from header_reads [of b "version s"] l h r ver
  have "b = [version s, 1, 0, 0] @ state_body s @ ga_signature s" by blast
  with w v l show "wf_state s \<and> encode_group_authority_state s = Inr b"
    by (simp only: encode_authority_iff [OF w])
next
  assume a: "wf_state s \<and> encode_group_authority_state s = Inr b"
  then have w: "wf_state s" and v: "validate_state s = Inr ()"
    and l: "length b \<le> MAX_GROUP_AUTHORITY_STATE_BYTES"
    and b: "b = [version s, 1, 0, 0] @ state_body s @ ga_signature s"
    by (auto simp: encode_authority_iff)
  have h: "4 \<le> length b \<and> b ! 0 = version s \<and> b ! 1 = 1 \<and> b ! 2 = 0 \<and> b ! 3 = 0
      \<and> reads b 4 (length b) (state_body s @ ga_signature s)"
    using b by (simp only: header_reads)
  have "length b = 4 + length (state_body s) + 64" using b w by (simp add: wf_state_def)
  moreover have "decode_state b (version s) = Inr s" using reads_decode_state [OF _ w v] h by blast
  ultimately show "decode_group_authority b = DecodedValue s"
    using validated_min_length [OF w v] validate_stateD(1) [OF v] h l
    by (auto simp: decode_group_authority_def)
qed

interpretation authority: strict_codec wf_state encode_group_authority_state
    "\<lambda>b. decoded_value (decode_group_authority b)"
  by unfold_locales (auto simp: decoded_value_eq_Some decode_authority_iff)

section \<open>What validation guarantees\<close>

lemma validate_members_sound:
  "validate_members own prev n ms = Inr k \<Longrightarrow>
     sorted_wrt (<) (map peer ms) \<and> (\<forall>p. prev = Some p \<longrightarrow> (\<forall>m\<in>set ms. p < peer m))
     \<and> (\<forall>m\<in>set ms. role m = RoleOwner \<longrightarrow> peer m = own)
     \<and> k = n + length (filter (\<lambda>m. role m = RoleOwner) ms)"
proof (induction own prev n ms arbitrary: k rule: validate_members.induct)
  case (2 own previous n m ms)
  let ?n = "if role m = RoleOwner then n + 1 else n"
  from "2.prems" have lt: "\<forall>p. previous = Some p \<longrightarrow> p < peer m"
    and own: "role m = RoleOwner \<longrightarrow> peer m = own"
    and r: "validate_members own (Some (peer m)) ?n ms = Inr k"
    by (auto split: if_splits option.splits)
  from "2.prems" "2.IH" have "validate_members own (Some (peer m)) ?n ms = Inr k \<Longrightarrow>
      sorted_wrt (<) (map peer ms) \<and> (\<forall>m'\<in>set ms. peer m < peer m')
      \<and> (\<forall>m\<in>set ms. role m = RoleOwner \<longrightarrow> peer m = own)
      \<and> k = ?n + length (filter (\<lambda>m. role m = RoleOwner) ms)"
    by (simp split: if_splits)
  with r have ih: "sorted_wrt (<) (map peer ms)" "\<forall>m'\<in>set ms. peer m < peer m'"
      "\<forall>m\<in>set ms. role m = RoleOwner \<longrightarrow> peer m = own"
      "k = ?n + length (filter (\<lambda>m. role m = RoleOwner) ms)"
    by blast+
  from lt ih(2) have "\<forall>p. previous = Some p \<longrightarrow> (\<forall>m\<in>set (m # ms). p < peer m)"
    by (auto intro: less_trans)
  with ih own show ?case by simp
qed auto

lemma validate_transfers_sound:
  "validate_transfers s index expected prev ts = Inr own \<Longrightarrow>
     sorted_wrt (<) (prev # map tr_generation ts)
     \<and> (\<forall>t\<in>set ts. tr_generation t \<le> generation s \<and> tr_prior_state_id t \<noteq> zeros 16
          \<and> from_owner t \<noteq> to_owner t)
     \<and> map from_owner ts @ [own] = expected # map to_owner ts
     \<and> map epoch ts = map (\<lambda>i. word_of_nat (Suc i)) [index ..< index + length ts]"
proof (induction s index expected prev ts rule: validate_transfers.induct)
  case (2 s index expected prev t ts)
  then have ok: "epoch t = word_of_nat index + 1" "prev < tr_generation t" "tr_generation t \<le> generation s"
    "tr_prior_state_id t \<noteq> zeros 16" "from_owner t = expected" "from_owner t \<noteq> to_owner t"
    and r: "validate_transfers s (index + 1) (to_owner t) (tr_generation t) ts = Inr own"
    by (auto split: if_splits)
  from 2 r have ih: "sorted_wrt (<) (tr_generation t # map tr_generation ts)"
    "\<forall>t\<in>set ts. tr_generation t \<le> generation s \<and> tr_prior_state_id t \<noteq> zeros 16
          \<and> from_owner t \<noteq> to_owner t"
    "map from_owner ts @ [own] = to_owner t # map to_owner ts"
    "map epoch ts = map (\<lambda>i. word_of_nat (Suc i)) [Suc index ..< Suc index + length ts]"
    by (auto split: if_splits)
  have "[index ..< index + length (t # ts)] = index # [Suc index ..< Suc index + length ts]"
    by (subst upt_conv_Cons) simp_all
  with ok ih show ?case by (auto simp: add.commute intro: less_trans)
qed auto

lemma sole_owner:
  assumes "sorted_wrt (<) (map peer ms)" "\<forall>m\<in>set ms. role m = RoleOwner \<longrightarrow> peer m = own"
    "length (filter (\<lambda>m. role m = RoleOwner) ms) = 1"
  obtains m where "filter (\<lambda>m. role m = RoleOwner) ms = [m]" "peer m = own"
proof -
  from assms(3) obtain m where f: "filter (\<lambda>m. role m = RoleOwner) ms = [m]"
    by (metis One_nat_def length_0_conv length_Suc_conv)
  then have "m \<in> set (filter (\<lambda>m. role m = RoleOwner) ms)" by simp
  then have "m \<in> set ms" "role m = RoleOwner" by simp_all
  with assms(2) f that show ?thesis by blast
qed

text \<open>
  The authority decoder accepts exactly the encodings of well-formed validated states of both wire
  versions, up to 4 MiB: one state has one byte form, and nothing trails it.
\<close>

theorem group_authority_canonical:
  "decode_group_authority b = DecodedValue s \<longleftrightarrow> wf_state s \<and> encode_group_authority_state s = Inr b"
  using authority.accepts_iff [of b s] by (simp add: decoded_value_eq_Some)

text \<open>
  C39. An accepted authority state has a strictly sorted roster with exactly one owner, who is the
  state's owner; its transfers form an unbroken chain from the original owner to that owner, with
  epochs \<open>1, 2, \<dots>\<close> and strictly increasing generations that do not exceed the state's; and the signer is
  either the owner, at a generation after every transfer, or the previous owner enacting the last
  transfer at exactly this generation and prior state.
\<close>

theorem accepted_authority_sound:
  assumes "decode_group_authority b = DecodedValue s"
  shows "sorted_wrt (<) (map peer (members s))
    \<and> (\<exists>m. filter (\<lambda>m. role m = RoleOwner) (members s) = [m] \<and> peer m = owner s)
    \<and> map from_owner (transfers s) @ [owner s] = original_owner s # map to_owner (transfers s)
    \<and> map (unat \<circ> epoch) (transfers s) = [1 ..< Suc (length (transfers s))]
    \<and> sorted_wrt (<) (map tr_generation (transfers s))
    \<and> (\<forall>t\<in>set (transfers s). 0 < tr_generation t \<and> tr_generation t \<le> generation s)
    \<and> (signer s = owner s \<and> (\<forall>t\<in>set (transfers s). tr_generation t < generation s)
       \<or> (\<exists>ts t. transfers s = ts @ [t] \<and> from_owner t = signer s \<and> to_owner t = owner s
            \<and> tr_generation t = generation s \<and> tr_prior_state_id t = prior_state_id s))"
proof -
  have v: "validate_state s = Inr ()"
    using assms by (auto simp: decode_authority_iff encode_authority_iff)
  note d = validate_stateD [OF v]
  note m = validate_members_sound [OF d(10)] and t = validate_transfers_sound [OF d(11)]
  obtain m' where own: "filter (\<lambda>m. role m = RoleOwner) (members s) = [m']" "peer m' = owner s"
    using sole_owner [of "members s" "owner s"] m by auto
  have e: "map (unat \<circ> epoch) (transfers s) = map (\<lambda>i. unat (word_of_nat (Suc i) :: u64)) [0 ..< length (transfers s)]"
    using t by (metis (no_types, lifting) add_0 map_map comp_def map_eq_conv)
  also have "\<dots> = map Suc [0 ..< length (transfers s)]"
    using d(7) by (intro map_cong refl) (simp del: of_nat_Suc)
  also have "\<dots> = [1 ..< Suc (length (transfers s))]" by (simp add: map_Suc_upt)
  finally have ep: "map (unat \<circ> epoch) (transfers s) = [1 ..< Suc (length (transfers s))]" .
  have sg: "signer s = owner s \<and> (\<forall>t\<in>set (transfers s). tr_generation t < generation s)
       \<or> (\<exists>ts t. transfers s = ts @ [t] \<and> from_owner t = signer s \<and> to_owner t = owner s
            \<and> tr_generation t = generation s \<and> tr_prior_state_id t = prior_state_id s)"
  proof (cases "transfers s" rule: rev_cases)
    case Nil
    with d(12) show ?thesis by (auto simp: validate_signer_def split: if_splits)
  next
    case (snoc ts t')
    have "tr_generation x \<le> tr_generation t'" if "x \<in> set (transfers s)" for x
      using t that by (auto simp: snoc sorted_wrt_append)
    with d(12) show ?thesis by (fastforce simp: validate_signer_def snoc split: if_splits)
  qed
  show ?thesis using m t own ep sg by auto
qed

lemma validate_transfers_signature:
  "validate_transfers (s\<lparr>ga_signature := x\<rparr>) i e g ts = validate_transfers s i e g ts"
  by (induction s i e g ts rule: validate_transfers.induct) simp_all

lemma signing_bytes_signature:
  "group_authority_state_signing_bytes (s\<lparr>ga_signature := x\<rparr>) = group_authority_state_signing_bytes s"
proof -
  have "validate_devices (s\<lparr>ga_signature := x\<rparr>) = validate_devices s"
    "validate_signer (s\<lparr>ga_signature := x\<rparr>) = validate_signer s"
    by (simp_all add: validate_devices_def validate_signer_def)
  then have "validate_state (s\<lparr>ga_signature := x\<rparr>) = validate_state s"
    by (simp add: validate_state_def validate_transfers_signature cong: if_cong)
  then show ?thesis
    by (simp add: group_authority_state_signing_bytes_def members_len_def transfers_len_def cong: if_cong)
qed

text \<open>
  The signature of an authority state covers all of it: two well-formed states of any versions with
  the same signed bytes differ at most in the signature itself.
\<close>

theorem authority_signature_binds:
  assumes "wf_state s" "wf_state s'"
    and "group_authority_state_signing_bytes s = Inr x" "group_authority_state_signing_bytes s' = Inr x"
  shows "s' = s\<lparr>ga_signature := ga_signature s'\<rparr>"
proof -
  let ?t = "s\<lparr>ga_signature := ga_signature s'\<rparr>"
  have w: "wf_state ?t" using assms(1,2) by (simp add: wf_state_def)
  have "group_authority_state_signing_bytes ?t = Inr x" using assms(3) by (simp add: signing_bytes_signature)
  then have "encode_group_authority_state ?t = encode_group_authority_state s'"
    using assms(4) by (simp add: encode_group_authority_state_def)
  then show ?thesis
    using authority.encode_injective [OF assms(2) w] assms(4) by (simp add: encode_group_authority_state_def)
qed

section \<open>Witnesses\<close>

text \<open>A group whose creator, the all-zero peer, hands ownership to a second member in generation 5.\<close>

definition sample_transfer :: OwnerTransferCertificate where
  "sample_transfer = \<lparr>tr_group = zeros 32, epoch = 1, tr_generation = 5, tr_prior_state_id = 1 # zeros 15,
     from_owner = zeros 32, to_owner = 1 # zeros 31, from_device = zeros 32, from_authority = [],
     tr_signature = zeros 64\<rparr>"

definition sample_state :: SignedGroupAuthorityState where
  "sample_state = \<lparr>version = 1, ga_group = zeros 32, generation = 5, owner_epoch = 1,
     original_owner = zeros 32, owner = 1 # zeros 31, signer = zeros 32, signer_device = zeros 32,
     signer_authority = [], prior_state_id = 1 # zeros 15, name = [0x61],
     members = [\<lparr>peer = zeros 32, identity = [1], role = RoleAdmin\<rparr>,
                \<lparr>peer = 1 # zeros 31, identity = [2], role = RoleOwner\<rparr>],
     secret_hash = zeros 32, transfers = [sample_transfer], ga_signature = zeros 64\<rparr>"

lemma zeros_unfold: "zeros 32 = 0 # zeros 31" "zeros 16 = 0 # zeros 15"
  by (simp_all add: zeros_def eval_nat_numeral)

lemma sample_wf: "wf_state sample_state"
  by (simp add: sample_state_def sample_transfer_def wf_state_def wf_member_def wf_transfer_def)

lemma sample_valid: "validate_state sample_state = Inr ()"
  by (simp add: sample_state_def sample_transfer_def validate_state_def validate_devices_def
      validate_signer_def zeros_unfold)

lemma sample_encodes:
  "encode_group_authority_state sample_state
     = Inr ([1, 1, 0, 0] @ state_body sample_state @ ga_signature sample_state)"
proof -
  have "4 + length (state_body sample_state) = 200 + 1 + 72 + 160"
    unfolding length_state_body [OF sample_wf]
    by (simp add: sample_state_def sample_transfer_def members_len_def transfers_len_def)
  moreover have "length (ga_signature sample_state) = 64" "version sample_state = 1"
    by (simp_all add: sample_state_def)
  ultimately show ?thesis using sample_valid by (simp add: encode_authority_iff [OF sample_wf])
qed

theorem accepted_authority_sound_witness:
  "\<exists>b. decode_group_authority b = DecodedValue sample_state
    \<and> map from_owner (transfers sample_state) @ [owner sample_state]
      = original_owner sample_state # map to_owner (transfers sample_state)
    \<and> transfers sample_state \<noteq> []"
proof -
  let ?b = "[1, 1, 0, 0] @ state_body sample_state @ ga_signature sample_state"
  have d: "decode_group_authority ?b = DecodedValue sample_state"
    using sample_wf sample_encodes by (simp only: decode_authority_iff)
  from accepted_authority_sound [OF d] d show ?thesis by (auto simp: sample_state_def)
qed

theorem authority_signature_binds_witness:
  "\<exists>x. group_authority_state_signing_bytes sample_state = Inr x
    \<and> sample_state\<lparr>ga_signature := 1 # zeros 63\<rparr>
       = sample_state\<lparr>ga_signature := ga_signature (sample_state\<lparr>ga_signature := 1 # zeros 63\<rparr>)\<rparr>"
proof -
  obtain x where x: "group_authority_state_signing_bytes sample_state = Inr x"
    using sample_encodes by (auto simp: encode_group_authority_state_def result_simps)
  have w: "wf_state (sample_state\<lparr>ga_signature := 1 # zeros 63\<rparr>)"
    using sample_wf by (simp add: wf_state_def)
  have x': "group_authority_state_signing_bytes (sample_state\<lparr>ga_signature := 1 # zeros 63\<rparr>) = Inr x"
    using x by (simp add: signing_bytes_signature)
  from authority_signature_binds [OF sample_wf w x x'] x show ?thesis by blast
qed

end
