(* ===== verification/Call_Control.thy ===== *)
theory Call_Control
  imports Komms_Prelude
begin

text \<open>
  \<^verbatim>\<open>kult-protocol/src/call.rs\<close>: the transient call-control payloads, with the proof that the six
  operations share one strict codec and the exact classification of everything else.
\<close>

definition CALL_CONTROL_VERSION :: u8 where [simp]: "CALL_CONTROL_VERSION = 1"
definition CALL_CONTROL_HEADER_LEN :: nat where [simp]: "CALL_CONTROL_HEADER_LEN = 1 + 1 + 16 + 32 + 8"
definition CALL_CONTROL_BOUND_LEN :: nat where
  [simp]: "CALL_CONTROL_BOUND_LEN = CALL_CONTROL_HEADER_LEN + 32"
definition CALL_CONTROL_HANGUP_LEN :: nat where
  [simp]: "CALL_CONTROL_HANGUP_LEN = CALL_CONTROL_BOUND_LEN + 1"
definition MAX_CALL_CONTROL_LEN :: nat where [simp]: "MAX_CALL_CONTROL_LEN = CALL_CONTROL_HANGUP_LEN"

definition OP_OFFER :: u8 where [simp]: "OP_OFFER = 1"
definition OP_ANSWER :: u8 where [simp]: "OP_ANSWER = 2"
definition OP_DECLINE :: u8 where [simp]: "OP_DECLINE = 3"
definition OP_BUSY :: u8 where [simp]: "OP_BUSY = 4"
definition OP_CANCEL :: u8 where [simp]: "OP_CANCEL = 5"
definition OP_HANGUP :: u8 where [simp]: "OP_HANGUP = 6"

datatype CallHangupReason = Ended | AnsweredElsewhere

text \<open>The arguments stand in the order of the source's fields.\<close>

datatype CallControl =
    Offer bytes bytes u64 bytes \<comment> \<open>call id, initiator device, expiry, master secret\<close>
  | Answer bytes bytes bytes u64 \<comment> \<open>call id, initiator device, responder device, expiry\<close>
  | Decline bytes bytes bytes u64
  | Busy bytes bytes bytes u64
  | Cancel bytes bytes u64 \<comment> \<open>call id, initiator device, expiry\<close>
  | Hangup bytes bytes bytes u64 CallHangupReason

fun call_id :: "CallControl \<Rightarrow> bytes" where
  "call_id (Offer c _ _ _) = c"
| "call_id (Answer c _ _ _) = c"
| "call_id (Decline c _ _ _) = c"
| "call_id (Busy c _ _ _) = c"
| "call_id (Cancel c _ _) = c"
| "call_id (Hangup c _ _ _ _) = c"

fun initiator_device :: "CallControl \<Rightarrow> bytes" where
  "initiator_device (Offer _ i _ _) = i"
| "initiator_device (Answer _ i _ _) = i"
| "initiator_device (Decline _ i _ _) = i"
| "initiator_device (Busy _ i _ _) = i"
| "initiator_device (Cancel _ i _) = i"
| "initiator_device (Hangup _ i _ _ _) = i"

fun call_expires_at :: "CallControl \<Rightarrow> u64" where
  "call_expires_at (Offer _ _ t _) = t"
| "call_expires_at (Answer _ _ _ t) = t"
| "call_expires_at (Decline _ _ _ t) = t"
| "call_expires_at (Busy _ _ _ t) = t"
| "call_expires_at (Cancel _ _ t) = t"
| "call_expires_at (Hangup _ _ _ t _) = t"

definition all_zero :: "bytes \<Rightarrow> bool" where
  "all_zero b \<longleftrightarrow> list_all (\<lambda>x. x = 0) b"

text \<open>The tuple the encoder matches out of its argument: operation, bound value and hangup reason.\<close>

fun control_parts :: "CallControl \<Rightarrow> u8 \<times> bytes \<times> bytes \<times> u64 \<times> bytes option \<times> CallHangupReason option"
  where
  "control_parts (Offer c i t m) = (OP_OFFER, c, i, t, Some m, None)"
| "control_parts (Answer c i r t) = (OP_ANSWER, c, i, t, Some r, None)"
| "control_parts (Decline c i r t) = (OP_DECLINE, c, i, t, Some r, None)"
| "control_parts (Busy c i r t) = (OP_BUSY, c, i, t, Some r, None)"
| "control_parts (Cancel c i t) = (OP_CANCEL, c, i, t, None, None)"
| "control_parts (Hangup c i r t why) = (OP_HANGUP, c, i, t, Some r, Some why)"

fun reason_byte :: "CallHangupReason \<Rightarrow> u8" where
  "reason_byte Ended = 0"
| "reason_byte AnsweredElsewhere = 1"

definition encode_call_control_payload :: "CallControl \<Rightarrow> bytes result" where
  "encode_call_control_payload control =
     (case control_parts control of (opr, cid, initiator, expires, bnd, why) \<Rightarrow>
        if all_zero cid \<or> all_zero initiator \<or> expires = 0
          \<or> (case bnd of None \<Rightarrow> False | Some v \<Rightarrow> all_zero v)
        then Inl Malformed
        else Inr (CALL_CONTROL_VERSION # opr # cid @ initiator @ to_le64 expires
               @ (case bnd of None \<Rightarrow> [] | Some v \<Rightarrow> v)
               @ (case why of None \<Rightarrow> [] | Some r \<Rightarrow> [reason_byte r])))"

text \<open>
  The operation is known to lie between \<open>OP_OFFER\<close> and \<open>OP_HANGUP\<close> when the last match is reached, so its
  final alternative is \<open>OP_HANGUP\<close> and the source's \<^verbatim>\<open>unreachable!\<close> arm has no counterpart.
\<close>

definition decode_call_control_payload :: "bytes \<Rightarrow> CallControl decoded" where
  "decode_call_control_payload b =
     (if length b < 2 \<or> length b > MAX_CALL_CONTROL_LEN then DecodedMalformed
      else if b ! 0 \<noteq> CALL_CONTROL_VERSION then DecodedUnsupported
      else let opr = b ! 1 in
        if \<not> (OP_OFFER \<le> opr \<and> opr \<le> OP_HANGUP) then DecodedUnsupported
        else let expected_len = (if opr = OP_CANCEL then CALL_CONTROL_HEADER_LEN
                                 else if opr = OP_HANGUP then CALL_CONTROL_HANGUP_LEN
                                 else CALL_CONTROL_BOUND_LEN) in
          if length b \<noteq> expected_len then DecodedMalformed
          else let cid = subslice 2 18 b; initiator = subslice 18 50 b;
                   expires = from_le64 (subslice 50 58 b) in
            if all_zero cid \<or> all_zero initiator \<or> expires = 0 then DecodedMalformed
            else if opr = OP_CANCEL then DecodedValue (Cancel cid initiator expires)
            else let bnd = subslice 58 90 b in
              if all_zero bnd then DecodedMalformed
              else if opr = OP_OFFER then DecodedValue (Offer cid initiator expires bnd)
              else if opr = OP_ANSWER then DecodedValue (Answer cid initiator bnd expires)
              else if opr = OP_DECLINE then DecodedValue (Decline cid initiator bnd expires)
              else if opr = OP_BUSY then DecodedValue (Busy cid initiator bnd expires)
              else if b ! 90 = 0 then DecodedValue (Hangup cid initiator bnd expires Ended)
              else if b ! 90 = 1 then DecodedValue (Hangup cid initiator bnd expires AnsweredElsewhere)
              else DecodedMalformed)"

definition wf_control :: "CallControl \<Rightarrow> bool" where
  "wf_control c \<longleftrightarrow> length (call_id c) = 16 \<and> length (initiator_device c) = 32
     \<and> (case control_parts c of (_, _, _, _, bnd, _) \<Rightarrow> case bnd of None \<Rightarrow> True | Some v \<Rightarrow> length v = 32)"

section \<open>The codec\<close>

lemma control_parts_accessors:
  "control_parts c = (opr, cid, initiator, expires, bnd, why) \<Longrightarrow>
     call_id c = cid \<and> initiator_device c = initiator \<and> call_expires_at c = expires"
  by (cases c) auto

definition call_frame :: "u8 \<Rightarrow> bytes \<Rightarrow> bytes \<Rightarrow> u64 \<Rightarrow> bytes \<Rightarrow> bytes" where
  "call_frame opr cid i t r = CALL_CONTROL_VERSION # opr # cid @ i @ to_le64 t @ r"

lemma call_frame_fields:
  assumes "length cid = 16" "length i = 32"
  shows "length (call_frame opr cid i t r) = 58 + length r"
    and "call_frame opr cid i t r ! 0 = 1"
    and "call_frame opr cid i t r ! Suc 0 = opr"
    and "subslice 2 18 (call_frame opr cid i t r) = cid"
    and "subslice 18 50 (call_frame opr cid i t r) = i"
    and "subslice 50 58 (call_frame opr cid i t r) = to_le64 t"
    and "subslice 58 90 (call_frame opr cid i t r) = subslice 0 32 r"
    and "call_frame opr cid i t r ! 90 = r ! 32"
  using assms by (simp_all add: call_frame_def wire_simps)

lemma call_frame_bound:
  "length v = 32 \<Longrightarrow> subslice 0 32 (v @ r) = v" "length v = 32 \<Longrightarrow> (v @ [x]) ! 32 = x"
  by (simp_all add: wire_simps)

lemma encode_call_frame:
  "encode_call_control_payload c = Inr b \<longleftrightarrow>
     (case control_parts c of (opr, cid, i, t, bnd, why) \<Rightarrow>
        \<not> all_zero cid \<and> \<not> all_zero i \<and> t \<noteq> 0 \<and> (case bnd of None \<Rightarrow> True | Some v \<Rightarrow> \<not> all_zero v)
        \<and> b = call_frame opr cid i t ((case bnd of None \<Rightarrow> [] | Some v \<Rightarrow> v)
            @ (case why of None \<Rightarrow> [] | Some r \<Rightarrow> [reason_byte r])))"
  by (cases c) (auto simp: encode_call_control_payload_def call_frame_def)

lemma call_decode_encode:
  assumes "wf_control c" and "encode_call_control_payload c = Inr b"
  shows "decode_call_control_payload b = DecodedValue c"
proof (cases c)
  case (Hangup cid i r t why)
  with assms show ?thesis
    by (cases why) (simp_all add: wf_control_def encode_call_frame
        decode_call_control_payload_def call_frame_fields call_frame_bound)
qed (use assms in \<open>simp_all add: wf_control_def encode_call_frame
    decode_call_control_payload_def call_frame_fields call_frame_bound\<close>)

lemma op_cases:
  fixes x :: u8
  assumes "1 \<le> x" "x \<le> 6"
  shows "x = 1 \<or> x = 2 \<or> x = 3 \<or> x = 4 \<or> x = 5 \<or> x = 6"
proof -
  have "1 \<le> unat x" "unat x \<le> 6" using assms by (simp_all add: word_le_nat_alt)
  then have "unat x = 1 \<or> unat x = 2 \<or> unat x = 3 \<or> unat x = 4 \<or> unat x = 5 \<or> unat x = 6" by arith
  then show ?thesis by (simp add: word_eq_iff_unsigned [where 'a = nat])
qed

lemma call_frame_peel:
  assumes "58 \<le> length b" "b ! 0 = 1"
  shows "call_frame (b ! Suc 0) (subslice 2 18 b) (subslice 18 50 b) (from_le64 (subslice 50 58 b)) (drop 58 b) = b"
proof -
  have "b \<noteq> []" using assms by auto
  have "call_frame (b ! Suc 0) (subslice 2 18 b) (subslice 18 50 b) (from_le64 (subslice 50 58 b)) (drop 58 b)
      = b ! 0 # b ! Suc 0 # subslice 2 18 b @ subslice 18 50 b @ subslice 50 58 b @ drop 58 b"
    using assms by (simp add: call_frame_def)
  also have "\<dots> = b" using assms(1) \<open>b \<noteq> []\<close> by (simp add: peel_simps)
  finally show ?thesis .
qed

lemma drop58_bound: "length b = 90 \<Longrightarrow> drop 58 b = subslice 58 90 b"
  by (simp add: subslice_def)

lemma drop58_hangup: "length b = 91 \<Longrightarrow> drop 58 b = subslice 58 90 b @ [b ! 90]"
proof -
  assume l: "length b = 91"
  have "subslice 58 90 b @ drop 90 b = drop 58 b" by (simp add: peel_simps)
  moreover have "drop 90 b = [b ! 90]" using l using Cons_nth_drop_Suc [of 90 b] by simp
  ultimately show ?thesis by simp
qed

lemma call_encode_decode:
  assumes d: "decode_call_control_payload b = DecodedValue c"
  shows "encode_call_control_payload c = Inr b \<and> wf_control c"
proof -
  let ?cid = "subslice 2 18 b" and ?i = "subslice 18 50 b" and ?t = "from_le64 (subslice 50 58 b)"
    and ?v = "subslice 58 90 b"
  from d have g: "b ! 0 = 1" "1 \<le> b ! Suc 0" "b ! Suc 0 \<le> 6"
    by (auto simp: decode_call_control_payload_def split: if_splits)
  from d have len: "length b = (if b ! Suc 0 = 5 then 58 else if b ! Suc 0 = 6 then 91 else 90)"
    by (simp add: decode_call_control_payload_def split: if_splits)
  from d have nz: "\<not> all_zero ?cid" "\<not> all_zero ?i" "?t \<noteq> 0"
    by (simp_all add: decode_call_control_payload_def split: if_splits)
  from len have l58: "58 \<le> length b" by (auto split: if_splits)
  note f = call_frame_peel [OF l58 g(1)]
  from l58 have wl: "length ?cid = 16" "length ?i = 32" by simp_all
  show ?thesis
  proof (cases "b ! Suc 0 = 5")
    case True
    with d have c: "c = Cancel ?cid ?i ?t"
      by (simp add: decode_call_control_payload_def split: if_splits)
    from len True have "drop 58 b = []" by simp
    with f nz wl True show ?thesis by (simp add: c encode_call_frame wf_control_def)
  next
    case False
    with d have v: "\<not> all_zero ?v" by (simp add: decode_call_control_payload_def split: if_splits)
    show ?thesis
    proof (cases "b ! Suc 0 = 6")
      case True
      with len have "drop 58 b = ?v @ [b ! 90]" and vl: "length ?v = 32" by (simp_all add: drop58_hangup)
      moreover from d True obtain why where "c = Hangup ?cid ?i ?v ?t why" "reason_byte why = b ! 90"
        by (force simp: decode_call_control_payload_def split: if_splits)
      ultimately show ?thesis using f nz wl v True by (simp add: encode_call_frame wf_control_def)
    next
      case F: False
      with False len have dv: "drop 58 b = ?v" and vl: "length ?v = 32" by (simp_all add: drop58_bound)
      from op_cases [OF g(2,3)] False F
      consider "b ! Suc 0 = 1" | "b ! Suc 0 = 2" | "b ! Suc 0 = 3" | "b ! Suc 0 = 4" by blast
      then show ?thesis
        by cases (use d f nz wl v dv vl len in \<open>auto simp: decode_call_control_payload_def
          encode_call_frame wf_control_def split: if_splits\<close>)
    qed
  qed
qed

interpretation call_control: strict_codec wf_control encode_call_control_payload
    "\<lambda>b. decoded_value (decode_call_control_payload b)"
  by unfold_locales (auto simp: decoded_value_eq_Some dest: call_encode_decode intro: call_decode_encode)

text \<open>
  The call-control decoder accepts exactly the encodings of well-formed controls; the call id, the
  initiating device and the expiry every transition shares are non-zero, so no accepted control can
  name the all-zero call.
\<close>

theorem call_control_canonical:
  "decode_call_control_payload b = DecodedValue c \<longleftrightarrow>
     wf_control c \<and> encode_call_control_payload c = Inr b"
  using call_control.accepts_iff [of b c] by (simp add: decoded_value_eq_Some)

end
