(* ===== verification/Content.thy ===== *)
theory Content
  imports Attachment Mention Edit Ephemeral Poll Group_Authority Call_Control
begin

text \<open>
  \<^verbatim>\<open>kult-protocol/src/content.rs\<close>: the frame around every typed message, its eight encoders and the total
  classification of decrypted bytes. The payload codecs of the other theories compose to one codec for
  the whole content layer, and typed frames never collide with legacy text.
\<close>

section \<open>Constants and data\<close>

definition CONTENT_MAGIC :: bytes where [simp]: "CONTENT_MAGIC = [0xff, 0x4B, 0x4D, 0x43]"
definition CONTENT_FORMAT_V1 :: u8 where [simp]: "CONTENT_FORMAT_V1 = 1"
definition CONTENT_KIND_TEXT :: u16 where [simp]: "CONTENT_KIND_TEXT = 1"
definition CONTENT_KIND_ATTACHMENT :: u16 where [simp]: "CONTENT_KIND_ATTACHMENT = 2"
definition CONTENT_KIND_MENTION :: u16 where [simp]: "CONTENT_KIND_MENTION = 3"
definition CONTENT_KIND_EDIT :: u16 where [simp]: "CONTENT_KIND_EDIT = 4"
definition CONTENT_KIND_EPHEMERAL :: u16 where [simp]: "CONTENT_KIND_EPHEMERAL = 5"
definition CONTENT_KIND_POLL :: u16 where [simp]: "CONTENT_KIND_POLL = 6"
definition CONTENT_KIND_GROUP_AUTHORITY :: u16 where [simp]: "CONTENT_KIND_GROUP_AUTHORITY = 7"
definition CONTENT_KIND_CALL_CONTROL :: u16 where [simp]: "CONTENT_KIND_CALL_CONTROL = 8"

datatype DecodedContent =
    LegacyText bytes
  | ContentText bytes bytes
  | ContentAttachment bytes AttachmentManifest
  | ContentMention bytes Mention
  | ContentEdit bytes Edit
  | ContentEphemeral bytes Ephemeral
  | ContentPoll bytes Poll
  | ContentGroupAuthority bytes bytes
  | ContentCallControl bytes CallControl
  | ContentUnsupported "u8 option" "u16 option"
  | ContentMalformed

section \<open>The encoders\<close>

text \<open>The eight encoders write the same frame; only the kind and the payload differ.\<close>

definition content_frame :: "u16 \<Rightarrow> bytes \<Rightarrow> bytes \<Rightarrow> bytes" where
  "content_frame kind cid payload =
     CONTENT_MAGIC @ [CONTENT_FORMAT_V1] @ to_le16 kind @ [0] @ cid
     @ to_le32 (word_of_nat (length payload)) @ payload"

definition encode_text :: "bytes \<Rightarrow> bytes \<Rightarrow> bytes result" where
  "encode_text cid payload =
     (if length payload > MAX_CONTENT_PAYLOAD_LEN then Inl TooLarge
      else Inr (content_frame CONTENT_KIND_TEXT cid payload))"

definition encode_attachment :: "(bytes \<Rightarrow> bytes) \<Rightarrow> bytes \<Rightarrow> AttachmentManifest \<Rightarrow> bytes result" where
  "encode_attachment b3 cid manifest =
     try_then (encode_attachment_manifest b3 manifest) (\<lambda>payload.
       Inr (content_frame CONTENT_KIND_ATTACHMENT cid payload))"

definition encode_mention :: "bytes \<Rightarrow> bytes \<Rightarrow> MentionSpan list \<Rightarrow> bytes result" where
  "encode_mention cid t spans =
     try_then (encode_mention_payload t spans) (\<lambda>payload.
       Inr (content_frame CONTENT_KIND_MENTION cid payload))"

definition encode_edit :: "bytes \<Rightarrow> Edit \<Rightarrow> bytes result" where
  "encode_edit cid e =
     try_then (encode_edit_payload e) (\<lambda>payload. Inr (content_frame CONTENT_KIND_EDIT cid payload))"

definition encode_ephemeral :: "bytes \<Rightarrow> bytes \<Rightarrow> bytes result" where
  "encode_ephemeral cid payload =
     (if length payload > MAX_CONTENT_PAYLOAD_LEN then Inl TooLarge
      else Inr (content_frame CONTENT_KIND_EPHEMERAL cid payload))"

definition encode_poll :: "bytes \<Rightarrow> bytes \<Rightarrow> bytes result" where
  "encode_poll cid payload =
     (if length payload > MAX_CONTENT_PAYLOAD_LEN then Inl TooLarge
      else Inr (content_frame CONTENT_KIND_POLL cid payload))"

definition encode_group_authority :: "bytes \<Rightarrow> bytes \<Rightarrow> bytes result" where
  "encode_group_authority cid payload =
     (if length payload > MAX_CONTENT_PAYLOAD_LEN then Inl TooLarge
      else Inr (content_frame CONTENT_KIND_GROUP_AUTHORITY cid payload))"

definition encode_call_control :: "bytes \<Rightarrow> CallControl \<Rightarrow> bytes result" where
  "encode_call_control cid control =
     try_then (encode_call_control_payload control) (\<lambda>payload.
       Inr (content_frame CONTENT_KIND_CALL_CONTROL cid payload))"

section \<open>The decoder\<close>

text \<open>The outcome of a payload decoder, in terms of content.\<close>

definition classify :: "u8 \<Rightarrow> u16 \<Rightarrow> ('a \<Rightarrow> DecodedContent) \<Rightarrow> 'a decoded \<Rightarrow> DecodedContent" where
  "classify ver kind f d =
     (case d of DecodedValue x \<Rightarrow> f x
      | DecodedUnsupported \<Rightarrow> ContentUnsupported (Some ver) (Some kind)
      | DecodedMalformed \<Rightarrow> ContentMalformed)"

definition decode_content_payload ::
  "(bytes \<Rightarrow> bytes) \<Rightarrow> u8 \<Rightarrow> u16 \<Rightarrow> bytes \<Rightarrow> bytes \<Rightarrow> DecodedContent" where
  "decode_content_payload b3 ver kind cid payload =
     (if kind = CONTENT_KIND_TEXT then
        (if utf8_valid payload then ContentText cid payload else ContentMalformed)
      else if kind = CONTENT_KIND_ATTACHMENT then
        classify ver kind (ContentAttachment cid) (decode_attachment_manifest b3 payload)
      else if kind = CONTENT_KIND_MENTION then
        classify ver kind (ContentMention cid) (decode_mention_payload payload)
      else if kind = CONTENT_KIND_EDIT then
        (case decode_edit_payload payload of Some e \<Rightarrow> ContentEdit cid e | None \<Rightarrow> ContentMalformed)
      else if kind = CONTENT_KIND_EPHEMERAL then
        classify ver kind (ContentEphemeral cid) (decode_ephemeral_payload b3 payload)
      else if kind = CONTENT_KIND_POLL then
        classify ver kind (ContentPoll cid) (decode_poll_payload payload)
      else if kind = CONTENT_KIND_GROUP_AUTHORITY then
        classify ver kind (\<lambda>_. ContentGroupAuthority cid payload) (decode_group_authority payload)
      else if kind = CONTENT_KIND_CALL_CONTROL then
        classify ver kind (ContentCallControl cid) (decode_call_control_payload payload)
      else ContentUnsupported (Some ver) (Some kind))"

definition decode_content :: "(bytes \<Rightarrow> bytes) \<Rightarrow> bytes \<Rightarrow> DecodedContent" where
  "decode_content b3 b =
     (if \<not> starts_with b CONTENT_MAGIC then
        (if utf8_valid b then LegacyText b else ContentUnsupported None None)
      else if length b > MAX_CONTENT_FRAME_LEN \<or> length b < length CONTENT_MAGIC + 1
      then ContentMalformed
      else
        let ver = b ! 4 in
        if ver \<noteq> CONTENT_FORMAT_V1 then ContentUnsupported (Some ver) None
        else if length b < CONTENT_HEADER_LEN then ContentMalformed
        else
          let kind = from_le16 [b ! 5, b ! 6];
              flags = b ! 7;
              cid = subslice 8 24 b;
              declared_len = unat (from_le32 [b ! 24, b ! 25, b ! 26, b ! 27]) in
          if kind = 0 \<or> declared_len > MAX_CONTENT_PAYLOAD_LEN
            \<or> declared_len \<noteq> length b - CONTENT_HEADER_LEN
          then ContentMalformed
          else if flags \<noteq> 0 then ContentUnsupported (Some ver) (Some kind)
          else decode_content_payload b3 ver kind cid (drop CONTENT_HEADER_LEN b))"

section \<open>The frame\<close>

text \<open>\<open>content_framed b kind cid p\<close>: the frame checks pass and leave this kind, id and payload.\<close>

definition content_framed :: "bytes \<Rightarrow> u16 \<Rightarrow> bytes \<Rightarrow> bytes \<Rightarrow> bool" where
  "content_framed b kind cid p \<longleftrightarrow>
     kind \<noteq> 0 \<and> length cid = 16 \<and> length p \<le> MAX_CONTENT_PAYLOAD_LEN \<and> b = content_frame kind cid p"

lemma subslice_pair: "i + 2 \<le> length b \<Longrightarrow> subslice i (i + 2) b = [b ! i, b ! Suc i]"
  by (rule nth_equalityI) (auto simp: subslice_def less_Suc_eq numeral_2_eq_2)

lemma subslice_quad: "i + 4 \<le> length b \<Longrightarrow> subslice i (i + 4) b = [b ! i, b ! (i + 1), b ! (i + 2), b ! (i + 3)]"
  by (rule nth_equalityI) (auto simp: subslice_def less_Suc_eq eval_nat_numeral)

lemma content_fields:
  assumes "28 \<le> length b"
  shows "[b ! 5, b ! 6] = subslice 5 7 b" "[b ! 24, b ! 25, b ! 26, b ! 27] = subslice 24 28 b"
  using subslice_pair [of 5 b] subslice_quad [of 24 b] assms by simp_all

lemma decode_content_frame:
  assumes "content_framed b kind cid p"
  shows "decode_content b3 b = decode_content_payload b3 1 kind cid p"
proof -
  have a: "kind \<noteq> 0" "length cid = 16" "length p \<le> 65507"
    and b: "b = 0xff # 0x4B # 0x4D # 0x43 # 1 # to_le16 kind @ 0 # cid @ to_le32 (word_of_nat (length p)) @ p"
    using assms by (simp_all add: content_framed_def content_frame_def)
  have l: "length b = 28 + length p" using a by (simp add: b)
  have f: "starts_with b CONTENT_MAGIC" "b ! 4 = 1" "b ! 7 = 0"
    "subslice 5 7 b = to_le16 kind" "subslice 8 24 b = cid"
    "subslice 24 28 b = to_le32 (word_of_nat (length p))" "drop 28 b = p"
    using a by (simp_all add: b wire_simps starts_with_def)
  have c: "[b ! 5, b ! 6] = to_le16 kind"
    "[b ! 24, b ! 25, b ! 26, b ! 27] = to_le32 (word_of_nat (length p))"
    using content_fields [of b] l f by simp_all
  show ?thesis using a l f(1,2,3,5,7) by (simp add: decode_content_def c)
qed

text \<open>A typed value comes out of a frame.\<close>

definition typed :: "DecodedContent \<Rightarrow> bool" where
  "typed d \<longleftrightarrow> (case d of LegacyText _ \<Rightarrow> False | ContentUnsupported _ _ \<Rightarrow> False | ContentMalformed \<Rightarrow> False
     | _ \<Rightarrow> True)"

lemma typed_framed:
  assumes t: "typed (decode_content b3 b)"
  shows "content_framed b (from_le16 (subslice 5 7 b)) (subslice 8 24 b) (drop 28 b)"
proof -
  have m: "starts_with b CONTENT_MAGIC" and len: "28 \<le> length b" "length b \<le> 65535"
    and h: "b ! 4 = 1" "b ! 7 = 0" "from_le16 [b ! 5, b ! 6] \<noteq> 0"
    and n: "unat (from_le32 [b ! 24, b ! 25, b ! 26, b ! 27]) = length b - 28"
    using t by (auto simp: decode_content_def typed_def split: if_splits)
  have s: "unat (from_le32 (subslice 24 28 b)) = length b - 28" "from_le16 (subslice 5 7 b) \<noteq> 0"
    using n h(3) by (simp_all only: content_fields [OF len(1)] not_False_eq_True)
  have w: "word_of_nat (length b - 28) = from_le32 (subslice 24 28 b)" by (simp add: s(1) [symmetric])
  obtain r where r: "b = CONTENT_MAGIC @ r" using m by (auto simp: starts_with_iff)
  have "content_frame (from_le16 (subslice 5 7 b)) (subslice 8 24 b) (drop 28 b)
      = CONTENT_MAGIC @ b ! 4 # subslice 5 7 b @ b ! 7 # subslice 8 24 b @ subslice 24 28 b @ drop 28 b"
    using len h by (simp add: content_frame_def w)
  also have "\<dots> = CONTENT_MAGIC @ drop 4 b" using len by (simp add: peel_simps)
  also have "\<dots> = b" by (simp add: r)
  finally show ?thesis using len s by (simp add: content_framed_def)
qed

section \<open>One codec for the content layer\<close>

text \<open>
  What a caller reads out of a decoded frame: the borrowing iterators of a mention and a poll have run,
  and the authority state has been decoded from the payload the classification hands over.
\<close>

datatype content_value =
    TextValue bytes
  | AttachmentValue AttachmentManifest
  | MentionValue "bytes \<times> MentionSpan list"
  | EditValue Edit
  | EphemeralValue Ephemeral
  | PollValue PollEvent
  | AuthorityValue SignedGroupAuthorityState
  | CallValue CallControl

fun content_view :: "DecodedContent \<Rightarrow> (bytes \<times> content_value) option" where
  "content_view (ContentText cid t) = Some (cid, TextValue t)"
| "content_view (ContentAttachment cid m) = Some (cid, AttachmentValue m)"
| "content_view (ContentMention cid m) = Some (cid, MentionValue (mention_view m))"
| "content_view (ContentEdit cid e) = Some (cid, EditValue e)"
| "content_view (ContentEphemeral cid e) = Some (cid, EphemeralValue e)"
| "content_view (ContentPoll cid p) = map_option (\<lambda>e. (cid, PollValue e)) (poll_event p)"
| "content_view (ContentGroupAuthority cid payload) =
     map_option (\<lambda>s. (cid, AuthorityValue s)) (decoded_value (decode_group_authority payload))"
| "content_view (ContentCallControl cid c) = Some (cid, CallValue c)"
| "content_view _ = None"

fun encode_content :: "(bytes \<Rightarrow> bytes) \<Rightarrow> bytes \<times> content_value \<Rightarrow> bytes result" where
  "encode_content b3 (cid, TextValue t) = encode_text cid t"
| "encode_content b3 (cid, AttachmentValue m) = encode_attachment b3 cid m"
| "encode_content b3 (cid, MentionValue (t, spans)) = encode_mention cid t spans"
| "encode_content b3 (cid, EditValue e) = encode_edit cid e"
| "encode_content b3 (cid, EphemeralValue e) = try_then (encode_ephemeral_value b3 e) (encode_ephemeral cid)"
| "encode_content b3 (cid, PollValue e) = try_then (encode_event e) (encode_poll cid)"
| "encode_content b3 (cid, AuthorityValue s) =
     try_then (encode_group_authority_state s) (encode_group_authority cid)"
| "encode_content b3 (cid, CallValue c) = encode_call_control cid c"

fun wf_content :: "bytes \<times> content_value \<Rightarrow> bool" where
  "wf_content (cid, v) \<longleftrightarrow> length cid = 16 \<and>
     (case v of TextValue t \<Rightarrow> utf8_valid t | AttachmentValue m \<Rightarrow> wf_manifest m
      | MentionValue m \<Rightarrow> wf_mention m | EditValue e \<Rightarrow> wf_edit e | EphemeralValue e \<Rightarrow> wf_ephemeral e
      | PollValue e \<Rightarrow> wf_event e | AuthorityValue s \<Rightarrow> wf_state s | CallValue c \<Rightarrow> wf_control c)"

text \<open>The kind and the payload of a value, so that each encoder is a frame around its payload codec.\<close>

fun value_kind :: "content_value \<Rightarrow> u16" where
  "value_kind (TextValue _) = 1"
| "value_kind (AttachmentValue _) = 2"
| "value_kind (MentionValue _) = 3"
| "value_kind (EditValue _) = 4"
| "value_kind (EphemeralValue _) = 5"
| "value_kind (PollValue _) = 6"
| "value_kind (AuthorityValue _) = 7"
| "value_kind (CallValue _) = 8"

fun value_payload :: "(bytes \<Rightarrow> bytes) \<Rightarrow> content_value \<Rightarrow> bytes result" where
  "value_payload b3 (TextValue t) = Inr t"
| "value_payload b3 (AttachmentValue m) = encode_attachment_manifest b3 m"
| "value_payload b3 (MentionValue (t, spans)) = encode_mention_payload t spans"
| "value_payload b3 (EditValue e) = encode_edit_payload e"
| "value_payload b3 (EphemeralValue e) = encode_ephemeral_value b3 e"
| "value_payload b3 (PollValue e) = encode_event e"
| "value_payload b3 (AuthorityValue s) = encode_group_authority_state s"
| "value_payload b3 (CallValue c) = encode_call_control_payload c"

lemma payload_fits:
  assumes "wf_content (cid, v)" and "value_payload b3 v = Inr p"
    and "\<And>t. v \<noteq> TextValue t" "\<And>s. v \<noteq> AuthorityValue s" "\<And>e. v \<noteq> PollValue e" "\<And>e. v \<noteq> EphemeralValue e"
  shows "length p \<le> MAX_CONTENT_PAYLOAD_LEN"
proof (cases v)
  case (AttachmentValue m)
  with assms have "decode_attachment_manifest b3 p = DecodedValue m"
    using manifest.accepts_iff [of b3 p m] by (simp add: decoded_value_eq_Some)
  then have "\<not> length p > 1024" by (auto simp: decode_attachment_manifest_def split: if_splits)
  then show ?thesis by simp
next
  case (MentionValue m)
  obtain t spans where m: "m = (t, spans)" by force
  with assms MentionValue obtain d where "decode_mention_payload p = DecodedValue d"
    using mention.accepts_iff [of p m] by (auto simp: decoded_value_eq_Some)
  then have "\<not> length p > 19016" by (auto simp: decode_mention_payload_def split: if_splits)
  then show ?thesis by simp
next
  case (EditValue e)
  with assms have "decode_edit_payload p = Some e" using edit.accepts_iff [of p e] by simp
  then have "\<not> length p > 16444" by (auto simp: decode_edit_payload_def split: if_splits)
  then show ?thesis by simp
next
  case (CallValue c)
  with assms have "decode_call_control_payload p = DecodedValue c"
    using call_control.accepts_iff [of p c] by (simp add: decoded_value_eq_Some)
  then have "\<not> length p > 91" by (auto simp: decode_call_control_payload_def split: if_splits)
  then show ?thesis by simp
qed (use assms in auto)

lemma encode_content_framed:
  assumes w: "wf_content (cid, v)"
  shows "encode_content b3 (cid, v) = Inr b \<longleftrightarrow>
    (\<exists>p. value_payload b3 v = Inr p \<and> content_framed b (value_kind v) cid p)"
proof -
  have c: "length cid = 16" using w by simp
  show ?thesis
  proof (cases v)
    case (TextValue t)
    then show ?thesis using c by (auto simp: encode_text_def content_framed_def)
  next
    case (AttachmentValue m)
    then show ?thesis using c payload_fits [OF w, of b3]
      by (auto simp: encode_attachment_def content_framed_def result_simps)
  next
    case (MentionValue m)
    then show ?thesis using c payload_fits [OF w, of b3]
      by (cases m) (auto simp: encode_mention_def content_framed_def result_simps)
  next
    case (EditValue e)
    then show ?thesis using c payload_fits [OF w, of b3]
      by (auto simp: encode_edit_def content_framed_def result_simps)
  next
    case (EphemeralValue e)
    then show ?thesis using c by (auto simp: encode_ephemeral_def content_framed_def result_simps)
  next
    case (PollValue e)
    then show ?thesis using c by (auto simp: encode_poll_def content_framed_def result_simps)
  next
    case (AuthorityValue s)
    then show ?thesis using c by (auto simp: encode_group_authority_def content_framed_def result_simps)
  next
    case (CallValue k)
    then show ?thesis using c payload_fits [OF w, of b3]
      by (auto simp: encode_call_control_def content_framed_def result_simps)
  qed
qed

lemma content_view_classify:
  "content_view (classify ver kind f d) = Some v \<longleftrightarrow> (\<exists>x. d = DecodedValue x \<and> content_view (f x) = Some v)"
  by (cases d) (auto simp: classify_def)

text \<open>Inside a frame, the view of the dispatch is the payload codec of the frame's kind.\<close>

lemma dispatch_iff:
  assumes l: "length p \<le> MAX_CONTENT_PAYLOAD_LEN" and c: "length cid = 16"
  shows "content_view (decode_content_payload b3 ver kind cid p) = Some (cid', v) \<longleftrightarrow>
    cid' = cid \<and> kind = value_kind v \<and> wf_content (cid, v) \<and> value_payload b3 v = Inr p"
proof -
  have A: "decode_attachment_manifest b3 p = DecodedValue m \<longleftrightarrow>
      wf_manifest m \<and> encode_attachment_manifest b3 m = Inr p" for m
    using manifest.accepts_iff [of b3 p m] by (simp add: decoded_value_eq_Some)
  have M: "(\<exists>d. decode_mention_payload p = DecodedValue d \<and> mention_view d = m) \<longleftrightarrow>
      wf_mention m \<and> value_payload b3 (MentionValue m) = Inr p" for m
    using mention.accepts_iff [of p m] by (cases m) (auto simp: decoded_value_eq_Some)
  have E: "decode_edit_payload p = Some e \<longleftrightarrow> wf_edit e \<and> encode_edit_payload e = Inr p" for e
    by (rule edit.accepts_iff)
  have H: "decode_ephemeral_payload b3 p = DecodedValue e \<longleftrightarrow>
      wf_ephemeral e \<and> encode_ephemeral_value b3 e = Inr p" for e
    using ephemeral.accepts_iff [of b3 p e] l by (simp add: decode_framed_ephemeral_def decoded_value_eq_Some)
  have P: "(\<exists>d. decode_poll_payload p = DecodedValue d \<and> poll_event d = Some e) \<longleftrightarrow>
      wf_event e \<and> encode_event e = Inr p" for e
    using poll.accepts_iff [of p e] by (auto simp: decode_event_def split: decoded.splits)
  have G: "decode_group_authority p = DecodedValue s \<longleftrightarrow>
      wf_state s \<and> encode_group_authority_state s = Inr p" for s
    using authority.accepts_iff [of p s] by (simp add: decoded_value_eq_Some)
  have C: "decode_call_control_payload p = DecodedValue k \<longleftrightarrow>
      wf_control k \<and> encode_call_control_payload k = Inr p" for k
    using call_control.accepts_iff [of p k] by (simp add: decoded_value_eq_Some)
  consider "kind = 1" | "kind = 2" | "kind = 3" | "kind = 4" | "kind = 5" | "kind = 6" | "kind = 7" | "kind = 8"
    | "kind \<noteq> 1" "kind \<noteq> 2" "kind \<noteq> 3" "kind \<noteq> 4" "kind \<noteq> 5" "kind \<noteq> 6" "kind \<noteq> 7" "kind \<noteq> 8"
    by blast
  then show ?thesis
  proof cases
    case 1
    then show ?thesis using c by (cases v) (auto simp: decode_content_payload_def)
  next
    case 2
    then show ?thesis using c
      by (cases v) (auto simp: decode_content_payload_def content_view_classify A)
  next
    case 3
    then show ?thesis using c M
      by (cases v) (auto simp: decode_content_payload_def content_view_classify simp del: value_payload.simps)
  next
    case 4
    then show ?thesis using c E
      by (cases v) (auto simp: decode_content_payload_def split: option.splits intro: edit.encode_injective)
  next
    case 5
    then show ?thesis using c
      by (cases v) (auto simp: decode_content_payload_def content_view_classify H)
  next
    case 6
    then show ?thesis using c P
      by (cases v) (auto simp: decode_content_payload_def content_view_classify)
  next
    case 7
    then show ?thesis using c
      by (cases v) (auto simp: decode_content_payload_def content_view_classify G decoded_value_eq_Some)
  next
    case 8
    then show ?thesis using c
      by (cases v) (auto simp: decode_content_payload_def content_view_classify C)
  next
    case 9
    then show ?thesis by (cases v) (auto simp: decode_content_payload_def)
  qed
qed

lemma content_iff:
  "content_view (decode_content b3 b) = Some v \<longleftrightarrow> wf_content v \<and> encode_content b3 v = Inr b"
proof -
  obtain cid x where v: "v = (cid, x)" by force
  show ?thesis
  proof
    assume a: "content_view (decode_content b3 b) = Some v"
    then have "typed (decode_content b3 b)" by (cases "decode_content b3 b") (auto simp: typed_def)
    then obtain kind cid' p where f: "content_framed b kind cid' p" using typed_framed by blast
    then have "content_view (decode_content_payload b3 1 kind cid' p) = Some (cid, x)"
      using a v by (simp add: decode_content_frame)
    with f dispatch_iff [of p cid' b3 1 kind cid x] have "cid = cid'" "kind = value_kind x"
      "wf_content (cid, x)" "value_payload b3 x = Inr p"
      by (auto simp: content_framed_def)
    with f show "wf_content v \<and> encode_content b3 v = Inr b"
      unfolding v using encode_content_framed by blast
  next
    assume a: "wf_content v \<and> encode_content b3 v = Inr b"
    then obtain p where p: "value_payload b3 x = Inr p" "content_framed b (value_kind x) cid p"
      unfolding v using encode_content_framed by blast
    then show "content_view (decode_content b3 b) = Some v"
      using a v dispatch_iff [of p cid b3 1 "value_kind x" cid x]
      by (auto simp: decode_content_frame content_framed_def)
  qed
qed

interpretation content: strict_codec wf_content "encode_content b3"
    "\<lambda>b. content_view (decode_content b3 b)" for b3
  by unfold_locales (simp_all only: content_iff)

text \<open>
  C38. The content layer is one canonical codec over all eight kinds. Decoding decrypted bytes and
  reading the result yields an id and a value exactly when encoding that value under that id, with
  the kind's own encoder and the common frame, yields those bytes.
\<close>

theorem content_canonical:
  "content_view (decode_content b3 b) = Some v \<longleftrightarrow> wf_content v \<and> encode_content b3 v = Inr b"
  by (rule content.accepts_iff)

lemma utf8_no_magic: "utf8_valid b \<Longrightarrow> \<not> starts_with b CONTENT_MAGIC"
  by (cases b) (auto simp: starts_with_def)

text \<open>
  Typed frames and legacy text never collide: a byte string is classified as legacy text exactly
  when it is valid UTF-8, and then the text is the whole string; a string with the magic prefix is
  never legacy text, whatever follows.
\<close>

theorem legacy_text_iff_utf8:
  "(decode_content b3 b = LegacyText t \<longleftrightarrow> t = b \<and> utf8_valid b)
   \<and> decode_content b3 (CONTENT_MAGIC @ r) \<noteq> LegacyText t"
proof -
  have p: "decode_content_payload b3 ver kind cid x \<noteq> LegacyText t" for ver kind cid x
    by (auto simp: decode_content_payload_def classify_def split: decoded.splits option.splits)
  have "decode_content b3 x \<noteq> LegacyText t" if "starts_with x CONTENT_MAGIC" for x
    using that p by (simp add: decode_content_def)
  moreover have "decode_content b3 b = LegacyText t \<longleftrightarrow> t = b \<and> utf8_valid b"
    if "\<not> starts_with b CONTENT_MAGIC"
    using that by (auto simp: decode_content_def)
  ultimately show ?thesis using utf8_no_magic [of b] by (metis starts_with_append)
qed

end
