(* ===== verification/Capability.thy ===== *)
theory Capability
  imports Komms_Prelude
begin

text \<open>
  \<^verbatim>\<open>kult-protocol/src/capability.rs\<close>: the authenticated capability snapshot of a peer session, its codec and
  the two binary searches that answer a support query.
\<close>

definition CAPABILITY_MAGIC :: bytes where [simp]: "CAPABILITY_MAGIC = [0x00, 0x00, 0xff, 0x4B, 0x43, 0x43]"
definition CAPABILITY_CONTROL_VERSION :: u8 where [simp]: "CAPABILITY_CONTROL_VERSION = 1"
definition MAX_CAPABILITY_FORMATS :: nat where [simp]: "MAX_CAPABILITY_FORMATS = 4"
definition MAX_CAPABILITY_KINDS :: nat where [simp]: "MAX_CAPABILITY_KINDS = 64"
definition GROUP_ORIGIN_CAPABILITY_FORMAT :: u8 where [simp]: "GROUP_ORIGIN_CAPABILITY_FORMAT = - 1"
definition GROUP_ORIGIN_CAPABILITY_KIND :: u16 where [simp]: "GROUP_ORIGIN_CAPABILITY_KIND = 1"

record FormatCapabilities =
  format_version :: u8
  kinds :: "u16 list"

record CapabilityControl =
  formats :: "FormatCapabilities list"

definition is_capability_control :: "bytes \<Rightarrow> bool" where
  "is_capability_control b \<longleftrightarrow> starts_with b CAPABILITY_MAGIC"

section \<open>Validation\<close>

fun validate_kinds :: "u16 option \<Rightarrow> u16 list \<Rightarrow> unit result" where
  "validate_kinds previous [] = Inr ()"
| "validate_kinds previous (k # ks) =
     (if k = 0 \<or> (case previous of None \<Rightarrow> False | Some p \<Rightarrow> p \<ge> k) then Inl Malformed
      else validate_kinds (Some k) ks)"

fun validate_format_list :: "u8 option \<Rightarrow> FormatCapabilities list \<Rightarrow> unit result" where
  "validate_format_list previous [] = Inr ()"
| "validate_format_list previous (f # fs) =
     (if format_version f = 0 \<or> (case previous of None \<Rightarrow> False | Some p \<Rightarrow> p \<ge> format_version f)
      then Inl Malformed
      else if length (kinds f) > MAX_CAPABILITY_KINDS then Inl TooLarge
      else try_then (validate_kinds None (kinds f)) (\<lambda>_.
        validate_format_list (Some (format_version f)) fs))"

definition validate_formats :: "FormatCapabilities list \<Rightarrow> unit result" where
  "validate_formats fs =
     (if length fs > MAX_CAPABILITY_FORMATS then Inl TooLarge else validate_format_list None fs)"

section \<open>Codec\<close>

definition format_bytes :: "FormatCapabilities \<Rightarrow> bytes" where
  "format_bytes f = format_version f # word_of_nat (length (kinds f)) # concat (map to_le16 (kinds f))"

definition capability_encode :: "CapabilityControl \<Rightarrow> bytes result" where
  "capability_encode c =
     try_then (validate_formats (formats c)) (\<lambda>_.
       Inr (CAPABILITY_MAGIC @ [CAPABILITY_CONTROL_VERSION] @ [word_of_nat (length (formats c))]
            @ concat (map format_bytes (formats c))))"

text \<open>\<^verbatim>\<open>bytes.get(i..j)\<close>.\<close>

definition get_range :: "bytes \<Rightarrow> nat \<Rightarrow> nat \<Rightarrow> bytes option" where
  "get_range b i j = (if i \<le> j \<and> j \<le> length b then Some (subslice i j b) else None)"

definition decode_format :: "bytes \<Rightarrow> nat \<Rightarrow> (FormatCapabilities \<times> nat) result" where
  "decode_format b offset =
     try_then (ok_or (get_range b offset (offset + 2)) Malformed) (\<lambda>header.
       let ver = header ! 0; kind_count = unat (header ! 1); offset = offset + 2 in
       if ver = 0 \<or> kind_count > MAX_CAPABILITY_KINDS then Inl Malformed
       else
         let kinds_len = kind_count * 2 in
         try_then (ok_or (get_range b offset (offset + kinds_len)) Malformed) (\<lambda>encoded_kinds.
           Inr (\<lparr>format_version = ver,
                 kinds = map (\<lambda>pair. from_le16 [pair ! 0, pair ! 1]) (as_chunks 2 encoded_kinds)\<rparr>,
                offset + kinds_len)))"

fun decode_formats :: "nat \<Rightarrow> bytes \<Rightarrow> nat \<Rightarrow> (FormatCapabilities list \<times> nat) result" where
  "decode_formats 0 b offset = Inr ([], offset)"
| "decode_formats (Suc n) b offset =
     try_then (decode_format b offset) (\<lambda>(f, offset).
     try_then (decode_formats n b offset) (\<lambda>(fs, offset). Inr (f # fs, offset)))"

definition capability_decode :: "bytes \<Rightarrow> CapabilityControl result" where
  "capability_decode b =
     (if length b < length CAPABILITY_MAGIC + 2 \<or> \<not> is_capability_control b
        \<or> b ! 6 \<noteq> CAPABILITY_CONTROL_VERSION
      then Inl Malformed
      else
        let format_count = unat (b ! 7) in
        if format_count > MAX_CAPABILITY_FORMATS then Inl Malformed
        else try_then (decode_formats format_count b 8) (\<lambda>(fs, offset).
          if offset \<noteq> length b then Inl Malformed
          else try_then (validate_formats fs) (\<lambda>_. Inr \<lparr>formats = fs\<rparr>)))"

definition supports :: "CapabilityControl \<Rightarrow> u8 \<Rightarrow> u16 \<Rightarrow> bool" where
  "supports c ver kind =
     (case binary_search (map format_version (formats c)) ver of
        None \<Rightarrow> False
      | Some index \<Rightarrow> binary_search (kinds (formats c ! index)) kind \<noteq> None)"

section \<open>What validation means\<close>

lemma validate_kinds_iff:
  "validate_kinds previous ks = Inr u \<longleftrightarrow>
     0 \<notin> set ks \<and> sorted_wrt (<) ks \<and> (\<forall>p. previous = Some p \<longrightarrow> (\<forall>k\<in>set ks. p < k))"
proof (induction previous ks rule: validate_kinds.induct)
  case (2 previous k ks)
  show ?case
  proof (cases "k = 0 \<or> (\<exists>p. previous = Some p \<and> p \<ge> k)")
    case True
    then show ?thesis by (auto split: option.splits)
  next
    case False
    then have step: "validate_kinds previous (k # ks) = validate_kinds (Some k) ks"
      by (auto split: option.splits)
    have "\<forall>p. previous = Some p \<longrightarrow> p < k" using False by auto
    with 2 False show ?thesis unfolding step by (auto split: option.splits intro: less_trans)
  qed
qed simp

definition good_format :: "FormatCapabilities \<Rightarrow> bool" where
  "good_format f \<longleftrightarrow> format_version f \<noteq> 0 \<and> length (kinds f) \<le> 64 \<and> 0 \<notin> set (kinds f)
     \<and> sorted_wrt (<) (kinds f)"

lemma validate_format_list_iff:
  "validate_format_list previous fs = Inr u \<longleftrightarrow>
     list_all good_format fs \<and> sorted_wrt (<) (map format_version fs)
     \<and> (\<forall>p. previous = Some p \<longrightarrow> (\<forall>f\<in>set fs. p < format_version f))"
proof (induction fs arbitrary: previous)
  case (Cons f fs)
  show ?case
  proof (cases "good_format f \<and> (\<forall>p. previous = Some p \<longrightarrow> p < format_version f)")
    case True
    then have "validate_kinds None (kinds f) = Inr ()" by (simp add: validate_kinds_iff good_format_def)
    then have step: "validate_format_list previous (f # fs) = validate_format_list (Some (format_version f)) fs"
      using True by (auto simp: good_format_def split: option.splits)
    from True show ?thesis unfolding step Cons.IH by (auto intro: less_trans)
  next
    case False
    then show ?thesis
      by (auto simp: good_format_def result_simps validate_kinds_iff split: option.splits)
  qed
qed simp

definition good_formats :: "FormatCapabilities list \<Rightarrow> bool" where
  "good_formats fs \<longleftrightarrow> length fs \<le> 4 \<and> list_all good_format fs \<and> sorted_wrt (<) (map format_version fs)"

lemma validate_formats_iff: "validate_formats fs = Inr u \<longleftrightarrow> good_formats fs"
  by (auto simp: validate_formats_def validate_format_list_iff good_formats_def)

section \<open>The codec is strict\<close>

lemma get_range_iff: "get_range b i (i + n) = Some v \<longleftrightarrow> reads b i (i + n) v \<and> length v = n"
  using reads_subslice [of "i + n" i n b v] by (auto simp: get_range_def)

lemma chunk_pairs:
  assumes "length e = 2 * n"
  shows "concat (map to_le16 (map (\<lambda>pair. from_le16 [pair ! 0, pair ! 1]) (as_chunks 2 e))) = e"
    and "length (map (\<lambda>pair. from_le16 [pair ! 0, pair ! 1]) (as_chunks 2 e)) = n"
proof -
  have "to_le16 (from_le16 [c ! 0, c ! 1]) = c" if "c \<in> set (as_chunks 2 e)" for c
    using as_chunks_length [OF that] by (cases c rule: list.exhaust; cases "tl c") auto
  then have "map (to_le16 \<circ> (\<lambda>pair. from_le16 [pair ! 0, pair ! 1])) (as_chunks 2 e) = as_chunks 2 e"
    by (intro map_idI) (simp only: comp_def)
  then show "concat (map to_le16 (map (\<lambda>pair. from_le16 [pair ! 0, pair ! 1]) (as_chunks 2 e))) = e"
    using assms concat_as_chunks [of 2 e] by simp
  show "length (map (\<lambda>pair. from_le16 [pair ! 0, pair ! 1]) (as_chunks 2 e)) = n"
    using length_as_chunks [of 2 e n] assms by simp
qed

lemma pair_chunks:
  "map (\<lambda>pair. from_le16 [pair ! 0, pair ! 1]) (as_chunks 2 (concat (map to_le16 ks))) = ks"
proof -
  have "[to_le16 k ! 0, to_le16 k ! 1] = to_le16 k" for k
    by (rule nth_equalityI) (auto simp: less_Suc_eq numeral_2_eq_2)
  then have "from_le16 [to_le16 k ! 0, to_le16 k ! Suc 0] = k" for k by simp
  then show ?thesis by (subst as_chunks_concat) (auto simp: comp_def)
qed

lemma length_concat_le16: "length (concat (map to_le16 ks)) = 2 * length ks"
  by (induction ks) auto

lemma decode_format_iff:
  "decode_format b i = Inr (f, j) \<longleftrightarrow>
     reads b i j (format_bytes f) \<and> format_version f \<noteq> 0 \<and> length (kinds f) \<le> 64"
proof
  assume "decode_format b i = Inr (f, j)"
  then obtain h e where h: "get_range b i (i + 2) = Some h"
    and e: "get_range b (i + 2) (i + 2 + unat (h ! 1) * 2) = Some e" and j: "j = i + 2 + unat (h ! 1) * 2"
    and ok: "h ! 0 \<noteq> 0" "unat (h ! 1) \<le> 64"
    and f: "f = \<lparr>format_version = h ! 0,
      kinds = map (\<lambda>pair. from_le16 [pair ! 0, pair ! 1]) (as_chunks 2 e)\<rparr>"
    by (auto simp: decode_format_def result_simps)
  from h have rh: "reads b i (i + 2) h" "length h = 2" by (simp_all only: get_range_iff)
  from e have re: "reads b (i + 2) j e" "length e = 2 * unat (h ! 1)"
    by (simp_all only: get_range_iff j mult.commute)
  have hh: "[h ! 0, h ! 1] = h" using rh(2) by (intro nth_equalityI) (auto simp: less_Suc_eq numeral_2_eq_2)
  note c = chunk_pairs [OF re(2)]
  have n: "length (kinds f) = unat (h ! 1)" using c(2) by (simp add: f)
  have "format_bytes f = [h ! 0, h ! 1] @ e" using c(1) n by (simp add: format_bytes_def f)
  then have "format_bytes f = h @ e" by (simp only: hh)
  then show "reads b i j (format_bytes f) \<and> format_version f \<noteq> 0 \<and> length (kinds f) \<le> 64"
    using reads_appendI [OF rh(1) re(1)] ok n by (simp add: f)
next
  let ?n = "length (kinds f)"
  assume a: "reads b i j (format_bytes f) \<and> format_version f \<noteq> 0 \<and> length (kinds f) \<le> 64"
  have "format_bytes f = [format_version f, word_of_nat ?n] @ concat (map to_le16 (kinds f))"
    by (simp add: format_bytes_def)
  with a have r: "reads b i (i + 2) [format_version f, word_of_nat ?n]"
    "reads b (i + 2) j (concat (map to_le16 (kinds f)))"
    using reads_append_len [of b i j "[format_version f, word_of_nat ?n]"] by (simp_all add: numeral_2_eq_2)
  then have j: "j = i + 2 + ?n * 2" by (simp add: reads_def length_concat_le16)
  have "get_range b i (i + 2) = Some [format_version f, word_of_nat ?n]"
    "get_range b (i + 2) (i + 2 + ?n * 2) = Some (concat (map to_le16 (kinds f)))"
    unfolding get_range_iff using r j by (simp_all add: length_concat_le16)
  with a j show "decode_format b i = Inr (f, j)"
    using pair_chunks [of "kinds f"] by (simp add: decode_format_def)
qed

lemma decode_formats_iff:
  "i \<le> length b \<Longrightarrow> decode_formats n b i = Inr (fs, j) \<longleftrightarrow>
     reads b i j (concat (map format_bytes fs)) \<and> length fs = n
     \<and> (\<forall>f\<in>set fs. format_version f \<noteq> 0 \<and> length (kinds f) \<le> 64)"
proof (induction n arbitrary: i fs)
  case 0
  then show ?case by (auto simp: reads_def)
next
  case (Suc n)
  show ?case
  proof (cases fs)
    case Nil
    then show ?thesis by (auto simp: result_simps)
  next
    case (Cons f gs)
    have "k \<le> length b" if "reads b i k z" for k z using that by (simp add: reads_def)
    with Suc.IH Cons show ?thesis
      by (auto simp: result_simps reads_append split_paired_Ex decode_format_iff)
  qed
qed

lemma capability_header:
  "8 \<le> length b \<and> is_capability_control b \<and> b ! 6 = 1 \<and> b ! 7 = n \<and> reads b 8 (length b) x \<longleftrightarrow>
     b = CAPABILITY_MAGIC @ [1] @ [n] @ x"
proof
  assume a: "8 \<le> length b \<and> is_capability_control b \<and> b ! 6 = 1 \<and> b ! 7 = n \<and> reads b 8 (length b) x"
  then obtain r where r: "b = CAPABILITY_MAGIC @ r" by (auto simp: is_capability_control_def starts_with_iff)
  have x: "x = drop 8 b" using a by (simp add: reads_to_end)
  obtain p q s where "r = p # q # s" using a r by (cases r; cases "tl r") auto
  with a r x show "b = CAPABILITY_MAGIC @ [1] @ [n] @ x" by simp
qed (simp add: is_capability_control_def starts_with_def reads_def)

lemma capability_iff: "capability_decode b = Inr c \<longleftrightarrow> capability_encode c = Inr b"
proof
  assume "capability_decode b = Inr c"
  then obtain fs where h: "8 \<le> length b" "is_capability_control b" "b ! 6 = 1"
    and d: "decode_formats (unat (b ! 7)) b 8 = Inr (fs, length b)" and v: "validate_formats fs = Inr ()"
    and c: "c = \<lparr>formats = fs\<rparr>"
    by (auto simp: capability_decode_def result_simps split: if_splits)
  from d h have r: "reads b 8 (length b) (concat (map format_bytes fs))" "length fs = unat (b ! 7)"
    by (simp_all add: decode_formats_iff)
  with h capability_header [of b "b ! 7"] have "b = CAPABILITY_MAGIC @ [1] @ [b ! 7] @ concat (map format_bytes fs)"
    by blast
  with v r show "capability_encode c = Inr b" by (simp add: capability_encode_def c)
next
  assume "capability_encode c = Inr b"
  then have v: "validate_formats (formats c) = Inr ()"
    and b: "b = CAPABILITY_MAGIC @ [1] @ [word_of_nat (length (formats c))] @ concat (map format_bytes (formats c))"
    by (auto simp: capability_encode_def result_simps)
  from v have g: "length (formats c) \<le> 4" "\<forall>f\<in>set (formats c). format_version f \<noteq> 0 \<and> length (kinds f) \<le> 64"
    by (auto simp: validate_formats_iff good_formats_def good_format_def list_all_iff)
  from b have h: "8 \<le> length b \<and> is_capability_control b \<and> b ! 6 = 1
      \<and> b ! 7 = word_of_nat (length (formats c)) \<and> reads b 8 (length b) (concat (map format_bytes (formats c)))"
    by (simp only: capability_header)
  with g have "decode_formats (unat (b ! 7)) b 8 = Inr (formats c, length b)" by (simp add: decode_formats_iff)
  with h g v show "capability_decode b = Inr c" by (simp add: capability_decode_def)
qed

interpretation capability: strict_codec "\<lambda>_. True" capability_encode "\<lambda>b. ok (capability_decode b)"
  by unfold_locales (simp_all add: ok_eq_Some capability_iff)

text \<open>
  Capability snapshots have one encoding: a control decodes to a snapshot exactly when that
  snapshot encodes to the control.
\<close>

theorem capability_canonical: "capability_decode b = Inr c \<longleftrightarrow> capability_encode c = Inr b"
  using capability.accepts_iff [of b c] by (simp add: ok_eq_Some)

text \<open>
  On an accepted snapshot the two nested binary searches answer exactly the membership question:
  the pair is supported if and only if some format entry of that version lists that kind.
\<close>

theorem supports_iff_advertised:
  assumes "capability_decode b = Inr c"
  shows "supports c ver kind \<longleftrightarrow> (\<exists>f\<in>set (formats c). format_version f = ver \<and> kind \<in> set (kinds f))"
proof -
  have g: "good_formats (formats c)"
    using assms by (auto simp: capability_iff capability_encode_def result_simps validate_formats_iff)
  then have s: "sorted_wrt (<) (map format_version (formats c))"
    and k: "\<And>f. f \<in> set (formats c) \<Longrightarrow> sorted_wrt (<) (kinds f)"
    by (auto simp: good_formats_def good_format_def list_all_iff)
  show ?thesis
  proof (cases "binary_search (map format_version (formats c)) ver")
    case None
    then have "ver \<notin> set (map format_version (formats c))" by (simp only: binary_search_None [OF s] not_False_eq_True)
    then show ?thesis by (auto simp: supports_def None)
  next
    case (Some i)
    then have i: "i < length (formats c)" "format_version (formats c ! i) = ver"
      using binary_search_Some [OF s] by auto
    have uniq: "f = formats c ! i" if f: "f \<in> set (formats c)" "format_version f = ver" for f
    proof -
      obtain j where j: "j < length (formats c)" "formats c ! j = f" using f by (auto simp: in_set_conv_nth)
      have "distinct (map format_version (formats c))" using s by (simp add: strict_sorted_iff)
      then have "j = i" using i j f by (simp add: distinct_conv_nth) metis
      with j show ?thesis by simp
    qed
    have mem: "formats c ! i \<in> set (formats c)" using i by simp
    have "supports c ver kind \<longleftrightarrow> kind \<in> set (kinds (formats c ! i))"
      using binary_search_None [OF k [OF mem]] by (simp add: supports_def Some)
    with uniq mem i show ?thesis by blast
  qed
qed

theorem supports_iff_advertised_witness:
  "supports \<lparr>formats = [\<lparr>format_version = 1, kinds = [1, 2, 5]\<rparr>, \<lparr>format_version = 255, kinds = [1]\<rparr>]\<rparr> 1 5"
proof -
  let ?c = "\<lparr>formats = [\<lparr>format_version = 1, kinds = [1, 2, 5]\<rparr>, \<lparr>format_version = 255, kinds = [1]\<rparr>]\<rparr>"
  obtain b where "capability_encode ?c = Inr b"
    by (simp add: capability_encode_def validate_formats_def result_simps word_le_nat_alt)
  then have "capability_decode b = Inr ?c" by (simp only: capability_iff)
  then show ?thesis by (subst supports_iff_advertised) auto
qed

end
