(* ===== verification/Attachment_Bulk.thy ===== *)
theory Attachment_Bulk
  imports Attachment
begin

text \<open>
  \<^verbatim>\<open>kult-protocol/src/attachment_bulk.rs\<close>: the transfer records of the receipt lane. A request names the
  missing chunks as ranges; the validation makes that description unique.
\<close>

section \<open>Constants and data\<close>

definition ATTACHMENT_BULK_MAGIC :: bytes where
  [simp]: "ATTACHMENT_BULK_MAGIC = [0x00, 0x00, 0xff, 0x4B, 0x41, 0x42]"
definition ATTACHMENT_BULK_VERSION :: u8 where [simp]: "ATTACHMENT_BULK_VERSION = 1"
definition ATTACHMENT_BULK_HEADER_LEN :: nat where [simp]: "ATTACHMENT_BULK_HEADER_LEN = 110"
definition MAX_ATTACHMENT_BULK_LEN :: nat where [simp]: "MAX_ATTACHMENT_BULK_LEN = 65535"
definition MAX_MISSING_RANGES :: nat where [simp]: "MAX_MISSING_RANGES = 64"
definition ATTACHMENT_SEALED_CHUNK_LEN :: nat where [simp]: "ATTACHMENT_SEALED_CHUNK_LEN = 49172"

datatype AttachmentScope = Pairwise | GroupScope

fun scope_code :: "AttachmentScope \<Rightarrow> u8" where
  "scope_code Pairwise = 0"
| "scope_code GroupScope = 1"

definition scope_decode :: "u8 \<Rightarrow> AttachmentScope option" where
  "scope_decode v = (if v = 0 then Some Pairwise else if v = 1 then Some GroupScope else None)"

record MissingRange =
  range_start :: u32
  range_count :: u32

datatype AttachmentReason =
  ReasonUser | ReasonUnsupported | ReasonQuota | ReasonLowStorage | ReasonPolicy | ReasonCorrupt

fun reason_code :: "AttachmentReason \<Rightarrow> u8" where
  "reason_code ReasonUser = 0"
| "reason_code ReasonUnsupported = 1"
| "reason_code ReasonQuota = 2"
| "reason_code ReasonLowStorage = 3"
| "reason_code ReasonPolicy = 4"
| "reason_code ReasonCorrupt = 5"

definition reason_decode :: "u8 \<Rightarrow> AttachmentReason result" where
  "reason_decode v =
     (if v = 0 then Inr ReasonUser else if v = 1 then Inr ReasonUnsupported
      else if v = 2 then Inr ReasonQuota else if v = 3 then Inr ReasonLowStorage
      else if v = 4 then Inr ReasonPolicy else if v = 5 then Inr ReasonCorrupt else Inl Malformed)"

datatype AttachmentBulkOperation =
    RequestMissing AttachmentRole "MissingRange list"
  | Chunk AttachmentRole u32 bytes
  | Complete AttachmentRole bytes
  | BulkCancel AttachmentReason
  | BulkReject AttachmentReason

fun operation_code :: "AttachmentBulkOperation \<Rightarrow> u8" where
  "operation_code (RequestMissing _ _) = 1"
| "operation_code (Chunk _ _ _) = 2"
| "operation_code (Complete _ _) = 3"
| "operation_code (BulkCancel _) = 4"
| "operation_code (BulkReject _) = 5"

record AttachmentBulkRecord =
  scope :: AttachmentScope
  scope_id :: bytes
  manifest_author :: bytes
  manifest_content_id :: bytes
  bulk_object_id :: bytes
  operation :: AttachmentBulkOperation

section \<open>Missing ranges\<close>

fun validate_ranges :: "u32 option \<Rightarrow> MissingRange list \<Rightarrow> u32 \<Rightarrow> unit result" where
  "validate_ranges previous_end [] n = Inr ()"
| "validate_ranges previous_end (r # rs) n =
     (if range_count r = 0 then Inl Malformed
      else try_then (ok_or (checked_add (range_start r) (range_count r)) Malformed) (\<lambda>e.
        if e > n \<or> (case previous_end of None \<Rightarrow> False | Some p \<Rightarrow> p \<ge> range_start r) then Inl Malformed
        else validate_ranges (Some e) rs n))"

definition validate_missing_ranges :: "MissingRange list \<Rightarrow> u32 \<Rightarrow> unit result" where
  "validate_missing_ranges ranges n =
     (if length ranges > MAX_MISSING_RANGES then Inl TooLarge else validate_ranges None ranges n)"

section \<open>Codec\<close>

definition range_bytes :: "MissingRange \<Rightarrow> bytes" where
  "range_bytes r = to_le32 (range_start r) @ to_le32 (range_count r)"

fun encode_operation :: "AttachmentBulkOperation \<Rightarrow> bytes result" where
  "encode_operation (RequestMissing rl ranges) =
     try_then (validate_missing_ranges ranges (- 1)) (\<lambda>_.
       Inr (role_code rl # word_of_nat (length ranges) # concat (map range_bytes ranges)))"
| "encode_operation (Chunk rl index sealed) =
     (if length sealed \<noteq> ATTACHMENT_SEALED_CHUNK_LEN then Inl Malformed
      else Inr (role_code rl # to_le32 index @ to_le32 (word_of_nat ATTACHMENT_SEALED_CHUNK_LEN) @ sealed))"
| "encode_operation (Complete rl hash) = Inr (role_code rl # hash)"
| "encode_operation (BulkCancel reason) = Inr [reason_code reason]"
| "encode_operation (BulkReject reason) = Inr [reason_code reason]"

definition decode_range :: "bytes \<Rightarrow> MissingRange" where
  "decode_range c = \<lparr>range_start = from_le32 (take 4 c), range_count = from_le32 (drop 4 c)\<rparr>"

definition decode_operation :: "u8 \<Rightarrow> bytes \<Rightarrow> AttachmentBulkOperation result" where
  "decode_operation code payload =
     (if code = 1 then
        (if length payload < 2 then Inl Malformed
         else try_then (role_decode (payload ! 0)) (\<lambda>rl.
           let count = unat (payload ! 1) in
           if count > MAX_MISSING_RANGES \<or> length payload \<noteq> 2 + count * 8 then Inl Malformed
           else
             let ranges = map decode_range (as_chunks 8 (drop 2 payload)) in
             try_then (validate_missing_ranges ranges (- 1)) (\<lambda>_. Inr (RequestMissing rl ranges))))
      else if code = 2 then
        (if length payload \<noteq> 9 + ATTACHMENT_SEALED_CHUNK_LEN then Inl Malformed
         else try_then (role_decode (payload ! 0)) (\<lambda>rl.
           let index = from_le32 (subslice 1 5 payload);
               sealed_len = unat (from_le32 (subslice 5 9 payload)) in
           if sealed_len \<noteq> ATTACHMENT_SEALED_CHUNK_LEN then Inl Malformed
           else Inr (Chunk rl index (drop 9 payload))))
      else if code = 3 then
        (if length payload \<noteq> 33 then Inl Malformed
         else try_then (role_decode (payload ! 0)) (\<lambda>rl. Inr (Complete rl (drop 1 payload))))
      else if code = 4 \<or> code = 5 then
        (if length payload \<noteq> 1 then Inl Malformed
         else try_then (reason_decode (payload ! 0)) (\<lambda>reason.
           Inr (if code = 4 then BulkCancel reason else BulkReject reason)))
      else Inl Malformed)"

definition is_attachment_bulk_record :: "bytes \<Rightarrow> bool" where
  "is_attachment_bulk_record b \<longleftrightarrow> starts_with b ATTACHMENT_BULK_MAGIC"

definition encode_attachment_bulk_record :: "AttachmentBulkRecord \<Rightarrow> bytes result" where
  "encode_attachment_bulk_record rec =
     try_then (encode_operation (operation rec)) (\<lambda>payload.
       if ATTACHMENT_BULK_HEADER_LEN + length payload > MAX_ATTACHMENT_BULK_LEN then Inl TooLarge
       else Inr (ATTACHMENT_BULK_MAGIC
              @ [ATTACHMENT_BULK_VERSION, operation_code (operation rec), 0, scope_code (scope rec)]
              @ scope_id rec @ manifest_author rec @ manifest_content_id rec @ bulk_object_id rec
              @ to_le32 (word_of_nat (length payload)) @ payload))"

definition decode_attachment_bulk_record :: "bytes \<Rightarrow> AttachmentBulkRecord decoded" where
  "decode_attachment_bulk_record b =
     (if \<not> is_attachment_bulk_record b \<or> length b < ATTACHMENT_BULK_HEADER_LEN
        \<or> length b > MAX_ATTACHMENT_BULK_LEN
      then DecodedMalformed
      else if unat (from_le32 (subslice 106 110 b)) \<noteq> length b - ATTACHMENT_BULK_HEADER_LEN
      then DecodedMalformed
      else (case scope_decode (b ! 9) of
          None \<Rightarrow> DecodedUnsupported
        | Some sc \<Rightarrow>
            if b ! 6 \<noteq> ATTACHMENT_BULK_VERSION \<or> b ! 8 \<noteq> 0 \<or> \<not> (1 \<le> b ! 7 \<and> b ! 7 \<le> 5)
            then DecodedUnsupported
            else (case decode_operation (b ! 7) (drop ATTACHMENT_BULK_HEADER_LEN b) of
                Inl _ \<Rightarrow> DecodedMalformed
              | Inr opn \<Rightarrow>
                  DecodedValue \<lparr>scope = sc, scope_id = subslice 10 42 b, manifest_author = subslice 42 74 b,
                    manifest_content_id = subslice 74 90 b, bulk_object_id = subslice 90 106 b,
                    operation = opn\<rparr>)))"

section \<open>Ranges denote sets of chunk indices\<close>

definition range_indices :: "MissingRange \<Rightarrow> nat set" where
  "range_indices r = {unat (range_start r) ..< unat (range_start r) + unat (range_count r)}"

definition missing_indices :: "MissingRange list \<Rightarrow> nat set" where
  "missing_indices rs = (\<Union>r\<in>set rs. range_indices r)"

lemma missing_indices_simps [simp]:
  "missing_indices [] = {}" "missing_indices (r # rs) = range_indices r \<union> missing_indices rs"
  by (simp_all add: missing_indices_def)

lemma validate_ranges_Cons:
  assumes "validate_ranges prev (r # rs) n = Inr u"
  obtains e where "unat e = unat (range_start r) + unat (range_count r)" "0 < unat (range_count r)"
    "unat e \<le> unat n" "validate_ranges (Some e) rs n = Inr u"
    "\<And>p. prev = Some p \<Longrightarrow> unat p < unat (range_start r)"
proof -
  from assms obtain e where e: "checked_add (range_start r) (range_count r) = Some e" "range_count r \<noteq> 0"
    "\<not> e > n" "\<not> (case prev of None \<Rightarrow> False | Some p \<Rightarrow> p \<ge> range_start r)"
    "validate_ranges (Some e) rs n = Inr u"
    by (auto simp: result_simps split: if_splits)
  show thesis
  proof (rule that)
    show "unat e = unat (range_start r) + unat (range_count r)" using e(1) by (rule checked_add_Some)
    show "0 < unat (range_count r)" using e(2) by (simp add: unat_gt_0)
    show "unat e \<le> unat n" using e(3) by (simp add: word_le_nat_alt [symmetric] not_less)
    show "validate_ranges (Some e) rs n = Inr u" by (rule e(5))
    show "\<And>p. prev = Some p \<Longrightarrow> unat p < unat (range_start r)"
      using e(4) by (simp add: word_less_nat_alt [symmetric] not_le)
  qed
qed

lemma validated_indices:
  "validate_ranges prev rs n = Inr u \<Longrightarrow>
     missing_indices rs \<subseteq> {..<unat n} \<and> (\<forall>p. prev = Some p \<longrightarrow> (\<forall>i\<in>missing_indices rs. unat p < i))"
proof (induction rs arbitrary: prev)
  case (Cons r rs)
  from Cons.prems obtain e where e: "unat e = unat (range_start r) + unat (range_count r)"
    "0 < unat (range_count r)" "unat e \<le> unat n" "validate_ranges (Some e) rs n = Inr u"
    and p: "\<And>p. prev = Some p \<Longrightarrow> unat p < unat (range_start r)"
    by (rule validate_ranges_Cons) blast
  from Cons.IH [OF e(4)] have ih: "missing_indices rs \<subseteq> {..<unat n}" "\<forall>i\<in>missing_indices rs. unat e < i" by auto
  have "range_indices r \<subseteq> {..<unat n}" using e by (auto simp: range_indices_def)
  moreover have "\<forall>i\<in>missing_indices (r # rs). unat p < i" if "prev = Some p" for p
    using p [OF that] ih(2) e by (fastforce simp: range_indices_def)
  ultimately show ?case using ih by auto
qed simp

lemma ranges_unique:
  "validate_ranges prev rs n = Inr () \<Longrightarrow> validate_ranges prev' rs' n' = Inr () \<Longrightarrow>
     missing_indices rs = missing_indices rs' \<Longrightarrow> rs = rs'"
proof (induction rs arbitrary: rs' prev prev')
  case Nil
  show ?case
  proof (cases rs')
    case (Cons r t)
    then have "validate_ranges prev' (r # t) n' = Inr ()" using Nil by simp
    then have "0 < unat (range_count r)" by (rule validate_ranges_Cons)
    then have "unat (range_start r) \<in> missing_indices rs'" by (simp add: Cons range_indices_def)
    then show ?thesis using Nil.prems(3) by simp
  qed simp
next
  case (Cons r rs)
  from Cons.prems(1) obtain e where e: "unat e = unat (range_start r) + unat (range_count r)"
    "0 < unat (range_count r)" "validate_ranges (Some e) rs n = Inr ()"
    by (rule validate_ranges_Cons) blast
  have after: "\<forall>i\<in>missing_indices rs. unat e < i" using validated_indices [OF e(3)] by auto
  have "rs' \<noteq> []" using Cons.prems(3) e by (auto simp: range_indices_def)
  then obtain r' t where rs': "rs' = r' # t" by (cases rs') auto
  from Cons.prems(2) obtain e' where e': "unat e' = unat (range_start r') + unat (range_count r')"
    "0 < unat (range_count r')" "validate_ranges (Some e') t n' = Inr ()"
    unfolding rs' by (rule validate_ranges_Cons) blast
  have after': "\<forall>i\<in>missing_indices t. unat e' < i" using validated_indices [OF e'(3)] by auto
  have eq: "range_indices r \<union> missing_indices rs = range_indices r' \<union> missing_indices t"
    using Cons.prems(3) by (simp add: rs')
  have start: "unat (range_start r) = unat (range_start r')"
  proof -
    have "unat (range_start r) \<in> range_indices r' \<union> missing_indices t"
      unfolding eq [symmetric] using e by (simp add: range_indices_def)
    moreover have "unat (range_start r') \<in> range_indices r \<union> missing_indices rs"
      unfolding eq using e' by (simp add: range_indices_def)
    ultimately show ?thesis using after after' e e' by (fastforce simp: range_indices_def)
  qed
  have "\<not> unat e < unat e'"
  proof
    assume lt: "unat e < unat e'"
    then have "unat e \<in> range_indices r'" using start e e' by (simp add: range_indices_def)
    with eq after e show False by (auto simp: range_indices_def)
  qed
  moreover have "\<not> unat e' < unat e"
  proof
    assume lt: "unat e' < unat e"
    then have "unat e' \<in> range_indices r" using start e e' by (simp add: range_indices_def)
    with eq after' e' show False by (auto simp: range_indices_def)
  qed
  ultimately have ee: "unat e = unat e'" by simp
  have rr: "r = r'" using start ee e(1) e'(1) by (cases r; cases r') (simp add: word_unat_eq_iff)
  have "missing_indices rs = (range_indices r \<union> missing_indices rs) - {..unat e}"
    using after e by (force simp: range_indices_def)
  also have "\<dots> = missing_indices t"
    unfolding eq using after' e' ee by (force simp: range_indices_def)
  finally have "rs = t" using Cons.IH [OF e(3) e'(3)] by simp
  with rr show ?case by (simp add: rs')
qed

section \<open>The record codec is strict\<close>

fun wf_operation :: "AttachmentBulkOperation \<Rightarrow> bool" where
  "wf_operation (Complete _ hash) \<longleftrightarrow> length hash = 32"
| "wf_operation _ \<longleftrightarrow> True"

definition wf_record :: "AttachmentBulkRecord \<Rightarrow> bool" where
  "wf_record rec \<longleftrightarrow> length (scope_id rec) = 32 \<and> length (manifest_author rec) = 32
     \<and> length (manifest_content_id rec) = 16 \<and> length (bulk_object_id rec) = 16 \<and> wf_operation (operation rec)"

lemma bulk_role_iff: "role_decode v = Inr rl \<longleftrightarrow> v = role_code rl"
  by (cases rl) (auto simp: role_decode_def)

lemma reason_iff: "reason_decode v = Inr r \<longleftrightarrow> v = reason_code r"
  by (cases r) (auto simp: reason_decode_def)

lemma scope_iff: "scope_decode v = Some s \<longleftrightarrow> v = scope_code s"
  by (cases s) (auto simp: scope_decode_def)

lemma range_bytes_decode: "length c = 8 \<Longrightarrow> range_bytes (decode_range c) = c"
  by (simp add: range_bytes_def decode_range_def)

lemma decode_range_bytes: "decode_range (range_bytes r) = r"
  by (simp add: range_bytes_def decode_range_def)

lemma range_chunks:
  assumes "length e = n * 8"
  shows "concat (map range_bytes (map decode_range (as_chunks 8 e))) = e"
    and "length (as_chunks 8 e) = n"
proof -
  have "map (range_bytes \<circ> decode_range) (as_chunks 8 e) = as_chunks 8 e"
    by (intro map_idI) (simp add: range_bytes_decode as_chunks_length)
  then show "concat (map range_bytes (map decode_range (as_chunks 8 e))) = e"
    using assms concat_as_chunks [of 8 e] by simp
  show "length (as_chunks 8 e) = n" using assms length_as_chunks [of 8 e n] by simp
qed

lemma chunks_ranges: "map decode_range (as_chunks 8 (concat (map range_bytes rs))) = rs"
  by (subst as_chunks_concat) (auto simp: range_bytes_def comp_def decode_range_bytes [unfolded range_bytes_def])

lemma length_range_bytes: "length (concat (map range_bytes rs)) = 8 * length rs"
  by (induction rs) (auto simp: range_bytes_def)

lemma request_iff:
  "decode_operation 1 p = Inr opn \<longleftrightarrow>
     (\<exists>rl rs. opn = RequestMissing rl rs \<and> encode_operation opn = Inr p)"
proof
  assume "decode_operation 1 p = Inr opn"
  then obtain rl where len: "\<not> length p < 2" "length p = 2 + unat (p ! 1) * 8" "p ! 0 = role_code rl"
    and v: "validate_missing_ranges (map decode_range (as_chunks 8 (drop 2 p))) (- 1) = Inr ()"
    and o: "opn = RequestMissing rl (map decode_range (as_chunks 8 (drop 2 p)))"
    by (auto simp: decode_operation_def result_simps bulk_role_iff split: if_splits)
  have "length (drop 2 p) = unat (p ! 1) * 8" using len by simp
  note c = range_chunks [OF this]
  have n: "word_of_nat (length (map decode_range (as_chunks 8 (drop 2 p)))) = p ! 1" by (simp add: c(2))
  have "encode_operation opn = Inr (p ! 0 # p ! 1 # drop 2 p)" using v len(3) n by (simp add: o c(1) del: map_map)
  also have "p ! 0 # p ! 1 # drop 2 p = p" using len(1) by (cases p; cases "tl p") auto
  finally show "\<exists>rl rs. opn = RequestMissing rl rs \<and> encode_operation opn = Inr p" using o by blast
next
  assume "\<exists>rl rs. opn = RequestMissing rl rs \<and> encode_operation opn = Inr p"
  then obtain rl rs where o: "opn = RequestMissing rl rs" and v: "validate_missing_ranges rs (- 1) = Inr ()"
    and p: "p = role_code rl # word_of_nat (length rs) # concat (map range_bytes rs)"
    by (auto simp: result_simps)
  have "length rs \<le> 64" using v by (auto simp: validate_missing_ranges_def split: if_splits)
  moreover have "role_decode (role_code rl) = Inr rl" by (simp add: bulk_role_iff)
  ultimately show "decode_operation 1 p = Inr opn"
    using v by (simp add: decode_operation_def p o length_range_bytes chunks_ranges)
qed

lemma chunk_iff:
  "decode_operation 2 p = Inr opn \<longleftrightarrow> (\<exists>rl i c. opn = Chunk rl i c \<and> encode_operation opn = Inr p)"
proof
  assume "decode_operation 2 p = Inr opn"
  then obtain rl where len: "length p = 49181" "p ! 0 = role_code rl"
    and n: "unat (from_le32 (subslice 5 9 p)) = 49172"
    and o: "opn = Chunk rl (from_le32 (subslice 1 5 p)) (drop 9 p)"
    by (auto simp: decode_operation_def result_simps bulk_role_iff split: if_splits)
  have w: "from_le32 (subslice 5 9 p) = 49172"
    using arg_cong [OF n, of "word_of_nat :: nat \<Rightarrow> u32"] by simp
  have "p \<noteq> []" using len by auto
  have "encode_operation opn = Inr (p ! 0 # subslice 1 5 p @ subslice 5 9 p @ drop 9 p)"
    using len by (simp add: o w [symmetric])
  also have "\<dots> = Inr p" using len(1) \<open>p \<noteq> []\<close> by (simp add: peel_simps)
  finally show "\<exists>rl i c. opn = Chunk rl i c \<and> encode_operation opn = Inr p" using o by blast
next
  assume "\<exists>rl i c. opn = Chunk rl i c \<and> encode_operation opn = Inr p"
  then obtain rl i c where o: "opn = Chunk rl i c" and l: "length c = 49172"
    and p: "p = role_code rl # to_le32 i @ to_le32 49172 @ c"
    by (auto split: if_splits)
  have "role_decode (role_code rl) = Inr rl" by (simp add: bulk_role_iff)
  then show "decode_operation 2 p = Inr opn"
    using l by (simp add: decode_operation_def p o wire_simps)
qed

lemma operation_iff:
  "decode_operation code p = Inr opn \<longleftrightarrow>
     code = operation_code opn \<and> wf_operation opn \<and> encode_operation opn = Inr p"
proof -
  have one: "length p = Suc 0 \<and> p ! 0 = x \<longleftrightarrow> p = [x]" for x by (cases p) auto
  have hash: "length p = 33 \<and> p ! 0 = x \<and> drop (Suc 0) p = h \<longleftrightarrow> p = x # h \<and> length h = 32" for x h
    by (cases p) auto
  consider "code = 1" | "code = 2" | "code = 3" | "code = 4" | "code = 5"
    | "code \<noteq> 1" "code \<noteq> 2" "code \<noteq> 3" "code \<noteq> 4" "code \<noteq> 5" by blast
  then show ?thesis
  proof cases
    case 1
    then show ?thesis using request_iff [of p opn] by (cases opn) auto
  next
    case 2
    then show ?thesis using chunk_iff [of p opn] by (cases opn) auto
  next
    case 3
    then show ?thesis using hash
      by (cases opn) (auto simp: decode_operation_def result_simps bulk_role_iff)
  next
    case 4
    then show ?thesis using one
      by (cases opn) (auto simp: decode_operation_def result_simps reason_iff)
  next
    case 5
    then show ?thesis using one
      by (cases opn) (auto simp: decode_operation_def result_simps reason_iff)
  next
    case 6
    then show ?thesis by (cases opn) (auto simp: decode_operation_def)
  qed
qed

definition bulk_frame :: "AttachmentBulkRecord \<Rightarrow> bytes \<Rightarrow> bytes" where
  "bulk_frame rec payload =
     ATTACHMENT_BULK_MAGIC
     @ [ATTACHMENT_BULK_VERSION, operation_code (operation rec), 0, scope_code (scope rec)]
     @ scope_id rec @ manifest_author rec @ manifest_content_id rec @ bulk_object_id rec
     @ to_le32 (word_of_nat (length payload)) @ payload"

lemma bulk_frame_fields:
  assumes "wf_record rec" "length payload \<le> 65425"
  shows "is_attachment_bulk_record (bulk_frame rec payload)"
    and "length (bulk_frame rec payload) = 110 + length payload"
    and "unat (from_le32 (subslice 106 110 (bulk_frame rec payload))) = length payload"
    and "bulk_frame rec payload ! 6 = 1" "bulk_frame rec payload ! 7 = operation_code (operation rec)"
    and "bulk_frame rec payload ! 8 = 0" "bulk_frame rec payload ! 9 = scope_code (scope rec)"
    and "subslice 10 42 (bulk_frame rec payload) = scope_id rec"
    and "subslice 42 74 (bulk_frame rec payload) = manifest_author rec"
    and "subslice 74 90 (bulk_frame rec payload) = manifest_content_id rec"
    and "subslice 90 106 (bulk_frame rec payload) = bulk_object_id rec"
    and "drop 110 (bulk_frame rec payload) = payload"
  using assms
  by (simp_all add: bulk_frame_def wf_record_def is_attachment_bulk_record_def starts_with_def wire_simps)

lemma operation_code_range: "1 \<le> operation_code opn \<and> operation_code opn \<le> 5"
  by (cases opn) (simp_all add: word_le_nat_alt)

lemma bulk_encode_iff:
  "encode_attachment_bulk_record rec = Inr b \<longleftrightarrow>
     (\<exists>p. encode_operation (operation rec) = Inr p \<and> length p \<le> 65425 \<and> b = bulk_frame rec p)"
  by (auto simp: encode_attachment_bulk_record_def result_simps bulk_frame_def)

lemma bulk_decode_encode:
  assumes "wf_record rec" "encode_attachment_bulk_record rec = Inr b"
  shows "decode_attachment_bulk_record b = DecodedValue rec"
proof -
  from assms(2) obtain p where p: "encode_operation (operation rec) = Inr p" "length p \<le> 65425"
    and b: "b = bulk_frame rec p"
    by (auto simp: bulk_encode_iff)
  have "scope_decode (scope_code (scope rec)) = Some (scope rec)" by (simp add: scope_iff)
  moreover have "decode_operation (operation_code (operation rec)) p = Inr (operation rec)"
    using p assms(1) by (simp add: operation_iff wf_record_def)
  ultimately show ?thesis
    using bulk_frame_fields [OF assms(1) p(2)] p(2) operation_code_range [of "operation rec"]
    by (simp add: decode_attachment_bulk_record_def b)
qed

lemma bulk_encode_decode:
  assumes "decode_attachment_bulk_record b = DecodedValue rec"
  shows "encode_attachment_bulk_record rec = Inr b \<and> wf_record rec"
proof -
  from assms obtain opn sc where m: "is_attachment_bulk_record b" and l: "110 \<le> length b" "length b \<le> 65535"
    and n: "unat (from_le32 (subslice 106 110 b)) = length b - 110"
    and h: "b ! 6 = 1" "b ! 8 = 0" "b ! 9 = scope_code sc"
    and o: "decode_operation (b ! 7) (drop 110 b) = Inr opn"
    and r: "rec = \<lparr>scope = sc, scope_id = subslice 10 42 b, manifest_author = subslice 42 74 b,
      manifest_content_id = subslice 74 90 b, bulk_object_id = subslice 90 106 b, operation = opn\<rparr>"
    by (auto simp: decode_attachment_bulk_record_def scope_iff split: if_splits option.splits sum.splits)
  from o have oi: "b ! 7 = operation_code opn" "wf_operation opn" "encode_operation opn = Inr (drop 110 b)"
    by (simp_all add: operation_iff)
  have w: "word_of_nat (length b - 110) = from_le32 (subslice 106 110 b)" by (simp add: n [symmetric])
  obtain t where t: "b = ATTACHMENT_BULK_MAGIC @ t"
    using m by (auto simp: is_attachment_bulk_record_def starts_with_iff)
  have "bulk_frame rec (drop 110 b) = ATTACHMENT_BULK_MAGIC @ b ! 6 # b ! 7 # b ! 8 # b ! 9 # subslice 10 42 b
      @ subslice 42 74 b @ subslice 74 90 b @ subslice 90 106 b @ subslice 106 110 b @ drop 110 b"
    using h oi(1) l by (simp add: bulk_frame_def r w)
  also have "\<dots> = ATTACHMENT_BULK_MAGIC @ drop 6 b" using l by (simp add: peel_simps)
  also have "\<dots> = b" by (simp add: t)
  finally have "b = bulk_frame rec (drop 110 b)" ..
  moreover have "operation rec = opn" by (simp add: r)
  ultimately have "encode_attachment_bulk_record rec = Inr b"
    using oi l unfolding bulk_encode_iff by (intro exI [of _ "drop 110 b"]) simp
  then show ?thesis using l oi by (simp add: wf_record_def r)
qed

interpretation bulk_record: strict_codec wf_record encode_attachment_bulk_record
    "\<lambda>b. decoded_value (decode_attachment_bulk_record b)"
  by unfold_locales (auto simp: decoded_value_eq_Some dest: bulk_encode_decode intro: bulk_decode_encode)

text \<open>
  Transfer records have one encoding: the decoder accepts exactly the encodings of well-formed
  records of the five operations.
\<close>

theorem bulk_record_canonical:
  "decode_attachment_bulk_record b = DecodedValue rec \<longleftrightarrow>
     wf_record rec \<and> encode_attachment_bulk_record rec = Inr b"
  using bulk_record.accepts_iff [of b rec] by (simp add: decoded_value_eq_Some)

text \<open>
  A validated list of missing ranges names only chunks of the object, and it is the only validated
  list that names this set of chunks: two requests for the same chunks are the same request.
\<close>

theorem missing_ranges_canonical:
  assumes "validate_missing_ranges rs n = Inr ()"
  shows "missing_indices rs \<subseteq> {..<unat n}
    \<and> (\<forall>rs' m. validate_missing_ranges rs' m = Inr () \<and> missing_indices rs' = missing_indices rs \<longrightarrow> rs' = rs)"
proof -
  have v: "validate_ranges None qs m = Inr ()" if "validate_missing_ranges qs m = Inr ()" for qs m
    using that by (simp add: validate_missing_ranges_def split: if_splits)
  show ?thesis using validated_indices [OF v [OF assms]] ranges_unique v v [OF assms] by blast
qed

theorem missing_ranges_canonical_witness:
  "missing_indices [\<lparr>range_start = 0, range_count = 2\<rparr>, \<lparr>range_start = 3, range_count = 1\<rparr>] \<subseteq> {..<5}"
proof -
  have "validate_missing_ranges [\<lparr>range_start = 0, range_count = 2\<rparr>, \<lparr>range_start = 3, range_count = 1\<rparr>] 5
      = Inr ()"
    by (simp add: validate_missing_ranges_def checked_add_def word_le_nat_alt word_less_nat_alt)
  from missing_ranges_canonical [OF this] show ?thesis by simp
qed

end
