(* ===== verification/Crypto_Base.thy ===== *)
theory Crypto_Base
  imports Komms_Prelude "HOL-Library.Multiset"
begin

text \<open>
  The parts of \<^verbatim>\<open>kult-crypto\<close> the modelled code calls: its errors (\<^verbatim>\<open>error.rs\<close>), identities and
  domain-separated signatures (\<^verbatim>\<open>identity.rs\<close>), and sealed buffers (\<^verbatim>\<open>util.rs\<close>, \<^verbatim>\<open>sealed.rs\<close>).

  Ed25519, X25519, SHA-256, HMAC, HKDF and XChaCha20-Poly1305 are third-party crates. They enter as the
  fields of a record of functions, and \<open>sound_signatures\<close>, \<open>sound_aead\<close> and \<open>sound_dh\<close> state what their
  documentation promises: a signature made with a secret verifies under its public key, decryption
  inverts encryption, and both ends of a key agreement compute the same secret.
\<close>

section \<open>Errors and primitives\<close>

datatype CryptoError =
    InvalidSignature
  | InvalidBundle
  | InvalidMessage
  | HeaderAuthentication
  | MessageAuthentication
  | TooManySkipped
  | InvalidKey
  | InvalidAddress
  | HandshakeMismatch
  | Serialization
  | KdfParams
  | InvalidMnemonic

type_synonym 'a cresult = "CryptoError + 'a"

record prims =
  vk_from_bytes :: "bytes \<Rightarrow> bool" \<comment> \<open>\<^verbatim>\<open>VerifyingKey::from_bytes\<close> succeeds\<close>
  ed_verify :: "bytes \<Rightarrow> bytes \<Rightarrow> bytes \<Rightarrow> bool"
  ed_sign :: "bytes \<Rightarrow> bytes \<Rightarrow> bytes"
  ed_public :: "bytes \<Rightarrow> bytes"
  x_public :: "bytes \<Rightarrow> bytes"
  x_dh :: "bytes \<Rightarrow> bytes \<Rightarrow> bytes" \<comment> \<open>secret, peer public key\<close>
  sha256 :: "bytes \<Rightarrow> bytes"
  hmac :: "bytes \<Rightarrow> bytes \<Rightarrow> bytes"
  hkdf :: "bytes option \<Rightarrow> bytes \<Rightarrow> bytes \<Rightarrow> nat \<Rightarrow> bytes" \<comment> \<open>salt, input key, info, output length\<close>
  aead_encrypt :: "bytes \<Rightarrow> bytes \<Rightarrow> bytes \<Rightarrow> bytes \<Rightarrow> bytes" \<comment> \<open>key, nonce, associated data, plaintext\<close>
  aead_decrypt :: "bytes \<Rightarrow> bytes \<Rightarrow> bytes \<Rightarrow> bytes \<Rightarrow> bytes option"

definition sound_signatures :: "prims \<Rightarrow> bool" where
  "sound_signatures C \<longleftrightarrow>
     (\<forall>sk. vk_from_bytes C (ed_public C sk) \<and> (\<forall>m. ed_verify C (ed_public C sk) m (ed_sign C sk m)))"

definition sound_aead :: "prims \<Rightarrow> bool" where
  "sound_aead C \<longleftrightarrow>
     (\<forall>k n ad p. aead_decrypt C k n ad (aead_encrypt C k n ad p) = Some p
        \<and> length (aead_encrypt C k n ad p) = length p + 16)"

definition sound_dh :: "prims \<Rightarrow> bool" where
  "sound_dh C \<longleftrightarrow>
     (\<forall>a b. x_dh C a (x_public C b) = x_dh C b (x_public C a)) \<and> (\<forall>a. length (x_public C a) = 32)"

section \<open>Signing domains\<close>

definition CROSS_SIGN_DOMAIN :: bytes where "CROSS_SIGN_DOMAIN = ascii ''Komms-cross-sign-v1''"
definition GROUP_AUTHORITY_STATE_DOMAIN :: bytes where
  "GROUP_AUTHORITY_STATE_DOMAIN = ascii ''Komms-group-authority-state-v1''"
definition GROUP_OWNER_TRANSFER_DOMAIN :: bytes where
  "GROUP_OWNER_TRANSFER_DOMAIN = ascii ''Komms-group-owner-transfer-v1''"
definition GROUP_ADMIN_REQUEST_DOMAIN :: bytes where
  "GROUP_ADMIN_REQUEST_DOMAIN = ascii ''Komms-group-admin-request-v1''"
definition GROUP_POLL_MODERATION_DOMAIN :: bytes where
  "GROUP_POLL_MODERATION_DOMAIN = ascii ''Komms-group-poll-moderation-v1''"
definition DEVICE_CERTIFICATE_DOMAIN :: bytes where
  "DEVICE_CERTIFICATE_DOMAIN = ascii ''Komms-device-certificate-v1''"
definition DEVICE_MANIFEST_DOMAIN :: bytes where
  "DEVICE_MANIFEST_DOMAIN = ascii ''Komms-device-manifest-v1''"
definition DEVICE_LINK_OFFER_DOMAIN :: bytes where
  "DEVICE_LINK_OFFER_DOMAIN = ascii ''Komms-device-link-offer-v1''"
definition DEVICE_LINK_RESPONSE_DOMAIN :: bytes where
  "DEVICE_LINK_RESPONSE_DOMAIN = ascii ''Komms-device-link-response-v1''"
definition DEVICE_SYNC_EVENT_DOMAIN :: bytes where
  "DEVICE_SYNC_EVENT_DOMAIN = ascii ''Komms-device-sync-event-v1''"

text \<open>
  The domains of the other modules that sign with an identity: \<^verbatim>\<open>device_authority.rs\<close>, \<^verbatim>\<open>discovery.rs\<close>,
  \<^verbatim>\<open>prekeys.rs\<close>, \<^verbatim>\<open>device_link_authority.rs\<close>, \<^verbatim>\<open>admission.rs\<close> and the provider directory.
\<close>

definition AUTHORITY_CERTIFICATE_DOMAIN :: bytes where
  "AUTHORITY_CERTIFICATE_DOMAIN = ascii ''Komms-device-authority-certificate-v2''"
definition AUTHORITY_TRANSITION_DOMAIN :: bytes where
  "AUTHORITY_TRANSITION_DOMAIN = ascii ''Komms-device-authority-transition-v2''"
definition ROOT_TRANSITION_DOMAIN :: bytes where
  "ROOT_TRANSITION_DOMAIN = ascii ''Komms-device-authority-root-transition-v2''"
definition RECORD_SIGNATURE_DOMAIN :: bytes where
  "RECORD_SIGNATURE_DOMAIN = ascii ''Komms-DHT-Record-Signature-v2''"
definition SPK_DOMAIN :: bytes where
  "SPK_DOMAIN = ascii ''Komms-spk-v1''"
definition PQSPK_DOMAIN :: bytes where
  "PQSPK_DOMAIN = ascii ''Komms-pqspk-v1''"
definition PREKEY_BUNDLE_DOMAIN :: bytes where
  "PREKEY_BUNDLE_DOMAIN = ascii ''Komms-bundle-v1''"
definition LINK_OFFER_V2_DOMAIN :: bytes where
  "LINK_OFFER_V2_DOMAIN = ascii ''Komms-device-link-offer-v2''"
definition LINK_RESPONSE_V2_DOMAIN :: bytes where
  "LINK_RESPONSE_V2_DOMAIN = ascii ''Komms-device-link-response-v2''"
definition PAIRING_DOMAIN :: bytes where
  "PAIRING_DOMAIN = ascii ''Komms-connect-pairing-bundle-v2''"
definition DESCRIPTOR_DOMAIN :: bytes where
  "DESCRIPTOR_DOMAIN = ascii ''Komms-admission-descriptor-v1''"
definition DIRECTORY_SIGNATURE_DOMAIN :: bytes where
  "DIRECTORY_SIGNATURE_DOMAIN = ascii ''Komms-Provider-Directory-v1''"

section \<open>Identities\<close>

record Identity =
  signing :: bytes
  agreement :: bytes

record IdentityPublic =
  id_ed :: bytes
  id_x :: bytes
  cross_sig :: bytes

definition identity_public :: "prims \<Rightarrow> Identity \<Rightarrow> IdentityPublic" where
  "identity_public C i =
     (let x_pub = x_public C (agreement i) in
      \<lparr>id_ed = ed_public C (signing i), id_x = x_pub,
       cross_sig = ed_sign C (signing i) (CROSS_SIGN_DOMAIN @ x_pub)\<rparr>)"

definition sign_domain :: "prims \<Rightarrow> Identity \<Rightarrow> bytes \<Rightarrow> bytes \<Rightarrow> bytes" where
  "sign_domain C i domain msg = ed_sign C (signing i) (domain @ msg)"

definition sign_group_authority_state :: "prims \<Rightarrow> Identity \<Rightarrow> bytes \<Rightarrow> bytes" where
  "sign_group_authority_state C i = sign_domain C i GROUP_AUTHORITY_STATE_DOMAIN"
definition sign_group_owner_transfer :: "prims \<Rightarrow> Identity \<Rightarrow> bytes \<Rightarrow> bytes" where
  "sign_group_owner_transfer C i = sign_domain C i GROUP_OWNER_TRANSFER_DOMAIN"
definition sign_group_admin_request :: "prims \<Rightarrow> Identity \<Rightarrow> bytes \<Rightarrow> bytes" where
  "sign_group_admin_request C i = sign_domain C i GROUP_ADMIN_REQUEST_DOMAIN"
definition sign_group_poll_moderation :: "prims \<Rightarrow> Identity \<Rightarrow> bytes \<Rightarrow> bytes" where
  "sign_group_poll_moderation C i = sign_domain C i GROUP_POLL_MODERATION_DOMAIN"
definition sign_device_certificate :: "prims \<Rightarrow> Identity \<Rightarrow> bytes \<Rightarrow> bytes" where
  "sign_device_certificate C i = sign_domain C i DEVICE_CERTIFICATE_DOMAIN"
definition sign_device_manifest :: "prims \<Rightarrow> Identity \<Rightarrow> bytes \<Rightarrow> bytes" where
  "sign_device_manifest C i = sign_domain C i DEVICE_MANIFEST_DOMAIN"
definition sign_device_link_offer :: "prims \<Rightarrow> Identity \<Rightarrow> bytes \<Rightarrow> bytes" where
  "sign_device_link_offer C i = sign_domain C i DEVICE_LINK_OFFER_DOMAIN"
definition sign_device_link_response :: "prims \<Rightarrow> Identity \<Rightarrow> bytes \<Rightarrow> bytes" where
  "sign_device_link_response C i = sign_domain C i DEVICE_LINK_RESPONSE_DOMAIN"
definition sign_device_sync_event :: "prims \<Rightarrow> Identity \<Rightarrow> bytes \<Rightarrow> bytes" where
  "sign_device_sync_event C i = sign_domain C i DEVICE_SYNC_EVENT_DOMAIN"

definition identity_verify :: "prims \<Rightarrow> IdentityPublic \<Rightarrow> unit cresult" where
  "identity_verify C p =
     (if \<not> vk_from_bytes C (id_ed p) then Inl InvalidKey
      else if ed_verify C (id_ed p) (CROSS_SIGN_DOMAIN @ id_x p) (cross_sig p) then Inr ()
      else Inl InvalidSignature)"

definition verify_domain :: "prims \<Rightarrow> IdentityPublic \<Rightarrow> bytes \<Rightarrow> bytes \<Rightarrow> bytes \<Rightarrow> unit cresult" where
  "verify_domain C p domain msg sig =
     (if \<not> vk_from_bytes C (id_ed p) then Inl InvalidKey
      else if ed_verify C (id_ed p) (domain @ msg) sig then Inr () else Inl InvalidSignature)"

definition verify_peer_domain :: "prims \<Rightarrow> bytes \<Rightarrow> bytes \<Rightarrow> bytes \<Rightarrow> bytes \<Rightarrow> unit cresult" where
  "verify_peer_domain C peer domain message signature =
     (if \<not> vk_from_bytes C peer then Inl InvalidKey
      else if ed_verify C peer (domain @ message) signature then Inr () else Inl InvalidSignature)"

definition verify_group_authority_state :: "prims \<Rightarrow> IdentityPublic \<Rightarrow> bytes \<Rightarrow> bytes \<Rightarrow> unit cresult" where
  "verify_group_authority_state C p = verify_domain C p GROUP_AUTHORITY_STATE_DOMAIN"
definition verify_group_owner_transfer :: "prims \<Rightarrow> IdentityPublic \<Rightarrow> bytes \<Rightarrow> bytes \<Rightarrow> unit cresult" where
  "verify_group_owner_transfer C p = verify_domain C p GROUP_OWNER_TRANSFER_DOMAIN"
definition verify_group_admin_request :: "prims \<Rightarrow> IdentityPublic \<Rightarrow> bytes \<Rightarrow> bytes \<Rightarrow> unit cresult" where
  "verify_group_admin_request C p = verify_domain C p GROUP_ADMIN_REQUEST_DOMAIN"
definition verify_group_poll_moderation :: "prims \<Rightarrow> IdentityPublic \<Rightarrow> bytes \<Rightarrow> bytes \<Rightarrow> unit cresult" where
  "verify_group_poll_moderation C p = verify_domain C p GROUP_POLL_MODERATION_DOMAIN"
definition verify_device_certificate :: "prims \<Rightarrow> IdentityPublic \<Rightarrow> bytes \<Rightarrow> bytes \<Rightarrow> unit cresult" where
  "verify_device_certificate C p = verify_domain C p DEVICE_CERTIFICATE_DOMAIN"
definition verify_device_manifest :: "prims \<Rightarrow> IdentityPublic \<Rightarrow> bytes \<Rightarrow> bytes \<Rightarrow> unit cresult" where
  "verify_device_manifest C p = verify_domain C p DEVICE_MANIFEST_DOMAIN"
definition verify_device_link_offer :: "prims \<Rightarrow> IdentityPublic \<Rightarrow> bytes \<Rightarrow> bytes \<Rightarrow> unit cresult" where
  "verify_device_link_offer C p = verify_domain C p DEVICE_LINK_OFFER_DOMAIN"
definition verify_device_link_response :: "prims \<Rightarrow> IdentityPublic \<Rightarrow> bytes \<Rightarrow> bytes \<Rightarrow> unit cresult" where
  "verify_device_link_response C p = verify_domain C p DEVICE_LINK_RESPONSE_DOMAIN"
definition verify_device_sync_event :: "prims \<Rightarrow> IdentityPublic \<Rightarrow> bytes \<Rightarrow> bytes \<Rightarrow> unit cresult" where
  "verify_device_sync_event C p = verify_domain C p DEVICE_SYNC_EVENT_DOMAIN"

text \<open>The same checks from a bare 32-byte peer id.\<close>

definition verify_ed25519_domain_signature :: "prims \<Rightarrow> bytes \<Rightarrow> bytes \<Rightarrow> bytes \<Rightarrow> bytes \<Rightarrow> unit cresult" where
  "verify_ed25519_domain_signature C public_key domain message signature =
     verify_peer_domain C public_key domain message signature"
definition verify_group_authority_state_signature :: "prims \<Rightarrow> bytes \<Rightarrow> bytes \<Rightarrow> bytes \<Rightarrow> unit cresult" where
  "verify_group_authority_state_signature C peer = verify_peer_domain C peer GROUP_AUTHORITY_STATE_DOMAIN"
definition verify_group_owner_transfer_signature :: "prims \<Rightarrow> bytes \<Rightarrow> bytes \<Rightarrow> bytes \<Rightarrow> unit cresult" where
  "verify_group_owner_transfer_signature C peer = verify_peer_domain C peer GROUP_OWNER_TRANSFER_DOMAIN"
definition verify_group_admin_request_signature :: "prims \<Rightarrow> bytes \<Rightarrow> bytes \<Rightarrow> bytes \<Rightarrow> unit cresult" where
  "verify_group_admin_request_signature C peer = verify_peer_domain C peer GROUP_ADMIN_REQUEST_DOMAIN"
definition verify_group_poll_moderation_signature :: "prims \<Rightarrow> bytes \<Rightarrow> bytes \<Rightarrow> bytes \<Rightarrow> unit cresult" where
  "verify_group_poll_moderation_signature C peer = verify_peer_domain C peer GROUP_POLL_MODERATION_DOMAIN"

text \<open>The secret serialisation; a secret is its 32 bytes.\<close>

definition identity_to_bytes :: "Identity \<Rightarrow> bytes" where
  "identity_to_bytes i = signing i @ agreement i"

definition identity_from_bytes :: "bytes \<Rightarrow> Identity" where
  "identity_from_bytes b = \<lparr>signing = take 32 b, agreement = drop 32 b\<rparr>"

section \<open>Sealed buffers\<close>

definition NONCE_LEN :: nat where [simp]: "NONCE_LEN = 24"
definition TAG_LEN :: nat where [simp]: "TAG_LEN = 16"

text \<open>The nonce is what the random generator fills in.\<close>

definition aead_seal :: "prims \<Rightarrow> bytes \<Rightarrow> bytes \<Rightarrow> bytes \<Rightarrow> bytes \<Rightarrow> bytes" where
  "aead_seal C key ad plaintext nonce = nonce @ aead_encrypt C key nonce ad plaintext"

definition aead_open :: "prims \<Rightarrow> bytes \<Rightarrow> bytes \<Rightarrow> bytes \<Rightarrow> bytes cresult" where
  "aead_open C key ad sealed =
     (if length sealed < NONCE_LEN + TAG_LEN then Inl MessageAuthentication
      else ok_or (aead_decrypt C key (take NONCE_LEN sealed) ad (drop NONCE_LEN sealed))
             MessageAuthentication)"

text \<open>The wrappers with a caller-held nonce, key derivation, and the storage key of \<^verbatim>\<open>sealed.rs\<close>.\<close>

definition aead_encrypt_with_nonce :: "prims \<Rightarrow> bytes \<Rightarrow> bytes \<Rightarrow> bytes \<Rightarrow> bytes \<Rightarrow> bytes" where
  "aead_encrypt_with_nonce C key nonce ad plaintext = aead_encrypt C key nonce ad plaintext"

definition aead_decrypt_with_nonce :: "prims \<Rightarrow> bytes \<Rightarrow> bytes \<Rightarrow> bytes \<Rightarrow> bytes \<Rightarrow> bytes cresult" where
  "aead_decrypt_with_nonce C key nonce ad ct = ok_or (aead_decrypt C key nonce ad ct) MessageAuthentication"

definition hkdf32 :: "prims \<Rightarrow> bytes option \<Rightarrow> bytes \<Rightarrow> bytes \<Rightarrow> bytes" where
  "hkdf32 C salt ikm info = hkdf C salt ikm info 32"

definition hkdf_expand :: "prims \<Rightarrow> bytes option \<Rightarrow> bytes \<Rightarrow> bytes \<Rightarrow> nat \<Rightarrow> bytes" where
  "hkdf_expand C salt ikm info n = hkdf C salt ikm info n"

definition storage_seal :: "prims \<Rightarrow> bytes \<Rightarrow> bytes \<Rightarrow> bytes \<Rightarrow> bytes \<Rightarrow> bytes" where
  "storage_seal C key ad plaintext nonce = aead_seal C key ad plaintext nonce"

definition storage_open :: "prims \<Rightarrow> bytes \<Rightarrow> bytes \<Rightarrow> bytes \<Rightarrow> bytes cresult" where
  "storage_open C key ad sealed = aead_open C key ad sealed"

definition storage_derive :: "prims \<Rightarrow> bytes \<Rightarrow> bytes \<Rightarrow> bytes" where
  "storage_derive C key label = hkdf32 C None key label"

definition storage_hmac_sha256 :: "prims \<Rightarrow> bytes \<Rightarrow> bytes \<Rightarrow> bytes" where
  "storage_hmac_sha256 C key input = hmac C key input"

section \<open>Lemmas\<close>

text \<open>Replay-freedom is counted with multisets.\<close>

lemma distinct_mset_subset: "distinct xs \<Longrightarrow> set xs \<subseteq> set ys \<Longrightarrow> mset xs \<subseteq># mset ys"
  by (rule mset_subset_eqI) (auto simp: distinct_count_atmost_1 Suc_le_eq count_greater_zero_iff)

lemma identity_bytes_roundtrip: "length (signing i) = 32 \<Longrightarrow> identity_from_bytes (identity_to_bytes i) = i"
  by (simp add: identity_from_bytes_def identity_to_bytes_def)

text \<open>A peer id and the full public identity that holds it accept the same signatures.\<close>

lemma verify_peer_domain_eq: "verify_peer_domain C (id_ed p) d m s = verify_domain C p d m s"
  by (simp add: verify_peer_domain_def verify_domain_def)

lemma aead_open_seal:
  assumes "sound_aead C" "length nonce = 24"
  shows "aead_open C key ad (aead_seal C key ad p nonce) = Inr p"
  using assms by (simp add: aead_open_def aead_seal_def sound_aead_def)

lemma identity_public_verifies: "sound_signatures C \<Longrightarrow> identity_verify C (identity_public C i) = Inr ()"
  by (simp add: identity_verify_def identity_public_def sound_signatures_def)

lemma verify_sign_domain:
  "sound_signatures C \<Longrightarrow> verify_domain C (identity_public C i) d m (sign_domain C i d m) = Inr ()"
  by (simp add: verify_domain_def sign_domain_def identity_public_def sound_signatures_def)

definition SIGNING_DOMAINS :: "bytes list" where
  "SIGNING_DOMAINS =
     [CROSS_SIGN_DOMAIN, GROUP_AUTHORITY_STATE_DOMAIN, GROUP_OWNER_TRANSFER_DOMAIN,
      GROUP_ADMIN_REQUEST_DOMAIN, GROUP_POLL_MODERATION_DOMAIN, DEVICE_CERTIFICATE_DOMAIN,
      DEVICE_MANIFEST_DOMAIN, DEVICE_LINK_OFFER_DOMAIN, DEVICE_LINK_RESPONSE_DOMAIN,
      DEVICE_SYNC_EVENT_DOMAIN,
      AUTHORITY_CERTIFICATE_DOMAIN, AUTHORITY_TRANSITION_DOMAIN, ROOT_TRANSITION_DOMAIN,
      RECORD_SIGNATURE_DOMAIN, SPK_DOMAIN, PQSPK_DOMAIN, PREKEY_BUNDLE_DOMAIN, LINK_OFFER_V2_DOMAIN,
      LINK_RESPONSE_V2_DOMAIN, PAIRING_DOMAIN, DESCRIPTOR_DOMAIN, DIRECTORY_SIGNATURE_DOMAIN]"

lemma domains_no_prefix:
  "list_all (\<lambda>d. list_all (\<lambda>e. d = e \<or> \<not> starts_with e d) SIGNING_DOMAINS) SIGNING_DOMAINS"
  by code_simp

lemma signing_domains_separated:
  assumes "d \<in> set SIGNING_DOMAINS" "e \<in> set SIGNING_DOMAINS" "d \<noteq> e"
  shows "d @ m \<noteq> e @ n"
proof
  assume eq: "d @ m = e @ n"
  have np: "\<not> starts_with e d" "\<not> starts_with d e"
    using domains_no_prefix assms by (auto simp: list_all_iff)
  from eq obtain r where "d = e @ r \<or> e = d @ r" by (auto simp: append_eq_append_conv2)
  then have "starts_with d e \<or> starts_with e d" by auto
  with np show False by blast
qed

lemma domains_distinct: "distinct SIGNING_DOMAINS"
  by code_simp

lemma signed_bytes_inject:
  assumes "d \<in> set SIGNING_DOMAINS" "e \<in> set SIGNING_DOMAINS"
  shows "d @ m = e @ n \<longleftrightarrow> d = e \<and> m = n"
  using signing_domains_separated [OF assms, of m n] by auto

text \<open>
  The signing purposes, each with the function that signs and the one that verifies: the nine of \<^verbatim>\<open>identity.rs\<close>, and the
  domains with which other modules call \<^verbatim>\<open>sign_domain\<close> and \<^verbatim>\<open>verify_domain\<close>.
\<close>

type_synonym purpose = "(prims \<Rightarrow> Identity \<Rightarrow> bytes \<Rightarrow> bytes) \<times> (prims \<Rightarrow> IdentityPublic \<Rightarrow> bytes \<Rightarrow> bytes \<Rightarrow> unit cresult)"

definition with_domain :: "bytes \<Rightarrow> purpose" where
  "with_domain d = (\<lambda>C i. sign_domain C i d, \<lambda>C p. verify_domain C p d)"

definition signing_purposes :: "purpose list" where
  "signing_purposes =
     [(sign_group_authority_state, verify_group_authority_state), (sign_group_owner_transfer, verify_group_owner_transfer),
      (sign_group_admin_request, verify_group_admin_request), (sign_group_poll_moderation, verify_group_poll_moderation),
      (sign_device_certificate, verify_device_certificate), (sign_device_manifest, verify_device_manifest),
      (sign_device_link_offer, verify_device_link_offer), (sign_device_link_response, verify_device_link_response),
      (sign_device_sync_event, verify_device_sync_event)]
     @ map with_domain
         [AUTHORITY_CERTIFICATE_DOMAIN, AUTHORITY_TRANSITION_DOMAIN, ROOT_TRANSITION_DOMAIN, RECORD_SIGNATURE_DOMAIN,
          SPK_DOMAIN, PQSPK_DOMAIN, PREKEY_BUNDLE_DOMAIN, LINK_OFFER_V2_DOMAIN, LINK_RESPONSE_V2_DOMAIN, PAIRING_DOMAIN,
          DESCRIPTOR_DOMAIN, DIRECTORY_SIGNATURE_DOMAIN]"

lemma signing_purposes_eq: "signing_purposes = map with_domain (tl SIGNING_DOMAINS)"
  by (simp add: signing_purposes_def SIGNING_DOMAINS_def with_domain_def fun_eq_iff
      sign_group_authority_state_def verify_group_authority_state_def sign_group_owner_transfer_def verify_group_owner_transfer_def
      sign_group_admin_request_def verify_group_admin_request_def sign_group_poll_moderation_def verify_group_poll_moderation_def
      sign_device_certificate_def verify_device_certificate_def sign_device_manifest_def verify_device_manifest_def
      sign_device_link_offer_def verify_device_link_offer_def sign_device_link_response_def verify_device_link_response_def
      sign_device_sync_event_def verify_device_sync_event_def)

text \<open>What Ed25519 promises beyond \<open>sound_signatures\<close>: a signature verifies for no other bytes than those it was made on.\<close>

definition binding_signatures :: "prims \<Rightarrow> bool" where
  "binding_signatures C \<longleftrightarrow> (\<forall>sk b b'. ed_verify C (ed_public C sk) b' (ed_sign C sk b) \<longrightarrow> b' = b)"

lemma verify_signed_domain:
  assumes "sound_signatures C" "binding_signatures C" "d \<in> set SIGNING_DOMAINS" "e \<in> set SIGNING_DOMAINS"
  shows "verify_domain C (identity_public C i) e n (sign_domain C i d m) = Inr () \<longleftrightarrow> d = e \<and> m = n"
proof -
  have "ed_verify C (ed_public C (signing i)) (e @ n) (ed_sign C (signing i) (d @ m)) \<longleftrightarrow> e @ n = d @ m"
    using assms(1,2) unfolding sound_signatures_def binding_signatures_def by metis
  then show ?thesis
    using assms(1) signed_bytes_inject [OF assms(3,4), of m n]
    by (auto simp: verify_domain_def sign_domain_def identity_public_def sound_signatures_def)
qed

text \<open>
  C35. A signature of an identity is good for one purpose and one message. Each of the twenty-one signing purposes has its
  own prefix, and prefix and message are concatenated without a length; still what one purpose signs is accepted by
  the verifier of a purpose exactly when purpose and message are the same, and never as the cross-signature of an agreement key.
\<close>

theorem signature_binds_purpose:
  assumes "sound_signatures C" "binding_signatures C" "j < length signing_purposes" "k < length signing_purposes"
  shows "(snd (signing_purposes ! k) C (identity_public C i) n (fst (signing_purposes ! j) C i m) = Inr () \<longleftrightarrow> j = k \<and> m = n)
    \<and> identity_verify C ((identity_public C i)\<lparr>id_x := x, cross_sig := fst (signing_purposes ! j) C i m\<rparr>) \<noteq> Inr ()"
proof -
  let ?d = "tl SIGNING_DOMAINS ! j" and ?e = "tl SIGNING_DOMAINS ! k"
  have l: "length signing_purposes = length (tl SIGNING_DOMAINS)" by (simp add: signing_purposes_eq)
  obtain ds where ds: "SIGNING_DOMAINS = CROSS_SIGN_DOMAIN # ds" by (simp add: SIGNING_DOMAINS_def)
  have "?d \<in> set ds" "?e \<in> set ds" using assms(3,4) l by (simp_all add: ds)
  then have mem: "?d \<in> set SIGNING_DOMAINS" "?e \<in> set SIGNING_DOMAINS" "CROSS_SIGN_DOMAIN \<in> set SIGNING_DOMAINS"
    by (simp_all add: ds)
  have dist: "distinct (CROSS_SIGN_DOMAIN # ds)" using domains_distinct by (simp only: ds)
  then have eq: "?d = ?e \<longleftrightarrow> j = k" using assms(3,4) l by (simp add: ds nth_eq_iff_index_eq)
  have "?d \<noteq> CROSS_SIGN_DOMAIN" using dist \<open>?d \<in> set ds\<close> by auto
  then have "CROSS_SIGN_DOMAIN @ x \<noteq> ?d @ m" using signed_bytes_inject [OF mem(3,1), of x m] by simp
  then have "\<not> ed_verify C (ed_public C (signing i)) (CROSS_SIGN_DOMAIN @ x) (ed_sign C (signing i) (?d @ m))"
    using assms(2) unfolding binding_signatures_def by blast
  moreover have "fst (signing_purposes ! j) C i m = sign_domain C i ?d m"
    "snd (signing_purposes ! k) C (identity_public C i) n = verify_domain C (identity_public C i) ?e n"
    using assms(3,4) unfolding signing_purposes_eq by (simp_all add: with_domain_def)
  ultimately show ?thesis
    using verify_signed_domain [OF assms(1,2) mem(1,2)] eq
    by (simp add: identity_verify_def identity_public_def sign_domain_def)
qed

text \<open>Signatures that are the key and the bytes signed.\<close>

definition toy_signatures :: prims where
  "toy_signatures = \<lparr>vk_from_bytes = (\<lambda>_. True), ed_verify = (\<lambda>pk b s. s = pk @ b), ed_sign = (\<lambda>sk b. sk @ b),
     ed_public = (\<lambda>sk. sk), x_public = (\<lambda>sk. sk), x_dh = (\<lambda>_ _. []), sha256 = (\<lambda>b. b), hmac = (\<lambda>_ b. b), hkdf = (\<lambda>_ k _ _. k),
     aead_encrypt = (\<lambda>_ _ _ p. p), aead_decrypt = (\<lambda>_ _ _ c. Some c)\<rparr>"

theorem signature_binds_purpose_witness:
  "verify_device_link_offer toy_signatures (identity_public toy_signatures \<lparr>signing = [1], agreement = [2]\<rparr>) [5]
      (sign_device_link_offer toy_signatures \<lparr>signing = [1], agreement = [2]\<rparr> [5]) = Inr ()
   \<and> verify_device_link_response toy_signatures (identity_public toy_signatures \<lparr>signing = [1], agreement = [2]\<rparr>) [5]
      (sign_device_link_offer toy_signatures \<lparr>signing = [1], agreement = [2]\<rparr> [5]) \<noteq> Inr ()"
proof -
  have s: "sound_signatures toy_signatures" "binding_signatures toy_signatures"
    by (simp_all add: sound_signatures_def binding_signatures_def toy_signatures_def)
  have l: "length signing_purposes = 21" by (simp add: signing_purposes_def)
  have p: "signing_purposes ! 6 = (sign_device_link_offer, verify_device_link_offer)"
    "signing_purposes ! 7 = (sign_device_link_response, verify_device_link_response)"
    by (simp_all add: signing_purposes_def)
  show ?thesis
    using signature_binds_purpose [OF s, of 6 6] signature_binds_purpose [OF s, of 6 7] unfolding p l by simp
qed

end
