(* ===== verification/Base32.thy ===== *)
theory Base32
  imports Crypto_Base
begin

text \<open>
  \<^verbatim>\<open>kult-crypto/src/util.rs\<close>: lowercase unpadded base32, with the accumulator loops over a wrapping 64-bit
  buffer, and \<^verbatim>\<open>kult-crypto/src/identity.rs\<close>: the account address built on it. A string decodes exactly when
  it is the one encoding of its bytes.
\<close>

section \<open>The loops\<close>

definition ALPHABET :: bytes where "ALPHABET = ascii ''abcdefghijklmnopqrstuvwxyz234567''"

definition symbol :: "u64 \<Rightarrow> u8" where
  "symbol v = ALPHABET ! unat (v AND 0x1f)"

text \<open>The inner \<^verbatim>\<open>while bits >= 5\<close>: the symbols pushed and the bits left over.\<close>

fun push_symbols :: "u64 \<Rightarrow> nat \<Rightarrow> bytes \<times> nat" where
  "push_symbols buf bits =
     (if bits \<ge> 5 then
        let bits = bits - 5; (out, left) = push_symbols buf bits in (symbol (drop_bit bits buf) # out, left)
      else ([], bits))"

declare push_symbols.simps [simp del]

fun encode_loop :: "u64 \<Rightarrow> nat \<Rightarrow> bytes \<Rightarrow> bytes" where
  "encode_loop buf bits [] =
     (if bits > 0 then [symbol (push_bit (5 - bits) buf)] else [])"
| "encode_loop buf bits (b # data) =
     (let buf = push_bit 8 buf OR ucast b;
          (out, bits) = push_symbols buf (bits + 8) in
      out @ encode_loop buf bits data)"

definition base32_lower_nopad :: "bytes \<Rightarrow> bytes" where
  "base32_lower_nopad data = encode_loop 0 0 data"

text \<open>\<^verbatim>\<open>ALPHABET.iter().position(..)\<close>.\<close>

fun position :: "'a list \<Rightarrow> 'a \<Rightarrow> nat option" where
  "position [] c = None"
| "position (a # as) c = (if a = c then Some 0 else map_option Suc (position as c))"

fun decode_loop :: "u64 \<Rightarrow> nat \<Rightarrow> bytes \<Rightarrow> bytes option" where
  "decode_loop buf bits [] =
     (if bits \<ge> 5 \<or> buf AND (push_bit bits 1 - 1) \<noteq> 0 then None else Some [])"
| "decode_loop buf bits (c # s) =
     (case position ALPHABET c of
        None \<Rightarrow> None
      | Some i \<Rightarrow>
          let buf = push_bit 5 buf OR word_of_nat i; bits = bits + 5 in
          if bits \<ge> 8 then
            let bits = bits - 8 in
            map_option (Cons (ucast (drop_bit bits buf AND 0xff))) (decode_loop buf bits s)
          else decode_loop buf bits s)"

definition base32_lower_nopad_decode :: "bytes \<Rightarrow> bytes option" where
  "base32_lower_nopad_decode s = decode_loop 0 0 s"

section \<open>Addresses\<close>

text \<open>The multihash is the code \<open>0x12\<close>, the length \<open>0x20\<close> and the digest.\<close>

definition address_digest :: "prims \<Rightarrow> IdentityPublic \<Rightarrow> bytes" where
  "address_digest C p = sha256 C (id_ed p @ id_x p)"

definition address_of_digest :: "bytes \<Rightarrow> bytes" where
  "address_of_digest digest = ascii ''kk1'' @ base32_lower_nopad ([0x12, 0x20] @ digest)"

definition address :: "prims \<Rightarrow> IdentityPublic \<Rightarrow> bytes" where
  "address C p = address_of_digest (address_digest C p)"

definition parse_address :: "bytes \<Rightarrow> bytes cresult" where
  "parse_address addr =
     try_then (ok_or (strip_prefix addr (ascii ''kk1'')) InvalidAddress) (\<lambda>encoded.
     try_then (ok_or (base32_lower_nopad_decode encoded) InvalidAddress) (\<lambda>mh.
     if length mh \<noteq> 34 \<or> mh ! 0 \<noteq> 0x12 \<or> mh ! 1 \<noteq> 0x20 then Inl InvalidAddress
     else Inr (drop 2 mh)))"

section \<open>Bit strings\<close>

text \<open>The low \<open>n\<close> bits of a word, most significant first.\<close>

definition low_bits :: "nat \<Rightarrow> 'a::len word \<Rightarrow> bool list" where
  "low_bits n w = rev (map (bit w) [0 ..< n])"

lemma length_low_bits [simp]: "length (low_bits n w) = n"
  by (simp add: low_bits_def)

lemma nth_low_bits: "i < n \<Longrightarrow> low_bits n w ! i = bit w (n - Suc i)"
  by (simp add: low_bits_def rev_nth)

lemma low_bits_push:
  fixes w x :: "'a::len word"
  assumes n: "n + k \<le> LENGTH('a)" and x: "\<And>j. bit x j \<Longrightarrow> j < k"
  shows "low_bits (n + k) (push_bit k w OR x) = low_bits n w @ low_bits k x"
proof (rule nth_equalityI)
  fix i assume i: "i < length (low_bits (n + k) (push_bit k w OR x))"
  show "low_bits (n + k) (push_bit k w OR x) ! i = (low_bits n w @ low_bits k x) ! i"
  proof (cases "i < n")
    case True
    then have e: "n + k - Suc i - k = n - Suc i" "k \<le> n + k - Suc i" by simp_all
    moreover have "\<not> bit x (n + k - Suc i)" using x [of "n + k - Suc i"] e(2) by auto
    ultimately show ?thesis using True n by (auto simp: nth_low_bits nth_append bit_simps)
  next
    case False
    with i have "\<not> k \<le> n + k - Suc i" "k - Suc (i - n) = n + k - Suc i" "i - n < k" by auto
    with False i show ?thesis by (simp add: nth_low_bits nth_append bit_simps)
  qed
qed simp

lemma low_bits_ucast: "k \<le> LENGTH('a) \<Longrightarrow> low_bits k (ucast (b :: 'b::len word) :: 'a::len word) = low_bits k b"
  by (intro nth_equalityI) (auto simp: nth_low_bits bit_simps)

lemma low_bits_split: "k \<le> n \<Longrightarrow> low_bits n w = low_bits k (drop_bit (n - k) w) @ low_bits (n - k) w"
  by (intro nth_equalityI) (auto simp: nth_low_bits nth_append bit_simps)

lemma low_bits_mask: "low_bits k (w AND mask k) = low_bits k w"
  by (intro nth_equalityI) (auto simp: nth_low_bits bit_simps dest: bit_imp_le_length)

lemma low_bits_inject:
  fixes v w :: "'a::len word"
  assumes "low_bits k v = low_bits k w" "\<And>j. bit v j \<Longrightarrow> j < k" "\<And>j. bit w j \<Longrightarrow> j < k"
  shows "v = w"
proof (rule bit_eqI)
  fix j
  show "bit v j \<longleftrightarrow> bit w j"
  proof (cases "j < k")
    case True
    then have "low_bits k v ! (k - Suc j) = low_bits k w ! (k - Suc j)" using assms(1) by simp
    then show ?thesis using True by (simp add: nth_low_bits)
  qed (use assms in blast)
qed

section \<open>Symbols\<close>

lemma ALPHABET_length: "length ALPHABET = 32"
  by (simp add: ALPHABET_def)

lemma ALPHABET_distinct: "distinct ALPHABET"
  by code_simp

lemma position_nth: "distinct xs \<Longrightarrow> i < length xs \<Longrightarrow> position xs (xs ! i) = Some i"
  by (induction xs arbitrary: i) (auto simp: nth_Cons split: nat.splits)

lemma position_Some: "position xs c = Some i \<Longrightarrow> i < length xs \<and> xs ! i = c"
  by (induction xs arbitrary: i) (auto split: if_splits)

text \<open>A symbol stands for five bits.\<close>

definition symbol_bits :: "u8 \<Rightarrow> bool list option" where
  "symbol_bits c = map_option (\<lambda>i. low_bits 5 (word_of_nat i :: u64)) (position ALPHABET c)"

lemma and_31: "v AND 0x1f = v AND mask 5" for v :: u64
  by (simp add: mask_eq_exp_minus_1)

lemma unat_and_31: "unat (v AND 0x1f :: u64) < 32"
proof -
  have "v AND 0x1f \<le> 0x1f" by (rule word_and_le1)
  then show ?thesis by (simp add: word_le_nat_alt)
qed

lemma symbol_bits_symbol: "symbol_bits (symbol v) = Some (low_bits 5 v)"
proof -
  have "position ALPHABET (symbol v) = Some (unat (v AND 0x1f))"
    using unat_and_31 [of v] by (simp add: symbol_def position_nth ALPHABET_distinct ALPHABET_length)
  then show ?thesis by (simp add: symbol_bits_def and_31 low_bits_mask)
qed

lemma small_bits: "i < 2 ^ k \<Longrightarrow> bit (word_of_nat i :: 'a::len word) j \<Longrightarrow> j < k"
proof (rule ccontr)
  assume i: "i < 2 ^ k" and b: "bit (word_of_nat i :: 'a word) j" and n: "\<not> j < k"
  have "(2::nat) ^ k \<le> 2 ^ j" using n by (intro power_increasing) auto
  moreover have "unat (word_of_nat i :: 'a word) \<le> i" by (simp add: unat_of_nat)
  ultimately have "unat (word_of_nat i :: 'a word) < 2 ^ j" using i by linarith
  then have "\<not> bit (unat (word_of_nat i :: 'a word)) j" by (simp add: bit_iff_odd)
  with b show False by (simp add: bit_unsigned_iff)
qed

lemma symbol_bits_inject:
  assumes "symbol_bits c = Some p" "symbol_bits d = Some p"
  shows "c = d"
proof -
  obtain i j where i: "position ALPHABET c = Some i" and j: "position ALPHABET d = Some j"
    and e: "low_bits 5 (word_of_nat i :: u64) = low_bits 5 (word_of_nat j :: u64)"
    using assms by (auto simp: symbol_bits_def)
  from position_Some [OF i] position_Some [OF j] have l: "i < 32" "j < 32" "ALPHABET ! i = c" "ALPHABET ! j = d"
    by (auto simp: ALPHABET_length)
  have "(word_of_nat i :: u64) = word_of_nat j"
    using e small_bits [of i 5] small_bits [of j 5] l by (intro low_bits_inject) auto
  then have "unat (word_of_nat i :: u64) = unat (word_of_nat j :: u64)" by simp
  then have "i = j" using l by simp
  then show ?thesis using l by simp
qed

section \<open>The loops move bit strings\<close>

fun string_bits :: "bytes \<Rightarrow> bool list option" where
  "string_bits [] = Some []"
| "string_bits (c # s) =
     (case symbol_bits c of None \<Rightarrow> None | Some p \<Rightarrow> map_option (append p) (string_bits s))"

definition bytes_bits :: "bytes \<Rightarrow> bool list" where
  "bytes_bits bs = concat (map (low_bits 8) bs)"

lemma bytes_bits_simps [simp]:
  "bytes_bits [] = []" "bytes_bits (b # bs) = low_bits 8 b @ bytes_bits bs"
  by (simp_all add: bytes_bits_def)

lemma length_bytes_bits: "length (bytes_bits bs) = 8 * length bs"
  by (induction bs) auto

lemma string_bits_append:
  "string_bits s = Some p \<Longrightarrow> string_bits t = Some q \<Longrightarrow> string_bits (s @ t) = Some (p @ q)"
  by (induction s arbitrary: p) (auto split: option.splits)

lemma symbol_bits_length: "symbol_bits c = Some p \<Longrightarrow> length p = 5"
  by (auto simp: symbol_bits_def)

lemma string_bits_length: "string_bits s = Some p \<Longrightarrow> length p = 5 * length s"
  by (induction s arbitrary: p) (auto split: option.splits dest: symbol_bits_length)

lemma string_bits_inject: "string_bits s = Some p \<Longrightarrow> string_bits t = Some p \<Longrightarrow> s = t"
proof (induction s arbitrary: t p)
  case Nil
  then show ?case by (cases t) (auto split: option.splits dest: symbol_bits_length)
next
  case (Cons c s)
  from Cons.prems(1) obtain q r where q: "symbol_bits c = Some q" "string_bits s = Some r" "p = q @ r"
    by (auto split: option.splits)
  with Cons.prems(2) symbol_bits_length [of c q] obtain d u where t: "t = d # u" by (cases t) auto
  with Cons.prems(2) obtain q' r' where q': "symbol_bits d = Some q'" "string_bits u = Some r'" "p = q' @ r'"
    by (auto split: option.splits)
  from q q' symbol_bits_length have "q = q'" "r = r'" by (metis append_eq_append_conv)+
  with q q' Cons.IH symbol_bits_inject t show ?case by blast
qed

lemma push_symbols_bits:
  "push_symbols buf n = (out, left) \<Longrightarrow>
     left < 5 \<and> (\<exists>q. string_bits out = Some q \<and> low_bits n buf = q @ low_bits left buf)"
proof (induction buf n arbitrary: out rule: push_symbols.induct)
  case (1 buf n)
  show ?case
  proof (cases "n \<ge> 5")
    case True
    obtain out' where r: "push_symbols buf (n - 5) = (out', left)" and o: "out = symbol (drop_bit (n - 5) buf) # out'"
      using "1.prems" True by (subst (asm) push_symbols.simps) (auto split: prod.splits)
    from "1.IH" [OF True refl r] obtain q where "left < 5" "string_bits out' = Some q"
      "low_bits (n - 5) buf = q @ low_bits left buf" by auto
    then show ?thesis using low_bits_split [OF True, of buf] by (simp add: o symbol_bits_symbol)
  next
    case False
    with "1.prems" show ?thesis by (subst (asm) push_symbols.simps) auto
  qed
qed

lemma low_bits_byte:
  "n + 8 \<le> 64 \<Longrightarrow> low_bits (n + 8) (push_bit 8 buf OR ucast (b :: u8) :: u64) = low_bits n buf @ low_bits 8 b"
proof -
  assume n: "n + 8 \<le> 64"
  have "j < 8" if "bit (ucast b :: u64) j" for j using that by (auto simp: bit_simps dest: bit_imp_le_length)
  then have "low_bits (n + 8) (push_bit 8 buf OR ucast b :: u64) = low_bits n buf @ low_bits 8 (ucast b :: u64)"
    using n by (intro low_bits_push) auto
  then show ?thesis by (simp add: low_bits_ucast)
qed

lemma encode_loop_bits:
  "n < 5 \<Longrightarrow> \<exists>z<5. string_bits (encode_loop buf n data)
     = Some (low_bits n buf @ bytes_bits data @ replicate z False)"
proof (induction buf n data rule: encode_loop.induct)
  case (1 buf n)
  show ?case
  proof (cases "n = 0")
    case False
    have "low_bits 5 (push_bit (5 - n) buf) = low_bits n buf @ replicate (5 - n) False"
      using "1.prems" by (intro nth_equalityI) (auto simp: nth_low_bits nth_append bit_simps)
    with False "1.prems" show ?thesis by (intro exI [of _ "5 - n"]) (simp add: symbol_bits_symbol)
  qed (auto simp: low_bits_def)
next
  case (2 buf n b data)
  let ?buf = "push_bit 8 buf OR ucast b :: u64"
  obtain out left where p: "push_symbols ?buf (n + 8) = (out, left)" by force
  from push_symbols_bits [OF p] obtain q where q: "left < 5" "string_bits out = Some q"
    "low_bits (n + 8) ?buf = q @ low_bits left ?buf" by auto
  from "2.IH" [OF refl p [symmetric] refl q(1)] obtain z where z: "z < 5"
    "string_bits (encode_loop ?buf left data) = Some (low_bits left ?buf @ bytes_bits data @ replicate z False)"
    by auto
  have "low_bits n buf @ low_bits 8 b = q @ low_bits left ?buf"
    using low_bits_byte [of n buf b] "2.prems" q(3) by simp
  with z string_bits_append [OF q(2) z(2)] show ?case
    by (intro exI [of _ z]) (simp add: p)
qed

lemma low_bits_zero: "n \<le> 64 \<Longrightarrow> (buf AND (push_bit n 1 - 1) = 0) = (low_bits n (buf :: u64) = replicate n False)"
proof -
  assume n: "n \<le> 64"
  have m: "push_bit n 1 - 1 = (mask n :: u64)" by (simp add: mask_eq_exp_minus_1 push_bit_eq_mult)
  have "buf AND mask n = 0 \<longleftrightarrow> (\<forall>j<n. \<not> bit buf j)"
    using n by (auto simp: bit_eq_iff bit_simps) (meson less_le_trans)
  also have "\<dots> \<longleftrightarrow> low_bits n buf = replicate n False"
    by (simp add: low_bits_def list_eq_iff_nth_eq rev_nth) (metis Suc_diff_Suc Suc_less_eq diff_less_Suc diff_diff_cancel less_imp_le_nat diff_Suc_less)
  finally show ?thesis by (simp only: m)
qed

lemma symbol_word_bits:
  "symbol_bits c = Some p \<longleftrightarrow> (\<exists>i<32. position ALPHABET c = Some i \<and> p = low_bits 5 (word_of_nat i :: u64))"
  using position_Some [of ALPHABET c] by (auto simp: symbol_bits_def ALPHABET_length)

lemma low_bits_symbol:
  "i < 32 \<Longrightarrow> n + 5 \<le> 64 \<Longrightarrow>
     low_bits (n + 5) (push_bit 5 buf OR word_of_nat i :: u64) = low_bits n buf @ low_bits 5 (word_of_nat i :: u64)"
  using small_bits [of i 5, where 'a = 64] by (intro low_bits_push) auto

text \<open>The byte pushed carries the eight leading pending bits.\<close>

lemma low_bits_taken:
  "8 \<le> n \<Longrightarrow> low_bits n (buf :: u64)
     = low_bits 8 (ucast (drop_bit (n - 8) buf AND 0xff) :: u8) @ low_bits (n - 8) buf"
proof -
  assume n: "8 \<le> n"
  have "low_bits 8 (ucast (drop_bit (n - 8) buf AND 0xff) :: u8) = low_bits 8 (drop_bit (n - 8) buf)"
    using low_bits_mask [of 8 "drop_bit (n - 8) buf"]
    by (simp add: low_bits_ucast mask_eq_exp_minus_1)
  then show ?thesis using low_bits_split [OF n, of buf] by simp
qed

lemma byte_bits_inject: "low_bits 8 b = low_bits 8 c \<Longrightarrow> b = (c :: u8)"
  by (rule low_bits_inject [of 8]) (auto dest: bit_imp_le_length)

lemma decode_loop_bits:
  "n < 8 \<Longrightarrow> decode_loop buf n s = Some bs \<longleftrightarrow>
     (\<exists>p z. string_bits s = Some p \<and> z < 5 \<and> low_bits n buf @ p = bytes_bits bs @ replicate z False)"
proof (induction buf n s arbitrary: bs rule: decode_loop.induct)
  case (1 buf n)
  show ?case
  proof (cases bs)
    case Nil
    have "(\<exists>z<5. low_bits n buf = replicate z False) \<longleftrightarrow> n < 5 \<and> low_bits n buf = replicate n False"
      by (metis length_low_bits length_replicate)
    then show ?thesis using "1.prems" low_bits_zero [of n buf] by (auto simp: Nil)
  next
    case (Cons b r)
    have "low_bits n buf \<noteq> bytes_bits bs @ replicate z False" for z
    proof
      assume "low_bits n buf = bytes_bits bs @ replicate z False"
      from arg_cong [OF this, of length] show False using "1.prems" by (simp add: Cons)
    qed
    then show ?thesis by (simp add: Cons)
  qed
next
  case (2 buf n c s)
  show ?case
  proof (cases "position ALPHABET c")
    case None
    then show ?thesis by (simp add: symbol_bits_def)
  next
    case (Some i)
    have i: "i < 32" using position_Some [OF Some] by (simp add: ALPHABET_length)
    let ?w = "word_of_nat i :: u64" and ?buf = "push_bit 5 buf OR word_of_nat i :: u64"
    have sb: "symbol_bits c = Some (low_bits 5 ?w)" by (simp add: symbol_bits_def Some)
    have lb: "low_bits (n + 5) ?buf = low_bits n buf @ low_bits 5 ?w"
      using i "2.prems" by (intro low_bits_symbol) auto
    show ?thesis
    proof (cases "n + 5 \<ge> 8")
      case False
      then have "decode_loop buf n (c # s) = decode_loop ?buf (n + 5) s" by (simp add: Some)
      moreover have "decode_loop ?buf (n + 5) s = Some bs \<longleftrightarrow>
          (\<exists>p z. string_bits s = Some p \<and> z < 5 \<and> low_bits (n + 5) ?buf @ p = bytes_bits bs @ replicate z False)"
        using "2.IH"(2) [OF Some refl refl False] False by simp
      ultimately show ?thesis using lb by (auto simp: sb)
    next
      case True
      define P Q R y where "P = low_bits n buf" and "Q = low_bits 5 ?w" and "R = low_bits (n + 5 - 8) ?buf"
        and "y = (ucast (drop_bit (n + 5 - 8) ?buf AND 0xff) :: u8)"
      note defs = P_def [symmetric] Q_def [symmetric] R_def [symmetric] y_def [symmetric]
      have step: "decode_loop buf n (c # s) = map_option (Cons y) (decode_loop ?buf (n + 5 - 8) s)"
        using True by (simp add: Some y_def)
      have ih: "decode_loop ?buf (n + 5 - 8) s = Some r \<longleftrightarrow>
          (\<exists>p z. string_bits s = Some p \<and> z < 5 \<and> R @ p = bytes_bits r @ replicate z False)"
        for r unfolding R_def using "2.IH"(1) [OF Some refl refl True refl] "2.prems" by simp
      have t: "P @ Q = low_bits 8 y @ R"
        using low_bits_taken [OF True, of ?buf] lb unfolding defs by simp
      show ?thesis unfolding defs step
      proof
        assume "map_option (Cons y) (decode_loop ?buf (n + 5 - 8) s) = Some bs"
        then obtain r where r: "bs = y # r" "decode_loop ?buf (n + 5 - 8) s = Some r" by auto
        from r(2) obtain p z where p: "string_bits s = Some p" "z < 5" "R @ p = bytes_bits r @ replicate z False"
          unfolding ih by blast
        have "P @ Q @ p = (P @ Q) @ p" by simp
        also have "\<dots> = bytes_bits bs @ replicate z False" unfolding t using p(3) by (simp add: r(1))
        finally show "\<exists>p z. string_bits (c # s) = Some p \<and> z < 5 \<and> P @ p = bytes_bits bs @ replicate z False"
          using p by (intro exI [of _ "Q @ p"] exI [of _ z]) (simp add: sb Q_def)
      next
        assume "\<exists>p z. string_bits (c # s) = Some p \<and> z < 5 \<and> P @ p = bytes_bits bs @ replicate z False"
        then obtain p z where p: "string_bits s = Some p" "z < 5" "P @ Q @ p = bytes_bits bs @ replicate z False"
          by (auto simp: sb Q_def)
        have "(P @ Q) @ p = bytes_bits bs @ replicate z False" using p(3) by simp
        then have e: "low_bits 8 y @ R @ p = bytes_bits bs @ replicate z False" unfolding t by simp
        from arg_cong [OF e, of length] p(2) obtain b r where bs: "bs = b # r" by (cases bs) auto
        from e have "low_bits 8 y = low_bits 8 b" and rest: "R @ p = bytes_bits r @ replicate z False"
          by (simp_all add: bs)
        then have "y = b" using byte_bits_inject by blast
        moreover have "decode_loop ?buf (n + 5 - 8) s = Some r" unfolding ih using p rest by blast
        ultimately show "map_option (Cons y) (decode_loop ?buf (n + 5 - 8) s) = Some bs" unfolding bs by simp
      qed
    qed
  qed
qed

lemma base32_iff: "base32_lower_nopad_decode s = Some b \<longleftrightarrow> s = base32_lower_nopad b"
proof -
  have nil: "low_bits 0 (0 :: u64) = []" by (simp add: low_bits_def)
  obtain z where z: "z < 5" "string_bits (base32_lower_nopad b) = Some (bytes_bits b @ replicate z False)"
    using encode_loop_bits [of 0 0 b] by (auto simp: base32_lower_nopad_def nil)
  have d: "base32_lower_nopad_decode s = Some b \<longleftrightarrow>
      (\<exists>z<5. string_bits s = Some (bytes_bits b @ replicate z False))"
    using decode_loop_bits [of 0 0 s b] by (auto simp: base32_lower_nopad_decode_def nil)
  have "s = base32_lower_nopad b" if y: "y < 5" "string_bits s = Some (bytes_bits b @ replicate y False)" for y
  proof -
    have "length (bytes_bits b) + y = 5 * length s" "length (bytes_bits b) + z = 5 * length (base32_lower_nopad b)"
      using string_bits_length [OF y(2)] string_bits_length [OF z(2)] by simp_all
    with y(1) z(1) have "y = z" by presburger
    with y z string_bits_inject show ?thesis by blast
  qed
  with d z show ?thesis by blast
qed

interpretation base32: strict_codec "\<lambda>_. True" "\<lambda>b. Inr (base32_lower_nopad b) :: unit + bytes" base32_lower_nopad_decode
  by unfold_locales (auto simp: base32_iff)

lemma length_base32: "\<exists>z<5. 5 * length (base32_lower_nopad b) = 8 * length b + z"
proof -
  obtain z where "z < 5" "string_bits (base32_lower_nopad b) = Some (bytes_bits b @ replicate z False)"
    using encode_loop_bits [of 0 0 b] by (auto simp: base32_lower_nopad_def low_bits_def)
  then show ?thesis using string_bits_length [of "base32_lower_nopad b"] by (auto simp: length_bytes_bits)
qed

text \<open>
  Base32 is canonical in both directions: a string decodes to some bytes exactly when it is their
  encoding, so no two strings decode alike and stray trailing bits are refused.
\<close>

theorem base32_canonical:
  "base32_lower_nopad_decode s = Some b \<longleftrightarrow> base32_lower_nopad b = s"
  using base32.accepts_iff [of s b] by auto

text \<open>
  C37. An account address parses to a digest exactly when it is the address of that 32-byte digest, so
  the address of an identity parses back to the digest of its two keys and nothing else does.
\<close>

theorem parse_address_iff:
  "parse_address a = Inr d \<longleftrightarrow> length d = 32 \<and> a = address_of_digest d"
proof
  assume "parse_address a = Inr d"
  then obtain e mh where a: "a = ascii ''kk1'' @ e" and e: "e = base32_lower_nopad mh" and l: "length mh = 34"
    and h: "mh ! 0 = 0x12" "mh ! 1 = 0x20" and d: "d = drop 2 mh"
    by (auto simp: parse_address_def result_simps strip_prefix_eq_Some base32_iff split: if_splits)
  have "mh = [0x12, 0x20] @ d" using l h d by (cases mh; cases "tl mh") auto
  then show "length d = 32 \<and> a = address_of_digest d" using a e l d by (simp add: address_of_digest_def)
next
  assume "length d = 32 \<and> a = address_of_digest d"
  moreover have "base32_lower_nopad_decode (base32_lower_nopad (0x12 # 0x20 # d)) = Some (0x12 # 0x20 # d)"
    by (simp add: base32_iff)
  ultimately show "parse_address a = Inr d" by (simp add: parse_address_def address_of_digest_def)
qed

end
