(* ===== verification/Device_Manifest.thy ===== *)
theory Device_Manifest
  imports Crypto_Base
begin

text \<open>
  \<^verbatim>\<open>kult-crypto/src/device.rs\<close>: device certificates and the signed manifest of an account's devices, with
  the operations that change it and the rule by which a peer accepts a successor.

  An operation on \<^verbatim>\<open>&mut self\<close> returns the manifest it leaves behind next to its result, also when it
  fails. The serial numbers an issuer draws are a stream.
\<close>

section \<open>Certificates\<close>

record DeviceCertificate =
  cert_account :: IdentityPublic
  cert_device :: IdentityPublic
  serial :: bytes
  issued_at :: u64
  cert_signature :: bytes

definition certificate_canonical :: "DeviceCertificate \<Rightarrow> bytes" where
  "certificate_canonical c =
     id_ed (cert_account c) @ id_x (cert_account c) @ id_ed (cert_device c) @ id_x (cert_device c)
     @ serial c @ to_le64 (issued_at c)"

definition device_id :: "DeviceCertificate \<Rightarrow> bytes" where
  "device_id c = id_ed (cert_device c)"

definition certificate_verify :: "prims \<Rightarrow> DeviceCertificate \<Rightarrow> unit cresult" where
  "certificate_verify C c =
     try_then (identity_verify C (cert_account c)) (\<lambda>_.
     try_then (identity_verify C (cert_device c)) (\<lambda>_.
     if serial c = zeros 16 then Inl InvalidMessage
     else verify_device_certificate C (cert_account c) (certificate_canonical c) (cert_signature c)))"

text \<open>\<^verbatim>\<open>loop { rng.fill_bytes(&mut serial); if serial != [0u8; 16] { break; } }\<close>\<close>

partial_function (option) draw_serial :: "(nat \<Rightarrow> bytes) \<Rightarrow> nat \<Rightarrow> (bytes \<times> nat) option" where
  "draw_serial draws i =
     (if draws i \<noteq> zeros 16 then Some (draws i, i + 1) else draw_serial draws (i + 1))"

definition issue_public ::
  "prims \<Rightarrow> Identity \<Rightarrow> IdentityPublic \<Rightarrow> u64 \<Rightarrow> (nat \<Rightarrow> bytes) \<Rightarrow> nat \<Rightarrow> (DeviceCertificate \<times> nat) option" where
  "issue_public C account device at draws i =
     map_option (\<lambda>(s, i).
       let c = \<lparr>cert_account = identity_public C account, cert_device = device, serial = s, issued_at = at,
                cert_signature = zeros 64\<rparr> in
       (c\<lparr>cert_signature := sign_device_certificate C account (certificate_canonical c)\<rparr>, i))
     (draw_serial draws i)"

definition issue :: "prims \<Rightarrow> Identity \<Rightarrow> Identity \<Rightarrow> u64 \<Rightarrow> (nat \<Rightarrow> bytes) \<Rightarrow> nat \<Rightarrow> (DeviceCertificate \<times> nat) option" where
  "issue C account device at draws i = issue_public C account (identity_public C device) at draws i"

definition issue_with_serial :: "prims \<Rightarrow> Identity \<Rightarrow> IdentityPublic \<Rightarrow> bytes \<Rightarrow> u64 \<Rightarrow> DeviceCertificate cresult" where
  "issue_with_serial C account device s at =
     try_then (identity_verify C device) (\<lambda>_.
     if s = zeros 16 then Inl InvalidMessage
     else
       let c = \<lparr>cert_account = identity_public C account, cert_device = device, serial = s, issued_at = at,
                cert_signature = zeros 64\<rparr>;
           c = c\<lparr>cert_signature := sign_device_certificate C account (certificate_canonical c)\<rparr> in
       try_then (certificate_verify C c) (\<lambda>_. Inr c))"

section \<open>The manifest\<close>

definition MAX_LINKED_DEVICES :: nat where [simp]: "MAX_LINKED_DEVICES = 8"
definition MAX_DEVICE_MANIFEST_ENTRIES :: nat where [simp]: "MAX_DEVICE_MANIFEST_ENTRIES = 64"
definition MAX_DEVICE_NAME_BYTES :: nat where [simp]: "MAX_DEVICE_NAME_BYTES = 64"

record DeviceManifestEntry =
  certificate :: DeviceCertificate
  entry_name :: bytes
  last_seen :: u64
  revoked_at :: "u64 option"
  revoked_after_counter :: "u64 option"

record DeviceManifest =
  man_account :: IdentityPublic
  man_generation :: u64
  devices :: "DeviceManifestEntry list"
  man_signature :: bytes

abbreviation entry_id :: "DeviceManifestEntry \<Rightarrow> bytes" where
  "entry_id e \<equiv> device_id (certificate e)"

abbreviation entry_active :: "DeviceManifestEntry \<Rightarrow> bool" where
  "entry_active e \<equiv> revoked_at e = None"

definition entry_canonical :: "DeviceManifestEntry \<Rightarrow> bytes" where
  "entry_canonical e =
     (let cert = certificate_canonical (certificate e) in
      to_le32 (word_of_nat (length cert)) @ cert @ cert_signature (certificate e)
      @ to_le32 (word_of_nat (length (entry_name e))) @ entry_name e @ to_le64 (last_seen e)
      @ (case revoked_at e of Some t \<Rightarrow> 1 # to_le64 t | None \<Rightarrow> [0])
      @ (case revoked_after_counter e of Some n \<Rightarrow> to_le64 n | None \<Rightarrow> []))"

definition manifest_canonical :: "DeviceManifest \<Rightarrow> bytes" where
  "manifest_canonical m =
     id_ed (man_account m) @ id_x (man_account m) @ to_le64 (man_generation m)
     @ to_le32 (word_of_nat (length (devices m))) @ concat (map entry_canonical (devices m))"

text \<open>The verification loop carries the previous device id and the number of active rows.\<close>

fun verify_entries ::
  "prims \<Rightarrow> IdentityPublic \<Rightarrow> bytes option \<Rightarrow> nat \<Rightarrow> DeviceManifestEntry list \<Rightarrow> nat cresult" where
  "verify_entries C acct previous active [] = Inr active"
| "verify_entries C acct previous active (e # es) =
     try_then (certificate_verify C (certificate e)) (\<lambda>_.
     if cert_account (certificate e) \<noteq> acct \<or> entry_name e = [] \<or> length (entry_name e) > MAX_DEVICE_NAME_BYTES
       \<or> last_seen e < issued_at (certificate e)
       \<or> (case revoked_at e of None \<Rightarrow> False | Some r \<Rightarrow> r < issued_at (certificate e))
       \<or> (revoked_at e \<noteq> None) \<noteq> (revoked_after_counter e \<noteq> None)
     then Inl InvalidMessage
     else if (case previous of None \<Rightarrow> False | Some p \<Rightarrow> p \<ge> entry_id e) then Inl InvalidMessage
     else verify_entries C acct (Some (entry_id e)) (if entry_active e then active + 1 else active) es)"

definition manifest_verify :: "prims \<Rightarrow> DeviceManifest \<Rightarrow> unit cresult" where
  "manifest_verify C m =
     try_then (identity_verify C (man_account m)) (\<lambda>_.
     if man_generation m = 0 \<or> devices m = [] \<or> length (devices m) > MAX_DEVICE_MANIFEST_ENTRIES
     then Inl InvalidMessage
     else try_then (verify_entries C (man_account m) None 0 (devices m)) (\<lambda>active.
       if active = 0 \<or> active > MAX_LINKED_DEVICES then Inl InvalidMessage
       else verify_device_manifest C (man_account m) (manifest_canonical m) (man_signature m)))"

definition state_id :: "prims \<Rightarrow> DeviceManifest \<Rightarrow> bytes" where
  "state_id C m = sha256 C (manifest_canonical m @ man_signature m)"

section \<open>Operations\<close>

type_synonym manifest_op = "unit cresult \<times> DeviceManifest"

definition resign :: "prims \<Rightarrow> Identity \<Rightarrow> DeviceManifest \<Rightarrow> manifest_op" where
  "resign C account m =
     (if identity_public C account \<noteq> man_account m then (Inl InvalidKey, m)
      else
        let m = m\<lparr>man_signature := sign_device_manifest C account (manifest_canonical m)\<rparr> in
        (manifest_verify C m, m))"

definition advance_and_resign :: "prims \<Rightarrow> Identity \<Rightarrow> DeviceManifest \<Rightarrow> manifest_op" where
  "advance_and_resign C account m =
     (case checked_add (man_generation m) 1 of
        None \<Rightarrow> (Inl InvalidMessage, m)
      | Some g \<Rightarrow> resign C account (m\<lparr>man_generation := g\<rparr>))"

definition initial :: "prims \<Rightarrow> Identity \<Rightarrow> DeviceCertificate \<Rightarrow> bytes \<Rightarrow> u64 \<Rightarrow> DeviceManifest cresult" where
  "initial C account cert nm seen =
     (case resign C account
        \<lparr>man_account = identity_public C account, man_generation = 1,
         devices = [\<lparr>certificate = cert, entry_name = nm, last_seen = seen, revoked_at = None,
                     revoked_after_counter = None\<rparr>],
         man_signature = zeros 64\<rparr> of
        (Inl e, _) \<Rightarrow> Inl e | (Inr _, m) \<Rightarrow> Inr m)"

definition add_device :: "prims \<Rightarrow> Identity \<Rightarrow> DeviceManifestEntry \<Rightarrow> DeviceManifest \<Rightarrow> manifest_op" where
  "add_device C account e m =
     (if cert_account (certificate e) \<noteq> man_account m
        \<or> (case certificate_verify C (certificate e) of Inl _ \<Rightarrow> True | Inr _ \<Rightarrow> False)
        \<or> entry_name e = [] \<or> length (entry_name e) > MAX_DEVICE_NAME_BYTES
        \<or> last_seen e < issued_at (certificate e)
        \<or> revoked_at e \<noteq> None \<or> revoked_after_counter e \<noteq> None
        \<or> list_ex (\<lambda>c. entry_id c = entry_id e) (devices m)
        \<or> length (devices m) \<ge> MAX_DEVICE_MANIFEST_ENTRIES
        \<or> length (filter entry_active (devices m)) \<ge> MAX_LINKED_DEVICES
      then (Inl InvalidMessage, m)
      else advance_and_resign C account (m\<lparr>devices := sort_key entry_id (devices m @ [e])\<rparr>))"

text \<open>\<^verbatim>\<open>iter_mut().find(..)\<close> followed by an assignment through the reference.\<close>

fun update_first :: "('a \<Rightarrow> bool) \<Rightarrow> ('a \<Rightarrow> 'a) \<Rightarrow> 'a list \<Rightarrow> 'a list option" where
  "update_first P f [] = None"
| "update_first P f (a # as) = (if P a then Some (f a # as) else map_option (Cons a) (update_first P f as))"

definition update_active ::
  "prims \<Rightarrow> Identity \<Rightarrow> bytes \<Rightarrow> (DeviceManifestEntry \<Rightarrow> DeviceManifestEntry) \<Rightarrow> DeviceManifest \<Rightarrow> manifest_op" where
  "update_active C account dev f m =
     (case update_first (\<lambda>e. entry_id e = dev \<and> entry_active e) f (devices m) of
        None \<Rightarrow> (Inl InvalidMessage, m)
      | Some ds \<Rightarrow> advance_and_resign C account (m\<lparr>devices := ds\<rparr>))"

definition rename_device :: "prims \<Rightarrow> Identity \<Rightarrow> bytes \<Rightarrow> bytes \<Rightarrow> DeviceManifest \<Rightarrow> manifest_op" where
  "rename_device C account dev nm m =
     (if nm = [] \<or> length nm > MAX_DEVICE_NAME_BYTES then (Inl InvalidMessage, m)
      else update_active C account dev (\<lambda>e. e\<lparr>entry_name := nm\<rparr>) m)"

definition touch_device :: "prims \<Rightarrow> Identity \<Rightarrow> bytes \<Rightarrow> u64 \<Rightarrow> DeviceManifest \<Rightarrow> manifest_op" where
  "touch_device C account dev seen m =
     update_active C account dev (\<lambda>e. e\<lparr>last_seen := max (last_seen e) seen\<rparr>) m"

definition revoke_device :: "prims \<Rightarrow> Identity \<Rightarrow> bytes \<Rightarrow> u64 \<Rightarrow> u64 \<Rightarrow> DeviceManifest \<Rightarrow> manifest_op" where
  "revoke_device C account dev at cutoff m =
     (if length (filter entry_active (devices m)) \<le> 1 then (Inl InvalidMessage, m)
      else update_active C account dev
        (\<lambda>e. e\<lparr>revoked_at := Some (max at (issued_at (certificate e))),
               revoked_after_counter := Some cutoff\<rparr>) m)"

text \<open>The row check of \<^verbatim>\<open>accepts_successor\<close>.\<close>

definition keeps_entry :: "DeviceManifest \<Rightarrow> DeviceManifestEntry \<Rightarrow> bool" where
  "keeps_entry candidate old =
     (case find (\<lambda>e. entry_id e = entry_id old) (devices candidate) of
        None \<Rightarrow> False
      | Some new \<Rightarrow>
          \<not> (certificate new \<noteq> certificate old
             \<or> (revoked_at old \<noteq> None \<and> revoked_at new = None)
             \<or> (case revoked_after_counter old of None \<Rightarrow> False
                | Some cutoff \<Rightarrow> revoked_after_counter new \<noteq> Some cutoff)))"

definition accepts_successor :: "prims \<Rightarrow> DeviceManifest \<Rightarrow> DeviceManifest \<Rightarrow> bool cresult" where
  "accepts_successor C m candidate =
     try_then (manifest_verify C m) (\<lambda>_.
     try_then (manifest_verify C candidate) (\<lambda>_.
     if man_account candidate \<noteq> man_account m \<or> man_generation candidate < man_generation m
       \<or> (man_generation candidate = man_generation m \<and> state_id C candidate \<le> state_id C m)
     then Inr False
     else Inr (list_all (keeps_entry candidate) (devices m))))"

section \<open>What verification means\<close>

definition good_entry :: "prims \<Rightarrow> IdentityPublic \<Rightarrow> DeviceManifestEntry \<Rightarrow> bool" where
  "good_entry C acct e \<longleftrightarrow>
     certificate_verify C (certificate e) = Inr () \<and> cert_account (certificate e) = acct
     \<and> entry_name e \<noteq> [] \<and> length (entry_name e) \<le> 64 \<and> issued_at (certificate e) \<le> last_seen e
     \<and> (\<forall>r. revoked_at e = Some r \<longrightarrow> issued_at (certificate e) \<le> r)
     \<and> (revoked_at e = None \<longleftrightarrow> revoked_after_counter e = None)"

abbreviation active_count :: "DeviceManifestEntry list \<Rightarrow> nat" where
  "active_count es \<equiv> length (filter entry_active es)"

lemma verify_entries_iff:
  "verify_entries C acct prev n es = Inr k \<longleftrightarrow>
     (\<forall>e\<in>set es. good_entry C acct e) \<and> sorted_wrt (<) (map entry_id es)
     \<and> (\<forall>p. prev = Some p \<longrightarrow> (\<forall>e\<in>set es. p < entry_id e)) \<and> k = n + active_count es"
proof (induction es arbitrary: prev n)
  case (Cons e es)
  show ?case
  proof (cases "good_entry C acct e \<and> (\<forall>p. prev = Some p \<longrightarrow> p < entry_id e)")
    case True
    then have step: "verify_entries C acct prev n (e # es)
        = verify_entries C acct (Some (entry_id e)) (if entry_active e then n + 1 else n) es"
      by (auto simp: good_entry_def not_less split: option.splits)
    from True show ?thesis unfolding step Cons.IH by (auto intro: less_trans)
  next
    case False
    have "verify_entries C acct prev n (e # es) \<noteq> Inr k"
    proof
      assume "verify_entries C acct prev n (e # es) = Inr k"
      then have "good_entry C acct e \<and> (\<forall>p. prev = Some p \<longrightarrow> p < entry_id e)"
        by (auto simp: result_simps good_entry_def not_less not_le split: option.splits)
      with False show False by blast
    qed
    with False show ?thesis by auto
  qed
qed auto

lemma manifest_verify_iff:
  "manifest_verify C m = Inr () \<longleftrightarrow>
     identity_verify C (man_account m) = Inr () \<and> man_generation m \<noteq> 0 \<and> devices m \<noteq> []
     \<and> length (devices m) \<le> 64 \<and> (\<forall>e\<in>set (devices m). good_entry C (man_account m) e)
     \<and> sorted_wrt (<) (map entry_id (devices m)) \<and> 0 < active_count (devices m) \<and> active_count (devices m) \<le> 8
     \<and> verify_device_manifest C (man_account m) (manifest_canonical m) (man_signature m) = Inr ()"
  by (auto simp: manifest_verify_def result_simps verify_entries_iff not_less)

lemma verified_ids_distinct: "manifest_verify C m = Inr () \<Longrightarrow> distinct (map entry_id (devices m))"
  by (simp add: manifest_verify_iff strict_sorted_iff)

section \<open>Rows only move forward\<close>

definition evolves :: "DeviceManifestEntry \<Rightarrow> DeviceManifestEntry \<Rightarrow> bool" where
  "evolves old new \<longleftrightarrow> certificate new = certificate old
     \<and> (revoked_at old \<noteq> None \<longrightarrow> revoked_at new \<noteq> None)
     \<and> (\<forall>c. revoked_after_counter old = Some c \<longrightarrow> revoked_after_counter new = Some c)"

lemma evolves_refl [simp]: "evolves e e"
  by (simp add: evolves_def)

lemma evolves_trans: "evolves a b \<Longrightarrow> evolves b c \<Longrightarrow> evolves a c"
  by (auto simp: evolves_def)

definition rows_evolve :: "DeviceManifestEntry list \<Rightarrow> DeviceManifestEntry list \<Rightarrow> bool" where
  "rows_evolve as bs \<longleftrightarrow> (\<forall>a\<in>set as. \<exists>b\<in>set bs. evolves a b)"

lemma rows_evolve_trans: "rows_evolve as bs \<Longrightarrow> rows_evolve bs cs \<Longrightarrow> rows_evolve as cs"
  unfolding rows_evolve_def using evolves_trans by blast

lemma find_distinct:
  "distinct (map f xs) \<Longrightarrow> a \<in> set xs \<Longrightarrow> find (\<lambda>e. f e = f a) xs = Some a"
  by (induction xs) (auto simp: image_iff)

lemma keeps_entry_iff:
  assumes "distinct (map entry_id (devices cand))"
  shows "keeps_entry cand old \<longleftrightarrow> (\<exists>new\<in>set (devices cand). evolves old new)"
proof
  assume "keeps_entry cand old"
  then obtain new where f: "find (\<lambda>e. entry_id e = entry_id old) (devices cand) = Some new" and e: "evolves old new"
    by (auto simp: keeps_entry_def evolves_def split: option.splits)
  then have "new \<in> set (devices cand)" by (auto simp: find_Some_iff)
  with e show "\<exists>new\<in>set (devices cand). evolves old new" by blast
next
  assume "\<exists>new\<in>set (devices cand). evolves old new"
  then obtain new where n: "new \<in> set (devices cand)" "evolves old new" by blast
  then have "entry_id new = entry_id old" by (simp add: evolves_def)
  with find_distinct [OF assms n(1)] have "find (\<lambda>e. entry_id e = entry_id old) (devices cand) = Some new" by simp
  with n(2) show "keeps_entry cand old" by (auto simp: keeps_entry_def evolves_def split: option.splits)
qed

lemma accepts_successor_iff:
  "accepts_successor C m cand = Inr True \<longleftrightarrow>
     manifest_verify C m = Inr () \<and> manifest_verify C cand = Inr () \<and> man_account cand = man_account m
     \<and> (man_generation m < man_generation cand
        \<or> man_generation m = man_generation cand \<and> state_id C m < state_id C cand)
     \<and> rows_evolve (devices m) (devices cand)"
  using verified_ids_distinct [of C cand]
  by (auto simp: accepts_successor_def result_simps keeps_entry_iff rows_evolve_def list_all_iff not_less
      not_le order.order_iff_strict split: if_splits)

section \<open>Operations yield accepted successors\<close>

text \<open>The successful operations of the account holder, as a step relation.\<close>

inductive manifest_step :: "prims \<Rightarrow> Identity \<Rightarrow> DeviceManifest \<Rightarrow> DeviceManifest \<Rightarrow> bool"
  for C account where
    step_add: "add_device C account e m = (Inr (), m') \<Longrightarrow> manifest_step C account m m'"
  | step_rename: "rename_device C account dev nm m = (Inr (), m') \<Longrightarrow> manifest_step C account m m'"
  | step_touch: "touch_device C account dev seen m = (Inr (), m') \<Longrightarrow> manifest_step C account m m'"
  | step_revoke: "revoke_device C account dev at cutoff m = (Inr (), m') \<Longrightarrow> manifest_step C account m m'"

lemma advance_and_resign_ok:
  assumes "advance_and_resign C account m = (Inr (), m')"
  shows "manifest_verify C m' = Inr () \<and> man_account m' = man_account m
    \<and> unat (man_generation m') = unat (man_generation m) + 1 \<and> devices m' = devices m"
  using assms
  by (auto simp: advance_and_resign_def resign_def split: option.splits if_splits dest!: checked_add_Some)

lemma update_first_rows:
  "update_first P f xs = Some ys \<Longrightarrow> (\<And>a. a \<in> set xs \<Longrightarrow> P a \<Longrightarrow> evolves a (f a)) \<Longrightarrow> rows_evolve xs ys"
proof (induction xs arbitrary: ys)
  case (Cons a xs)
  show ?case
  proof (cases "P a")
    case True
    with Cons.prems have "ys = f a # xs" "evolves a (f a)" by auto
    then show ?thesis by (auto simp: rows_evolve_def intro: evolves_refl)
  next
    case False
    with Cons.prems obtain zs where z: "ys = a # zs" "update_first P f xs = Some zs" by auto
    with Cons have "rows_evolve xs zs" by simp
    then show ?thesis by (auto simp: rows_evolve_def z)
  qed
qed simp

lemma update_active_ok:
  assumes "update_active C account dev f m = (Inr (), m')"
    "\<And>e. e \<in> set (devices m) \<Longrightarrow> entry_active e \<Longrightarrow> evolves e (f e)"
  shows "manifest_verify C m' = Inr () \<and> man_account m' = man_account m
    \<and> unat (man_generation m') = unat (man_generation m) + 1 \<and> rows_evolve (devices m) (devices m')"
  using assms update_first_rows [of "\<lambda>e. entry_id e = dev \<and> entry_active e" f "devices m"]
  by (auto simp: update_active_def split: option.splits dest!: advance_and_resign_ok)

lemma manifest_step_forward:
  assumes v: "manifest_verify C m = Inr ()" and s: "manifest_step C account m m'"
  shows "manifest_verify C m' = Inr () \<and> man_account m' = man_account m
    \<and> unat (man_generation m') = unat (man_generation m) + 1 \<and> rows_evolve (devices m) (devices m')"
  using s
proof (cases rule: manifest_step.cases)
  case (step_add e)
  then have "advance_and_resign C account (m\<lparr>devices := sort_key entry_id (devices m @ [e])\<rparr>) = (Inr (), m')"
    by (auto simp: add_device_def split: if_splits)
  from advance_and_resign_ok [OF this] show ?thesis by (auto simp: rows_evolve_def intro: evolves_refl)
next
  case (step_rename dev nm)
  then have "update_active C account dev (\<lambda>e. e\<lparr>entry_name := nm\<rparr>) m = (Inr (), m')"
    by (auto simp: rename_device_def split: if_splits)
  from update_active_ok [OF this] show ?thesis by (simp add: evolves_def)
next
  case (step_touch dev seen)
  then have "update_active C account dev (\<lambda>e. e\<lparr>last_seen := max (last_seen e) seen\<rparr>) m = (Inr (), m')"
    by (simp add: touch_device_def)
  from update_active_ok [OF this] show ?thesis by (simp add: evolves_def)
next
  case (step_revoke dev at cutoff)
  then have u: "update_active C account dev
      (\<lambda>e. e\<lparr>revoked_at := Some (max at (issued_at (certificate e))), revoked_after_counter := Some cutoff\<rparr>) m
      = (Inr (), m')"
    by (auto simp: revoke_device_def split: if_splits)
  have "revoked_after_counter e = None" if "e \<in> set (devices m)" "entry_active e" for e
    using v that by (auto simp: manifest_verify_iff good_entry_def)
  then show ?thesis using update_active_ok [OF u] by (simp add: evolves_def)
qed

text \<open>
  Whatever the account holder does to a verified manifest, add, rename, touch or revoke, the result
  verifies and every peer that holds the old manifest accepts it as the successor.
\<close>

theorem manifest_step_accepted:
  assumes "manifest_verify C m = Inr ()" "manifest_step C account m m'"
  shows "manifest_verify C m' = Inr () \<and> accepts_successor C m m' = Inr True"
  using manifest_step_forward [OF assms] assms(1)
  by (auto simp: accepts_successor_iff word_less_nat_alt)

section \<open>Chains of accepted manifests\<close>

definition accepted :: "prims \<Rightarrow> DeviceManifest \<Rightarrow> DeviceManifest \<Rightarrow> bool" where
  "accepted C m m' \<longleftrightarrow> accepts_successor C m m' = Inr True"

lemma accepted_chain_rows: "(accepted C)\<^sup>*\<^sup>* m m' \<Longrightarrow> rows_evolve (devices m) (devices m')"
proof (induction rule: rtranclp_induct)
  case base
  show ?case by (auto simp: rows_evolve_def intro: evolves_refl)
next
  case (step y z)
  then show ?case by (auto simp: accepted_def accepts_successor_iff intro: rows_evolve_trans)
qed

lemma accepted_chain_grows:
  "(accepted C)\<^sup>+\<^sup>+ m m' \<Longrightarrow> man_generation m < man_generation m'
     \<or> man_generation m = man_generation m' \<and> state_id C m < state_id C m'"
proof (induction rule: tranclp_induct)
  case (base y)
  then show ?case by (simp add: accepted_def accepts_successor_iff)
next
  case (step y z)
  then show ?case by (auto simp: accepted_def accepts_successor_iff intro: less_trans)
qed

text \<open>
  Revocation is permanent. Along any chain of accepted manifests, from whatever sources, a device
  row keeps its certificate, and a revoked device stays revoked with the same counter cutoff.
\<close>

theorem revocation_permanent:
  assumes "(accepted C)\<^sup>*\<^sup>* m m'" "e \<in> set (devices m)"
  shows "\<exists>e'\<in>set (devices m'). certificate e' = certificate e
    \<and> (revoked_at e \<noteq> None \<longrightarrow> revoked_at e' \<noteq> None)
    \<and> (revoked_after_counter e \<noteq> None \<longrightarrow> revoked_after_counter e' = revoked_after_counter e)"
  using accepted_chain_rows [OF assms(1)] assms(2) unfolding rows_evolve_def evolves_def by fastforce

text \<open>
  There is no rollback: no chain of accepted manifests returns to where it started, and of two forks
  of one generation at most one direction is accepted.
\<close>

theorem manifest_no_rollback:
  assumes "(accepted C)\<^sup>+\<^sup>+ m m'"
  shows "m' \<noteq> m \<and> \<not> (accepted C)\<^sup>*\<^sup>* m' m"
proof -
  have "\<not> (accepted C)\<^sup>+\<^sup>+ a a" for a using accepted_chain_grows [of C a a] by auto
  then show ?thesis using assms by (metis rtranclpD tranclp_trans)
qed

section \<open>Issuing certificates\<close>

lemma draw_serial_ends:
  "draws (i + n) \<noteq> zeros 16 \<Longrightarrow> (\<And>j. j < n \<Longrightarrow> draws (i + j) = zeros 16) \<Longrightarrow>
     draw_serial draws i = Some (draws (i + n), i + n + 1)"
proof (induction n arbitrary: i)
  case 0
  then show ?case by (subst draw_serial.simps) simp
next
  case (Suc n)
  have "draws i = zeros 16" using Suc.prems(2) [of 0] by simp
  moreover have "draw_serial draws (i + 1) = Some (draws (i + 1 + n), i + 1 + n + 1)"
    using Suc.prems(1) Suc.prems(2) [of "Suc _"] by (intro Suc.IH) auto
  ultimately show ?case by (subst draw_serial.simps) simp
qed

lemma draw_serial_value:
  "draw_serial draws i = Some r \<Longrightarrow> fst r \<noteq> zeros 16 \<and> i < snd r \<and> fst r = draws (snd r - 1)"
  by (rule draw_serial.raw_induct
      [where P = "\<lambda>draws i r. fst r \<noteq> zeros 16 \<and> i < snd r \<and> fst r = draws (snd r - 1)"])
    (fastforce split: if_splits)+

lemma draw_serial_terminates: "(\<exists>r. draw_serial draws i = Some r) \<longleftrightarrow> (\<exists>n\<ge>i. draws n \<noteq> zeros 16)"
proof
  assume "\<exists>r. draw_serial draws i = Some r"
  then obtain r where "draw_serial draws i = Some r" ..
  from draw_serial_value [OF this] show "\<exists>n\<ge>i. draws n \<noteq> zeros 16" by (intro exI [of _ "snd r - 1"]) auto
next
  assume "\<exists>n\<ge>i. draws n \<noteq> zeros 16"
  then obtain k where k: "draws (i + k) \<noteq> zeros 16" by (metis le_add_diff_inverse)
  define n where "n = (LEAST k. draws (i + k) \<noteq> zeros 16)"
  have "draws (i + n) \<noteq> zeros 16" unfolding n_def using k by (rule LeastI)
  moreover have "draws (i + j) = zeros 16" if "j < n" for j using that not_less_Least unfolding n_def by blast
  ultimately show "\<exists>r. draw_serial draws i = Some r" using draw_serial_ends by blast
qed

lemma issued_verifies:
  assumes "sound_signatures C" "identity_verify C device = Inr ()" "issue_public C account device at draws i = Some (c, j)"
  shows "certificate_verify C c = Inr ()"
proof -
  from assms(3) obtain s where s: "draw_serial draws i = Some (s, j)" and c: "c =
      (let c = \<lparr>cert_account = identity_public C account, cert_device = device, serial = s, issued_at = at,
                cert_signature = zeros 64\<rparr> in
       c\<lparr>cert_signature := sign_device_certificate C account (certificate_canonical c)\<rparr>)"
    by (auto simp: issue_public_def)
  have "s \<noteq> zeros 16" using draw_serial_value [OF s] by auto
  then show ?thesis
    using assms(2) identity_public_verifies [OF assms(1), of account] verify_sign_domain [OF assms(1)]
    by (simp add: c certificate_verify_def certificate_canonical_def verify_device_certificate_def
        sign_device_certificate_def)
qed

text \<open>
  C36. The loop that draws a certificate serial ends exactly when the generator ever yields a non-zero
  serial, and the certificate that is then issued verifies.
\<close>

theorem issue_terminates:
  assumes "sound_signatures C"
  shows "((\<exists>c j. issue C account device at draws i = Some (c, j)) \<longleftrightarrow> (\<exists>n\<ge>i. draws n \<noteq> zeros 16))
    \<and> (\<forall>c j. issue C account device at draws i = Some (c, j) \<longrightarrow>
         certificate_verify C c = Inr () \<and> device_id c = id_ed (identity_public C device))"
proof (intro conjI allI impI)
  show "(\<exists>c j. issue C account device at draws i = Some (c, j)) \<longleftrightarrow> (\<exists>n\<ge>i. draws n \<noteq> zeros 16)"
    using draw_serial_terminates [of draws i] by (auto simp: issue_def issue_public_def)
  fix c j assume a: "issue C account device at draws i = Some (c, j)"
  then show "certificate_verify C c = Inr ()"
    using issued_verifies [OF assms identity_public_verifies [OF assms]] by (simp add: issue_def)
  from a show "device_id c = id_ed (identity_public C device)"
    by (auto simp: issue_def issue_public_def device_id_def)
qed

section \<open>Witnesses\<close>

text \<open>Primitives for which the hypotheses hold: a signature is the key, decryption strips a zero tag.\<close>

definition toy_prims :: prims where
  "toy_prims = \<lparr>vk_from_bytes = (\<lambda>_. True), ed_verify = (\<lambda>_ _ _. True), ed_sign = (\<lambda>sk _. sk),
     ed_public = (\<lambda>sk. sk), x_public = (\<lambda>sk. sk), x_dh = (\<lambda>_ _. zeros 32), sha256 = (\<lambda>b. b),
     hmac = (\<lambda>_ b. b), hkdf = (\<lambda>_ k info n. take n (info @ k @ zeros n)),
     aead_encrypt = (\<lambda>_ _ _ p. p @ zeros 16),
     aead_decrypt = (\<lambda>_ _ _ c. if drop (length c - 16) c = zeros 16 then Some (take (length c - 16) c) else None)\<rparr>"

lemma toy_sound: "sound_signatures toy_prims" "sound_aead toy_prims"
  by (simp_all add: sound_signatures_def sound_aead_def toy_prims_def)

lemma toy_prims_simps [simp]:
  "vk_from_bytes toy_prims k" "ed_verify toy_prims k m s" "ed_sign toy_prims k m = k" "ed_public toy_prims k = k"
  "x_public toy_prims k = k" "sha256 toy_prims b = b"
  by (simp_all add: toy_prims_def)

lemma toy_verifies [simp]: "identity_verify toy_prims p = Inr ()" "verify_domain toy_prims p d m s = Inr ()"
  by (simp_all add: identity_verify_def verify_domain_def)

lemma one_not_zeros: "1 # zeros 15 \<noteq> zeros 16"
  by (simp add: zeros_def eval_nat_numeral)

theorem issue_terminates_witness:
  "\<exists>c j. issue toy_prims \<lparr>signing = [1], agreement = [2]\<rparr> \<lparr>signing = [3], agreement = [4]\<rparr> 7
     (\<lambda>n. if n < 2 then zeros 16 else 1 # zeros 15) 0 = Some (c, j) \<and> certificate_verify toy_prims c = Inr ()"
proof -
  let ?d = "\<lambda>n::nat. if n < 2 then zeros 16 else 1 # zeros 15"
  have "\<exists>n\<ge>0. ?d n \<noteq> zeros 16" using one_not_zeros by (intro exI [of _ 2]) simp
  then show ?thesis
    using issue_terminates [OF toy_sound(1), of "\<lparr>signing = [1], agreement = [2]\<rparr>"
        "\<lparr>signing = [3], agreement = [4]\<rparr>" 7 ?d 0] by blast
qed

definition toy_account :: Identity where "toy_account = \<lparr>signing = [1], agreement = [2]\<rparr>"

definition toy_manifest :: "u64 \<Rightarrow> bytes \<Rightarrow> bytes \<Rightarrow> DeviceManifest" where
  "toy_manifest gen nm sig = \<lparr>man_account = identity_public toy_prims toy_account, man_generation = gen,
     devices = [\<lparr>certificate = \<lparr>cert_account = identity_public toy_prims toy_account,
        cert_device = identity_public toy_prims toy_account, serial = [9], issued_at = 0, cert_signature = []\<rparr>,
        entry_name = nm, last_seen = 0, revoked_at = None, revoked_after_counter = None\<rparr>],
     man_signature = sig\<rparr>"

lemma nine_not_zeros: "[9] \<noteq> zeros 16"
  by (simp add: zeros_def eval_nat_numeral)

lemma toy_manifest_verify:
  "gen \<noteq> 0 \<Longrightarrow> nm \<noteq> [] \<Longrightarrow> length nm \<le> 64 \<Longrightarrow> manifest_verify toy_prims (toy_manifest gen nm sig) = Inr ()"
  using nine_not_zeros
  by (simp add: manifest_verify_iff toy_manifest_def good_entry_def certificate_verify_def
      verify_device_certificate_def verify_device_manifest_def)

lemma toy_rename:
  "manifest_step toy_prims toy_account (toy_manifest 1 [0x61] []) (toy_manifest 2 [0x62] [1])"
proof (rule step_rename)
  have c: "checked_add (1 :: u64) 1 = Some 2" by (simp add: checked_add_def)
  have d: "(toy_manifest 1 [0x61] [])\<lparr>devices := devices (toy_manifest 2 [0x62] [1]), man_generation := 2,
      man_signature := [1]\<rparr> = toy_manifest 2 [0x62] [1]"
    by (simp add: toy_manifest_def)
  have u: "update_first (\<lambda>e. entry_id e = [1] \<and> entry_active e) (\<lambda>e. e\<lparr>entry_name := [0x62]\<rparr>)
      (devices (toy_manifest 1 [0x61] [])) = Some (devices (toy_manifest 2 [0x62] [1]))"
    by (simp add: toy_manifest_def device_id_def identity_public_def toy_account_def)
  have a: "man_account (toy_manifest g nm s) = identity_public toy_prims toy_account"
    "man_generation (toy_manifest g nm s) = g" for g nm s
    by (simp_all add: toy_manifest_def)
  show "rename_device toy_prims toy_account [1] [0x62] (toy_manifest 1 [0x61] [])
      = (Inr (), toy_manifest 2 [0x62] [1])"
    using d toy_manifest_verify [of 2 "[0x62]" "[1]"]
    by (simp add: rename_device_def update_active_def u advance_and_resign_def a c resign_def
        sign_device_manifest_def sign_domain_def toy_account_def)
qed

theorem manifest_step_accepted_witness:
  "accepts_successor toy_prims (toy_manifest 1 [0x61] []) (toy_manifest 2 [0x62] [1]) = Inr True"
  using manifest_step_accepted [OF toy_manifest_verify toy_rename] by simp

lemma toy_accepted: "accepted toy_prims (toy_manifest 1 [0x61] []) (toy_manifest 2 [0x62] [1])"
  using manifest_step_forward [OF toy_manifest_verify toy_rename] toy_manifest_verify [of 1 "[0x61]" "[]"]
  by (simp add: accepted_def accepts_successor_iff word_less_nat_alt)

theorem revocation_permanent_witness:
  "\<exists>e'\<in>set (devices (toy_manifest 2 [0x62] [1])).
     certificate e' = certificate (hd (devices (toy_manifest 1 [0x61] [])))"
  using revocation_permanent [OF r_into_rtranclp [of "accepted toy_prims", OF toy_accepted],
      of "hd (devices (toy_manifest 1 [0x61] []))"]
  by (auto simp: toy_manifest_def)

theorem manifest_no_rollback_witness:
  "\<not> (accepted toy_prims)\<^sup>*\<^sup>* (toy_manifest 2 [0x62] [1]) (toy_manifest 1 [0x61] [])"
  using manifest_no_rollback [OF tranclp.r_into_trancl [of "accepted toy_prims", OF toy_accepted]] by simp

end
