(* ===== verification/Device_Sync.thy ===== *)
theory Device_Sync
  imports Device_Manifest BTree_Map "HOL-Library.Product_Lexorder"
begin

text \<open>
  \<^verbatim>\<open>kult-protocol/src/device_sync.rs\<close>: signed mutations of linked devices, their last-writer-wins
  resolution and the encrypted bundles that carry them.

  The trait \<^verbatim>\<open>DeviceSyncAuthority\<close> is the record of what it answers. The serialisation of events and
  payloads by postcard is an argument of the functions that call it.
\<close>

section \<open>Events\<close>

definition MAX_DEVICE_SYNC_BUNDLE_EVENTS :: nat where [simp]: "MAX_DEVICE_SYNC_BUNDLE_EVENTS = 4096"
definition MAX_DEVICE_SYNC_BUNDLE_BYTES :: nat where [simp]: "MAX_DEVICE_SYNC_BUNDLE_BYTES = 16 * 1024 * 1024"
definition MAX_DEVICE_SYNC_KEY_BYTES :: nat where [simp]: "MAX_DEVICE_SYNC_KEY_BYTES = 512"
definition MAX_DEVICE_SYNC_VALUE_BYTES :: nat where [simp]: "MAX_DEVICE_SYNC_VALUE_BYTES = 1024 * 1024"

datatype DeviceSyncNamespace =
    Contacts
  | Verification
  | LocalOrganization
  | ConversationHistory
  | Groups
  | MessageEdits
  | GroupPolls
  | ExpiryTombstones
  | AccountCapabilities

text \<open>The discriminant, \<^verbatim>\<open>self.namespace as u8\<close>, which also gives the derived order.\<close>

fun namespace_code :: "DeviceSyncNamespace \<Rightarrow> u8" where
  "namespace_code Contacts = 0"
| "namespace_code Verification = 1"
| "namespace_code LocalOrganization = 2"
| "namespace_code ConversationHistory = 3"
| "namespace_code Groups = 4"
| "namespace_code MessageEdits = 5"
| "namespace_code GroupPolls = 6"
| "namespace_code ExpiryTombstones = 7"
| "namespace_code AccountCapabilities = 8"

lemma namespace_code_inject [simp]: "namespace_code a = namespace_code b \<longleftrightarrow> a = b"
  by (cases a; cases b) simp_all

instantiation DeviceSyncNamespace :: linorder
begin

definition less_eq_DeviceSyncNamespace :: "DeviceSyncNamespace \<Rightarrow> DeviceSyncNamespace \<Rightarrow> bool" where
  "a \<le> b \<longleftrightarrow> namespace_code a \<le> namespace_code b"

definition less_DeviceSyncNamespace :: "DeviceSyncNamespace \<Rightarrow> DeviceSyncNamespace \<Rightarrow> bool" where
  "a < b \<longleftrightarrow> namespace_code a < namespace_code b"

instance
  by standard (auto simp: less_eq_DeviceSyncNamespace_def less_DeviceSyncNamespace_def less_le eq_commute)

end

record DeviceSyncEvent =
  sync_account :: bytes
  author_device :: bytes
  counter :: u64
  lamport :: u64
  manifest_generation :: u64
  namespace :: DeviceSyncNamespace
  sync_key :: bytes
  sync_value :: "bytes option"
  sync_signature :: bytes

definition sync_canonical :: "DeviceSyncEvent \<Rightarrow> bytes" where
  "sync_canonical e =
     sync_account e @ author_device e @ to_le64 (counter e) @ to_le64 (lamport e)
     @ to_le64 (manifest_generation e) @ [namespace_code (namespace e)]
     @ to_le32 (word_of_nat (length (sync_key e))) @ sync_key e
     @ (case sync_value e of
          Some v \<Rightarrow> [1] @ to_le32 (word_of_nat (length v)) @ v
        | None \<Rightarrow> [0])"

definition validate_bounds :: "DeviceSyncEvent \<Rightarrow> unit result" where
  "validate_bounds e =
     (if sync_account e = zeros 32 \<or> author_device e = zeros 32 \<or> counter e = 0 \<or> lamport e = 0
        \<or> manifest_generation e = 0 \<or> sync_key e = [] \<or> length (sync_key e) > MAX_DEVICE_SYNC_KEY_BYTES
        \<or> (case sync_value e of None \<Rightarrow> False | Some v \<Rightarrow> length v > MAX_DEVICE_SYNC_VALUE_BYTES)
      then Inl Malformed else Inr ())"

definition event_id :: "prims \<Rightarrow> DeviceSyncEvent \<Rightarrow> bytes" where
  "event_id C e = sha256 C (sync_canonical e @ sync_signature e)"

definition sync_sign ::
  "prims \<Rightarrow> bytes \<Rightarrow> Identity \<Rightarrow> u64 \<Rightarrow> u64 \<Rightarrow> u64 \<Rightarrow> DeviceSyncNamespace \<Rightarrow> bytes \<Rightarrow> bytes option
     \<Rightarrow> DeviceSyncEvent result" where
  "sync_sign C account device cnt lam gen ns k v =
     (let e = \<lparr>sync_account = account, author_device = id_ed (identity_public C device), counter = cnt,
               lamport = lam, manifest_generation = gen, namespace = ns, sync_key = k, sync_value = v,
               sync_signature = zeros 64\<rparr> in
      try_then (validate_bounds e) (\<lambda>_.
        Inr (e\<lparr>sync_signature := sign_device_sync_event C device (sync_canonical e)\<rparr>)))"

section \<open>Authorisation\<close>

record SyncAuthority =
  sync_account_id :: bytes
  sync_generation :: u64
  sync_device :: "bytes \<Rightarrow> (IdentityPublic \<times> u64 option) option"

text \<open>\<^verbatim>\<open>impl DeviceSyncAuthority for DeviceManifest\<close>.\<close>

definition manifest_authority :: "DeviceManifest \<Rightarrow> SyncAuthority" where
  "manifest_authority m =
     \<lparr>sync_account_id = id_ed (man_account m), sync_generation = man_generation m,
      sync_device = (\<lambda>dev. map_option (\<lambda>e. (cert_device (certificate e), revoked_after_counter e))
        (find (\<lambda>e. entry_id e = dev) (devices m)))\<rparr>"

definition sync_verify :: "prims \<Rightarrow> SyncAuthority \<Rightarrow> DeviceSyncEvent \<Rightarrow> unit result" where
  "sync_verify C A e =
     try_then (validate_bounds e) (\<lambda>_.
     if sync_account e \<noteq> sync_account_id A \<or> manifest_generation e > sync_generation A then Inl Malformed
     else try_then (ok_or (sync_device A (author_device e)) Malformed) (\<lambda>(device, revoked_after).
       if (case revoked_after of None \<Rightarrow> False | Some cutoff \<Rightarrow> counter e > cutoff) then Inl Malformed
       else (case verify_device_sync_event C device (sync_canonical e) (sync_signature e) of
               Inl _ \<Rightarrow> Inl Malformed | Inr _ \<Rightarrow> Inr ())))"

section \<open>Resolution\<close>

type_synonym sync_slot = "DeviceSyncNamespace \<times> bytes"

definition sync_order :: "prims \<Rightarrow> DeviceSyncEvent \<Rightarrow> u64 \<times> bytes \<times> u64 \<times> bytes" where
  "sync_order C e = (lamport e, author_device e, counter e, event_id C e)"

definition resolve_event ::
  "prims \<Rightarrow> SyncAuthority \<Rightarrow> DeviceSyncEvent \<Rightarrow> (sync_slot, DeviceSyncEvent) btree \<Rightarrow> (sync_slot, DeviceSyncEvent) btree"
  where
  "resolve_event C A e resolved =
     (case sync_verify C A e of
        Inl _ \<Rightarrow> resolved
      | Inr _ \<Rightarrow>
          let k = (namespace e, sync_key e) in
          if (case bt_get resolved k of None \<Rightarrow> True | Some current \<Rightarrow> sync_order C e > sync_order C current)
          then bt_insert k e resolved
          else resolved)"

definition resolve_device_sync_events ::
  "prims \<Rightarrow> SyncAuthority \<Rightarrow> DeviceSyncEvent list \<Rightarrow> (sync_slot, DeviceSyncEvent) btree" where
  "resolve_device_sync_events C A es = fold (resolve_event C A) es []"

section \<open>Bundles\<close>

record DeviceSyncBundle =
  sender :: bytes
  recipient :: bytes
  sequence :: u64
  sealed :: bytes

definition SYNC_BUNDLE_AD :: bytes where "SYNC_BUNDLE_AD = ascii ''Komms-device-sync-bundle-v1''"
definition AUTHORITY_SYNC_BUNDLE_AD :: bytes where
  "AUTHORITY_SYNC_BUNDLE_AD = ascii ''Komms-device-sync-bundle-v2''"

definition bundle_ad :: "bytes \<Rightarrow> bytes \<Rightarrow> u64 \<Rightarrow> bytes" where
  "bundle_ad s r q = SYNC_BUNDLE_AD @ s @ r @ to_le64 q"

definition authority_bundle_ad :: "bytes \<Rightarrow> bytes \<Rightarrow> u64 \<Rightarrow> bytes" where
  "authority_bundle_ad s r q = AUTHORITY_SYNC_BUNDLE_AD @ s @ r @ to_le64 q"

type_synonym sync_payload = "DeviceManifest \<times> DeviceSyncEvent list"

text \<open>\<^verbatim>\<open>for event in &events { event.verify(&manifest)?; }\<close>\<close>

fun verify_events :: "prims \<Rightarrow> SyncAuthority \<Rightarrow> DeviceSyncEvent list \<Rightarrow> unit result" where
  "verify_events C A [] = Inr ()"
| "verify_events C A (e # es) = try_then (sync_verify C A e) (\<lambda>_. verify_events C A es)"

definition bundle_seal ::
  "prims \<Rightarrow> (sync_payload \<Rightarrow> bytes option) \<Rightarrow> bytes \<Rightarrow> bytes \<Rightarrow> bytes \<Rightarrow> u64 \<Rightarrow> DeviceManifest
     \<Rightarrow> DeviceSyncEvent list \<Rightarrow> bytes \<Rightarrow> DeviceSyncBundle result" where
  "bundle_seal C to_vec root s r q manifest events nonce =
     (if s = r \<or> q = 0 \<or> length events > MAX_DEVICE_SYNC_BUNDLE_EVENTS then Inl Malformed
      else try_then (case manifest_verify C manifest of Inl _ \<Rightarrow> Inl Malformed | Inr _ \<Rightarrow> Inr ()) (\<lambda>_.
      if \<not> list_ex (\<lambda>e. entry_id e = s \<and> revoked_at e = None) (devices manifest)
        \<or> \<not> list_ex (\<lambda>e. entry_id e = r) (devices manifest)
      then Inl Malformed
      else try_then (verify_events C (manifest_authority manifest) events) (\<lambda>_.
      try_then (ok_or (to_vec (manifest, events)) Malformed) (\<lambda>plain.
      if length plain > MAX_DEVICE_SYNC_BUNDLE_BYTES then Inl TooLarge
      else Inr \<lparr>sender = s, recipient = r, sequence = q,
                sealed = aead_seal C root (bundle_ad s r q) plain nonce\<rparr>))))"

definition bundle_open ::
  "prims \<Rightarrow> (bytes \<Rightarrow> (sync_payload \<times> bytes) option) \<Rightarrow> DeviceSyncBundle \<Rightarrow> bytes \<Rightarrow> bytes \<Rightarrow> bytes
     \<Rightarrow> sync_payload result" where
  "bundle_open C take_from b root local_device expected_sender =
     (if recipient b \<noteq> local_device \<or> sender b \<noteq> expected_sender then Inl Malformed
      else try_then (case aead_open C root (bundle_ad (sender b) (recipient b) (sequence b)) (sealed b) of
                       Inl _ \<Rightarrow> Inl Malformed | Inr p \<Rightarrow> Inr p) (\<lambda>plain.
      if length plain > MAX_DEVICE_SYNC_BUNDLE_BYTES then Inl TooLarge
      else try_then (ok_or (take_from plain) Malformed) (\<lambda>((manifest, events), remainder).
      if remainder \<noteq> [] \<or> length events > MAX_DEVICE_SYNC_BUNDLE_EVENTS then Inl Malformed
      else try_then (case manifest_verify C manifest of Inl _ \<Rightarrow> Inl Malformed | Inr _ \<Rightarrow> Inr ()) (\<lambda>_.
      try_then (verify_events C (manifest_authority manifest) events) (\<lambda>_.
      Inr (manifest, events))))))"

definition bundle_encode :: "(DeviceSyncBundle \<Rightarrow> bytes option) \<Rightarrow> DeviceSyncBundle \<Rightarrow> bytes result" where
  "bundle_encode to_vec b =
     try_then (ok_or (to_vec b) Malformed) (\<lambda>out.
     if length out > MAX_DEVICE_SYNC_BUNDLE_BYTES + 256 then Inl TooLarge else Inr out)"

definition bundle_decode :: "(bytes \<Rightarrow> (DeviceSyncBundle \<times> bytes) option) \<Rightarrow> bytes \<Rightarrow> DeviceSyncBundle result" where
  "bundle_decode take_from b =
     (if length b > MAX_DEVICE_SYNC_BUNDLE_BYTES + 256 then Inl TooLarge
      else try_then (ok_or (take_from b) Malformed) (\<lambda>(bdl, remainder).
      if remainder \<noteq> [] \<or> sender bdl = recipient bdl \<or> sequence bdl = 0
        \<or> length (sealed bdl) > MAX_DEVICE_SYNC_BUNDLE_BYTES + 64
      then Inl Malformed else Inr bdl))"

text \<open>The retained form of one event.\<close>

definition sync_encode :: "(DeviceSyncEvent \<Rightarrow> bytes option) \<Rightarrow> DeviceSyncEvent \<Rightarrow> bytes result" where
  "sync_encode to_vec e = try_then (validate_bounds e) (\<lambda>_. ok_or (to_vec e) Malformed)"

definition sync_decode :: "(bytes \<Rightarrow> (DeviceSyncEvent \<times> bytes) option) \<Rightarrow> bytes \<Rightarrow> DeviceSyncEvent result" where
  "sync_decode take_from b =
     (if length b > MAX_DEVICE_SYNC_VALUE_BYTES + MAX_DEVICE_SYNC_KEY_BYTES + 256 then Inl TooLarge
      else try_then (ok_or (take_from b) Malformed) (\<lambda>(e, remainder).
      if remainder \<noteq> [] then Inl Malformed
      else try_then (validate_bounds e) (\<lambda>_. Inr e)))"

section \<open>Signed bytes determine the event\<close>

definition wf_sync :: "DeviceSyncEvent \<Rightarrow> bool" where
  "wf_sync e \<longleftrightarrow> length (sync_account e) = 32 \<and> length (author_device e) = 32 \<and> length (sync_signature e) = 64"

lemma to_le_inject [simp]:
  "to_le32 a = to_le32 b \<longleftrightarrow> a = b" "to_le64 c = to_le64 d \<longleftrightarrow> c = d"
  by (metis from_to_le(2)) (metis from_to_le(3))

lemma word_of_nat_inject_small:
  assumes m: "m < 4294967296" "n < 4294967296"
  shows "(word_of_nat m :: u32) = word_of_nat n \<longleftrightarrow> m = n"
proof
  assume e: "(word_of_nat m :: u32) = word_of_nat n"
  from arg_cong [OF e, of unat] m show "m = n" by simp
qed simp

lemma validate_bounds_sizes:
  assumes "validate_bounds e = Inr u"
  shows "length (sync_key e) \<le> 512" "\<And>v. sync_value e = Some v \<Longrightarrow> length v \<le> 1048576"
  using assms by (auto simp: validate_bounds_def split: if_splits)

lemma sync_canonical_inject:
  assumes w: "wf_sync e" "wf_sync e'" and b: "validate_bounds e = Inr ()" "validate_bounds e' = Inr ()"
    and eq: "sync_canonical e @ sync_signature e = sync_canonical e' @ sync_signature e'"
  shows "e = e'"
proof -
  note z = validate_bounds_sizes [OF b(1)] validate_bounds_sizes [OF b(2)]
  note l = w [unfolded wf_sync_def]
  let ?v = "\<lambda>e. case sync_value e of Some v \<Rightarrow> [1] @ to_le32 (word_of_nat (length v)) @ v | None \<Rightarrow> [0]"
  have "sync_canonical e = sync_canonical e'" and s: "sync_signature e = sync_signature e'"
    using eq l by (simp_all add: append_eq_append_conv)
  then have a: "sync_account e = sync_account e'" "author_device e = author_device e'" "counter e = counter e'"
    "lamport e = lamport e'" "manifest_generation e = manifest_generation e'" "namespace e = namespace e'"
    and k: "to_le32 (word_of_nat (length (sync_key e))) = to_le32 (word_of_nat (length (sync_key e')))"
    "sync_key e @ ?v e = sync_key e' @ ?v e'"
    using l by (auto simp: sync_canonical_def)
  have "length (sync_key e) = length (sync_key e')" using k(1) z by (simp add: word_of_nat_inject_small)
  with k(2) have key: "sync_key e = sync_key e'" "?v e = ?v e'" by simp_all
  have "sync_value e = sync_value e'"
  proof (cases "sync_value e"; cases "sync_value e'")
    fix v v' assume v: "sync_value e = Some v" "sync_value e' = Some v'"
    with key(2) show ?thesis by simp
  qed (use key(2) in auto)
  with a s key show ?thesis by simp
qed

text \<open>Distinct hashed inputs have distinct digests, on the events at hand.\<close>

definition no_collision :: "prims \<Rightarrow> DeviceSyncEvent set \<Rightarrow> bool" where
  "no_collision C E \<longleftrightarrow> inj_on (sha256 C) ((\<lambda>e. sync_canonical e @ sync_signature e) ` E)"

lemma sync_order_inject:
  assumes "no_collision C E" "e \<in> E" "e' \<in> E" "wf_sync e" "wf_sync e'"
    "sync_verify C A e = Inr ()" "sync_verify C A e' = Inr ()" "sync_order C e = sync_order C e'"
  shows "e = e'"
proof -
  have "event_id C e = event_id C e'" using assms(8) by (simp add: sync_order_def)
  then have "sync_canonical e @ sync_signature e = sync_canonical e' @ sync_signature e'"
    using assms(1-3) by (auto simp: no_collision_def event_id_def dest!: inj_onD)
  moreover have "validate_bounds e = Inr ()" "validate_bounds e' = Inr ()"
    using assms(6,7) by (auto simp: sync_verify_def result_simps)
  ultimately show ?thesis using sync_canonical_inject assms(4,5) by blast
qed

section \<open>Resolution selects the greatest valid event of each slot\<close>

definition candidates :: "prims \<Rightarrow> SyncAuthority \<Rightarrow> DeviceSyncEvent set \<Rightarrow> sync_slot \<Rightarrow> DeviceSyncEvent set" where
  "candidates C A E k = {e \<in> E. sync_verify C A e = Inr () \<and> (namespace e, sync_key e) = k}"

definition winner :: "prims \<Rightarrow> SyncAuthority \<Rightarrow> DeviceSyncEvent set \<Rightarrow> sync_slot \<Rightarrow> DeviceSyncEvent \<Rightarrow> bool" where
  "winner C A E k e \<longleftrightarrow> e \<in> candidates C A E k \<and> (\<forall>e'\<in>candidates C A E k. sync_order C e' \<le> sync_order C e)"

text \<open>The invariant of the loop.\<close>

definition resolved_ok ::
  "prims \<Rightarrow> SyncAuthority \<Rightarrow> DeviceSyncEvent set \<Rightarrow> (sync_slot, DeviceSyncEvent) btree \<Rightarrow> bool" where
  "resolved_ok C A E m \<longleftrightarrow> bt_valid m
     \<and> (\<forall>k. case bt_get m k of None \<Rightarrow> candidates C A E k = {} | Some e \<Rightarrow> winner C A E k e)"

lemma candidates_insert:
  "candidates C A (insert e E) k =
     (if sync_verify C A e = Inr () \<and> (namespace e, sync_key e) = k then insert e (candidates C A E k)
      else candidates C A E k)"
  by (auto simp: candidates_def)

lemma resolved_ok_step:
  assumes "resolved_ok C A E m"
  shows "resolved_ok C A (insert e E) (resolve_event C A e m)"
proof (cases "sync_verify C A e = Inr ()")
  case False
  then obtain x where "sync_verify C A e = Inl x" by (cases "sync_verify C A e") auto
  moreover have c: "candidates C A (insert e E) = candidates C A E"
    using False by (intro ext) (simp add: candidates_insert)
  moreover have w: "winner C A (insert e E) = winner C A E" by (intro ext) (simp add: winner_def c)
  ultimately show ?thesis using assms
    by (simp add: resolve_event_def resolved_ok_def del: split_paired_All cong: option.case_cong)
next
  case True
  let ?k = "(namespace e, sync_key e)"
  have v: "bt_valid m" and g: "\<And>k. case bt_get m k of None \<Rightarrow> candidates C A E k = {} | Some e \<Rightarrow> winner C A E k e"
    using assms by (auto simp: resolved_ok_def)
  have other: "case bt_get m k of None \<Rightarrow> candidates C A (insert e E) k = {} | Some c \<Rightarrow> winner C A (insert e E) k c"
    if "k \<noteq> ?k" for k
    using g [of k] that by (auto simp: winner_def candidates_insert split: option.splits)
  show ?thesis
  proof (cases "bt_get m ?k")
    case None
    with g [of ?k] have "winner C A (insert e E) ?k e" by (auto simp: winner_def candidates_insert True)
    with None True other v show ?thesis
      by (auto simp: resolve_event_def resolved_ok_def bt_valid_insert bt_get_insert)
  next
    case (Some c)
    with g [of ?k] have c: "winner C A E ?k c" by simp
    show ?thesis
    proof (cases "sync_order C e > sync_order C c")
      case gt: True
      with c have "winner C A (insert e E) ?k e"
        by (auto simp: winner_def candidates_insert True intro: order.trans less_imp_le)
      with Some True gt other v show ?thesis
        by (auto simp: resolve_event_def resolved_ok_def bt_valid_insert bt_get_insert)
    next
      case False
      with c have "winner C A (insert e E) ?k c" by (auto simp: winner_def candidates_insert True)
      with other have "case bt_get m k of None \<Rightarrow> candidates C A (insert e E) k = {} | Some c \<Rightarrow> winner C A (insert e E) k c"
        for k using Some by (cases "k = ?k") auto
      with Some True False v show ?thesis by (simp add: resolve_event_def resolved_ok_def)
    qed
  qed
qed

lemma resolved_ok_fold: "resolved_ok C A E m \<Longrightarrow> resolved_ok C A (set es \<union> E) (fold (resolve_event C A) es m)"
proof (induction es arbitrary: E m)
  case (Cons a es)
  from Cons.IH [OF resolved_ok_step [OF Cons.prems, of a]] show ?case by simp
qed simp

lemma resolved_ok_resolve: "resolved_ok C A (set es) (resolve_device_sync_events C A es)"
  using resolved_ok_fold [of C A "{}" "[]" es]
  by (simp add: resolve_device_sync_events_def resolved_ok_def candidates_def)

text \<open>Any table that satisfies the invariant is the table: the order decides every slot.\<close>

lemma resolved_ok_unique:
  assumes m: "resolved_ok C A E m" and m': "resolved_ok C A E' m'"
    and same: "\<And>k e. winner C A E k e \<Longrightarrow> winner C A E' k e"
    and none: "\<And>k. candidates C A E k = {} \<longleftrightarrow> candidates C A E' k = {}"
    and inj: "\<And>k e e'. winner C A E' k e \<Longrightarrow> winner C A E' k e' \<Longrightarrow> e = e'"
  shows "m = m'"
proof (rule bt_get_ext)
  show "bt_valid m" "bt_valid m'" using m m' by (simp_all add: resolved_ok_def)
  fix k
  have "case bt_get m k of None \<Rightarrow> candidates C A E k = {} | Some e \<Rightarrow> winner C A E k e"
    "case bt_get m' k of None \<Rightarrow> candidates C A E' k = {} | Some e \<Rightarrow> winner C A E' k e"
    using m m' unfolding resolved_ok_def by blast+
  then show "bt_get m k = bt_get m' k"
    using same [of k] none [of k] inj [of k] unfolding winner_def
    by (cases "bt_get m k"; cases "bt_get m' k") auto
qed

lemma winner_inject:
  assumes "no_collision C E" "\<And>e. e \<in> E \<Longrightarrow> wf_sync e" "winner C A E k e" "winner C A E k e'"
  shows "e = e'"
proof -
  have "sync_order C e = sync_order C e'" using assms(3,4) by (auto simp: winner_def intro: antisym)
  moreover have "e \<in> E" "e' \<in> E" "sync_verify C A e = Inr ()" "sync_verify C A e' = Inr ()"
    using assms(3,4) by (auto simp: winner_def candidates_def)
  ultimately show ?thesis using sync_order_inject assms(1,2) by blast
qed

text \<open>
  C17. The synchronisation log refines a plain specification: the table holds, for each namespace and
  key, exactly the greatest authorised event in the order of Lamport time, author, counter and
  digest, and no entry where no event is authorised.
\<close>

theorem resolve_refines_winner:
  assumes "no_collision C (set es)" "\<forall>e\<in>set es. wf_sync e"
  shows "bt_get (resolve_device_sync_events C A es) k = Some e \<longleftrightarrow> winner C A (set es) k e"
proof -
  have "case bt_get (resolve_device_sync_events C A es) k of None \<Rightarrow> candidates C A (set es) k = {}
      | Some e \<Rightarrow> winner C A (set es) k e"
    using resolved_ok_resolve [of C A es] unfolding resolved_ok_def by blast
  then show ?thesis
    using winner_inject [OF assms(1), of A k e] assms(2)
    by (cases "bt_get (resolve_device_sync_events C A es) k") (auto simp: winner_def)
qed

lemma resolve_by_winners:
  assumes "no_collision C (set es')" "\<forall>e\<in>set es'. wf_sync e"
    and "\<And>k e. winner C A (set es) k e \<Longrightarrow> winner C A (set es') k e"
    and "\<And>k. candidates C A (set es) k = {} \<longleftrightarrow> candidates C A (set es') k = {}"
  shows "resolve_device_sync_events C A es = resolve_device_sync_events C A es'"
  using resolved_ok_unique [OF resolved_ok_resolve resolved_ok_resolve assms(3,4)]
    winner_inject [OF assms(1)] assms(2) by blast

text \<open>
  Replicas converge: two devices that have seen the same events, in any order and with any
  repetitions, hold the same table.
\<close>

theorem sync_converges:
  assumes "set es = set es'" "no_collision C (set es)" "\<forall>e\<in>set es. wf_sync e"
  shows "resolve_device_sync_events C A es = resolve_device_sync_events C A es'"
  using resolve_by_winners [of C es' A es] assms by simp

lemma set_bt_values: "bt_valid m \<Longrightarrow> set (bt_values m) = {v. \<exists>k. bt_get m k = Some v}"
proof (induction m)
  case (Cons a m)
  obtain k v where a: "a = (k, v)" by (cases a)
  have "k \<notin> set (bt_keys m)" using Cons.prems by (auto simp: a bt_valid_Cons)
  then have n: "bt_get m k = None" by (simp add: bt_keys_get)
  have "set (bt_values (a # m)) = insert v {w. \<exists>j. bt_get m j = Some w}"
    using Cons by (simp add: a bt_values_def bt_valid_Cons)
  also have "\<dots> = {w. \<exists>j. bt_get (a # m) j = Some w}"
  proof (intro set_eqI)
    fix w
    show "w \<in> insert v {w. \<exists>j. bt_get m j = Some w} \<longleftrightarrow> w \<in> {w. \<exists>j. bt_get (a # m) j = Some w}"
      unfolding a bt_get_Cons using n by (cases "w = v") (auto split: if_splits, metis option.distinct(1))
  qed
  finally show ?case .
qed (simp add: bt_values_def)

text \<open>
  The log can be compacted: keeping only the current winners and replaying later events on top
  gives the table of the full history.
\<close>

theorem sync_compaction:
  assumes "no_collision C (set (es @ later))" "\<forall>e\<in>set (es @ later). wf_sync e"
  shows "resolve_device_sync_events C A (bt_values (resolve_device_sync_events C A es) @ later)
    = resolve_device_sync_events C A (es @ later)"
proof (rule resolve_by_winners [OF assms])
  let ?m = "resolve_device_sync_events C A es"
  let ?E = "set (bt_values ?m @ later)" and ?F = "set (es @ later)"
  have ok: "resolved_ok C A (set es) ?m" by (rule resolved_ok_resolve)
  then have v: "set (bt_values ?m) = {e. \<exists>k. bt_get ?m k = Some e}" by (simp add: set_bt_values resolved_ok_def)
  have w: "winner C A (set es) k e" if "bt_get ?m k = Some e" for k e
    using ok that unfolding resolved_ok_def by (metis option.simps(5))
  have sub: "candidates C A ?E k \<subseteq> candidates C A ?F k" for k
    using w by (auto simp: candidates_def v winner_def)
  have top: "\<exists>e'\<in>candidates C A ?E k. sync_order C e \<le> sync_order C e'" if "e \<in> candidates C A ?F k" for k e
  proof (cases "e \<in> set es")
    case True
    with that have e: "e \<in> candidates C A (set es) k" by (simp add: candidates_def)
    have "case bt_get ?m k of None \<Rightarrow> candidates C A (set es) k = {} | Some e \<Rightarrow> winner C A (set es) k e"
      using ok unfolding resolved_ok_def by blast
    with e obtain e' where e': "bt_get ?m k = Some e'" "winner C A (set es) k e'" by (auto split: option.splits)
    then have "e' \<in> candidates C A ?E k" by (auto simp: winner_def candidates_def v)
    with e e' show ?thesis by (auto simp: winner_def)
  next
    case False
    with that have "e \<in> candidates C A ?E k" by (auto simp: candidates_def)
    then show ?thesis by blast
  qed
  show "winner C A ?F k e" if "winner C A ?E k e" for k e
    using that sub [of k] top [of _ k] unfolding winner_def by (meson order.trans subsetD)
  show "candidates C A ?E k = {} \<longleftrightarrow> candidates C A ?F k = {}" for k
    using sub [of k] top [of _ k] by blast
qed

section \<open>Bundles\<close>

text \<open>
  A sealed bundle opens on the addressed device to exactly the manifest and the events that were
  sealed, provided decryption inverts encryption and the payload serialisation round-trips.
\<close>

theorem bundle_seal_open:
  assumes "sound_aead C" "length nonce = 24" "\<And>p out. to_vec p = Some out \<Longrightarrow> take_from out = Some (p, [])"
    and "bundle_seal C to_vec root s r q manifest events nonce = Inr b"
  shows "bundle_open C take_from b root r s = Inr (manifest, events)"
proof -
  from assms(4) obtain plain where n: "length events \<le> 4096" "length plain \<le> 16777216"
    and m: "manifest_verify C manifest = Inr ()" and e: "verify_events C (manifest_authority manifest) events = Inr ()"
    and p: "to_vec (manifest, events) = Some plain"
    and b: "b = \<lparr>sender = s, recipient = r, sequence = q, sealed = aead_seal C root (bundle_ad s r q) plain nonce\<rparr>"
    by (force simp: bundle_seal_def result_simps not_less split: sum.splits if_splits)
  show ?thesis
    using n m e assms(3) [OF p] aead_open_seal [OF assms(1,2)] by (simp add: bundle_open_def b)
qed

lemma bundle_ad_inject:
  assumes "length s = 32" "length s' = 32" "length r = 32" "length r' = 32"
  shows "bundle_ad s r q = bundle_ad s' r' q' \<longleftrightarrow> s = s' \<and> r = r' \<and> q = q'"
    and "bundle_ad s r q \<noteq> authority_bundle_ad s' r' q'"
proof -
  show "bundle_ad s r q = bundle_ad s' r' q' \<longleftrightarrow> s = s' \<and> r = r' \<and> q = q'"
    using assms by (auto simp: bundle_ad_def)
  have "SYNC_BUNDLE_AD \<noteq> AUTHORITY_SYNC_BUNDLE_AD" "length SYNC_BUNDLE_AD = length AUTHORITY_SYNC_BUNDLE_AD"
    by code_simp+
  then show "bundle_ad s r q \<noteq> authority_bundle_ad s' r' q'"
    by (auto simp: bundle_ad_def authority_bundle_ad_def)
qed

section \<open>A concrete log\<close>

definition toy_event :: "u64 \<Rightarrow> DeviceSyncEvent" where
  "toy_event t = \<lparr>sync_account = 1 # zeros 31, author_device = 1 # zeros 31, counter = 1, lamport = t,
     manifest_generation = 1, namespace = Contacts, sync_key = [1], sync_value = None,
     sync_signature = zeros 64\<rparr>"

definition toy_authority :: SyncAuthority where
  "toy_authority = \<lparr>sync_account_id = 1 # zeros 31, sync_generation = 1,
     sync_device = (\<lambda>_. Some (identity_public toy_prims toy_account, None))\<rparr>"

lemma one_zeros_31: "1 # zeros 31 \<noteq> zeros 32"
  by (simp add: zeros_def eval_nat_numeral)

lemma toy_no_collision: "no_collision toy_prims E"
  by (simp add: no_collision_def inj_on_def)

lemma toy_event_verifies: "t \<noteq> 0 \<Longrightarrow> sync_verify toy_prims toy_authority (toy_event t) = Inr ()"
  using one_zeros_31
  by (simp add: sync_verify_def validate_bounds_def toy_event_def toy_authority_def verify_device_sync_event_def)

lemma toy_event_wf: "wf_sync (toy_event t)"
  by (simp add: wf_sync_def toy_event_def)

lemma toy_winner: "winner toy_prims toy_authority {toy_event 1, toy_event 2} (Contacts, [1]) (toy_event 2)"
  using toy_event_verifies [of 1] toy_event_verifies [of 2]
  by (auto simp: winner_def candidates_def sync_order_def toy_event_def less_eq_prod_def word_less_nat_alt)

theorem resolve_refines_winner_witness:
  "bt_get (resolve_device_sync_events toy_prims toy_authority [toy_event 1, toy_event 2]) (Contacts, [1])
     = Some (toy_event 2)"
  using resolve_refines_winner [OF toy_no_collision, of "[toy_event 1, toy_event 2]" toy_authority]
    toy_winner by (simp add: toy_event_wf)

theorem sync_converges_witness:
  "resolve_device_sync_events toy_prims toy_authority [toy_event 1, toy_event 2]
     = resolve_device_sync_events toy_prims toy_authority [toy_event 2, toy_event 1, toy_event 2]"
  by (rule sync_converges [OF _ toy_no_collision]) (auto simp: toy_event_wf)

theorem sync_compaction_witness:
  "resolve_device_sync_events toy_prims toy_authority
       (bt_values (resolve_device_sync_events toy_prims toy_authority [toy_event 1, toy_event 2]) @ [toy_event 3])
     = resolve_device_sync_events toy_prims toy_authority [toy_event 1, toy_event 2, toy_event 3]"
  using sync_compaction [OF toy_no_collision, of "[toy_event 1, toy_event 2]" "[toy_event 3]" toy_authority]
  by (simp add: toy_event_wf)

text \<open>Two linked devices exchange an empty log.\<close>

definition toy_pair :: DeviceManifest where
  "toy_pair = (toy_manifest 1 [0x61] [])\<lparr>devices := devices (toy_manifest 1 [0x61] []) @
     [\<lparr>certificate = \<lparr>cert_account = identity_public toy_prims toy_account,
        cert_device = identity_public toy_prims \<lparr>signing = [5], agreement = [6]\<rparr>, serial = [9], issued_at = 0,
        cert_signature = []\<rparr>,
        entry_name = [0x63], last_seen = 0, revoked_at = None, revoked_after_counter = None\<rparr>]\<rparr>"

lemma toy_pair_verify: "manifest_verify toy_prims toy_pair = Inr ()"
  using nine_not_zeros
  by (simp add: manifest_verify_iff toy_pair_def toy_manifest_def good_entry_def certificate_verify_def
      verify_device_certificate_def verify_device_manifest_def device_id_def identity_public_def toy_account_def
      list_less_def lexord_simps)

theorem bundle_seal_open_witness:
  "\<exists>b. bundle_seal toy_prims (\<lambda>p. if p = (toy_pair, []) then Some [7] else None) (zeros 32) [1] [5] 1 toy_pair []
         (zeros 24) = Inr b
     \<and> bundle_open toy_prims (\<lambda>_. Some ((toy_pair, []), [])) b (zeros 32) [5] [1] = Inr (toy_pair, [])"
proof -
  let ?to = "\<lambda>p. if p = (toy_pair, []) then Some [7] else None"
  obtain b where b: "bundle_seal toy_prims ?to (zeros 32) [1] [5] 1 toy_pair [] (zeros 24) = Inr b"
    using toy_pair_verify
    by (simp add: bundle_seal_def toy_pair_def toy_manifest_def device_id_def identity_public_def toy_account_def)
  have "bundle_open toy_prims (\<lambda>_. Some ((toy_pair, []), [])) b (zeros 32) [5] [1] = Inr (toy_pair, [])"
    by (rule bundle_seal_open [OF toy_sound(2) _ _ b]) (simp_all split: if_splits)
  with b show ?thesis by blast
qed

end
