(* ===== verification/Ratchet.thy ===== *)
theory Ratchet
  imports Crypto_Base
begin

text \<open>
  \<^verbatim>\<open>kult-crypto/src/ratchet.rs\<close>: the Double Ratchet with encrypted headers. A session is a record with the
  source's fields; every operation takes and returns it. An \<^verbatim>\<open>expect\<close> or \<^verbatim>\<open>copy_from_slice\<close> that would
  panic is the value \<open>None\<close>, and random bytes are arguments. Counters are 32-bit words and \<^verbatim>\<open>+= 1\<close> wraps,
  as in a release build.

  The lemmas are about one session: the wire codec, the absence of panics, the bound on stored keys,
  and the chain arithmetic. Two communicating sessions are the subject of the theory that imports this
  one.
\<close>

section \<open>Constants and messages\<close>

definition PROTOCOL_VERSION :: u8 where [simp]: "PROTOCOL_VERSION = 1"
definition MAX_SKIP :: u32 where [simp]: "MAX_SKIP = 1000"
definition MAX_STORED_SKIPPED :: nat where [simp]: "MAX_STORED_SKIPPED = 2000"
definition SKIPPED_KEY_TTL_SECS :: u64 where [simp]: "SKIPPED_KEY_TTL_SECS = 30 * 86400"
definition HEADER_LEN :: nat where [simp]: "HEADER_LEN = 40"
definition ENC_HEADER_LEN :: nat where [simp]: "ENC_HEADER_LEN = NONCE_LEN + HEADER_LEN + TAG_LEN"
definition INFO_ROOT :: bytes where "INFO_ROOT = ascii ''KK-root''"
definition INFO_CHAIN :: bytes where "INFO_CHAIN = ascii ''KK-chain''"
definition INFO_MSG :: bytes where "INFO_MSG = ascii ''KK-msg''"
definition HDR_AD_DOMAIN :: bytes where "HDR_AD_DOMAIN = ascii ''KK-hdr''"

record RatchetMessage =
  enc_header :: bytes
  msg_nonce :: bytes
  msg_ct :: bytes

definition message_encode :: "RatchetMessage \<Rightarrow> bytes" where
  "message_encode m = PROTOCOL_VERSION # enc_header m @ msg_nonce m @ msg_ct m"

definition message_decode :: "bytes \<Rightarrow> RatchetMessage cresult" where
  "message_decode b =
     (if length b < 1 + ENC_HEADER_LEN + NONCE_LEN + TAG_LEN then Inl InvalidMessage
      else if b ! 0 \<noteq> PROTOCOL_VERSION then Inl InvalidMessage
      else Inr \<lparr>enc_header = subslice 1 (1 + ENC_HEADER_LEN) b,
                msg_nonce = subslice (1 + ENC_HEADER_LEN) (1 + ENC_HEADER_LEN + NONCE_LEN) b,
                msg_ct = drop (1 + ENC_HEADER_LEN + NONCE_LEN) b\<rparr>)"

record Header =
  h_dh :: bytes
  h_pn :: u32
  h_n :: u32

definition header_encode :: "Header \<Rightarrow> bytes" where
  "header_encode h = h_dh h @ to_le32 (h_pn h) @ to_le32 (h_n h)"

definition header_decode :: "bytes \<Rightarrow> Header cresult" where
  "header_decode b =
     (if length b \<noteq> HEADER_LEN then Inl InvalidMessage
      else Inr \<lparr>h_dh = take 32 b, h_pn = from_le32 (subslice 32 36 b), h_n = from_le32 (subslice 36 40 b)\<rparr>)"

section \<open>Session state\<close>

record SkippedKey =
  sk_hk :: bytes
  sk_n :: u32
  sk_mk :: bytes
  stored_at :: u64

record Session =
  session_id :: bytes
  dhs_priv :: bytes
  dhs_pub :: bytes
  dhr :: "bytes option"
  rk :: bytes
  cks :: "bytes option"
  ckr :: "bytes option"
  hks :: "bytes option"
  hkr :: "bytes option"
  nhks :: bytes
  nhkr :: bytes
  ns :: u32
  nr :: u32
  pn :: u32
  mailbox :: bytes
  hybrid_service_exporter :: "bytes option"
  skipped :: "SkippedKey list"

definition kdf_rk :: "prims \<Rightarrow> bytes \<Rightarrow> bytes \<Rightarrow> bytes \<times> bytes \<times> bytes" where
  "kdf_rk C k dh_out =
     (let okm = hkdf_expand C (Some k) dh_out INFO_ROOT 96 in (take 32 okm, subslice 32 64 okm, drop 64 okm))"

definition kdf_ck :: "prims \<Rightarrow> bytes \<Rightarrow> bytes \<times> bytes" where
  "kdf_ck C ck = (hkdf32 C None ck INFO_CHAIN, hkdf32 C None ck INFO_MSG)"

definition init_initiator ::
  "prims \<Rightarrow> bytes \<Rightarrow> bytes \<Rightarrow> bytes \<Rightarrow> bytes \<Rightarrow> bytes \<Rightarrow> bytes \<Rightarrow> bytes \<Rightarrow> bytes \<Rightarrow> Session" where
  "init_initiator C priv sid sk_root their_ratchet_pub shared_hka shared_nhkb mbox exporter =
     (let dh_out = x_dh C priv their_ratchet_pub; (k, ck, nhk) = kdf_rk C sk_root dh_out in
      \<lparr>session_id = sid, dhs_priv = priv, dhs_pub = x_public C priv, dhr = Some their_ratchet_pub, rk = k,
       cks = Some ck, ckr = None, hks = Some shared_hka, hkr = None, nhks = nhk, nhkr = shared_nhkb,
       ns = 0, nr = 0, pn = 0, mailbox = mbox, hybrid_service_exporter = Some exporter, skipped = []\<rparr>)"

definition init_responder ::
  "prims \<Rightarrow> bytes \<Rightarrow> bytes \<Rightarrow> bytes \<Rightarrow> bytes \<Rightarrow> bytes \<Rightarrow> bytes \<Rightarrow> bytes \<Rightarrow> Session" where
  "init_responder C sid sk_root ratchet_priv shared_hka shared_nhkb mbox exporter =
     \<lparr>session_id = sid, dhs_priv = ratchet_priv, dhs_pub = x_public C ratchet_priv, dhr = None, rk = sk_root,
      cks = None, ckr = None, hks = None, hkr = None, nhks = shared_nhkb, nhkr = shared_hka,
      ns = 0, nr = 0, pn = 0, mailbox = mbox, hybrid_service_exporter = Some exporter, skipped = []\<rparr>"

definition restore_hybrid_service_exporter :: "bytes option \<Rightarrow> Session \<Rightarrow> Session" where
  "restore_hybrid_service_exporter x s = s\<lparr>hybrid_service_exporter := x\<rparr>"

definition base_ad :: "Session \<Rightarrow> bytes" where
  "base_ad s = session_id s @ [PROTOCOL_VERSION]"

definition header_ad :: "Session \<Rightarrow> bytes" where
  "header_ad s = base_ad s @ HDR_AD_DOMAIN"

definition payload_ad :: "Session \<Rightarrow> bytes \<Rightarrow> bytes \<Rightarrow> bytes" where
  "payload_ad s enc user_ad = base_ad s @ enc @ user_ad"

definition purge_expired :: "u64 \<Rightarrow> Session \<Rightarrow> Session" where
  "purge_expired now s =
     s\<lparr>skipped := filter (\<lambda>sk. saturating_sub now (stored_at sk) \<le> SKIPPED_KEY_TTL_SECS) (skipped s)\<rparr>"

section \<open>Sending\<close>

definition encrypt ::
  "prims \<Rightarrow> Session \<Rightarrow> u64 \<Rightarrow> bytes \<Rightarrow> bytes \<Rightarrow> bytes \<Rightarrow> bytes \<Rightarrow> (RatchetMessage \<times> Session) option" where
  "encrypt C s now plaintext user_ad header_nonce nonce =
     (let s = purge_expired now s in
      case cks s of
        None \<Rightarrow> None
      | Some ck \<Rightarrow>
          let (next_ck, mk) = kdf_ck C ck;
              s = s\<lparr>cks := Some next_ck\<rparr>;
              header = \<lparr>h_dh = dhs_pub s, h_pn = pn s, h_n = ns s\<rparr> in
          (case hks s of
             None \<Rightarrow> None
           | Some hk \<Rightarrow>
               let enc = aead_seal C hk (header_ad s) (header_encode header) header_nonce in
               if length enc \<noteq> ENC_HEADER_LEN then None
               else
                 let ct = aead_encrypt_with_nonce C mk nonce (payload_ad s enc user_ad) plaintext in
                 Some (\<lparr>enc_header = enc, msg_nonce = nonce, msg_ct = ct\<rparr>, s\<lparr>ns := ns s + 1\<rparr>)))"

section \<open>Receiving\<close>

text \<open>A run ends in a panic, or leaves a session and a result; \<open>run_then\<close> continues after success.\<close>

type_synonym 'a run = "(Session \<times> 'a cresult) option"

fun run_then :: "'a run \<Rightarrow> (Session \<Rightarrow> 'a \<Rightarrow> 'b run) \<Rightarrow> 'b run" where
  "run_then None f = None"
| "run_then (Some (s, Inl e)) f = Some (s, Inl e)"
| "run_then (Some (s, Inr a)) f = f s a"

text \<open>The outer loop over stored keys: each distinct header key is tried once, and the first that opens
  the header ends the search.\<close>

fun try_keys ::
  "prims \<Rightarrow> bytes \<Rightarrow> bytes \<Rightarrow> SkippedKey list \<Rightarrow> bytes list \<Rightarrow> SkippedKey list \<Rightarrow> nat option cresult" where
  "try_keys C ad enc all tried [] = Inr None"
| "try_keys C ad enc all tried (sk # rest) =
     (if sk_hk sk \<in> set tried then try_keys C ad enc all tried rest
      else (case aead_open C (sk_hk sk) ad enc of
              Inl _ \<Rightarrow> try_keys C ad enc all (tried @ [sk_hk sk]) rest
            | Inr hdr \<Rightarrow> try_then (header_decode hdr) (\<lambda>h.
                Inr (find_index (\<lambda>cand. sk_hk cand = sk_hk sk \<and> sk_n cand = h_n h) all))))"

definition try_skipped :: "prims \<Rightarrow> Session \<Rightarrow> RatchetMessage \<Rightarrow> bytes \<Rightarrow> Session \<times> bytes option cresult" where
  "try_skipped C s msg user_ad =
     (case try_keys C (header_ad s) (enc_header msg) (skipped s) [] (skipped s) of
        Inl e \<Rightarrow> (s, Inl e)
      | Inr None \<Rightarrow> (s, Inr None)
      | Inr (Some i) \<Rightarrow>
          (case aead_decrypt_with_nonce C (sk_mk (skipped s ! i)) (msg_nonce msg)
                  (payload_ad s (enc_header msg) user_ad) (msg_ct msg) of
             Inl e \<Rightarrow> (s, Inl e)
           | Inr pt \<Rightarrow> (s\<lparr>skipped := take i (skipped s) @ drop (Suc i) (skipped s)\<rparr>, Inr (Some pt))))"

function skip_loop ::
  "prims \<Rightarrow> bytes \<Rightarrow> u64 \<Rightarrow> u32 \<Rightarrow> bytes \<Rightarrow> u32 \<Rightarrow> SkippedKey list \<Rightarrow> bytes \<times> u32 \<times> SkippedKey list" where
  "skip_loop C hk now until ck n sks =
     (if n < until then
        let (next_ck, mk) = kdf_ck C ck in
        skip_loop C hk now until next_ck (n + 1) (sks @ [\<lparr>sk_hk = hk, sk_n = n, sk_mk = mk, stored_at = now\<rparr>])
      else (ck, n, sks))"
  by pat_completeness auto
termination
  by (relation "measure (\<lambda>(C, hk, now, until, ck, n, sks). unat until - unat n)")
    (auto simp: word_less_nat_alt unat_next)

declare skip_loop.simps [simp del]

text \<open>\<^verbatim>\<open>while self.skipped.len() > MAX_STORED_SKIPPED { self.skipped.remove(0); }\<close>\<close>

function cap_skipped :: "SkippedKey list \<Rightarrow> SkippedKey list" where
  "cap_skipped sks = (if length sks > MAX_STORED_SKIPPED then cap_skipped (tl sks) else sks)"
  by pat_completeness auto
termination
  by (relation "measure length") auto

declare cap_skipped.simps [simp del]

definition skip_message_keys :: "prims \<Rightarrow> u32 \<Rightarrow> u64 \<Rightarrow> Session \<Rightarrow> unit run" where
  "skip_message_keys C until now s =
     (if until > saturating_add (nr s) MAX_SKIP then Some (s, Inl TooManySkipped)
      else (case ckr s of
              None \<Rightarrow> Some (s, if until = 0 then Inr () else Inl TooManySkipped)
            | Some ck \<Rightarrow>
                (case hkr s of
                   None \<Rightarrow> None
                 | Some hk \<Rightarrow>
                     let (ck, n, sks) = skip_loop C hk now until ck (nr s) (skipped s) in
                     Some (s\<lparr>nr := n, ckr := Some ck, skipped := cap_skipped sks\<rparr>, Inr ()))))"

definition dh_ratchet :: "prims \<Rightarrow> Header \<Rightarrow> bytes \<Rightarrow> Session \<Rightarrow> Session" where
  "dh_ratchet C header priv s =
     (let s = s\<lparr>pn := ns s, ns := 0, nr := 0, hks := Some (nhks s), hkr := Some (nhkr s), dhr := Some (h_dh header)\<rparr>;
          (k, ck, nhk) = kdf_rk C (rk s) (x_dh C (dhs_priv s) (h_dh header));
          s = s\<lparr>rk := k, ckr := Some ck, nhkr := nhk\<rparr>;
          s = s\<lparr>dhs_pub := x_public C priv, dhs_priv := priv\<rparr>;
          (k, ck, nhk) = kdf_rk C (rk s) (x_dh C (dhs_priv s) (h_dh header)) in
      s\<lparr>rk := k, cks := Some ck, nhks := nhk\<rparr>)"

definition decrypt_current :: "prims \<Rightarrow> RatchetMessage \<Rightarrow> bytes \<Rightarrow> Session \<Rightarrow> bytes run" where
  "decrypt_current C msg user_ad s =
     (case ckr s of
        None \<Rightarrow> None
      | Some ck \<Rightarrow>
          let (next_ck, mk) = kdf_ck C ck in
          (case aead_decrypt_with_nonce C mk (msg_nonce msg) (payload_ad s (enc_header msg) user_ad) (msg_ct msg) of
             Inl e \<Rightarrow> Some (s, Inl e)
           | Inr pt \<Rightarrow> Some (s\<lparr>ckr := Some next_ck, nr := nr s + 1\<rparr>, Inr pt)))"

text \<open>The three stages of \<^verbatim>\<open>decrypt\<close> after the stored keys: the current chain, the next chain, failure.\<close>

definition decrypt_known :: "prims \<Rightarrow> u64 \<Rightarrow> RatchetMessage \<Rightarrow> bytes \<Rightarrow> bytes \<Rightarrow> Session \<Rightarrow> bytes run" where
  "decrypt_known C now msg user_ad hdr s =
     (case header_decode hdr of
        Inl e \<Rightarrow> Some (s, Inl e)
      | Inr header \<Rightarrow>
          if h_n header < nr s then Some (s, Inl MessageAuthentication)
          else run_then (skip_message_keys C (h_n header) now s) (\<lambda>s _. decrypt_current C msg user_ad s))"

definition decrypt_next :: "prims \<Rightarrow> bytes \<Rightarrow> u64 \<Rightarrow> RatchetMessage \<Rightarrow> bytes \<Rightarrow> bytes \<Rightarrow> Session \<Rightarrow> bytes run" where
  "decrypt_next C priv now msg user_ad hdr s =
     (case header_decode hdr of
        Inl e \<Rightarrow> Some (s, Inl e)
      | Inr header \<Rightarrow>
          run_then (skip_message_keys C (h_pn header) now s) (\<lambda>s _.
          run_then (skip_message_keys C (h_n header) now (dh_ratchet C header priv s)) (\<lambda>s _.
          decrypt_current C msg user_ad s)))"

definition decrypt :: "prims \<Rightarrow> bytes \<Rightarrow> Session \<Rightarrow> u64 \<Rightarrow> RatchetMessage \<Rightarrow> bytes \<Rightarrow> bytes run" where
  "decrypt C priv s now msg user_ad =
     (case try_skipped C (purge_expired now s) msg user_ad of
        (s, Inl e) \<Rightarrow> Some (s, Inl e)
      | (s, Inr (Some pt)) \<Rightarrow> Some (s, Inr pt)
      | (s, Inr None) \<Rightarrow>
          (case Option.bind (hkr s) (\<lambda>k. ok (aead_open C k (header_ad s) (enc_header msg))) of
             Some hdr \<Rightarrow> decrypt_known C now msg user_ad hdr s
           | None \<Rightarrow>
               (case aead_open C (nhkr s) (header_ad s) (enc_header msg) of
                  Inr hdr \<Rightarrow> decrypt_next C priv now msg user_ad hdr s
                | Inl _ \<Rightarrow> Some (s, Inl HeaderAuthentication))))"

section \<open>Storage\<close>

definition SEAL_AD :: bytes where "SEAL_AD = ascii ''KK-sealed-session-v1''"

definition seal_session :: "prims \<Rightarrow> (Session \<Rightarrow> bytes option) \<Rightarrow> Session \<Rightarrow> bytes \<Rightarrow> bytes \<Rightarrow> bytes option" where
  "seal_session C to_vec s key nonce = map_option (\<lambda>plain. aead_seal C key SEAL_AD plain nonce) (to_vec s)"

definition unseal_session :: "prims \<Rightarrow> (bytes \<Rightarrow> Session option) \<Rightarrow> bytes \<Rightarrow> bytes \<Rightarrow> Session cresult" where
  "unseal_session C from_bytes b key =
     try_then (aead_open C key SEAL_AD b) (\<lambda>plain. ok_or (from_bytes plain) Serialization)"

section \<open>Codecs\<close>

lemma message_decode_iff:
  "message_decode b = Inr m \<longleftrightarrow>
     b = message_encode m \<and> length (enc_header m) = 80 \<and> length (msg_nonce m) = 24 \<and> 16 \<le> length (msg_ct m)"
proof
  assume d: "message_decode b = Inr m"
  then have l: "121 \<le> length b" "b ! 0 = 1"
    and m: "m = \<lparr>enc_header = subslice 1 81 b, msg_nonce = subslice 81 105 b, msg_ct = drop 105 b\<rparr>"
    by (auto simp: message_decode_def split: if_splits)
  have "b = 1 # drop 1 b" using l by (cases b) auto
  also have "drop 1 b = subslice 1 81 b @ drop 81 b"
    using append_take_drop_id [of 80 "drop 1 b"] by (simp add: subslice_def)
  also have "drop 81 b = subslice 81 105 b @ drop 105 b"
    using append_take_drop_id [of 24 "drop 81 b"] by (simp add: subslice_def)
  finally show "b = message_encode m \<and> length (enc_header m) = 80 \<and> length (msg_nonce m) = 24 \<and> 16 \<le> length (msg_ct m)"
    using l by (simp add: m message_encode_def subslice_def)
qed (simp add: message_decode_def message_encode_def subslice_def)

lemma length_header_encode: "length (h_dh h) = 32 \<Longrightarrow> length (header_encode h) = 40"
  by (simp add: header_encode_def)

lemma header_decode_encode: "length (h_dh h) = 32 \<Longrightarrow> header_decode (header_encode h) = Inr h"
  by (simp add: header_decode_def header_encode_def subslice_def)

section \<open>Chain arithmetic\<close>

text \<open>The chain key after \<open>n\<close> steps, and the message key of the step.\<close>

fun chain :: "prims \<Rightarrow> bytes \<Rightarrow> nat \<Rightarrow> bytes" where
  "chain C ck 0 = ck"
| "chain C ck (Suc n) = fst (kdf_ck C (chain C ck n))"

definition msg_key :: "prims \<Rightarrow> bytes \<Rightarrow> nat \<Rightarrow> bytes" where
  "msg_key C ck n = snd (kdf_ck C (chain C ck n))"

lemma kdf_ck_chain: "kdf_ck C (chain C ck n) = (chain C ck (Suc n), msg_key C ck n)"
  by (simp add: msg_key_def)

definition skipped_range :: "prims \<Rightarrow> bytes \<Rightarrow> u64 \<Rightarrow> bytes \<Rightarrow> u32 \<Rightarrow> u32 \<Rightarrow> SkippedKey list" where
  "skipped_range C hk now ck0 a b =
     map (\<lambda>i. \<lparr>sk_hk = hk, sk_n = word_of_nat i, sk_mk = msg_key C ck0 i, stored_at = now\<rparr>) [unat a..<unat b]"

lemma skip_loop_eq:
  "n \<le> until \<Longrightarrow> skip_loop C hk now until (chain C ck0 (unat n)) n sks
     = (chain C ck0 (unat until), until, sks @ skipped_range C hk now ck0 n until)"
proof (induction "unat until - unat n" arbitrary: n sks)
  case 0
  then have "n = until" by (simp add: word_le_nat_alt word_unat_eq_iff)
  then show ?case by (subst skip_loop.simps) (simp add: skipped_range_def)
next
  case (Suc d)
  then have lt: "unat n < unat until" by simp
  note u = unat_next [OF lt]
  have le: "n + 1 \<le> until" using lt u by (simp add: word_le_nat_alt)
  have r: "skipped_range C hk now ck0 n until = \<lparr>sk_hk = hk, sk_n = n, sk_mk = msg_key C ck0 (unat n), stored_at = now\<rparr>
      # skipped_range C hk now ck0 (n + 1) until"
    using lt by (simp add: skipped_range_def u upt_conv_Cons)
  have "skip_loop C hk now until (chain C ck0 (unat (n + 1))) (n + 1) t
      = (chain C ck0 (unat until), until, t @ skipped_range C hk now ck0 (n + 1) until)" for t
    using Suc.hyps(1) [OF _ le] Suc.hyps(2) u by simp
  with lt r show ?case
    by (subst skip_loop.simps) (simp add: word_less_nat_alt kdf_ck_chain u del: chain.simps(2))
qed

lemma skip_loop_none: "until \<le> n \<Longrightarrow> skip_loop C hk now until ck n sks = (ck, n, sks)"
  by (subst skip_loop.simps) (simp add: word_le_nat_alt word_less_nat_alt)

lemma cap_skipped_eq: "cap_skipped sks = drop (length sks - 2000) sks"
proof (induction sks rule: cap_skipped.induct)
  case (1 sks)
  show ?case
  proof (cases "length sks > 2000")
    case True
    then have "drop (length sks - 2000) sks = drop (length (tl sks) - 2000) (tl sks)"
      by (cases sks) (simp_all add: drop_Cons')
    with 1 True show ?thesis by (subst cap_skipped.simps) simp
  qed (subst cap_skipped.simps, simp)
qed

lemma saturating_add_le: "until \<le> saturating_add n 1000 \<Longrightarrow> unat until \<le> unat n + 1000" for until :: u32
  using unat_u32 [of until]
  by (auto simp: saturating_add_def checked_add_def word_le_nat_alt unat_word_ariths split: if_splits)

lemma le_saturating_add: "unat until \<le> unat n + 1000 \<Longrightarrow> until \<le> saturating_add n 1000" for until :: u32
  by (cases "checked_add n 1000")
    (simp_all add: saturating_add_def word_le_nat_alt word_order.extremum [unfolded word_le_nat_alt] checked_add_Some)

text \<open>What skipping does on a chain: keys up to the target are stored and the chain advances.\<close>

lemma skip_message_keys_chain:
  assumes "ckr s = Some (chain C ck0 (unat (nr s)))" "hkr s = Some hk" "unat until \<le> unat (nr s) + 1000"
    and m: "m = max until (nr s)"
  shows "skip_message_keys C until now s = Some (s\<lparr>nr := m, ckr := Some (chain C ck0 (unat m)),
    skipped := cap_skipped (skipped s @ skipped_range C hk now ck0 (nr s) m)\<rparr>, Inr ())"
proof -
  have "\<not> until > saturating_add (nr s) MAX_SKIP" using le_saturating_add [OF assms(3)] by simp
  moreover have "skip_loop C hk now until (chain C ck0 (unat (nr s))) (nr s) (skipped s)
      = (chain C ck0 (unat m), m, skipped s @ skipped_range C hk now ck0 (nr s) m)"
  proof (cases "nr s \<le> until")
    case True
    then show ?thesis by (simp add: m max_def skip_loop_eq)
  next
    case False
    then have "m = nr s" "until \<le> nr s" by (auto simp: m max_def)
    then show ?thesis by (simp add: skip_loop_none skipped_range_def)
  qed
  ultimately show ?thesis using assms(1,2) by (simp add: skip_message_keys_def)
qed

lemma skip_message_keys_far:
  "unat until > unat (nr s) + 1000 \<Longrightarrow> skip_message_keys C until now s = Some (s, Inl TooManySkipped)"
  using saturating_add_le [of until "nr s"] by (auto simp: skip_message_keys_def not_less)

lemma skip_message_keys_no_chain:
  "ckr s = None \<Longrightarrow> skip_message_keys C until now s = Some (s, if until = 0 then Inr () else Inl TooManySkipped)"
  by (auto simp: skip_message_keys_def)

section \<open>A session never panics\<close>

text \<open>The receiving chain and its header key come together, and so do the sending ones.\<close>

definition wf_session :: "Session \<Rightarrow> bool" where
  "wf_session s \<longleftrightarrow> (ckr s = None \<longleftrightarrow> hkr s = None) \<and> (cks s = None \<longleftrightarrow> hks s = None)
     \<and> length (dhs_pub s) = 32 \<and> length (skipped s) \<le> MAX_STORED_SKIPPED"

lemma wf_purge: "wf_session s \<Longrightarrow> wf_session (purge_expired now s)"
  by (auto simp: wf_session_def purge_expired_def intro: order.trans [OF length_filter_le])

lemma wf_skip:
  assumes "wf_session s"
  obtains s' r where "skip_message_keys C until now s = Some (s', r)" "wf_session s'"
    "hkr s' = hkr s" "ckr s' = None \<longleftrightarrow> ckr s = None"
proof -
  have "\<exists>s' r. skip_message_keys C until now s = Some (s', r) \<and> wf_session s' \<and> hkr s' = hkr s
      \<and> (ckr s' = None \<longleftrightarrow> ckr s = None)"
    using assms
    by (auto simp: skip_message_keys_def wf_session_def cap_skipped_eq Let_def split: option.splits prod.splits)
  then show thesis by (elim exE conjE) (rule that)
qed

lemma wf_dh_ratchet:
  assumes "sound_dh C" "wf_session s"
  shows "wf_session (dh_ratchet C h priv s)" "ckr (dh_ratchet C h priv s) \<noteq> None"
  using assms by (simp_all add: wf_session_def dh_ratchet_def sound_dh_def Let_def split: prod.splits)

lemma wf_decrypt_current:
  assumes "wf_session s" "ckr s \<noteq> None"
  shows "\<exists>s' r. decrypt_current C msg ad s = Some (s', r) \<and> wf_session s'"
  using assms by (auto simp: decrypt_current_def wf_session_def split: prod.splits sum.splits)

lemma wf_try_skipped: "wf_session s \<Longrightarrow> wf_session (fst (try_skipped C s msg ad))"
  by (auto simp: try_skipped_def wf_session_def split: sum.splits option.splits)

lemma try_skipped_same_keys: "hkr (fst (try_skipped C s msg ad)) = hkr s" "ckr (fst (try_skipped C s msg ad)) = ckr s"
  by (auto simp: try_skipped_def split: sum.splits option.splits)

lemma wf_decrypt_known:
  assumes "wf_session s" "ckr s \<noteq> None"
  shows "\<exists>s' r. decrypt_known C now msg ad hdr s = Some (s', r) \<and> wf_session s'"
proof (cases "header_decode hdr")
  case (Inr h)
  obtain s1 r where s1: "skip_message_keys C (h_n h) now s = Some (s1, r)" "wf_session s1" "ckr s1 \<noteq> None"
    using wf_skip [OF assms(1), of C "h_n h" now] assms(2) by metis
  show ?thesis using assms Inr s1 wf_decrypt_current [OF s1(2,3)] by (cases r) (auto simp: decrypt_known_def)
qed (use assms in \<open>simp add: decrypt_known_def\<close>)

lemma wf_decrypt_next:
  assumes "sound_dh C" "wf_session s"
  shows "\<exists>s' r. decrypt_next C priv now msg ad hdr s = Some (s', r) \<and> wf_session s'"
proof (cases "header_decode hdr")
  case (Inr h)
  obtain s1 r where s1: "skip_message_keys C (h_pn h) now s = Some (s1, r)" "wf_session s1"
    using wf_skip [OF assms(2), of C "h_pn h" now] by metis
  note w = wf_dh_ratchet [OF assms(1) s1(2), of h priv]
  obtain s2 r' where s2: "skip_message_keys C (h_n h) now (dh_ratchet C h priv s1) = Some (s2, r')" "wf_session s2"
    "ckr s2 \<noteq> None"
    using wf_skip [OF w(1), of C "h_n h" now] w(2) by metis
  show ?thesis
    using assms Inr s1 s2 wf_decrypt_current [OF s2(2,3)] by (cases r; cases r') (auto simp: decrypt_next_def)
qed (use assms in \<open>simp add: decrypt_next_def\<close>)

text \<open>
  C8. No message, however malformed, replayed or reordered, makes the receiving side of a session panic:
  each unwrap in the decryption path succeeds, the session stays well-formed, and it never stores more
  than the capped number of skipped keys.
\<close>

theorem session_never_panics:
  assumes "sound_dh C" "wf_session s"
  shows "\<exists>s' r. decrypt C priv s now msg ad = Some (s', r) \<and> wf_session s'"
proof -
  define t where "t = purge_expired now s"
  have t: "wf_session t" using wf_purge assms(2) by (simp add: t_def)
  obtain u r where u: "try_skipped C t msg ad = (u, r)" by (cases "try_skipped C t msg ad")
  have w: "wf_session u" using wf_try_skipped [OF t, of C msg ad] by (simp add: u)
  show ?thesis
    using w wf_decrypt_known [OF w] wf_decrypt_next [OF assms(1) w]
    by (auto simp: decrypt_def u wf_session_def simp flip: t_def split: sum.splits option.splits)
qed

definition toy_ratchet :: prims where
  "toy_ratchet = \<lparr>vk_from_bytes = (\<lambda>_. True), ed_verify = (\<lambda>_ _ _. True), ed_sign = (\<lambda>_ _. zeros 64),
     ed_public = (\<lambda>_. zeros 32), x_public = (\<lambda>_. zeros 32), x_dh = (\<lambda>_ _. zeros 32), sha256 = (\<lambda>_. zeros 32),
     hmac = (\<lambda>_ _. zeros 32),
     hkdf = (\<lambda>salt _ _ _. zeros 64 @ 7 # (case salt of None \<Rightarrow> [] | Some k \<Rightarrow> k)),
     aead_encrypt = (\<lambda>_ _ _ p. p @ zeros 16),
     aead_decrypt = (\<lambda>_ _ _ c. if drop (length c - 16) c = zeros 16 then Some (take (length c - 16) c) else None)\<rparr>"

lemma toy_ratchet_sound: "sound_aead toy_ratchet" "sound_dh toy_ratchet"
  by (simp_all add: sound_aead_def sound_dh_def toy_ratchet_def)

lemma wf_init:
  "sound_dh C \<Longrightarrow> wf_session (init_responder C sid root priv hka nhkb mbox ex)"
  "sound_dh C \<Longrightarrow> wf_session (init_initiator C priv sid root their hka nhkb mbox ex)"
  by (simp_all add: wf_session_def init_responder_def init_initiator_def sound_dh_def Let_def split: prod.splits)

theorem session_never_panics_witness:
  "\<exists>s r. decrypt toy_ratchet [8] (init_responder toy_ratchet [0] [9] [4] [1] [2] [] []) 0
     \<lparr>enc_header = [1, 2], msg_nonce = [], msg_ct = []\<rparr> [] = Some (s, r) \<and> wf_session s"
  using session_never_panics [OF toy_ratchet_sound(2) wf_init(1) [OF toy_ratchet_sound(2)]] .

text \<open>Nor does the sending side, once it has a chain.\<close>

lemma encrypt_never_panics:
  assumes "sound_aead C" "wf_session s" "cks s \<noteq> None" "length header_nonce = 24"
  shows "\<exists>m s'. encrypt C s now pt ad header_nonce nonce = Some (m, s') \<and> wf_session s' \<and> cks s' \<noteq> None"
proof -
  have w: "wf_session (purge_expired now s)" using assms(2) by (rule wf_purge)
  have f: "cks (purge_expired now s) = cks s" "hks (purge_expired now s) = hks s" "dhs_pub (purge_expired now s) = dhs_pub s"
    by (simp_all add: purge_expired_def)
  obtain ck hk where k: "cks s = Some ck" "hks s = Some hk" using assms(2,3) by (auto simp: wf_session_def)
  have l: "length (aead_seal C hk d (header_encode \<lparr>h_dh = dhs_pub s, h_pn = x, h_n = y\<rparr>) header_nonce) = 80" for d x y
    using assms by (simp add: aead_seal_def sound_aead_def length_header_encode wf_session_def)
  obtain a b where c: "kdf_ck C ck = (a, b)" by (cases "kdf_ck C ck")
  show ?thesis using w by (simp add: encrypt_def f k c l Let_def) (simp add: wf_session_def f k)
qed

section \<open>Storage\<close>

text \<open>The service exporter is skipped by the serialisation and comes back empty.\<close>

lemma unseal_seal:
  assumes "sound_aead C" "length nonce = 24"
    and "\<And>t plain. to_vec t = Some plain \<Longrightarrow> from_bytes plain = Some (t\<lparr>hybrid_service_exporter := None\<rparr>)"
    and "seal_session C to_vec s key nonce = Some b"
  shows "unseal_session C from_bytes b key = Inr (restore_hybrid_service_exporter None s)"
  using assms(4) assms(3) aead_open_seal [OF assms(1,2)]
  by (auto simp: seal_session_def unseal_session_def restore_hybrid_service_exporter_def)

end
