(* ===== verification/Ratchet_Net.thy ===== *)
theory Ratchet_Net
  imports Ratchet
begin

text \<open>
  Two ratchet sessions and a hostile network. Either side may send at any time; the network may deliver
  any bytes at all, so it may lose, delay, reorder, duplicate, mix and tamper. It cannot forge: a header
  or payload that authenticates under a key of the session was made by the peer, which is the
  assumption on authenticated encryption recorded in each delivery step.

  The invariant relates the chain keys of both ends. It gives authenticity without replay for every
  schedule, and delivery of every message whose key is still within reach.
\<close>

section \<open>The network\<close>

text \<open>A record of one sent message: the keys and the header it was made with, and its contents.\<close>

record packet =
  pk_hk :: bytes
  pk_mk :: bytes
  pk_header :: Header
  pk_plain :: bytes
  pk_ad :: bytes
  pk_msg :: RatchetMessage

definition sent_packet :: "prims \<Rightarrow> Session \<Rightarrow> bytes \<Rightarrow> bytes \<Rightarrow> RatchetMessage \<Rightarrow> packet" where
  "sent_packet C s plaintext user_ad m =
     \<lparr>pk_hk = the (hks s), pk_mk = snd (kdf_ck C (the (cks s))),
      pk_header = \<lparr>h_dh = dhs_pub s, h_pn = pn s, h_n = ns s\<rparr>,
      pk_plain = plaintext, pk_ad = user_ad, pk_msg = m\<rparr>"

abbreviation pk_n :: "packet \<Rightarrow> u32" where
  "pk_n p \<equiv> h_n (pk_header p)"

definition packet_id :: "packet \<Rightarrow> bytes \<times> u32" where
  "packet_id p = (pk_hk p, pk_n p)"

abbreviation contents :: "packet \<Rightarrow> bytes \<times> bytes" where
  "contents p \<equiv> (pk_plain p, pk_ad p)"

text \<open>
  No forgery against the receiver: a header that opens under one of its header keys is the header of a
  sent packet and only of packets under that key, and a payload that opens under the key of a sent
  packet is that packet.
\<close>

definition header_keys :: "Session \<Rightarrow> bytes set" where
  "header_keys s = insert (nhkr s) (set_option (hkr s) \<union> sk_hk ` set (skipped s))"

definition authentic_header :: "prims \<Rightarrow> Session \<Rightarrow> packet list \<Rightarrow> RatchetMessage \<Rightarrow> bytes \<Rightarrow> bool" where
  "authentic_header C s sent m k \<longleftrightarrow>
     (\<forall>hdr. aead_open C k (header_ad s) (enc_header m) = Inr hdr \<longrightarrow>
        (\<exists>p\<in>set sent. enc_header (pk_msg p) = enc_header m)
        \<and> (\<forall>p\<in>set sent. enc_header (pk_msg p) = enc_header m \<longrightarrow> pk_hk p = k))"

definition authentic_payload :: "prims \<Rightarrow> Session \<Rightarrow> packet list \<Rightarrow> RatchetMessage \<Rightarrow> bytes \<Rightarrow> bool" where
  "authentic_payload C s sent m user_ad \<longleftrightarrow>
     (\<forall>q\<in>set sent. \<forall>pt.
        aead_decrypt C (pk_mk q) (msg_nonce m) (payload_ad s (enc_header m) user_ad) (msg_ct m) = Some pt \<longrightarrow>
        (\<exists>p\<in>set sent. pk_msg p = m \<and> pk_ad p = user_ad \<and> pk_mk p = pk_mk q))"

definition unforged :: "prims \<Rightarrow> Session \<Rightarrow> packet list \<Rightarrow> RatchetMessage \<Rightarrow> bytes \<Rightarrow> bool" where
  "unforged C s sent m user_ad \<longleftrightarrow>
     (\<forall>k\<in>header_keys s. authentic_header C s sent m k) \<and> authentic_payload C s sent m user_ad"

text \<open>A ratchet step derives a header key that was not used before.\<close>

definition fresh_key :: "Session \<Rightarrow> Session \<Rightarrow> packet list \<Rightarrow> bool" where
  "fresh_key s s' sent \<longleftrightarrow> hks s' = hks s \<or> (nhks s' \<notin> pk_hk ` set sent \<and> hks s' \<noteq> Some (nhks s'))"

record net =
  alice :: Session
  bob :: Session
  from_alice :: "packet list"
  from_bob :: "packet list"
  to_alice :: "(bytes \<times> bytes) list"
  to_bob :: "(bytes \<times> bytes) list"

definition accepted_contents :: "bytes cresult \<Rightarrow> bytes \<Rightarrow> (bytes \<times> bytes) list" where
  "accepted_contents r user_ad = (case r of Inr pt \<Rightarrow> [(pt, user_ad)] | Inl _ \<Rightarrow> [])"

inductive net_step :: "prims \<Rightarrow> net \<Rightarrow> net \<Rightarrow> bool" for C where
  alice_sends:
    "encrypt C (alice w) now pt ad hn nonce = Some (m, a) \<Longrightarrow> length hn = 24 \<Longrightarrow> ns (alice w) \<noteq> - 1 \<Longrightarrow>
     net_step C w (w\<lparr>alice := a, from_alice := from_alice w @ [sent_packet C (alice w) pt ad m]\<rparr>)"
| bob_sends:
    "encrypt C (bob w) now pt ad hn nonce = Some (m, b) \<Longrightarrow> length hn = 24 \<Longrightarrow> ns (bob w) \<noteq> - 1 \<Longrightarrow>
     net_step C w (w\<lparr>bob := b, from_bob := from_bob w @ [sent_packet C (bob w) pt ad m]\<rparr>)"
| bob_receives:
    "unforged C (bob w) (from_alice w) m ad \<Longrightarrow> decrypt C priv (bob w) now m ad = Some (b, r) \<Longrightarrow>
     fresh_key (bob w) b (from_bob w) \<Longrightarrow>
     net_step C w (w\<lparr>bob := b, to_bob := to_bob w @ accepted_contents r ad\<rparr>)"
| alice_receives:
    "unforged C (alice w) (from_bob w) m ad \<Longrightarrow> decrypt C priv (alice w) now m ad = Some (a, r) \<Longrightarrow>
     fresh_key (alice w) a (from_alice w) \<Longrightarrow>
     net_step C w (w\<lparr>alice := a, to_alice := to_alice w @ accepted_contents r ad\<rparr>)"

definition net_start :: "prims \<Rightarrow> bytes \<Rightarrow> bytes \<Rightarrow> bytes \<Rightarrow> bytes \<Rightarrow> bytes \<Rightarrow> bytes \<Rightarrow> bytes \<Rightarrow> bytes \<Rightarrow> net" where
  "net_start C priv_a priv_b sid root hka nhkb mbox exporter =
     \<lparr>alice = init_initiator C priv_a sid root (x_public C priv_b) hka nhkb mbox exporter,
      bob = init_responder C sid root priv_b hka nhkb mbox exporter,
      from_alice = [], from_bob = [], to_alice = [], to_bob = []\<rparr>"

section \<open>The invariant\<close>

text \<open>\<open>K\<close> gives the first chain key of the chain that a header key belongs to.\<close>

definition good_packet :: "prims \<Rightarrow> (bytes \<Rightarrow> bytes) \<Rightarrow> Session \<Rightarrow> packet \<Rightarrow> bool" where
  "good_packet C K s p \<longleftrightarrow>
     aead_open C (pk_hk p) (header_ad s) (enc_header (pk_msg p)) = Inr (header_encode (pk_header p))
     \<and> length (h_dh (pk_header p)) = 32
     \<and> aead_decrypt C (pk_mk p) (msg_nonce (pk_msg p)) (payload_ad s (enc_header (pk_msg p)) (pk_ad p)) (msg_ct (pk_msg p))
         = Some (pk_plain p)
     \<and> pk_mk p = msg_key C (K (pk_hk p)) (unat (pk_n p)) \<and> pk_n p \<noteq> - 1"

definition sending :: "prims \<Rightarrow> (bytes \<Rightarrow> bytes) \<Rightarrow> Session \<Rightarrow> packet list \<Rightarrow> bool" where
  "sending C K s P \<longleftrightarrow>
     (\<forall>p\<in>set P. good_packet C K s p) \<and> distinct (map packet_id P)
     \<and> (cks s = None \<longleftrightarrow> hks s = None)
     \<and> (\<forall>hk. hks s = Some hk \<longrightarrow> cks s = Some (chain C (K hk) (unat (ns s))) \<and> (\<forall>p\<in>set P. pk_hk p = hk \<longrightarrow> pk_n p < ns s))
     \<and> nhks s \<notin> pk_hk ` set P \<and> hks s \<noteq> Some (nhks s) \<and> length (dhs_pub s) = 32"

definition good_skipped :: "prims \<Rightarrow> (bytes \<Rightarrow> bytes) \<Rightarrow> packet list \<Rightarrow> Session \<Rightarrow> packet list \<Rightarrow> SkippedKey \<Rightarrow> bool" where
  "good_skipped C K P s G sk \<longleftrightarrow>
     sk_hk sk \<in> pk_hk ` set P \<and> sk_mk sk = msg_key C (K (sk_hk sk)) (unat (sk_n sk))
     \<and> (sk_hk sk, sk_n sk) \<notin> packet_id ` set G \<and> (hkr s = Some (sk_hk sk) \<longrightarrow> sk_n sk < nr s) \<and> sk_hk sk \<noteq> nhkr s"

definition receiving :: "prims \<Rightarrow> (bytes \<Rightarrow> bytes) \<Rightarrow> packet list \<Rightarrow> Session \<Rightarrow> packet list \<Rightarrow> bool" where
  "receiving C K P s G \<longleftrightarrow>
     (\<forall>sk\<in>set (skipped s). good_skipped C K P s G sk)
     \<and> distinct (map (\<lambda>sk. (sk_hk sk, sk_n sk)) (skipped s))
     \<and> (hkr s = None \<longleftrightarrow> ckr s = None)
     \<and> (\<forall>hk. hkr s = Some hk \<longrightarrow> hk \<in> pk_hk ` set P \<and> ckr s = Some (chain C (K hk) (unat (nr s)))
          \<and> (\<forall>g\<in>set G. pk_hk g = hk \<longrightarrow> pk_n g < nr s) \<and> hk \<noteq> nhkr s)
     \<and> (\<forall>g\<in>set G. pk_hk g \<noteq> nhkr s) \<and> distinct G \<and> set G \<subseteq> set P"

text \<open>The side that ratcheted last is ahead: the peer will follow when it sees the new chain.\<close>

definition ahead :: "prims \<Rightarrow> (bytes \<Rightarrow> bytes) \<Rightarrow> Session \<Rightarrow> packet list \<Rightarrow> Session \<Rightarrow> bool" where
  "ahead C K s P t \<longleftrightarrow>
     hks s = Some (nhkr t) \<and> nhkr s = nhks t \<and> dhs_pub s = x_public C (dhs_priv s)
     \<and> kdf_rk C (rk t) (x_dh C (dhs_priv t) (dhs_pub s)) = (rk s, K (nhkr t), nhks s)
     \<and> (\<forall>p\<in>set P. pk_hk p = nhkr t \<longrightarrow> h_dh (pk_header p) = dhs_pub s)"

definition linked :: "prims \<Rightarrow> (bytes \<Rightarrow> bytes) \<Rightarrow> Session \<Rightarrow> packet list \<Rightarrow> packet list
    \<Rightarrow> (bytes \<Rightarrow> bytes) \<Rightarrow> Session \<Rightarrow> packet list \<Rightarrow> packet list \<Rightarrow> bool" where
  "linked C K s P G K' t Q H \<longleftrightarrow>
     session_id s = session_id t \<and> sending C K s P \<and> sending C K' t Q
     \<and> receiving C K P t H \<and> receiving C K' Q s G \<and> (ahead C K s P t \<or> ahead C K' t Q s)"

text \<open>\<open>G\<close> are the packets the first side accepted, \<open>H\<close> those the second side accepted.\<close>

lemma linked_sym: "linked C K s P G K' t Q H \<longleftrightarrow> linked C K' t Q H K s P G"
  by (auto simp: linked_def)

lemma ad_cong:
  "session_id s = session_id t \<Longrightarrow> header_ad s = header_ad t"
  "session_id s = session_id t \<Longrightarrow> payload_ad s e a = payload_ad t e a"
  by (simp_all add: header_ad_def payload_ad_def base_ad_def)

lemma good_packet_cong: "session_id s = session_id t \<Longrightarrow> good_packet C K s p = good_packet C K t p"
  using ad_cong [of s t] by (simp add: good_packet_def)

lemma good_packetD:
  assumes "good_packet C K s p"
  shows "aead_open C (pk_hk p) (header_ad s) (enc_header (pk_msg p)) = Inr (header_encode (pk_header p))"
    and "header_decode (header_encode (pk_header p)) = Inr (pk_header p)"
    and "aead_decrypt C (msg_key C (K (pk_hk p)) (unat (pk_n p))) (msg_nonce (pk_msg p))
      (payload_ad s (enc_header (pk_msg p)) (pk_ad p)) (msg_ct (pk_msg p)) = Some (pk_plain p)"
    and "pk_mk p = msg_key C (K (pk_hk p)) (unat (pk_n p))"
  using assms header_decode_encode unfolding good_packet_def by metis+

lemma good_packet_chain: "K (pk_hk p) = K' (pk_hk p) \<Longrightarrow> good_packet C K s p = good_packet C K' s p"
  by (simp add: good_packet_def)

section \<open>Sending keeps the invariant\<close>

lemma encrypt_SomeE:
  assumes "encrypt C s now pt ad hn nonce = Some (m, s')"
  obtains hk ck enc where "hks s = Some hk" "cks s = Some ck"
    "s' = (purge_expired now s)\<lparr>cks := Some (fst (kdf_ck C ck)), ns := ns s + 1\<rparr>"
    "enc = aead_seal C hk (header_ad s) (header_encode \<lparr>h_dh = dhs_pub s, h_pn = pn s, h_n = ns s\<rparr>) hn"
    "m = \<lparr>enc_header = enc, msg_nonce = nonce,
          msg_ct = aead_encrypt C (snd (kdf_ck C ck)) nonce (payload_ad s enc ad) pt\<rparr>"
proof -
  have ad: "header_ad (purge_expired now s\<lparr>cks := x\<rparr>) = header_ad s"
    "payload_ad (purge_expired now s\<lparr>cks := x\<rparr>) e a = payload_ad s e a" for x e a
    by (simp_all add: header_ad_def payload_ad_def base_ad_def purge_expired_def)
  have f: "cks (purge_expired now s) = cks s" "hks (purge_expired now s) = hks s" "ns (purge_expired now s) = ns s"
    "pn (purge_expired now s) = pn s" "dhs_pub (purge_expired now s) = dhs_pub s"
    by (simp_all add: purge_expired_def)
  show thesis
    using assms that
    by (auto simp: encrypt_def Let_def f ad aead_encrypt_with_nonce_def split: option.splits prod.splits if_splits)
qed

lemma purge_fields [simp]:
  "session_id (purge_expired now s) = session_id s" "dhs_priv (purge_expired now s) = dhs_priv s"
  "dhs_pub (purge_expired now s) = dhs_pub s" "rk (purge_expired now s) = rk s" "cks (purge_expired now s) = cks s"
  "ckr (purge_expired now s) = ckr s" "hks (purge_expired now s) = hks s" "hkr (purge_expired now s) = hkr s"
  "nhks (purge_expired now s) = nhks s" "nhkr (purge_expired now s) = nhkr s" "ns (purge_expired now s) = ns s"
  "nr (purge_expired now s) = nr s" "set (skipped (purge_expired now s)) \<subseteq> set (skipped s)"
  by (auto simp: purge_expired_def)

lemma receivingI:
  assumes "\<And>sk. sk \<in> set (skipped s) \<Longrightarrow> good_skipped C K P s G sk"
    and "distinct (map (\<lambda>sk. (sk_hk sk, sk_n sk)) (skipped s))"
    and "hkr s = None \<longleftrightarrow> ckr s = None"
    and "\<And>hk. hkr s = Some hk \<Longrightarrow> hk \<in> pk_hk ` set P \<and> ckr s = Some (chain C (K hk) (unat (nr s))) \<and> hk \<noteq> nhkr s"
    and "\<And>hk g. hkr s = Some hk \<Longrightarrow> g \<in> set G \<Longrightarrow> pk_hk g = hk \<Longrightarrow> pk_n g < nr s"
    and "\<And>g. g \<in> set G \<Longrightarrow> pk_hk g \<noteq> nhkr s" and "distinct G" and "set G \<subseteq> set P"
  shows "receiving C K P s G"
  unfolding receiving_def using assms by blast

lemma receivingD:
  assumes "receiving C K P s G"
  shows "\<And>sk. sk \<in> set (skipped s) \<Longrightarrow> good_skipped C K P s G sk"
    and "distinct (map (\<lambda>sk. (sk_hk sk, sk_n sk)) (skipped s))"
    and "hkr s = None \<longleftrightarrow> ckr s = None"
    and "\<And>hk. hkr s = Some hk \<Longrightarrow> hk \<in> pk_hk ` set P \<and> ckr s = Some (chain C (K hk) (unat (nr s))) \<and> hk \<noteq> nhkr s"
    and "\<And>hk g. hkr s = Some hk \<Longrightarrow> g \<in> set G \<Longrightarrow> pk_hk g = hk \<Longrightarrow> pk_n g < nr s"
    and "\<And>g. g \<in> set G \<Longrightarrow> pk_hk g \<noteq> nhkr s" and "distinct G" and "set G \<subseteq> set P"
  using assms unfolding receiving_def by blast+

lemma receiving_purge: "receiving C K P s G \<Longrightarrow> receiving C K P (purge_expired now s) G"
  unfolding receiving_def good_skipped_def
  by (auto simp: distinct_map_filter purge_expired_def)

lemma receiving_mono: "receiving C K P s G \<Longrightarrow> set P \<subseteq> set P' \<Longrightarrow> receiving C K P' s G"
  unfolding receiving_def good_skipped_def by blast

lemma receiving_cong:
  assumes r: "receiving C K P s G"
    and f: "skipped t = skipped s" "hkr t = hkr s" "ckr t = ckr s" "nr t = nr s" "nhkr t = nhkr s"
    and k: "\<And>k. k \<in> pk_hk ` set P \<Longrightarrow> K' k = K k"
  shows "receiving C K' P t G"
proof -
  have "good_skipped C K' P t G sk" if "good_skipped C K P s G sk" for sk
    using that f k [of "sk_hk sk"] by (simp add: good_skipped_def)
  moreover have "hk \<in> pk_hk ` set P \<and> ckr t = Some (chain C (K' hk) (unat (nr t)))" if "hkr t = Some hk" for hk
    using r that f k [of hk] by (simp add: receiving_def)
  ultimately show ?thesis using r f by (simp add: receiving_def)
qed

lemma sending_encrypt:
  assumes a: "sound_aead C" and s: "sending C K s P" and e: "encrypt C s now pt ad hn nonce = Some (m, s')"
    and n: "length hn = 24" "ns s \<noteq> - 1"
  shows "sending C K s' (P @ [sent_packet C s pt ad m])"
proof -
  obtain hk ck enc where hk: "hks s = Some hk" and ck: "cks s = Some ck"
    and s': "s' = (purge_expired now s)\<lparr>cks := Some (fst (kdf_ck C ck)), ns := ns s + 1\<rparr>"
    and enc: "enc = aead_seal C hk (header_ad s) (header_encode \<lparr>h_dh = dhs_pub s, h_pn = pn s, h_n = ns s\<rparr>) hn"
    and m: "m = \<lparr>enc_header = enc, msg_nonce = nonce,
          msg_ct = aead_encrypt C (snd (kdf_ck C ck)) nonce (payload_ad s enc ad) pt\<rparr>"
    using encrypt_SomeE [OF e] .
  let ?p = "sent_packet C s pt ad m"
  have c: "ck = chain C (K hk) (unat (ns s))" and old: "\<And>p. p \<in> set P \<Longrightarrow> pk_hk p = hk \<Longrightarrow> pk_n p < ns s"
    using s hk ck by (auto simp: sending_def)
  have p: "pk_hk ?p = hk" "pk_n ?p = ns s" by (simp_all add: sent_packet_def hk)
  have "unat (ns s) < unat (- 1 :: u32)" using n(2) by (simp add: word_less_nat_alt [symmetric] word_order.not_eq_extremum)
  then have u: "unat (ns s + 1) = Suc (unat (ns s))" by (rule unat_next)
  have "good_packet C K s ?p"
    using a n s c aead_open_seal [OF a n(1)]
    by (simp add: good_packet_def sent_packet_def hk ck m enc sending_def msg_key_def sound_aead_def)
  then have g: "\<forall>p\<in>set (P @ [?p]). good_packet C K s' p"
    using s good_packet_cong [of s' s C K] by (auto simp: sending_def s')
  have "packet_id ?p \<noteq> packet_id q" if "q \<in> set P" for q using old [OF that] p by (auto simp: packet_id_def)
  then have d: "distinct (map packet_id (P @ [?p]))" using s by (auto simp: sending_def)
  have l: "\<forall>q\<in>set (P @ [?p]). pk_hk q = hk \<longrightarrow> pk_n q < ns s + 1"
    using old p by (auto simp: word_less_nat_alt u less_Suc_eq)
  have k: "fst (kdf_ck C ck) = chain C (K hk) (unat (ns s + 1))" by (simp add: c u)
  have "nhks s \<noteq> hk" using s hk by (auto simp: sending_def)
  with g d l s hk p k show ?thesis by (simp add: sending_def s')
qed

lemma ahead_encrypt:
  assumes "encrypt C s now pt ad hn nonce = Some (m, s')"
  shows "ahead C K s P t \<Longrightarrow> ahead C K s' (P @ [sent_packet C s pt ad m]) t" "ahead C K' t Q s \<Longrightarrow> ahead C K' t Q s'"
proof -
  obtain x y where "s' = (purge_expired now s)\<lparr>cks := x, ns := y\<rparr>" using encrypt_SomeE [OF assms] by metis
  then show "ahead C K s P t \<Longrightarrow> ahead C K s' (P @ [sent_packet C s pt ad m]) t" "ahead C K' t Q s \<Longrightarrow> ahead C K' t Q s'"
    by (auto simp: ahead_def sent_packet_def)
qed

lemma linked_encrypt:
  assumes a: "sound_aead C" and l: "linked C K s P G K' t Q H"
    and e: "encrypt C s now pt ad hn nonce = Some (m, s')" and n: "length hn = 24" "ns s \<noteq> - 1"
  shows "linked C K s' (P @ [sent_packet C s pt ad m]) G K' t Q H"
proof -
  obtain x y where s': "s' = (purge_expired now s)\<lparr>cks := x, ns := y\<rparr>" using encrypt_SomeE [OF e] by metis
  have "receiving C K' Q s' G"
    using l receiving_cong [OF receiving_purge [of C K' Q s G now], of s' K'] by (simp add: linked_def s')
  moreover have "receiving C K (P @ [sent_packet C s pt ad m]) t H"
    using l by (auto simp: linked_def intro: receiving_mono)
  moreover have "sending C K s' (P @ [sent_packet C s pt ad m])"
    using sending_encrypt [OF a _ e n] l by (simp add: linked_def)
  moreover have "ahead C K s' (P @ [sent_packet C s pt ad m]) t \<or> ahead C K' t Q s'"
    using l ahead_encrypt [OF e] by (auto simp: linked_def)
  ultimately show ?thesis using l by (simp add: linked_def s')
qed

section \<open>Receiving keeps the invariant\<close>

lemma authentic_cong:
  assumes "session_id s = session_id t"
  shows "authentic_header C s P m k = authentic_header C t P m k"
    "authentic_payload C s P m ad = authentic_payload C t P m ad"
  using ad_cong [OF assms] by (simp_all add: authentic_header_def authentic_payload_def)

text \<open>A header that opens is the header of a sent packet of that chain.\<close>

lemma opened_header:
  assumes "authentic_header C s P m k" "\<forall>p\<in>set P. good_packet C K s p"
    and "aead_open C k (header_ad s) (enc_header m) = Inr hdr"
  obtains q where "q \<in> set P" "pk_hk q = k" "enc_header (pk_msg q) = enc_header m"
    "header_decode hdr = Inr (pk_header q)"
proof -
  obtain q where q: "q \<in> set P" "enc_header (pk_msg q) = enc_header m" "pk_hk q = k"
    using assms(1,3) unfolding authentic_header_def by blast
  then have "good_packet C K s q" using assms(2) by blast
  then have "header_decode hdr = Inr (pk_header q)"
    using q assms(3) header_decode_encode by (auto simp: good_packet_def)
  then show thesis using that q by blast
qed

text \<open>A payload that opens under the key of that header is the packet itself.\<close>

lemma opened_payload:
  assumes k: "authentic_header C s P m k" and u: "authentic_payload C s P m ad"
    and g: "\<forall>p\<in>set P. good_packet C K s p"
    and o: "aead_open C k (header_ad s) (enc_header m) = Inr hdr" and h: "header_decode hdr = Inr h"
    and d: "aead_decrypt C (msg_key C (K k) (unat (h_n h))) (msg_nonce m) (payload_ad s (enc_header m) ad) (msg_ct m)
      = Some pt"
  obtains p where "p \<in> set P" "packet_id p = (k, h_n h)" "contents p = (pt, ad)"
proof -
  obtain q where q: "q \<in> set P" "pk_hk q = k" "pk_header q = h"
    using opened_header [OF k g o] h by (metis Inr_inject)
  then have "pk_mk q = msg_key C (K k) (unat (h_n h))" using g by (auto simp: good_packet_def)
  then obtain p where p: "p \<in> set P" "pk_msg p = m" "pk_ad p = ad" "pk_mk p = pk_mk q"
    using u d q(1) unfolding authentic_payload_def by metis
  have gp: "good_packet C K s p" using g p by blast
  have hk: "pk_hk p = k" using k o p(1,2) unfolding authentic_header_def by blast
  then have "header_decode hdr = Inr (pk_header p)" using gp o p(2) header_decode_encode by (auto simp: good_packet_def)
  then have "packet_id p = (k, h_n h)" using h hk by (simp add: packet_id_def)
  moreover have "contents p = (pt, ad)" using gp d p \<open>pk_mk q = _\<close> by (simp add: good_packet_def)
  ultimately show thesis using that p(1) by blast
qed

lemma try_keys_hit:
  "try_keys C ad enc all tried rest = Inr (Some i) \<Longrightarrow>
   \<exists>sk\<in>set rest. \<exists>hdr h. aead_open C (sk_hk sk) ad enc = Inr hdr \<and> header_decode hdr = Inr h
     \<and> i < length all \<and> sk_hk (all ! i) = sk_hk sk \<and> sk_n (all ! i) = h_n h"
proof (induction rest arbitrary: tried)
  case (Cons sk rest)
  show ?case
  proof (cases "sk_hk sk \<in> set tried \<or> (\<exists>e. aead_open C (sk_hk sk) ad enc = Inl e)")
    case True
    then have "\<exists>tried. try_keys C ad enc all tried rest = Inr (Some i)" using Cons.prems by (auto split: if_splits)
    then show ?thesis using Cons.IH by (metis list.set_intros(2))
  next
    case False
    then obtain hdr where o: "aead_open C (sk_hk sk) ad enc = Inr hdr" by (cases "aead_open C (sk_hk sk) ad enc") auto
    with False Cons.prems obtain h where "header_decode hdr = Inr h"
      "find_index (\<lambda>c. sk_hk c = sk_hk sk \<and> sk_n c = h_n h) all = Some i"
      by (auto simp: result_simps)
    with o show ?thesis using find_index_Some by fastforce
  qed
qed simp

lemma receiving_hit:
  assumes r: "receiving C K P s G" and i: "i < length (skipped s)" and p: "p \<in> set P"
    and id: "packet_id p = (sk_hk (skipped s ! i), sk_n (skipped s ! i))"
  shows "receiving C K P (s\<lparr>skipped := take i (skipped s) @ drop (Suc i) (skipped s)\<rparr>) (G @ [p])"
proof -
  let ?f = "\<lambda>sk. (sk_hk sk, sk_n sk)"
  let ?xs = "take i (skipped s) @ drop (Suc i) (skipped s)"
  have d: "distinct (map ?f (skipped s))" using r by (simp add: receiving_def)
  note x = distinct_remove_nth [OF d i]
  have g: "good_skipped C K P s G (skipped s ! i)" using r i by (simp add: receiving_def)
  have new: "good_skipped C K P (s\<lparr>skipped := ?xs\<rparr>) (G @ [p]) sk" if "sk \<in> set ?xs" for sk
  proof -
    have "good_skipped C K P s G sk" using r x(3) that by (auto simp: receiving_def)
    moreover have "?f sk \<noteq> packet_id p" using x(2) imageI [OF that, of ?f] unfolding id by metis
    ultimately show ?thesis by (simp add: good_skipped_def)
  qed
  have "packet_id p \<notin> packet_id ` set G" using g id by (simp add: good_skipped_def)
  then have n: "p \<notin> set G" by blast
  have n': "pk_hk p \<noteq> nhkr s" "hkr s = Some (pk_hk p) \<longrightarrow> pk_n p < nr s"
    using g id by (simp_all add: good_skipped_def packet_id_def)
  show ?thesis
  proof (rule receivingI)
    show "pk_n q < nr (s\<lparr>skipped := ?xs\<rparr>)"
      if "hkr (s\<lparr>skipped := ?xs\<rparr>) = Some hk" "q \<in> set (G @ [p])" "pk_hk q = hk" for hk q
      using that n'(2) receivingD(5) [OF r, of hk q] by auto
    show "pk_hk q \<noteq> nhkr (s\<lparr>skipped := ?xs\<rparr>)" if "q \<in> set (G @ [p])" for q
      using that n'(1) receivingD(6) [OF r, of q] by auto
    show "good_skipped C K P (s\<lparr>skipped := ?xs\<rparr>) (G @ [p]) sk" if "sk \<in> set (skipped (s\<lparr>skipped := ?xs\<rparr>))" for sk
      using that new by simp
    show "distinct (G @ [p])" using n receivingD(7) [OF r] by simp
    show "set (G @ [p]) \<subseteq> set P" using p receivingD(8) [OF r] by simp
  qed (use receivingD(3,4) [OF r] x(1) in simp_all)
qed

lemma skipped_range_ids:
  "map (\<lambda>sk. (sk_hk sk, sk_n sk)) (skipped_range C hk now ck a b) = map (\<lambda>i. (hk, word_of_nat i)) [unat a..<unat b]"
  by (simp add: skipped_range_def comp_def)

lemma distinct_skipped_range: "distinct (map (\<lambda>sk. (sk_hk sk, sk_n sk)) (skipped_range C hk now ck a b))"
  unfolding skipped_range_ids
  by (auto simp: distinct_map inj_on_def dest!: arg_cong [where f = unat] simp: unat_of_nat_u32)

text \<open>Most steps touch only the receiving chain.\<close>

definition chain_only :: "Session \<Rightarrow> Session \<Rightarrow> bool" where
  "chain_only s s' \<longleftrightarrow> (\<exists>n c sks. s' = s\<lparr>nr := n, ckr := c, skipped := sks\<rparr>)"

lemma chain_onlyI: "chain_only s (s\<lparr>nr := n, ckr := c, skipped := sks\<rparr>)"
  by (auto simp: chain_only_def)

lemma update_swap: "s\<lparr>ckr := c, nr := n\<rparr> = s\<lparr>nr := n, ckr := c\<rparr>"
  by simp

lemma chain_only_simps [simp]:
  "chain_only s s" "chain_only s (s\<lparr>skipped := sks\<rparr>)" "chain_only s (s\<lparr>ckr := c, nr := n\<rparr>)" "chain_only s (purge_expired now s)"
  using chain_onlyI [of s, where n = "nr s" and c = "ckr s" and sks = "skipped s"]
    chain_onlyI [of s, where n = "nr s" and c = "ckr s" and sks = sks]
    chain_onlyI [of s, where n = n and c = c and sks = "skipped s"]
    chain_onlyI [of s, where n = "nr s" and c = "ckr s" and sks = "skipped (purge_expired now s)"]
  by (simp_all add: purge_expired_def update_swap)

lemma chain_only_trans: "chain_only s t \<Longrightarrow> chain_only t u \<Longrightarrow> chain_only s u"
  unfolding chain_only_def by (elim exE) (rule exI, rule exI, rule exI, simp)

lemma chain_only_fields:
  assumes "chain_only s t"
  shows "session_id t = session_id s" "dhs_priv t = dhs_priv s" "dhs_pub t = dhs_pub s" "rk t = rk s" "cks t = cks s"
    "hks t = hks s" "hkr t = hkr s" "nhks t = nhks s" "nhkr t = nhkr s" "ns t = ns s" "pn t = pn s"
  using assms by (auto simp: chain_only_def)

text \<open>Skipping ahead on the current chain.\<close>

lemma receiving_skip:
  assumes r: "receiving C K P s G" and k: "skip_message_keys C until now s = Some (s', res)"
  shows "receiving C K P s' G" "chain_only s s'"
    "res = Inr () \<Longrightarrow> hkr s \<noteq> None \<Longrightarrow> nr s' = max until (nr s)"
proof -
  have "receiving C K P s' G \<and> chain_only s s'
    \<and> (res = Inr () \<longrightarrow> hkr s \<noteq> None \<longrightarrow> nr s' = max until (nr s))"
  proof (cases "hkr s = None \<or> unat until > unat (nr s) + 1000")
    case True
    then have "s' = s \<and> (res = Inr () \<longrightarrow> hkr s = None)"
      using k r skip_message_keys_no_chain [of s C until now] skip_message_keys_far [of s until C now]
      by (auto simp: receiving_def)
    then show ?thesis using r by auto
  next
    case False
    then obtain hk where hk: "hkr s = Some hk" by auto
    define m where "m = max until (nr s)"
    let ?new = "skipped_range C hk now (K hk) (nr s) m"
    let ?f = "\<lambda>sk. (sk_hk sk, sk_n sk)"
    have c: "ckr s = Some (chain C (K hk) (unat (nr s)))" and P: "hk \<in> pk_hk ` set P" and nx: "hk \<noteq> nhkr s"
      and G: "\<And>g. g \<in> set G \<Longrightarrow> pk_hk g = hk \<Longrightarrow> pk_n g < nr s"
      using r hk by (auto simp: receiving_def)
    have s': "s' = s\<lparr>nr := m, ckr := Some (chain C (K hk) (unat m)), skipped := cap_skipped (skipped s @ ?new)\<rparr>"
      and res: "res = Inr ()"
      using k skip_message_keys_chain [OF c hk, of until m now] False by (auto simp: m_def)
    have nm: "nr s \<le> m" by (simp add: m_def)
    have old: "good_skipped C K P s' G sk \<and> (sk_hk sk = hk \<longrightarrow> sk_n sk < nr s)" if "sk \<in> set (skipped s)" for sk
      using receivingD(1) [OF r that] hk nm by (auto simp: good_skipped_def s' dest: order.strict_trans2)
    have add: "good_skipped C K P s' G sk \<and> sk_hk sk = hk \<and> nr s \<le> sk_n sk" if new: "sk \<in> set ?new" for sk
    proof -
      obtain i where i: "unat (nr s) \<le> i" "i < unat m"
        and sk: "sk = \<lparr>sk_hk = hk, sk_n = word_of_nat i, sk_mk = msg_key C (K hk) i, stored_at = now\<rparr>"
        using new by (auto simp: skipped_range_def)
      note u = unat_of_nat_u32 [OF i(2)]
      have "(hk, word_of_nat i) \<notin> packet_id ` set G"
        using G i(1) u by (force simp: packet_id_def word_less_nat_alt)
      then show ?thesis using P nx i u hk
        by (auto simp: good_skipped_def s' sk word_less_nat_alt word_le_nat_alt)
    qed
    have "distinct (map ?f (skipped s @ ?new))"
    proof -
      have "?f x \<noteq> ?f y" if "x \<in> set (skipped s)" "y \<in> set ?new" for x y
        using old [OF that(1)] add [OF that(2)] by auto
      then have "?f ` set (skipped s) \<inter> ?f ` set ?new = {}" by blast
      then show ?thesis using receivingD(2) [OF r] distinct_skipped_range [of C hk now "K hk" "nr s" m] by simp
    qed
    then have d: "distinct (map ?f (skipped s'))"
      by (simp add: s' cap_skipped_eq drop_map [symmetric] distinct_drop del: drop_append)
    have "set (skipped s') \<subseteq> set (skipped s) \<union> set ?new"
      using set_drop_subset [of _ "skipped s @ ?new"] by (simp add: s' cap_skipped_eq del: drop_append)
    then have "\<forall>sk\<in>set (skipped s'). good_skipped C K P s' G sk" using old add by blast
    moreover have "\<And>g. g \<in> set G \<Longrightarrow> pk_hk g = hk \<Longrightarrow> pk_n g < m" using G nm by (auto dest: order.strict_trans2)
    ultimately have "receiving C K P s' G"
      using receivingD(6-8) [OF r] d hk P nx by (intro receivingI) (simp_all add: s')
    moreover have "chain_only s s'" unfolding s' by (rule chain_onlyI)
    ultimately show ?thesis using res hk by (simp add: s' m_def)
  qed
  then show "receiving C K P s' G" "chain_only s s'"
    "res = Inr () \<Longrightarrow> hkr s \<noteq> None \<Longrightarrow> nr s' = max until (nr s)" by blast+
qed

text \<open>The next message of the current chain is consumed.\<close>

lemma receiving_current:
  assumes r: "receiving C K P s G" and hk: "hkr s = Some hk" and p: "p \<in> set P" "packet_id p = (hk, nr s)" "pk_n p \<noteq> - 1"
  shows "receiving C K P (s\<lparr>ckr := Some (chain C (K hk) (Suc (unat (nr s)))), nr := nr s + 1\<rparr>) (G @ [p])"
    (is "receiving C K P ?s _")
proof -
  have id: "pk_hk p = hk" "pk_n p = nr s" using p(2) by (simp_all add: packet_id_def)
  have "unat (nr s) < unat (- 1 :: u32)"
    using p(3) id by (simp add: word_less_nat_alt [symmetric] word_order.not_eq_extremum)
  then have u: "unat (nr s + 1) = Suc (unat (nr s))" by (rule unat_next)
  have lt: "a < nr s + 1" if "a \<le> nr s" for a using that u by (simp add: word_less_nat_alt word_le_nat_alt)
  have nx: "hk \<noteq> nhkr s" using receivingD(4) [OF r hk] by blast
  show ?thesis
  proof (rule receivingI)
    show "good_skipped C K P ?s (G @ [p]) sk" if "sk \<in> set (skipped ?s)" for sk
    proof -
      have g: "good_skipped C K P s G sk" using receivingD(1) [OF r] that by simp
      then have "sk_hk sk = hk \<longrightarrow> sk_n sk < nr s" using hk by (simp add: good_skipped_def)
      with g show ?thesis using lt p(2) by (auto simp: good_skipped_def)
    qed
    show "pk_n q < nr ?s" if "hkr ?s = Some k" "q \<in> set (G @ [p])" "pk_hk q = k" for k q
      using that receivingD(5) [OF r hk, of q] hk id lt by auto
    show "pk_hk q \<noteq> nhkr ?s" if "q \<in> set (G @ [p])" for q
      using that receivingD(6) [OF r, of q] id nx by auto
    show "distinct (G @ [p])" using receivingD(7) [OF r] receivingD(5) [OF r hk, of p] id by auto
    show "set (G @ [p]) \<subseteq> set P" using receivingD(8) [OF r] p(1) by simp
    show "hk' \<in> pk_hk ` set P \<and> ckr ?s = Some (chain C (K hk') (unat (nr ?s))) \<and> hk' \<noteq> nhkr ?s"
      if "hkr ?s = Some hk'" for hk'
      using that receivingD(4) [OF r hk] hk u by simp
  qed (use receivingD(2) [OF r] hk in simp_all)
qed

text \<open>The ratchet step moves the receiver to the chain of its next header key.\<close>

lemma dh_ratchet_fields:
  assumes "kdf_rk C (rk s) (x_dh C (dhs_priv s) (h_dh h)) = (k1, c1, n1)"
    and "kdf_rk C k1 (x_dh C priv (h_dh h)) = (k2, c2, n2)"
  shows "dh_ratchet C h priv s = s\<lparr>pn := ns s, ns := 0, nr := 0, hks := Some (nhks s), hkr := Some (nhkr s),
    dhr := Some (h_dh h), rk := k2, ckr := Some c1, nhkr := n1, dhs_pub := x_public C priv, dhs_priv := priv,
    cks := Some c2, nhks := n2\<rparr>"
  using assms by (simp add: dh_ratchet_def)

lemma receiving_ratchet:
  assumes r: "receiving C K P s G" and k: "nhkr s \<in> pk_hk ` set P" and n: "n1 \<notin> pk_hk ` set P"
    and t: "skipped t = skipped s" "hkr t = Some (nhkr s)" "ckr t = Some (K (nhkr s))" "nr t = 0" "nhkr t = n1"
  shows "receiving C K P t G"
proof (rule receivingI)
  show "good_skipped C K P t G sk" if "sk \<in> set (skipped t)" for sk
    using receivingD(1) [OF r, of sk] that n t by (auto simp: good_skipped_def)
  show "pk_n g < nr t" if "hkr t = Some hk" "g \<in> set G" "pk_hk g = hk" for hk g
    using that receivingD(6) [OF r, of g] t by auto
  show "pk_hk g \<noteq> nhkr t" if "g \<in> set G" for g using that receivingD(8) [OF r] n t(5) by (metis imageI subsetD)
  show "hk \<in> pk_hk ` set P \<and> ckr t = Some (chain C (K hk) (unat (nr t))) \<and> hk \<noteq> nhkr t" if "hkr t = Some hk" for hk
    using that k n t by auto
qed (use receivingD(2,7,8) [OF r] t in simp_all)

text \<open>Decryption on the current chain, once the skip has aligned the counter with the header.\<close>

text \<open>What a delivery leaves: the invariant, with the accepted packet recorded.\<close>

definition delivered :: "prims \<Rightarrow> (bytes \<Rightarrow> bytes) \<Rightarrow> packet list \<Rightarrow> packet list \<Rightarrow> bytes \<Rightarrow> Session \<Rightarrow> bytes cresult
    \<Rightarrow> packet list \<Rightarrow> bool" where
  "delivered C K P G ad s res G' \<longleftrightarrow> receiving C K P s G'
     \<and> (case res of Inl _ \<Rightarrow> G' = G | Inr pt \<Rightarrow> \<exists>p. G' = G @ [p] \<and> contents p = (pt, ad))"

lemma delivered_error: "receiving C K P s G \<Longrightarrow> delivered C K P G ad s (Inl e) G"
  by (simp add: delivered_def)

lemma decrypt_current_step:
  assumes r: "receiving C K P s G" and g: "\<forall>p\<in>set P. good_packet C K s p"
    and u: "authentic_header C s P m hk" "authentic_payload C s P m ad"
    and hk: "hkr s = Some hk" and o: "aead_open C hk (header_ad s) (enc_header m) = Inr hdr"
    and h: "header_decode hdr = Inr h" and n: "nr s = h_n h" and d: "decrypt_current C m ad s = Some (s', res)"
  shows "\<exists>G'. delivered C K P G ad s' res G'" "chain_only s s'"
proof -
  let ?s = "s\<lparr>ckr := Some (chain C (K hk) (Suc (unat (nr s)))), nr := nr s + 1\<rparr>"
  let ?d = "aead_decrypt C (msg_key C (K hk) (unat (nr s))) (msg_nonce m) (payload_ad s (enc_header m) ad) (msg_ct m)"
  have ck: "ckr s = Some (chain C (K hk) (unat (nr s)))" using receivingD(4) [OF r hk] by blast
  have e: "decrypt_current C m ad s = (case ?d of None \<Rightarrow> Some (s, Inl MessageAuthentication) | Some pt \<Rightarrow> Some (?s, Inr pt))"
    by (simp add: decrypt_current_def ck kdf_ck_chain aead_decrypt_with_nonce_def ok_or_def
        del: chain.simps(2) split: option.split)
  have "(\<exists>G'. delivered C K P G ad s' res G') \<and> chain_only s s'"
  proof (cases ?d)
    case None
    with d e show ?thesis using delivered_error [OF r] by auto
  next
    case (Some pt)
    obtain p where p: "p \<in> set P" "packet_id p = (hk, h_n h)" "contents p = (pt, ad)"
      by (rule opened_payload [OF u g o h Some [unfolded n]])
    have "pk_n p \<noteq> - 1" using g p(1) by (simp add: good_packet_def)
    then have "receiving C K P ?s (G @ [p])" using receiving_current [OF r hk p(1)] p(2) n by simp
    moreover have "s' = ?s" "res = Inr pt" using d e Some by simp_all
    ultimately show ?thesis using p(3) by (auto simp: delivered_def)
  qed
  then show "\<exists>G'. delivered C K P G ad s' res G'" "chain_only s s'" by blast+
qed

lemma decrypt_known_step:
  assumes r: "receiving C K P s G" and g: "\<forall>p\<in>set P. good_packet C K s p"
    and u: "authentic_header C s P m hk" "authentic_payload C s P m ad"
    and hk: "hkr s = Some hk" and o: "aead_open C hk (header_ad s) (enc_header m) = Inr hdr"
    and d: "decrypt_known C now m ad hdr s = Some (s', res)"
  shows "\<exists>G'. delivered C K P G ad s' res G'" "chain_only s s'"
proof -
  obtain h where h: "header_decode hdr = Inr h" using opened_header [OF u(1) g o] by metis
  have "(\<exists>G'. delivered C K P G ad s' res G') \<and> chain_only s s'"
  proof (cases "h_n h < nr s")
    case True
    with d h show ?thesis using delivered_error [OF r] by (auto simp: decrypt_known_def)
  next
    case False
    then obtain s1 r1 where k: "skip_message_keys C (h_n h) now s = Some (s1, r1)"
      and d1: "run_then (Some (s1, r1)) (\<lambda>s _. decrypt_current C m ad s) = Some (s', res)"
      using d h by (cases "skip_message_keys C (h_n h) now s") (auto simp: decrypt_known_def)
    note r1 = receiving_skip(1) [OF r k]
    note s1 = receiving_skip(2) [OF r k]
    note sid = chain_only_fields(1) [OF s1]
    show ?thesis
    proof (cases r1)
      case (Inl e)
      then show ?thesis using d1 s1 delivered_error [OF r1] by auto
    next
      case (Inr x)
      have n1: "nr s1 = h_n h" using receiving_skip(3) [OF r k] Inr False hk by (auto simp: max_def)
      have d2: "decrypt_current C m ad s1 = Some (s', res)" using d1 Inr by simp
      note st = decrypt_current_step [OF r1 _ _ _ _ _ h n1 d2]
      have "\<forall>p\<in>set P. good_packet C K s1 p" "authentic_header C s1 P m hk" "authentic_payload C s1 P m ad"
        "hkr s1 = Some hk" "aead_open C hk (header_ad s1) (enc_header m) = Inr hdr"
        using g u hk o good_packet_cong [OF sid] authentic_cong [OF sid] ad_cong [OF sid] chain_only_fields(7) [OF s1] by simp_all
      note st = st [OF this]
      then show ?thesis using chain_only_trans [OF s1] by blast
    qed
  qed
  then show "\<exists>G'. delivered C K P G ad s' res G'" "chain_only s s'" by blast+
qed

lemma decrypt_next_step:
  assumes r: "receiving C K P s G" and g: "\<forall>p\<in>set P. good_packet C K s p"
    and u: "authentic_header C s P m (nhkr s)" "authentic_payload C s P m ad"
    and o: "aead_open C (nhkr s) (header_ad s) (enc_header m) = Inr hdr"
    and x: "\<And>p. p \<in> set P \<Longrightarrow> pk_hk p = nhkr s \<Longrightarrow>
      kdf_rk C (rk s) (x_dh C (dhs_priv s) (h_dh (pk_header p))) = (k1, K (nhkr s), n1)"
    and n1: "n1 \<notin> pk_hk ` set P"
    and d: "decrypt_next C priv now m ad hdr s = Some (s', res)"
  shows "\<exists>G'. delivered C K P G ad s' res G'"
    "chain_only s s' \<or> (\<exists>q t. q \<in> set P \<and> pk_hk q = nhkr s \<and> chain_only s t \<and> chain_only (dh_ratchet C (pk_header q) priv t) s')"
proof -
  obtain q where q: "q \<in> set P" "pk_hk q = nhkr s" and h: "header_decode hdr = Inr (pk_header q)"
    using opened_header [OF u(1) g o] by metis
  let ?h = "pk_header q"
  obtain s1 r1 where k: "skip_message_keys C (h_pn ?h) now s = Some (s1, r1)"
    and d1: "run_then (Some (s1, r1)) (\<lambda>s _.
          run_then (skip_message_keys C (h_n ?h) now (dh_ratchet C ?h priv s)) (\<lambda>s _. decrypt_current C m ad s)) = Some (s', res)"
    using d h by (cases "skip_message_keys C (h_pn ?h) now s") (auto simp: decrypt_next_def)
  note r1 = receiving_skip(1) [OF r k] and s1 = receiving_skip(2) [OF r k]
  have "(\<exists>G'. delivered C K P G ad s' res G') \<and>
    (chain_only s s' \<or> (\<exists>q t. q \<in> set P \<and> pk_hk q = nhkr s \<and> chain_only s t \<and> chain_only (dh_ratchet C (pk_header q) priv t) s'))"
  proof (cases r1)
    case (Inl e)
    then show ?thesis using d1 s1 delivered_error [OF r1] by auto
  next
    case (Inr y)
    define t where "t = dh_ratchet C ?h priv s1"
    obtain k2 c2 n2 where k2: "kdf_rk C k1 (x_dh C priv (h_dh ?h)) = (k2, c2, n2)" by (metis prod_cases3)
    have t: "skipped t = skipped s1" "hkr t = Some (nhkr s)" "ckr t = Some (K (nhkr s))" "nr t = 0" "nhkr t = n1"
      "session_id t = session_id s"
      using dh_ratchet_fields [of C s1 ?h k1 "K (nhkr s)" n1 priv, OF _ k2] x [OF q] chain_only_fields [OF s1]
      by (simp_all add: t_def)
    have rt: "receiving C K P t G"
      using receiving_ratchet [OF r1 _ n1, of t] t q chain_only_fields(9) [OF s1] by (metis imageI)
    obtain t2 r2 where k3: "skip_message_keys C (h_n ?h) now t = Some (t2, r2)"
      and d2: "run_then (Some (t2, r2)) (\<lambda>s _. decrypt_current C m ad s) = Some (s', res)"
      using d1 Inr by (cases "skip_message_keys C (h_n ?h) now t") (auto simp: t_def)
    note r2 = receiving_skip(1) [OF rt k3] and s2 = receiving_skip(2) [OF rt k3]
    have "(\<exists>G'. delivered C K P G ad s' res G') \<and> chain_only t s'"
    proof (cases r2)
      case (Inl e)
      then show ?thesis using d2 s2 delivered_error [OF r2] by auto
    next
      case (Inr z)
      have sid: "session_id t2 = session_id s" using chain_only_fields(1) [OF s2] t(6) by simp
      have n2: "nr t2 = h_n ?h" using receiving_skip(3) [OF rt k3] Inr t by (simp add: max_def)
      have d3: "decrypt_current C m ad t2 = Some (s', res)" using d2 Inr by simp
      have "\<forall>p\<in>set P. good_packet C K t2 p" "authentic_header C t2 P m (nhkr s)" "authentic_payload C t2 P m ad"
        "hkr t2 = Some (nhkr s)" "aead_open C (nhkr s) (header_ad t2) (enc_header m) = Inr hdr"
        using g u o good_packet_cong [OF sid] authentic_cong [OF sid] ad_cong [OF sid] chain_only_fields(7) [OF s2] t
        by simp_all
      note st = decrypt_current_step [OF r2 this h n2 d3]
      then show ?thesis using chain_only_trans [OF s2] by blast
    qed
    then show ?thesis using q s1 unfolding t_def by blast
  qed
  then show "\<exists>G'. delivered C K P G ad s' res G'"
    "chain_only s s' \<or> (\<exists>q t. q \<in> set P \<and> pk_hk q = nhkr s \<and> chain_only s t \<and> chain_only (dh_ratchet C (pk_header q) priv t) s')"
    by blast+
qed

lemma try_skipped_step:
  assumes r: "receiving C K P s G" and g: "\<forall>p\<in>set P. good_packet C K s p"
    and u: "\<forall>k\<in>header_keys s. authentic_header C s P m k" "authentic_payload C s P m ad"
    and d: "try_skipped C s m ad = (s', res)"
  shows "(\<exists>pt. res = Inr (Some pt) \<and> (\<exists>G'. delivered C K P G ad s' (Inr pt) G') \<and> chain_only s s')
    \<or> (s' = s \<and> (res = Inr None \<or> (\<exists>e. res = Inl e)))"
proof (cases "\<exists>i. try_keys C (header_ad s) (enc_header m) (skipped s) [] (skipped s) = Inr (Some i)")
  case False
  then show ?thesis using d by (auto simp: try_skipped_def split: sum.splits option.splits)
next
  case True
  then obtain i where i: "try_keys C (header_ad s) (enc_header m) (skipped s) [] (skipped s) = Inr (Some i)" ..
  from try_keys_hit [OF i] obtain sk hdr h where sk: "sk \<in> set (skipped s)"
    and o: "aead_open C (sk_hk sk) (header_ad s) (enc_header m) = Inr hdr" and h: "header_decode hdr = Inr h"
    and il: "i < length (skipped s)" and id: "sk_hk (skipped s ! i) = sk_hk sk" "sk_n (skipped s ! i) = h_n h"
    by blast
  have mk: "sk_mk (skipped s ! i) = msg_key C (K (sk_hk sk)) (unat (h_n h))"
    using receivingD(1) [OF r, of "skipped s ! i"] il id by (simp add: good_skipped_def)
  have a: "authentic_header C s P m (sk_hk sk)" using u(1) sk by (simp add: header_keys_def)
  show ?thesis
  proof (cases "aead_decrypt C (sk_mk (skipped s ! i)) (msg_nonce m) (payload_ad s (enc_header m) ad) (msg_ct m)")
    case None
    then show ?thesis using d i by (auto simp: try_skipped_def aead_decrypt_with_nonce_def ok_or_def)
  next
    case (Some pt)
    obtain p where p: "p \<in> set P" "packet_id p = (sk_hk sk, h_n h)" "contents p = (pt, ad)"
      by (rule opened_payload [OF a u(2) g o h Some [unfolded mk]])
    have "receiving C K P (s\<lparr>skipped := take i (skipped s) @ drop (Suc i) (skipped s)\<rparr>) (G @ [p])"
      using receiving_hit [OF r il p(1)] p(2) id by simp
    moreover have "s' = s\<lparr>skipped := take i (skipped s) @ drop (Suc i) (skipped s)\<rparr>" "res = Inr (Some pt)"
      using d i Some by (auto simp: try_skipped_def aead_decrypt_with_nonce_def ok_or_def)
    ultimately show ?thesis using p(3) by (auto simp: delivered_def)
  qed
qed

lemma linked_chain_only:
  assumes l: "linked C K s P G K' t Q H" and c: "chain_only t t'" and r: "receiving C K P t' H'"
  shows "linked C K s P G K' t' Q H'"
proof -
  note f = chain_only_fields [OF c]
  have "sending C K' t' Q" using l good_packet_cong [OF f(1)] by (simp add: linked_def sending_def f)
  moreover have "ahead C K s P t' \<longleftrightarrow> ahead C K s P t" "ahead C K' t' Q s \<longleftrightarrow> ahead C K' t Q s"
    by (simp_all add: ahead_def f)
  ultimately show ?thesis using l r by (simp add: linked_def f)
qed

lemma linked_next:
  assumes l: "linked C K s P G K' t Q H" and q: "q \<in> set P" "pk_hk q = nhkr t"
  shows "ahead C K s P t"
    "kdf_rk C (rk t) (x_dh C (dhs_priv t) (h_dh (pk_header q))) = (rk s, K (nhkr t), nhks s)"
    "nhks s \<notin> pk_hk ` set P"
proof -
  show n: "nhks s \<notin> pk_hk ` set P" using l by (simp add: linked_def sending_def)
  then have "nhkr t \<noteq> nhks s" using q by (metis imageI)
  then show a: "ahead C K s P t" using l by (auto simp: linked_def ahead_def)
  then show "kdf_rk C (rk t) (x_dh C (dhs_priv t) (h_dh (pk_header q))) = (rk s, K (nhkr t), nhks s)"
    using q unfolding ahead_def by metis
qed

lemma linked_ratchet:
  assumes dh: "sound_dh C" and l: "linked C K s P G K' t Q H" and q: "q \<in> set P" "pk_hk q = nhkr t"
    and c1: "chain_only t t1" and c2: "chain_only (dh_ratchet C (pk_header q) priv t1) t'"
    and r: "receiving C K P t' H'" and f: "fresh_key t t' Q"
  shows "\<exists>K''. linked C K s P G K'' t' Q H'"
proof -
  note a = linked_next [OF l q]
  have ah: "nhkr s = nhks t" "dhs_pub s = x_public C (dhs_priv s)" "h_dh (pk_header q) = dhs_pub s"
    using a(1) q by (auto simp: ahead_def)
  note f1 = chain_only_fields [OF c1]
  obtain k2 ck2 n2 where k2: "kdf_rk C (rk s) (x_dh C priv (dhs_pub s)) = (k2, ck2, n2)" by (metis prod_cases3)
  have k1: "kdf_rk C (rk t1) (x_dh C (dhs_priv t1) (h_dh (pk_header q))) = (rk s, K (nhkr t), nhks s)"
    using a(2) f1 by simp
  note dr = dh_ratchet_fields [OF k1, of priv k2 ck2 n2, unfolded ah(3), OF k2]
  have t': "session_id t' = session_id t" "hks t' = Some (nhks t)" "cks t' = Some ck2" "ns t' = 0" "nhks t' = n2"
    "nhkr t' = nhks s" "rk t' = k2" "dhs_priv t' = priv" "dhs_pub t' = x_public C priv"
    using chain_only_fields [OF c2] f1 by (simp_all add: dr)
  have t: "sending C K' t Q" and Q: "nhks t \<notin> pk_hk ` set Q" "hks t \<noteq> Some (nhks t)" using l by (simp_all add: linked_def sending_def)
  have fr: "n2 \<notin> pk_hk ` set Q" "nhks t \<noteq> n2" using f Q(2) t'(2,5) by (auto simp: fresh_key_def)
  define K'' where "K'' = K'(nhks t := ck2)"
  have same: "K'' k = K' k" if "k \<in> pk_hk ` set Q" for k using that Q(1) by (metis K''_def fun_upd_other)
  have "good_packet C K'' t' p" if "p \<in> set Q" for p
  proof -
    have "good_packet C K' t p" using t that by (simp add: sending_def)
    then show ?thesis
      using good_packet_chain [of K'' p K' C t', OF same [OF imageI [OF that]]] good_packet_cong [OF t'(1)] by simp
  qed
  moreover have nq: "\<forall>p\<in>set Q. pk_hk p \<noteq> nhks t" using Q(1) by (metis imageI)
  ultimately have "sending C K'' t' Q"
    using t t' fr dh by (simp add: sending_def K''_def sound_dh_def)
  moreover have "receiving C K'' Q s G"
    using l receiving_cong [of C K' Q s G s K''] same by (simp add: linked_def)
  moreover have "ahead C K'' t' Q s"
  proof -
    have "x_dh C (dhs_priv s) (x_public C priv) = x_dh C priv (dhs_pub s)" using dh ah(2) by (simp add: sound_dh_def)
    then show ?thesis using t' ah k2 nq by (simp add: ahead_def K''_def)
  qed
  ultimately have "linked C K s P G K'' t' Q H'" using l r t'(1) by (simp add: linked_def)
  then show ?thesis by blast
qed

lemma linked_decrypt:
  assumes dh: "sound_dh C" and l: "linked C K s P G K' t Q H" and u: "unforged C t P m ad"
    and d: "decrypt C priv t now m ad = Some (t', res)" and f: "fresh_key t t' Q"
  shows "\<exists>K'' H'. linked C K s P G K'' t' Q H' \<and> delivered C K P H ad t' res H'"
proof -
  define v where "v = purge_expired now t"
  have cv: "chain_only t v" by (simp add: v_def)
  note fv = chain_only_fields [OF cv]
  have rv: "receiving C K P v H" using l receiving_purge by (simp add: linked_def v_def)
  have sid: "session_id v = session_id s" using l fv by (simp add: linked_def)
  have g: "\<forall>p\<in>set P. good_packet C K v p" using l good_packet_cong [OF sid] by (simp add: linked_def sending_def)
  have "header_keys v \<subseteq> header_keys t" by (auto simp: header_keys_def v_def purge_expired_def)
  then have uv: "\<forall>k\<in>header_keys v. authentic_header C v P m k" "authentic_payload C v P m ad"
    using u authentic_cong [OF fv(1)] by (auto simp: unforged_def)
  obtain v' r1 where ts: "try_skipped C v m ad = (v', r1)" by (cases "try_skipped C v m ad")
  have simple: ?thesis if "chain_only t t'" "\<exists>G'. delivered C K P H ad t' res G'"
    using that linked_chain_only [OF l that(1)] by (auto simp: delivered_def)
  consider (hit) pt where "r1 = Inr (Some pt)" "\<exists>G'. delivered C K P H ad v' (Inr pt) G'" "chain_only v v'"
    | (err) e where "v' = v" "r1 = Inl e" | (miss) "v' = v" "r1 = Inr None"
    using try_skipped_step [OF rv g uv ts] by blast
  then show ?thesis
  proof cases
    case hit
    then have "t' = v'" "res = Inr pt" using d ts by (simp_all add: decrypt_def v_def)
    then show ?thesis using simple hit chain_only_trans [OF cv] by blast
  next
    case err
    then have "t' = v" "res = Inl e" using d ts by (simp_all add: decrypt_def v_def)
    then show ?thesis using simple cv delivered_error [OF rv] by blast
  next
    case miss
    show ?thesis
    proof (cases "\<exists>hk hdr. hkr v = Some hk \<and> aead_open C hk (header_ad v) (enc_header m) = Inr hdr")
      case True
      then obtain hk hdr where hk: "hkr v = Some hk" and o: "aead_open C hk (header_ad v) (enc_header m) = Inr hdr" by blast
      have dk: "decrypt_known C now m ad hdr v = Some (t', res)"
        using d ts miss hk o by (simp add: decrypt_def v_def ok_def)
      have "authentic_header C v P m hk" using uv(1) hk by (simp add: header_keys_def)
      note k = decrypt_known_step [OF rv g this uv(2) hk o dk]
      show ?thesis using simple k chain_only_trans [OF cv] by blast
    next
      case False
      then have b: "Option.bind (hkr v) (\<lambda>k. ok (aead_open C k (header_ad v) (enc_header m))) = None"
        by (cases "hkr v") (auto simp: ok_def split: sum.split)
      show ?thesis
      proof (cases "aead_open C (nhkr v) (header_ad v) (enc_header m)")
        case (Inl e)
        then have "t' = v" "res = Inl HeaderAuthentication" using d ts miss b by (simp_all add: decrypt_def v_def)
        then show ?thesis using simple cv delivered_error [OF rv] by blast
      next
        case (Inr hdr)
        have dn: "decrypt_next C priv now m ad hdr v = Some (t', res)"
          using d ts miss b Inr by (simp add: decrypt_def v_def)
        have av: "authentic_header C v P m (nhkr v)" using uv(1) by (simp add: header_keys_def)
        have x: "kdf_rk C (rk v) (x_dh C (dhs_priv v) (h_dh (pk_header p))) = (rk s, K (nhkr v), nhks s)"
          if "p \<in> set P" "pk_hk p = nhkr v" for p
          using linked_next(2) [OF l, of p] that fv by simp
        have n: "nhks s \<notin> pk_hk ` set P" using l by (simp add: linked_def sending_def)
        note st = decrypt_next_step [OF rv g av uv(2) Inr x n dn]
        show ?thesis
        proof (cases "chain_only v t'")
          case True
          then show ?thesis using simple st(1) chain_only_trans [OF cv] by blast
        next
          case False
          then obtain q w where q: "q \<in> set P" "pk_hk q = nhkr v" and w: "chain_only v w"
            "chain_only (dh_ratchet C (pk_header q) priv w) t'" using st(2) by blast
          obtain H' where H': "delivered C K P H ad t' res H'" using st(1) by blast
          then show ?thesis
            using linked_ratchet [OF dh l q(1) _ chain_only_trans [OF cv w(1)] w(2) _ f, of H'] q(2) fv
            by (auto simp: delivered_def)
        qed
      qed
    qed
  qed
qed

section \<open>Every schedule\<close>

definition net_ok :: "prims \<Rightarrow> net \<Rightarrow> bool" where
  "net_ok C w \<longleftrightarrow> (\<exists>K K' G H. linked C K (alice w) (from_alice w) G K' (bob w) (from_bob w) H
     \<and> to_alice w = map contents G \<and> to_bob w = map contents H)"

lemma net_okI:
  "linked C K (alice w) (from_alice w) G K' (bob w) (from_bob w) H \<Longrightarrow> to_alice w = map contents G \<Longrightarrow>
   to_bob w = map contents H \<Longrightarrow> net_ok C w"
  unfolding net_ok_def by blast

lemma net_ok_start:
  assumes "sound_dh C" "w = net_start C priv_a priv_b sid root hka nhkb mbox ex" "nhks (alice w) \<noteq> hka"
  shows "net_ok C w"
proof -
  obtain k ck nhk where k: "kdf_rk C root (x_dh C priv_a (x_public C priv_b)) = (k, ck, nhk)" by (metis prod_cases3)
  have "linked C (\<lambda>_. ck) (alice w) [] [] (\<lambda>_. []) (bob w) [] []"
    using assms k
    by (auto simp: linked_def sending_def receiving_def ahead_def net_start_def init_initiator_def init_responder_def
        sound_dh_def)
  then show ?thesis using assms(2) by (auto simp: net_ok_def net_start_def)
qed

lemma delivered_contents: "delivered C K P G ad s res G' \<Longrightarrow> map contents G' = map contents G @ accepted_contents res ad"
  by (auto simp: delivered_def accepted_contents_def split: sum.splits)

lemma net_ok_step:
  assumes "sound_aead C" "sound_dh C" "net_step C w w'" "net_ok C w"
  shows "net_ok C w'"
proof -
  from assms(4) obtain K K' G H where l: "linked C K (alice w) (from_alice w) G K' (bob w) (from_bob w) H"
    and c: "to_alice w = map contents G" "to_bob w = map contents H"
    by (auto simp: net_ok_def)
  note l' = l [unfolded linked_sym [of C K]]
  from assms(3) show ?thesis
  proof cases
    case (alice_sends now pt ad hn nonce m a)
    show ?thesis
      by (rule net_okI [of C K _ G K' H]) (use linked_encrypt [OF assms(1) l alice_sends(2-4)] alice_sends(1) c in simp_all)
  next
    case (bob_sends now pt ad hn nonce m b)
    have "linked C K (alice w) (from_alice w) G K' b (from_bob w @ [sent_packet C (bob w) pt ad m]) H"
      using linked_encrypt [OF assms(1) l' bob_sends(2-4)] linked_sym by blast
    then show ?thesis by (intro net_okI [of C K _ G K' H]) (use bob_sends(1) c in simp_all)
  next
    case (bob_receives m ad priv now b r)
    obtain K'' H' where "linked C K (alice w) (from_alice w) G K'' b (from_bob w) H'"
      and d: "delivered C K (from_alice w) H ad b r H'"
      using linked_decrypt [OF assms(2) l bob_receives(2-4)] by blast
    then show ?thesis
      by (intro net_okI [of C K _ G K'' H']) (use bob_receives(1) c delivered_contents [OF d] in simp_all)
  next
    case (alice_receives m ad priv now a r)
    obtain K'' G' where "linked C K' (bob w) (from_bob w) H K'' a (from_alice w) G'"
      and d: "delivered C K' (from_bob w) G ad a r G'"
      using linked_decrypt [OF assms(2) l' alice_receives(2-4)] by blast
    then have "linked C K'' a (from_alice w) G' K' (bob w) (from_bob w) H" using linked_sym by blast
    then show ?thesis
      by (intro net_okI [of C K'' _ G' K' H]) (use alice_receives(1) c delivered_contents [OF d] in simp_all)
  qed
qed

lemma net_ok_reachable:
  assumes "sound_aead C" "sound_dh C" "(net_step C)\<^sup>*\<^sup>* w w'" "net_ok C w"
  shows "net_ok C w'"
  using assms(3,4) by (induction rule: rtranclp_induct) (auto intro: net_ok_step assms)

lemma receiving_mset: "receiving C K P s G \<Longrightarrow> mset (map contents G) \<subseteq># mset (map contents P)"
  unfolding mset_map by (intro image_mset_subseteq_mono distinct_mset_subset) (simp_all add: receiving_def)

text \<open>
  C6. Two sessions set up from one handshake exchange messages over a network that may lose, delay,
  reorder, duplicate and tamper at will but cannot forge authenticated encryption. In every schedule,
  what each side accepts is part of what the other side sent, counted with multiplicity: nothing is
  invented, altered or accepted twice.
\<close>

theorem ratchet_authentic_no_replay:
  assumes "sound_aead C" "sound_dh C"
    and "w0 = net_start C priv_a priv_b sid root hka nhkb mbox ex" "nhks (alice w0) \<noteq> hka"
    and "(net_step C)\<^sup>*\<^sup>* w0 w"
  shows "mset (to_bob w) \<subseteq># mset (map contents (from_alice w)) \<and> mset (to_alice w) \<subseteq># mset (map contents (from_bob w))"
proof -
  have "net_ok C w" using net_ok_reachable [OF assms(1,2,5)] net_ok_start [OF assms(2-4)] by blast
  then show ?thesis using receiving_mset by (fastforce simp: net_ok_def linked_def)
qed

section \<open>Delivery\<close>

text \<open>
  A packet is within reach of a session when its key is stored, or it is at most 1000 ahead on the
  current chain, or it is among the first 1001 of the next chain and the current chain can be closed.
\<close>

definition within_reach :: "Session \<Rightarrow> packet \<Rightarrow> bool" where
  "within_reach s p \<longleftrightarrow>
     packet_id p \<in> (\<lambda>sk. (sk_hk sk, sk_n sk)) ` set (skipped s)
     \<or> (hkr s = Some (pk_hk p) \<and> nr s \<le> pk_n p \<and> unat (pk_n p) \<le> unat (nr s) + 1000)
     \<or> (nhkr s = pk_hk p \<and> unat (pk_n p) \<le> 1000
        \<and> (if hkr s = None then h_pn (pk_header p) = 0 else unat (h_pn (pk_header p)) \<le> unat (nr s) + 1000))"

lemma try_keys_only:
  assumes "aead_open C k ad enc = Inr hdr" "header_decode hdr = Inr h"
  shows "k \<notin> set tried \<Longrightarrow> (\<And>sk. sk \<in> set rest \<Longrightarrow> sk_hk sk \<noteq> k \<Longrightarrow> \<exists>e. aead_open C (sk_hk sk) ad enc = Inl e) \<Longrightarrow>
    try_keys C ad enc all tried rest
      = Inr (if k \<in> sk_hk ` set rest then find_index (\<lambda>c. sk_hk c = k \<and> sk_n c = h_n h) all else None)"
proof (induction rest arbitrary: tried)
  case (Cons sk rest)
  show ?case
  proof (cases "sk_hk sk = k")
    case True
    then show ?thesis using assms Cons.prems(1) by (simp add: result_simps)
  next
    case False
    then obtain e where "aead_open C (sk_hk sk) ad enc = Inl e" using Cons.prems(2) [of sk] by auto
    then show ?thesis using False Cons.IH [of tried] Cons.IH [of "tried @ [sk_hk sk]"] Cons.prems by auto
  qed
qed simp

lemma decrypt_current_ok:
  assumes "ckr s = Some (chain C ck n)"
    and "aead_decrypt C (msg_key C ck n) (msg_nonce m) (payload_ad s (enc_header m) ad) (msg_ct m) = Some pt"
  shows "\<exists>s'. decrypt_current C m ad s = Some (s', Inr pt)"
  using assms
  by (simp add: decrypt_current_def kdf_ck_chain aead_decrypt_with_nonce_def ok_or_def del: chain.simps(2))

lemma delivery_known:
  assumes r: "receiving C K P s G" and g: "good_packet C K s p" and hk: "hkr s = Some (pk_hk p)"
    and n: "nr s \<le> pk_n p" "unat (pk_n p) \<le> unat (nr s) + 1000"
  shows "\<exists>s'. decrypt_known C now (pk_msg p) (pk_ad p) (header_encode (pk_header p)) s = Some (s', Inr (pk_plain p))"
proof -
  have c: "ckr s = Some (chain C (K (pk_hk p)) (unat (nr s)))" using receivingD(4) [OF r hk] by blast
  note sk = skip_message_keys_chain [OF c hk n(2) refl, of now]
  have m: "max (pk_n p) (nr s) = pk_n p" using n(1) by (simp add: max_def)
  let ?s = "s\<lparr>nr := pk_n p, ckr := Some (chain C (K (pk_hk p)) (unat (pk_n p))),
      skipped := cap_skipped (skipped s @ skipped_range C (pk_hk p) now (K (pk_hk p)) (nr s) (pk_n p))\<rparr>"
  have "payload_ad ?s e a = payload_ad s e a" for e a by (rule ad_cong) simp
  then have "\<exists>s'. decrypt_current C (pk_msg p) (pk_ad p) ?s = Some (s', Inr (pk_plain p))"
    using decrypt_current_ok [of ?s C "K (pk_hk p)" "unat (pk_n p)"] good_packetD(3) [OF g] by simp
  then show ?thesis using sk m n(1) good_packetD(2) [OF g] by (auto simp: decrypt_known_def)
qed

lemma delivery_next:
  assumes r: "receiving C K P s G" and g: "good_packet C K s p" and hk: "nhkr s = pk_hk p" and n: "unat (pk_n p) \<le> 1000"
    and c: "if hkr s = None then h_pn (pk_header p) = 0 else unat (h_pn (pk_header p)) \<le> unat (nr s) + 1000"
    and x: "kdf_rk C (rk s) (x_dh C (dhs_priv s) (h_dh (pk_header p))) = (k1, K (nhkr s), n1)"
  shows "\<exists>s'. decrypt_next C priv now (pk_msg p) (pk_ad p) (header_encode (pk_header p)) s = Some (s', Inr (pk_plain p))"
proof -
  have "\<exists>s1. skip_message_keys C (h_pn (pk_header p)) now s = Some (s1, Inr ())"
  proof (cases "hkr s")
    case None
    then show ?thesis using c receivingD(3) [OF r] skip_message_keys_no_chain [of s C 0 now] by simp
  next
    case (Some k)
    then show ?thesis using c receivingD(4) [OF r Some] skip_message_keys_chain [of s C "K k" k _ _ now] by auto
  qed
  then obtain s1 where k: "skip_message_keys C (h_pn (pk_header p)) now s = Some (s1, Inr ())" ..
  note f = chain_only_fields [OF receiving_skip(2) [OF r k]]
  obtain k2 c2 n2 where k2: "kdf_rk C k1 (x_dh C priv (h_dh (pk_header p))) = (k2, c2, n2)" by (metis prod_cases3)
  define t where "t = dh_ratchet C (pk_header p) priv s1"
  have t: "hkr t = Some (pk_hk p)" "ckr t = Some (chain C (K (pk_hk p)) (unat (nr t)))" "nr t = 0" "session_id t = session_id s"
    using dh_ratchet_fields [of C s1 "pk_header p" k1 "K (nhkr s)" n1 priv, OF _ k2] x f hk by (simp_all add: t_def)
  have n0: "unat (pk_n p) \<le> unat (nr t) + 1000" using n t(3) by simp
  note sk = skip_message_keys_chain [OF t(2,1) n0 refl, of now]
  have m: "max (pk_n p) (nr t) = pk_n p" by (simp add: t(3) max_def)
  let ?t = "t\<lparr>nr := pk_n p, ckr := Some (chain C (K (pk_hk p)) (unat (pk_n p))),
      skipped := cap_skipped (skipped t @ skipped_range C (pk_hk p) now (K (pk_hk p)) (nr t) (pk_n p))\<rparr>"
  have "payload_ad ?t e a = payload_ad s e a" for e a by (rule ad_cong) (simp add: t)
  then have "\<exists>s'. decrypt_current C (pk_msg p) (pk_ad p) ?t = Some (s', Inr (pk_plain p))"
    using decrypt_current_ok [of ?t C "K (pk_hk p)" "unat (pk_n p)"] good_packetD(3) [OF g] by simp
  then show ?thesis using k sk m good_packetD(2) [OF g] by (auto simp: decrypt_next_def simp flip: t_def)
qed

lemma delivery_stored:
  assumes r: "receiving C K P s G" and g: "good_packet C K s p"
    and i: "try_keys C (header_ad s) (enc_header (pk_msg p)) (skipped s) [] (skipped s) = Inr (Some i)"
    and id: "i < length (skipped s)" "packet_id p = (sk_hk (skipped s ! i), sk_n (skipped s ! i))"
  shows "\<exists>s'. try_skipped C s (pk_msg p) (pk_ad p) = (s', Inr (Some (pk_plain p)))"
proof -
  have "sk_mk (skipped s ! i) = msg_key C (K (pk_hk p)) (unat (pk_n p))"
    using receivingD(1) [OF r, of "skipped s ! i"] id by (simp add: good_skipped_def packet_id_def)
  then show ?thesis
    using i good_packetD(3) [OF g] by (simp add: try_skipped_def aead_decrypt_with_nonce_def ok_or_def)
qed

lemma linked_delivery:
  assumes l: "linked C K s P G K' t Q H" and p: "p \<in> set P" and u: "unforged C t P (pk_msg p) (pk_ad p)"
    and w: "within_reach (purge_expired now t) p"
  shows "\<exists>t'. decrypt C priv t now (pk_msg p) (pk_ad p) = Some (t', Inr (pk_plain p))"
proof -
  define v where "v = purge_expired now t"
  note fv = chain_only_fields [OF chain_only_simps(4) [of t now], folded v_def]
  have r: "receiving C K P v H" using l receiving_purge by (simp add: linked_def v_def)
  have sid: "session_id v = session_id s" using l fv by (simp add: linked_def)
  have g: "good_packet C K v p" using l p good_packet_cong [OF sid] by (simp add: linked_def sending_def)
  note o = good_packetD(1) [OF g] and h = good_packetD(2) [OF g]
  have only: "k = pk_hk p" if "k \<in> header_keys v" "aead_open C k (header_ad v) (enc_header (pk_msg p)) = Inr hdr" for k hdr
  proof -
    have "header_keys v \<subseteq> header_keys t" by (auto simp: header_keys_def v_def purge_expired_def)
    then have "authentic_header C v P (pk_msg p) k" using u that(1) authentic_cong [OF fv(1)] by (auto simp: unforged_def)
    then show ?thesis using that(2) p unfolding authentic_header_def by blast
  qed
  have closed: "\<exists>e. aead_open C k (header_ad v) (enc_header (pk_msg p)) = Inl e" if "k \<in> header_keys v" "k \<noteq> pk_hk p" for k
    using only [OF that(1)] that(2) by (cases "aead_open C k (header_ad v) (enc_header (pk_msg p))") auto
  have tk: "try_keys C (header_ad v) (enc_header (pk_msg p)) (skipped v) [] (skipped v)
      = Inr (if pk_hk p \<in> sk_hk ` set (skipped v)
             then find_index (\<lambda>c. sk_hk c = pk_hk p \<and> sk_n c = pk_n p) (skipped v) else None)"
    using try_keys_only [OF o h, of "[]" "skipped v" "skipped v"] closed by (auto simp: header_keys_def)
  let ?stored = "packet_id p \<in> (\<lambda>sk. (sk_hk sk, sk_n sk)) ` set (skipped v)"
  show ?thesis
  proof (cases ?stored)
    case True
    then obtain i where i: "find_index (\<lambda>c. sk_hk c = pk_hk p \<and> sk_n c = pk_n p) (skipped v) = Some i"
      using find_index_None [of "\<lambda>c. sk_hk c = pk_hk p \<and> sk_n c = pk_n p" "skipped v"]
      by (cases "find_index (\<lambda>c. sk_hk c = pk_hk p \<and> sk_n c = pk_n p) (skipped v)") (auto simp: packet_id_def)
    moreover have "pk_hk p \<in> sk_hk ` set (skipped v)" using True by (auto simp: packet_id_def)
    ultimately have ti: "try_keys C (header_ad v) (enc_header (pk_msg p)) (skipped v) [] (skipped v) = Inr (Some i)"
      using tk by simp
    have "i < length (skipped v)" "packet_id p = (sk_hk (skipped v ! i), sk_n (skipped v ! i))"
      using find_index_Some [OF i] by (simp_all add: packet_id_def)
    then obtain v' where "try_skipped C v (pk_msg p) (pk_ad p) = (v', Inr (Some (pk_plain p)))"
      using delivery_stored [OF r g ti] by blast
    then show ?thesis by (simp add: decrypt_def v_def)
  next
    case False
    then have "find_index (\<lambda>c. sk_hk c = pk_hk p \<and> sk_n c = pk_n p) (skipped v) = None"
      unfolding find_index_None by (force simp: packet_id_def)
    then have miss: "try_skipped C v (pk_msg p) (pk_ad p) = (v, Inr None)" using tk by (simp add: try_skipped_def)
    consider (known) "hkr v = Some (pk_hk p)" "nr v \<le> pk_n p" "unat (pk_n p) \<le> unat (nr v) + 1000"
      | (nxt) "nhkr v = pk_hk p" "unat (pk_n p) \<le> 1000"
        "if hkr v = None then h_pn (pk_header p) = 0 else unat (h_pn (pk_header p)) \<le> unat (nr v) + 1000"
      using w False unfolding within_reach_def v_def by blast
    then show ?thesis
    proof cases
      case known
      then show ?thesis using delivery_known [OF r g known, of now] miss o by (simp add: decrypt_def ok_def flip: v_def)
    next
      case nxt
      have "hkr v \<noteq> Some (pk_hk p)" using receivingD(4) [OF r, of "pk_hk p"] nxt(1) by auto
      then have b: "Option.bind (hkr v) (\<lambda>k. ok (aead_open C k (header_ad v) (enc_header (pk_msg p)))) = None"
        using closed by (cases "hkr v") (fastforce simp: header_keys_def ok_def)+
      have x: "kdf_rk C (rk v) (x_dh C (dhs_priv v) (h_dh (pk_header p))) = (rk s, K (nhkr v), nhks s)"
        using linked_next(2) [OF l p] nxt(1) fv by simp
      then show ?thesis
        using delivery_next [OF r g nxt x, of priv now] miss b o nxt(1) by (simp add: decrypt_def flip: v_def)
    qed
  qed
qed

text \<open>
  C7. Nothing the network did can block a message: in every reachable state, a sent message that
  arrives unaltered while its key is within reach decrypts to its plaintext, on either side, whatever
  was lost, reordered, replayed or tampered with before.
\<close>

theorem ratchet_delivers:
  assumes "sound_aead C" "sound_dh C"
    and "w0 = net_start C priv_a priv_b sid root hka nhkb mbox ex" "nhks (alice w0) \<noteq> hka"
    and "(net_step C)\<^sup>*\<^sup>* w0 w"
  shows "(\<forall>p\<in>set (from_alice w). unforged C (bob w) (from_alice w) (pk_msg p) (pk_ad p) \<longrightarrow>
      within_reach (purge_expired now (bob w)) p \<longrightarrow>
      (\<exists>b. decrypt C priv (bob w) now (pk_msg p) (pk_ad p) = Some (b, Inr (pk_plain p))))
    \<and> (\<forall>p\<in>set (from_bob w). unforged C (alice w) (from_bob w) (pk_msg p) (pk_ad p) \<longrightarrow>
      within_reach (purge_expired now (alice w)) p \<longrightarrow>
      (\<exists>a. decrypt C priv (alice w) now (pk_msg p) (pk_ad p) = Some (a, Inr (pk_plain p))))"
proof -
  have "net_ok C w" using net_ok_reachable [OF assms(1,2,5)] net_ok_start [OF assms(2-4)] by blast
  then obtain K K' G H where l: "linked C K (alice w) (from_alice w) G K' (bob w) (from_bob w) H"
    by (auto simp: net_ok_def)
  show ?thesis using linked_delivery [OF l] linked_delivery [OF l [unfolded linked_sym [of C K]]] by blast
qed

section \<open>A concrete exchange\<close>

lemma toy_ratchet_simps [simp]:
  "x_public toy_ratchet k = zeros 32" "x_dh toy_ratchet k p = zeros 32"
  "aead_encrypt toy_ratchet k n ad p = p @ zeros 16" "aead_decrypt toy_ratchet k n ad (p @ zeros 16) = Some p"
  by (simp_all add: toy_ratchet_def)

lemma toy_kdf [simp]:
  "kdf_rk toy_ratchet k d = (zeros 32, zeros 32, 7 # k)" "kdf_ck toy_ratchet c = (zeros 64 @ [7], zeros 64 @ [7])"
proof -
  have z: "zeros 64 = zeros 32 @ zeros 32" by (simp add: zeros_def flip: replicate_add)
  show "kdf_rk toy_ratchet k d = (zeros 32, zeros 32, 7 # k)"
    by (simp add: kdf_rk_def hkdf_expand_def toy_ratchet_def subslice_def z)
  show "kdf_ck toy_ratchet c = (zeros 64 @ [7], zeros 64 @ [7])"
    by (simp add: kdf_ck_def hkdf32_def toy_ratchet_def)
qed

definition toy_start :: net where
  "toy_start = net_start toy_ratchet [3] [4] [0] [9] [1] [2] [] []"

definition toy_header :: Header where
  "toy_header = \<lparr>h_dh = zeros 32, h_pn = 0, h_n = 0\<rparr>"

definition toy_message :: RatchetMessage where
  "toy_message = \<lparr>enc_header = zeros 24 @ header_encode toy_header @ zeros 16, msg_nonce = [], msg_ct = [5] @ zeros 16\<rparr>"

definition toy_packet :: packet where
  "toy_packet = \<lparr>pk_hk = [1], pk_mk = zeros 64 @ [7], pk_header = toy_header, pk_plain = [5], pk_ad = [6],
     pk_msg = toy_message\<rparr>"

definition toy_sent :: net where
  "toy_sent = toy_start\<lparr>alice := (alice toy_start)\<lparr>cks := Some (zeros 64 @ [7]), ns := 1\<rparr>, from_alice := [toy_packet]\<rparr>"

lemma toy_send: "net_step toy_ratchet toy_start toy_sent"
proof -
  have "encrypt toy_ratchet (alice toy_start) 0 [5] [6] (zeros 24) []
      = Some (toy_message, (alice toy_start)\<lparr>cks := Some (zeros 64 @ [7]), ns := 1\<rparr>)"
    by (simp add: encrypt_def toy_start_def net_start_def init_initiator_def purge_expired_def aead_seal_def
        aead_encrypt_with_nonce_def toy_message_def toy_header_def length_header_encode)
  moreover have "sent_packet toy_ratchet (alice toy_start) [5] [6] toy_message = toy_packet"
    by (simp add: sent_packet_def toy_packet_def toy_start_def net_start_def init_initiator_def toy_header_def)
  ultimately show ?thesis
    using alice_sends [of toy_ratchet toy_start 0 "[5]" "[6]" "zeros 24" "[]" toy_message]
    by (simp add: toy_sent_def toy_start_def net_start_def init_initiator_def)
qed

lemma toy_unforged: "unforged toy_ratchet (bob toy_sent) (from_alice toy_sent) toy_message [6]"
  by (simp add: unforged_def header_keys_def authentic_header_def authentic_payload_def toy_sent_def toy_start_def
      net_start_def init_responder_def toy_packet_def)

lemma toy_fresh: "nhks (alice toy_start) \<noteq> [1]"
  by (simp add: toy_start_def net_start_def init_initiator_def)

theorem ratchet_delivers_witness:
  "\<exists>b. decrypt toy_ratchet [8] (bob toy_sent) 0 toy_message [6] = Some (b, Inr [5])"
proof -
  have "toy_packet \<in> set (from_alice toy_sent)" by (simp add: toy_sent_def)
  moreover have "within_reach (purge_expired 0 (bob toy_sent)) toy_packet"
    by (simp add: within_reach_def toy_sent_def toy_start_def net_start_def init_responder_def toy_packet_def toy_header_def
        purge_expired_def)
  moreover have p: "pk_msg toy_packet = toy_message" "pk_ad toy_packet = [6]" "pk_plain toy_packet = [5]"
    by (simp_all add: toy_packet_def)
  ultimately show ?thesis
    using ratchet_delivers [THEN conjunct1, OF toy_ratchet_sound toy_start_def toy_fresh
        r_into_rtranclp [of "net_step toy_ratchet", OF toy_send], of 0 "[8]"] toy_unforged
    by (metis p)
qed

text \<open>The receiver follows to the new chain and accepts the message.\<close>

lemma toy_receive:
  obtains b where "net_step toy_ratchet toy_sent (toy_sent\<lparr>bob := b, to_bob := [([5], [6])]\<rparr>)"
proof -
  have o: "aead_open toy_ratchet k ad (enc_header toy_message) = Inr (header_encode toy_header)" for k ad
    using aead_open_seal [OF toy_ratchet_sound(1), of "zeros 24" k ad "header_encode toy_header"]
    by (simp add: toy_message_def aead_seal_def)
  have h: "header_decode (header_encode toy_header) = Inr toy_header"
    by (rule header_decode_encode) (simp add: toy_header_def)
  let ?v = "bob toy_sent"
  have v: "purge_expired 0 ?v = ?v" "skipped ?v = []" "hkr ?v = None" "ckr ?v = None" "nhks ?v = [2]" "nr ?v = 0"
    by (simp_all add: toy_sent_def toy_start_def net_start_def init_responder_def purge_expired_def)
  define t where "t = dh_ratchet toy_ratchet toy_header [8] ?v"
  have t: "ckr t = Some (chain toy_ratchet (zeros 32) (unat (nr t)))" "hkr t = Some (nhkr ?v)" "nr t = 0"
    "hks t = Some [2]" "nhks t = 7 # zeros 32"
    using v by (simp_all add: t_def dh_ratchet_def)
  note k = skip_message_keys_chain [OF t(1,2), of 0 0 0]
  let ?t = "t\<lparr>nr := 0, ckr := Some (zeros 32), skipped := cap_skipped (skipped t)\<rparr>"
  have kt: "skip_message_keys toy_ratchet 0 0 t = Some (?t, Inr ())"
    using k t(3) by (simp add: skipped_range_def)
  have th: "h_pn toy_header = 0" "h_n toy_header = 0" by (simp_all add: toy_header_def)
  have p: "aead_decrypt toy_ratchet k n ad (5 # zeros 16) = Some [5]" for k n ad
    using toy_ratchet_simps(4) [of k n ad "[5]"] by simp
  have "decrypt_next toy_ratchet [8] 0 toy_message [6] (header_encode toy_header) ?v
      = decrypt_current toy_ratchet toy_message [6] ?t"
    using skip_message_keys_no_chain [of ?v toy_ratchet 0 0] v kt by (simp add: decrypt_next_def h th flip: t_def)
  also have "\<dots> = Some (?t\<lparr>ckr := Some (zeros 64 @ [7]), nr := 1\<rparr>, Inr [5])"
    by (simp add: decrypt_current_def aead_decrypt_with_nonce_def toy_message_def ok_or_def p)
  finally have "decrypt toy_ratchet [8] ?v 0 toy_message [6]
      = Some (?t\<lparr>ckr := Some (zeros 64 @ [7]), nr := 1\<rparr>, Inr [5])"
    using v o by (simp add: decrypt_def try_skipped_def)
  moreover have "fresh_key ?v (?t\<lparr>ckr := Some (zeros 64 @ [7]), nr := 1\<rparr>) (from_bob toy_sent)"
    using t by (simp add: fresh_key_def toy_sent_def toy_start_def net_start_def)
  ultimately have "net_step toy_ratchet toy_sent
      (toy_sent\<lparr>bob := ?t\<lparr>ckr := Some (zeros 64 @ [7]), nr := 1\<rparr>, to_bob := to_bob toy_sent @ accepted_contents (Inr [5]) [6]\<rparr>)"
    by (intro bob_receives [OF toy_unforged])
  then show thesis using that by (simp add: accepted_contents_def toy_sent_def toy_start_def net_start_def)
qed

theorem ratchet_authentic_no_replay_witness:
  "\<exists>w. (net_step toy_ratchet)\<^sup>*\<^sup>* toy_start w \<and> to_bob w = [([5], [6])]
     \<and> mset (to_bob w) \<subseteq># mset (map contents (from_alice w))"
proof -
  obtain b where "net_step toy_ratchet toy_sent (toy_sent\<lparr>bob := b, to_bob := [([5], [6])]\<rparr>)" using toy_receive .
  with toy_send have r: "(net_step toy_ratchet)\<^sup>*\<^sup>* toy_start (toy_sent\<lparr>bob := b, to_bob := [([5], [6])]\<rparr>)" by simp
  show ?thesis
    using ratchet_authentic_no_replay [OF toy_ratchet_sound toy_start_def toy_fresh r] r
    by (intro exI [of _ "toy_sent\<lparr>bob := b, to_bob := [([5], [6])]\<rparr>"]) simp
qed

end
