(* ===== verification/Group_Sender.thy ===== *)
theory Group_Sender
  imports Ratchet
begin

text \<open>
  \<^verbatim>\<open>kult-crypto/src/group.rs\<close>: sender-key group messaging. A member encrypts once on a forward-only chain
  and every other member follows that chain from an announced snapshot. The model has the message and
  wrapper codecs, the sending and receiving chains and the recipient tag; a panic is the value \<open>None\<close>,
  random bytes are arguments and \<^verbatim>\<open>+= 1\<close> wraps at 32 bits.

  The second half is one chain and one receiver over a network that delivers anything, with any claimed
  iteration. It shows that a receiver accepts each message at most once and nothing from before it
  joined, and that it can open every message whose key is within reach.
\<close>

section \<open>Constants and derivations\<close>

definition GROUP_MAX_SKIP :: u32 where [simp]: "GROUP_MAX_SKIP = 1000"
definition GROUP_MAX_STORED_SKIPPED :: nat where [simp]: "GROUP_MAX_STORED_SKIPPED = 2000"
definition GROUP_SKIPPED_TTL_SECS :: u64 where [simp]: "GROUP_SKIPPED_TTL_SECS = 30 * 86400"
definition GROUP_INFO_CHAIN :: bytes where "GROUP_INFO_CHAIN = ascii ''KK-group-chain''"
definition GROUP_INFO_MSG :: bytes where "GROUP_INFO_MSG = ascii ''KK-group-msg''"
definition GROUP_INFO_HDR_KEY :: bytes where "GROUP_INFO_HDR_KEY = ascii ''KK-group-hdr''"
definition GROUP_HDR_AD_DOMAIN :: bytes where "GROUP_HDR_AD_DOMAIN = ascii ''KK-group-hdr-v1''"
definition GROUP_MSG_AD_DOMAIN :: bytes where "GROUP_MSG_AD_DOMAIN = ascii ''KK-group-msg-v1''"
definition GROUP_ORIGIN_DOMAIN :: bytes where "GROUP_ORIGIN_DOMAIN = ascii ''Komms-Group-Origin-v1''"
definition GROUP_MESSAGE_VERSION_LEGACY :: u8 where [simp]: "GROUP_MESSAGE_VERSION_LEGACY = 1"
definition GROUP_MESSAGE_VERSION_ORIGIN :: u8 where [simp]: "GROUP_MESSAGE_VERSION_ORIGIN = 2"
definition GROUP_ORIGIN_ENVELOPE_MAGIC :: bytes where "GROUP_ORIGIN_ENVELOPE_MAGIC = [0xff, 0x4b, 0x47, 1]"
definition GROUP_ORIGIN_TAG_LEN :: nat where [simp]: "GROUP_ORIGIN_TAG_LEN = 32"
definition LEGACY_HDR_PLAIN_LEN :: nat where [simp]: "LEGACY_HDR_PLAIN_LEN = 16 + 4"
definition ORIGIN_HDR_PLAIN_LEN :: nat where [simp]: "ORIGIN_HDR_PLAIN_LEN = LEGACY_HDR_PLAIN_LEN + 16"

definition header_plain_len :: "u8 \<Rightarrow> nat option" where
  "header_plain_len v =
     (if v = GROUP_MESSAGE_VERSION_LEGACY then Some LEGACY_HDR_PLAIN_LEN
      else if v = GROUP_MESSAGE_VERSION_ORIGIN then Some ORIGIN_HDR_PLAIN_LEN
      else None)"

definition enc_header_len :: "u8 \<Rightarrow> nat option" where
  "enc_header_len v = map_option (\<lambda>plain. NONCE_LEN + plain + TAG_LEN) (header_plain_len v)"

definition kdf_gck :: "prims \<Rightarrow> bytes \<Rightarrow> bytes \<times> bytes" where
  "kdf_gck C ck = (hkdf32 C None ck GROUP_INFO_CHAIN, hkdf32 C None ck GROUP_INFO_MSG)"

definition header_key_derive :: "prims \<Rightarrow> bytes \<Rightarrow> bytes" where
  "header_key_derive C group_secret = hkdf32 C None group_secret GROUP_INFO_HDR_KEY"

text \<open>\<^verbatim>\<open>dst[i..i + src.len()].copy_from_slice(src)\<close>.\<close>

definition copy_at :: "nat \<Rightarrow> bytes \<Rightarrow> bytes \<Rightarrow> bytes" where
  "copy_at i src dst = take i dst @ src @ drop (i + length src) dst"

definition group_header_ad :: "u8 \<Rightarrow> bytes" where
  "group_header_ad v = copy_at (length GROUP_HDR_AD_DOMAIN) [v] (copy_at 0 GROUP_HDR_AD_DOMAIN (zeros 16))"

definition group_payload_ad :: "bytes \<Rightarrow> u8 \<Rightarrow> bytes \<Rightarrow> bytes" where
  "group_payload_ad group_id v enc = GROUP_MSG_AD_DOMAIN @ [v] @ group_id @ enc"

section \<open>Messages\<close>

record GroupMessageHeader =
  gh_key_id :: bytes
  gh_iteration :: u32
  gh_content_id :: "bytes option"

record GroupMessage =
  gm_version :: u8
  gm_enc_header :: bytes
  gm_nonce :: bytes
  gm_ct :: bytes

definition group_message_encode :: "GroupMessage \<Rightarrow> bytes" where
  "group_message_encode m = gm_version m # gm_enc_header m @ gm_nonce m @ gm_ct m"

definition group_message_decode :: "bytes \<Rightarrow> GroupMessage cresult" where
  "group_message_decode b =
     (case b of
        [] \<Rightarrow> Inl InvalidMessage
      | version # _ \<Rightarrow>
          (case enc_header_len version of
             None \<Rightarrow> Inl InvalidMessage
           | Some n \<Rightarrow>
               if length b < 1 + n + NONCE_LEN + TAG_LEN then Inl InvalidMessage
               else Inr \<lparr>gm_version = version, gm_enc_header = subslice 1 (1 + n) b,
                         gm_nonce = subslice (1 + n) (1 + n + NONCE_LEN) b,
                         gm_ct = drop (1 + n + NONCE_LEN) b\<rparr>))"

definition open_header_details :: "prims \<Rightarrow> bytes \<Rightarrow> GroupMessage \<Rightarrow> GroupMessageHeader cresult" where
  "open_header_details C hk m =
     (case header_plain_len (gm_version m) of
        None \<Rightarrow> Inl InvalidMessage
      | Some expected_len \<Rightarrow>
          try_then (aead_open C hk (group_header_ad (gm_version m)) (gm_enc_header m)) (\<lambda>plain.
          if length plain \<noteq> expected_len then Inl InvalidMessage
          else Inr \<lparr>gh_key_id = take 16 plain, gh_iteration = from_le32 (subslice 16 20 plain),
                    gh_content_id = (if gm_version m = GROUP_MESSAGE_VERSION_ORIGIN
                                     then Some (subslice 20 36 plain) else None)\<rparr>))"

definition open_header :: "prims \<Rightarrow> bytes \<Rightarrow> GroupMessage \<Rightarrow> (bytes \<times> u32) cresult" where
  "open_header C hk m =
     try_then (open_header_details C hk m) (\<lambda>h. Inr (gh_key_id h, gh_iteration h))"

section \<open>Recipient-scoped wrappers\<close>

record GroupOriginContext =
  oc_group_id :: bytes
  oc_sender_account :: bytes
  oc_sender_device :: bytes
  oc_recipient_account :: bytes
  oc_recipient_device :: bytes
  oc_sender_chain_key_id :: bytes
  oc_envelope_content_id :: bytes
  oc_authenticated_retention :: "u64 option"

record GroupOriginEnvelope =
  oe_shared :: GroupMessage
  oe_tag :: bytes

text \<open>What the recipient tag authenticates, in the order the code feeds it to HMAC.\<close>

definition origin_tag_input :: "prims \<Rightarrow> GroupOriginContext \<Rightarrow> bytes \<Rightarrow> bytes" where
  "origin_tag_input C c ciphertext =
     GROUP_ORIGIN_DOMAIN @ oc_group_id c @ oc_sender_account c @ oc_sender_device c @ oc_recipient_account c
     @ oc_recipient_device c @ oc_sender_chain_key_id c @ oc_envelope_content_id c
     @ to_le64 (case oc_authenticated_retention c of None \<Rightarrow> 0 | Some r \<Rightarrow> r) @ sha256 C ciphertext"

definition group_origin_tag :: "prims \<Rightarrow> bytes \<Rightarrow> GroupOriginContext \<Rightarrow> bytes \<Rightarrow> bytes" where
  "group_origin_tag C origin_key c ciphertext = hmac C origin_key (origin_tag_input C c ciphertext)"

definition origin_seal :: "prims \<Rightarrow> GroupMessage \<Rightarrow> bytes \<Rightarrow> GroupOriginContext \<Rightarrow> GroupOriginEnvelope cresult" where
  "origin_seal C m origin_key c =
     (if gm_version m \<noteq> GROUP_MESSAGE_VERSION_ORIGIN \<or> origin_key = zeros 32 then Inl InvalidKey
      else Inr \<lparr>oe_shared = m, oe_tag = group_origin_tag C origin_key c (group_message_encode m)\<rparr>)"

definition origin_from_parts :: "GroupMessage \<Rightarrow> bytes \<Rightarrow> GroupOriginEnvelope cresult" where
  "origin_from_parts m tag =
     (if gm_version m \<noteq> GROUP_MESSAGE_VERSION_ORIGIN then Inl InvalidMessage
      else Inr \<lparr>oe_shared = m, oe_tag = tag\<rparr>)"

definition origin_decode :: "bytes \<Rightarrow> GroupOriginEnvelope cresult" where
  "origin_decode b =
     (if length b < length GROUP_ORIGIN_ENVELOPE_MAGIC + 4 + GROUP_ORIGIN_TAG_LEN
         \<or> \<not> starts_with b GROUP_ORIGIN_ENVELOPE_MAGIC then Inl InvalidMessage
      else
        let shared_len = unat (from_le32 (subslice 4 8 b)) in
        if shared_len = 0 \<or> 8 + shared_len + GROUP_ORIGIN_TAG_LEN \<noteq> length b then Inl InvalidMessage
        else
          try_then (group_message_decode (subslice 8 (8 + shared_len) b)) (\<lambda>m.
          if gm_version m \<noteq> GROUP_MESSAGE_VERSION_ORIGIN then Inl InvalidMessage
          else Inr \<lparr>oe_shared = m, oe_tag = drop (8 + shared_len) b\<rparr>))"

definition origin_encode :: "GroupOriginEnvelope \<Rightarrow> bytes option" where
  "origin_encode e =
     (let shared = group_message_encode (oe_shared e) in
      if length shared < 2 ^ 32
      then Some (GROUP_ORIGIN_ENVELOPE_MAGIC @ to_le32 (word_of_nat (length shared)) @ shared @ oe_tag e)
      else None)"

definition origin_verify :: "prims \<Rightarrow> GroupOriginEnvelope \<Rightarrow> bytes \<Rightarrow> GroupOriginContext \<Rightarrow> unit cresult" where
  "origin_verify C e origin_key c =
     (if origin_key = zeros 32 then Inl InvalidKey
      else if group_origin_tag C origin_key c (group_message_encode (oe_shared e)) = oe_tag e then Inr ()
      else Inl MessageAuthentication)"

section \<open>The sending chain\<close>

record GroupSenderChain =
  gs_key_id :: bytes
  gs_chain_key :: bytes
  gs_iteration :: u32

definition sender_generate :: "bytes \<Rightarrow> bytes \<Rightarrow> GroupSenderChain" where
  "sender_generate kid ck = \<lparr>gs_key_id = kid, gs_chain_key = ck, gs_iteration = 0\<rparr>"

definition snapshot :: "GroupSenderChain \<Rightarrow> bytes \<times> bytes \<times> u32" where
  "snapshot s = (gs_key_id s, gs_chain_key s, gs_iteration s)"

definition seal_versioned ::
  "prims \<Rightarrow> GroupSenderChain \<Rightarrow> bytes \<Rightarrow> bytes \<Rightarrow> bytes \<Rightarrow> bytes option \<Rightarrow> u8 \<Rightarrow> bytes \<Rightarrow> bytes
    \<Rightarrow> (GroupMessage \<times> GroupSenderChain) option" where
  "seal_versioned C s hk group_id plaintext content_id version header_nonce nonce =
     (let (next_ck, mk) = kdf_gck C (gs_chain_key s) in
      case header_plain_len version of
        None \<Rightarrow> None
      | Some header_len \<Rightarrow>
          let hdr = copy_at 16 (to_le32 (gs_iteration s)) (copy_at 0 (gs_key_id s) (zeros header_len)) in
          (case (case content_id of
                   None \<Rightarrow> Some hdr
                 | Some cid \<Rightarrow> if header_len < 36 then None else Some (copy_at 20 cid hdr)) of
             None \<Rightarrow> None
           | Some hdr \<Rightarrow>
               let enc = aead_seal C hk (group_header_ad version) hdr header_nonce;
                   ct = aead_encrypt_with_nonce C mk nonce (group_payload_ad group_id version enc) plaintext in
               Some (\<lparr>gm_version = version, gm_enc_header = enc, gm_nonce = nonce, gm_ct = ct\<rparr>,
                     s\<lparr>gs_chain_key := next_ck, gs_iteration := gs_iteration s + 1\<rparr>)))"

definition group_seal ::
  "prims \<Rightarrow> GroupSenderChain \<Rightarrow> bytes \<Rightarrow> bytes \<Rightarrow> bytes \<Rightarrow> bytes \<Rightarrow> bytes \<Rightarrow> (GroupMessage \<times> GroupSenderChain) option" where
  "group_seal C s hk group_id plaintext =
     seal_versioned C s hk group_id plaintext None GROUP_MESSAGE_VERSION_LEGACY"

definition group_seal_origin ::
  "prims \<Rightarrow> GroupSenderChain \<Rightarrow> bytes \<Rightarrow> bytes \<Rightarrow> bytes \<Rightarrow> bytes \<Rightarrow> bytes \<Rightarrow> bytes
    \<Rightarrow> (GroupMessage \<times> GroupSenderChain) option" where
  "group_seal_origin C s hk group_id content_id plaintext =
     seal_versioned C s hk group_id plaintext (Some content_id) GROUP_MESSAGE_VERSION_ORIGIN"

section \<open>The receiving chain\<close>

record GroupSkippedKey =
  gk_n :: u32
  gk_mk :: bytes
  gk_stored_at :: u64

record GroupReceiverChain =
  gr_key_id :: bytes
  gr_chain_key :: bytes
  gr_iteration :: u32
  gr_skipped :: "GroupSkippedKey list"

definition receiver_new :: "bytes \<Rightarrow> bytes \<Rightarrow> u32 \<Rightarrow> GroupReceiverChain" where
  "receiver_new kid ck n = \<lparr>gr_key_id = kid, gr_chain_key = ck, gr_iteration = n, gr_skipped = []\<rparr>"

definition group_purge :: "u64 \<Rightarrow> GroupReceiverChain \<Rightarrow> GroupReceiverChain" where
  "group_purge now r =
     r\<lparr>gr_skipped := filter (\<lambda>sk. saturating_sub now (gk_stored_at sk) \<le> GROUP_SKIPPED_TTL_SECS) (gr_skipped r)\<rparr>"

text \<open>The loop that stores the keys of the gap, and the one that evicts the oldest.\<close>

function group_skip_loop ::
  "prims \<Rightarrow> u64 \<Rightarrow> u32 \<Rightarrow> bytes \<Rightarrow> u32 \<Rightarrow> GroupSkippedKey list \<Rightarrow> bytes \<times> u32 \<times> GroupSkippedKey list" where
  "group_skip_loop C now until ck n sks =
     (if n < until then
        let (next_ck, mk) = kdf_gck C ck in
        group_skip_loop C now until next_ck (n + 1) (sks @ [\<lparr>gk_n = n, gk_mk = mk, gk_stored_at = now\<rparr>])
      else (ck, n, sks))"
  by pat_completeness auto
termination
  by (relation "measure (\<lambda>(C, now, until, ck, n, sks). unat until - unat n)")
    (auto simp: word_less_nat_alt unat_next)

declare group_skip_loop.simps [simp del]

function group_cap_skipped :: "GroupSkippedKey list \<Rightarrow> GroupSkippedKey list" where
  "group_cap_skipped sks =
     (if length sks > GROUP_MAX_STORED_SKIPPED then group_cap_skipped (tl sks) else sks)"
  by pat_completeness auto
termination
  by (relation "measure length") auto

declare group_cap_skipped.simps [simp del]

text \<open>The branch for a message of the chain's past, and the branch that moves the chain forward.\<close>

definition open_past ::
  "prims \<Rightarrow> bytes \<Rightarrow> GroupReceiverChain \<Rightarrow> GroupMessage \<Rightarrow> u32 \<Rightarrow> GroupReceiverChain \<times> bytes cresult" where
  "open_past C ad r m n =
     (case find_index (\<lambda>sk. gk_n sk = n) (gr_skipped r) of
        None \<Rightarrow> (r, Inl MessageAuthentication)
      | Some i \<Rightarrow>
          (case aead_decrypt_with_nonce C (gk_mk (gr_skipped r ! i)) (gm_nonce m) ad (gm_ct m) of
             Inl e \<Rightarrow> (r, Inl e)
           | Inr pt \<Rightarrow> (r\<lparr>gr_skipped := take i (gr_skipped r) @ drop (Suc i) (gr_skipped r)\<rparr>, Inr pt)))"

definition open_ahead ::
  "prims \<Rightarrow> bytes \<Rightarrow> GroupReceiverChain \<Rightarrow> GroupMessage \<Rightarrow> u32 \<Rightarrow> u64 \<Rightarrow> GroupReceiverChain \<times> bytes cresult" where
  "open_ahead C ad r m n now =
     (if n > saturating_add (gr_iteration r) GROUP_MAX_SKIP then (r, Inl TooManySkipped)
      else
        let (ck, k, sks) = group_skip_loop C now n (gr_chain_key r) (gr_iteration r) (gr_skipped r);
            r = r\<lparr>gr_chain_key := ck, gr_iteration := k, gr_skipped := group_cap_skipped sks\<rparr>;
            (next_ck, mk) = kdf_gck C (gr_chain_key r) in
        (case aead_decrypt_with_nonce C mk (gm_nonce m) ad (gm_ct m) of
           Inl e \<Rightarrow> (r, Inl e)
         | Inr pt \<Rightarrow> (r\<lparr>gr_chain_key := next_ck, gr_iteration := gr_iteration r + 1\<rparr>, Inr pt)))"

definition group_open ::
  "prims \<Rightarrow> GroupReceiverChain \<Rightarrow> bytes \<Rightarrow> GroupMessage \<Rightarrow> u32 \<Rightarrow> u64 \<Rightarrow> GroupReceiverChain \<times> bytes cresult" where
  "group_open C r group_id m n now =
     (let r = group_purge now r;
          ad = group_payload_ad group_id (gm_version m) (gm_enc_header m) in
      if n < gr_iteration r then open_past C ad r m n else open_ahead C ad r m n now)"

section \<open>Codecs\<close>

definition wf_group_message :: "GroupMessage \<Rightarrow> bool" where
  "wf_group_message m \<longleftrightarrow> enc_header_len (gm_version m) = Some (length (gm_enc_header m))
     \<and> length (gm_nonce m) = 24 \<and> 16 \<le> length (gm_ct m)"

lemma group_message_iff: "group_message_decode b = Inr m \<longleftrightarrow> b = group_message_encode m \<and> wf_group_message m"
proof
  assume d: "group_message_decode b = Inr m"
  then obtain v t n where b: "b = v # t" and n: "enc_header_len v = Some n" and l: "n + 40 \<le> length t"
    and m: "m = \<lparr>gm_version = v, gm_enc_header = subslice 1 (1 + n) b, gm_nonce = subslice (1 + n) (1 + n + 24) b,
      gm_ct = drop (1 + n + 24) b\<rparr>"
    by (auto simp: group_message_decode_def split: list.splits option.splits if_splits)
  have f: "gm_enc_header m = take n t" "gm_nonce m = take 24 (drop n t)" "gm_ct m = drop 24 (drop n t)" "gm_version m = v"
    by (simp_all add: m b subslice_def drop_Cons' add.commute)
  have "t = take n t @ take 24 (drop n t) @ drop 24 (drop n t)" by (simp only: append_take_drop_id)
  then show "b = group_message_encode m \<and> wf_group_message m"
    using l n by (simp only: group_message_encode_def wf_group_message_def f b) simp
next
  assume m: "b = group_message_encode m \<and> wf_group_message m"
  then show "group_message_decode b = Inr m"
    by (simp add: group_message_decode_def group_message_encode_def wf_group_message_def subslice_def drop_Cons')
qed

text \<open>
  The recipient wrapper has one encoding: what decodes is exactly what an envelope with a well-formed
  origin message and a full tag encodes to.
\<close>

definition wf_origin :: "GroupOriginEnvelope \<Rightarrow> bool" where
  "wf_origin e \<longleftrightarrow> wf_group_message (oe_shared e) \<and> gm_version (oe_shared e) = GROUP_MESSAGE_VERSION_ORIGIN
     \<and> length (oe_tag e) = 32"

lemma origin_decode_encode:
  assumes "origin_encode e = Some b" "wf_origin e"
  shows "origin_decode b = Inr e"
proof -
  let ?m = "group_message_encode (oe_shared e)"
  have l: "length ?m < 4294967296" and b: "b = GROUP_ORIGIN_ENVELOPE_MAGIC @ to_le32 (word_of_nat (length ?m)) @ ?m @ oe_tag e"
    using assms(1) by (auto simp: origin_encode_def split: if_splits)
  have m: "group_message_decode ?m = Inr (oe_shared e)" "?m \<noteq> []"
    using assms(2) by (simp_all add: wf_origin_def group_message_iff group_message_encode_def)
  have g: "length GROUP_ORIGIN_ENVELOPE_MAGIC = 4" by (simp add: GROUP_ORIGIN_ENVELOPE_MAGIC_def)
  have f: "subslice 4 8 b = to_le32 (word_of_nat (length ?m))" "subslice 8 (8 + length ?m) b = ?m"
    "drop (8 + length ?m) b = oe_tag e" "starts_with b GROUP_ORIGIN_ENVELOPE_MAGIC"
    "length b = 8 + length ?m + length (oe_tag e)"
    by (simp_all add: b g subslice_def)
  have u: "unat (word_of_nat (length ?m) :: u32) = length ?m" using l by (simp add: unat_of_nat)
  show ?thesis
    using assms(2) m by (simp add: origin_decode_def f u g wf_origin_def)
qed

lemma origin_encode_decode:
  assumes d: "origin_decode b = Inr e"
  shows "origin_encode e = Some b \<and> wf_origin e"
proof -
  define n where "n = unat (from_le32 (subslice 4 8 b))"
  have g: "length GROUP_ORIGIN_ENVELOPE_MAGIC = 4" by (simp add: GROUP_ORIGIN_ENVELOPE_MAGIC_def)
  from d have l: "length b = 40 + n" and s: "starts_with b GROUP_ORIGIN_ENVELOPE_MAGIC"
    and m: "group_message_decode (subslice 8 (8 + n) b) = Inr (oe_shared e)"
    and v: "gm_version (oe_shared e) = 2" and t: "oe_tag e = drop (8 + n) b"
    unfolding origin_decode_def n_def g by (auto simp add: result_simps split: if_splits)
  have e: "group_message_encode (oe_shared e) = subslice 8 (8 + n) b" "wf_group_message (oe_shared e)"
    using m by (simp_all add: group_message_iff)
  have n: "n < 4294967296" unfolding n_def by (rule unat_u32)
  have "length (subslice 4 8 b) = 4" using l by simp
  then have k: "to_le32 (word_of_nat n) = subslice 4 8 b" unfolding n_def by simp
  have "b = GROUP_ORIGIN_ENVELOPE_MAGIC @ drop 4 b" using s g by (metis starts_with_def append_take_drop_id)
  also have "drop 4 b = subslice 4 8 b @ subslice 8 (8 + n) b @ drop (8 + n) b"
    by (simp add: peel_simps)
  finally have b: "GROUP_ORIGIN_ENVELOPE_MAGIC @ subslice 4 8 b @ subslice 8 (8 + n) b @ drop (8 + n) b = b" by (rule sym)
  show ?thesis
    using l n k v t e b by (simp add: origin_encode_def wf_origin_def)
qed

section \<open>What the recipient tag binds\<close>

definition wf_context :: "GroupOriginContext \<Rightarrow> bool" where
  "wf_context c \<longleftrightarrow> length (oc_group_id c) = 32 \<and> length (oc_sender_account c) = 32 \<and> length (oc_sender_device c) = 32
     \<and> length (oc_recipient_account c) = 32 \<and> length (oc_recipient_device c) = 32
     \<and> length (oc_sender_chain_key_id c) = 16 \<and> length (oc_envelope_content_id c) = 16"

text \<open>An absent retention and a retention of zero are the same on the wire.\<close>

definition on_wire :: "GroupOriginContext \<Rightarrow> GroupOriginContext" where
  "on_wire c = c\<lparr>oc_authenticated_retention := Some (case oc_authenticated_retention c of None \<Rightarrow> 0 | Some r \<Rightarrow> r)\<rparr>"

lemma origin_tag_input_inject:
  assumes "wf_context c" "wf_context d" "origin_tag_input C c x = origin_tag_input C d y"
  shows "on_wire c = on_wire d" "sha256 C x = sha256 C y"
proof -
  let ?r = "\<lambda>c. case oc_authenticated_retention c of None \<Rightarrow> 0 | Some r \<Rightarrow> r"
  have e: "oc_group_id c = oc_group_id d \<and> oc_sender_account c = oc_sender_account d \<and> oc_sender_device c = oc_sender_device d
     \<and> oc_recipient_account c = oc_recipient_account d \<and> oc_recipient_device c = oc_recipient_device d
     \<and> oc_sender_chain_key_id c = oc_sender_chain_key_id d \<and> oc_envelope_content_id c = oc_envelope_content_id d
     \<and> to_le64 (?r c) = to_le64 (?r d) \<and> sha256 C x = sha256 C y"
    using assms by (simp add: origin_tag_input_def wf_context_def)
  then have "?r c = ?r d" by (metis from_to_le(3))
  with e show "on_wire c = on_wire d" "sha256 C x = sha256 C y"
    by (simp_all add: on_wire_def)
qed

lemma group_message_encode_inject:
  assumes "wf_group_message m" "wf_group_message n" "group_message_encode m = group_message_encode n"
  shows "m = n"
  using assms group_message_iff [of "group_message_encode m" m] group_message_iff [of "group_message_encode m" n] by simp

text \<open>
  A recipient wrapper verifies for exactly the message and the context it was sealed for: no
  other group, sender, device, recipient, chain, event or retention, and no other ciphertext. HMAC and
  SHA-256 are assumed not to collide on the inputs at hand.
\<close>

theorem origin_tag_binds:
  assumes "inj_on (hmac C k) {origin_tag_input C c (group_message_encode m), origin_tag_input C d (group_message_encode m')}"
    and "inj_on (sha256 C) {group_message_encode m, group_message_encode m'}"
    and "origin_seal C m k c = Inr e" "wf_context c" "wf_context d" "wf_group_message m" "wf_group_message m'"
  shows "origin_verify C (e\<lparr>oe_shared := m'\<rparr>) k d = Inr () \<longleftrightarrow> m' = m \<and> on_wire d = on_wire c"
proof -
  have k: "k \<noteq> zeros 32" and t: "oe_tag e = hmac C k (origin_tag_input C c (group_message_encode m))"
    using assms(3) by (auto simp: origin_seal_def group_origin_tag_def split: if_splits)
  have "origin_verify C (e\<lparr>oe_shared := m'\<rparr>) k d = Inr () \<longleftrightarrow>
      origin_tag_input C d (group_message_encode m') = origin_tag_input C c (group_message_encode m)"
    using k inj_on_eq_iff [OF assms(1)] by (simp add: origin_verify_def group_origin_tag_def t)
  also have "\<dots> \<longleftrightarrow> m' = m \<and> on_wire d = on_wire c"
  proof
    assume "origin_tag_input C d (group_message_encode m') = origin_tag_input C c (group_message_encode m)"
    from origin_tag_input_inject [OF assms(5,4) this] show "m' = m \<and> on_wire d = on_wire c"
      using inj_on_eq_iff [OF assms(2)] assms(6,7) by (auto intro: group_message_encode_inject)
  next
    assume a: "m' = m \<and> on_wire d = on_wire c"
    have f: "oc_group_id (on_wire x) = oc_group_id x" "oc_sender_account (on_wire x) = oc_sender_account x"
      "oc_sender_device (on_wire x) = oc_sender_device x" "oc_recipient_account (on_wire x) = oc_recipient_account x"
      "oc_recipient_device (on_wire x) = oc_recipient_device x" "oc_sender_chain_key_id (on_wire x) = oc_sender_chain_key_id x"
      "oc_envelope_content_id (on_wire x) = oc_envelope_content_id x"
      "oc_authenticated_retention (on_wire x) = Some (case oc_authenticated_retention x of None \<Rightarrow> 0 | Some r \<Rightarrow> r)" for x
      by (simp_all add: on_wire_def)
    have "origin_tag_input C x y = origin_tag_input C (on_wire x) y" for x y
      by (simp add: origin_tag_input_def f)
    with a show "origin_tag_input C d (group_message_encode m') = origin_tag_input C c (group_message_encode m)" by metis
  qed
  finally show ?thesis .
qed

section \<open>Chain arithmetic\<close>

fun gchain :: "prims \<Rightarrow> bytes \<Rightarrow> nat \<Rightarrow> bytes" where
  "gchain C ck 0 = ck"
| "gchain C ck (Suc n) = fst (kdf_gck C (gchain C ck n))"

definition gmsg_key :: "prims \<Rightarrow> bytes \<Rightarrow> nat \<Rightarrow> bytes" where
  "gmsg_key C ck n = snd (kdf_gck C (gchain C ck n))"

lemma kdf_gck_chain: "kdf_gck C (gchain C ck n) = (gchain C ck (Suc n), gmsg_key C ck n)"
  by (simp add: gmsg_key_def)

definition gap_keys :: "prims \<Rightarrow> u64 \<Rightarrow> bytes \<Rightarrow> nat \<Rightarrow> nat \<Rightarrow> GroupSkippedKey list" where
  "gap_keys C now ck a b =
     map (\<lambda>i. \<lparr>gk_n = word_of_nat i, gk_mk = gmsg_key C ck i, gk_stored_at = now\<rparr>) [a..<b]"

lemma group_skip_loop_eq:
  "n \<le> until \<Longrightarrow> group_skip_loop C now until (gchain C ck (unat n)) n sks
     = (gchain C ck (unat until), until, sks @ gap_keys C now ck (unat n) (unat until))"
proof (induction "unat until - unat n" arbitrary: n sks)
  case 0
  then have "n = until" by (simp add: word_le_nat_alt word_unat_eq_iff)
  then show ?case by (subst group_skip_loop.simps) (simp add: gap_keys_def)
next
  case (Suc d)
  then have lt: "unat n < unat until" by simp
  note u = unat_next [OF lt]
  have le: "n + 1 \<le> until" using lt u by (simp add: word_le_nat_alt)
  have r: "gap_keys C now ck (unat n) (unat until) = \<lparr>gk_n = n, gk_mk = gmsg_key C ck (unat n), gk_stored_at = now\<rparr>
      # gap_keys C now ck (unat (n + 1)) (unat until)"
    using lt by (simp add: gap_keys_def u upt_conv_Cons)
  have "group_skip_loop C now until (gchain C ck (unat (n + 1))) (n + 1) t
      = (gchain C ck (unat until), until, t @ gap_keys C now ck (unat (n + 1)) (unat until))" for t
    using Suc.hyps(1) [OF _ le] Suc.hyps(2) u by simp
  with lt r show ?case
    by (subst group_skip_loop.simps) (simp add: word_less_nat_alt kdf_gck_chain u del: gchain.simps(2))
qed

lemma group_cap_skipped_eq: "group_cap_skipped sks = drop (length sks - 2000) sks"
proof (induction sks rule: group_cap_skipped.induct)
  case (1 sks)
  show ?case
  proof (cases "length sks > 2000")
    case True
    then have "drop (length sks - 2000) sks = drop (length (tl sks) - 2000) (tl sks)"
      by (cases sks) (simp_all add: drop_Cons')
    with 1 True show ?thesis by (subst group_cap_skipped.simps) simp
  qed (subst group_cap_skipped.simps, simp)
qed

lemma set_group_cap: "set (group_cap_skipped sks) \<subseteq> set sks"
  by (simp add: group_cap_skipped_eq set_drop_subset)

lemma distinct_group_cap: "distinct (map f sks) \<Longrightarrow> distinct (map f (group_cap_skipped sks))"
  by (simp add: group_cap_skipped_eq drop_map [symmetric])

text \<open>A receiver that is on the chain, and what moving it forward does.\<close>

definition on_chain :: "prims \<Rightarrow> bytes \<Rightarrow> GroupReceiverChain \<Rightarrow> bool" where
  "on_chain C ck r \<longleftrightarrow> gr_chain_key r = gchain C ck (unat (gr_iteration r))"

definition moved_to :: "prims \<Rightarrow> bytes \<Rightarrow> u32 \<Rightarrow> u64 \<Rightarrow> GroupReceiverChain \<Rightarrow> GroupReceiverChain" where
  "moved_to C ck n now r = r\<lparr>gr_chain_key := gchain C ck (unat n), gr_iteration := n,
     gr_skipped := group_cap_skipped (gr_skipped r @ gap_keys C now ck (unat (gr_iteration r)) (unat n))\<rparr>"

lemma open_ahead_eq:
  assumes "on_chain C ck r" "gr_iteration r \<le> n"
  shows "open_ahead C ad r m n now =
    (if unat n > unat (gr_iteration r) + 1000 then (r, Inl TooManySkipped)
     else case aead_decrypt C (gmsg_key C ck (unat n)) (gm_nonce m) ad (gm_ct m) of
            None \<Rightarrow> (moved_to C ck n now r, Inl MessageAuthentication)
          | Some pt \<Rightarrow> ((moved_to C ck n now r)\<lparr>gr_chain_key := gchain C ck (Suc (unat n)), gr_iteration := n + 1\<rparr>, Inr pt))"
proof -
  have "n > saturating_add (gr_iteration r) 1000 \<longleftrightarrow> unat n > unat (gr_iteration r) + 1000"
    using saturating_add_le [of n "gr_iteration r"] le_saturating_add [of n "gr_iteration r"] by (auto simp: not_less [symmetric])
  moreover have "group_skip_loop C now n (gr_chain_key r) (gr_iteration r) (gr_skipped r)
      = (gchain C ck (unat n), n, gr_skipped r @ gap_keys C now ck (unat (gr_iteration r)) (unat n))"
    using assms group_skip_loop_eq [of "gr_iteration r" n C now ck "gr_skipped r"] by (simp add: on_chain_def)
  ultimately show ?thesis
    by (simp add: open_ahead_def kdf_gck_chain aead_decrypt_with_nonce_def ok_or_def moved_to_def
        del: gchain.simps(2) split: option.split)
qed

section \<open>One chain, one follower, any network\<close>

text \<open>
  \<open>gn_first\<close> is the chain key the sender started from, \<open>gn_sent\<close> what it sent with the plaintexts, and
  \<open>gn_joined\<close> the number of messages sent before the receiver adopted its snapshot.
\<close>

record group_net =
  gn_first :: bytes
  gn_sender :: GroupSenderChain
  gn_sent :: "(bytes \<times> GroupMessage) list"
  gn_receiver :: "GroupReceiverChain option"
  gn_joined :: nat
  gn_accepted :: "bytes list"

text \<open>
  No forgery: a payload that opens under a message key of the chain is the message sent with that key.
  This is an assumption on everyone who does not send on the chain; the header may be anyone's, and the
  claimed iteration is arbitrary.
\<close>

definition unforged_group :: "prims \<Rightarrow> bytes \<Rightarrow> group_net \<Rightarrow> GroupMessage \<Rightarrow> bool" where
  "unforged_group C gid w m \<longleftrightarrow>
     (\<forall>i pt. i < 2 ^ 32 \<longrightarrow>
        aead_decrypt C (gmsg_key C (gn_first w) i) (gm_nonce m)
          (group_payload_ad gid (gm_version m) (gm_enc_header m)) (gm_ct m) = Some pt \<longrightarrow>
        i < length (gn_sent w) \<and> snd (gn_sent w ! i) = m)"

inductive group_step :: "prims \<Rightarrow> bytes \<Rightarrow> bytes \<Rightarrow> group_net \<Rightarrow> group_net \<Rightarrow> bool" for C hk gid where
  sends_legacy:
    "group_seal C (gn_sender w) hk gid pt hn nonce = Some (m, s) \<Longrightarrow> length hn = 24 \<Longrightarrow> length nonce = 24 \<Longrightarrow>
     gs_iteration (gn_sender w) \<noteq> - 1 \<Longrightarrow>
     group_step C hk gid w (w\<lparr>gn_sender := s, gn_sent := gn_sent w @ [(pt, m)]\<rparr>)"
| sends_origin:
    "group_seal_origin C (gn_sender w) hk gid cid pt hn nonce = Some (m, s) \<Longrightarrow> length cid = 16 \<Longrightarrow>
     length hn = 24 \<Longrightarrow> length nonce = 24 \<Longrightarrow> gs_iteration (gn_sender w) \<noteq> - 1 \<Longrightarrow>
     group_step C hk gid w (w\<lparr>gn_sender := s, gn_sent := gn_sent w @ [(pt, m)]\<rparr>)"
| joins:
    "gn_receiver w = None \<Longrightarrow> snapshot (gn_sender w) = (kid, ck, n) \<Longrightarrow>
     group_step C hk gid w (w\<lparr>gn_receiver := Some (receiver_new kid ck n), gn_joined := length (gn_sent w)\<rparr>)"
| receives:
    "gn_receiver w = Some r \<Longrightarrow> unforged_group C gid w m \<Longrightarrow> group_open C r gid m n now = (r', res) \<Longrightarrow>
     group_step C hk gid w (w\<lparr>gn_receiver := Some r',
       gn_accepted := gn_accepted w @ (case res of Inr pt \<Rightarrow> [pt] | Inl _ \<Rightarrow> [])\<rparr>)"

definition group_start :: "bytes \<Rightarrow> bytes \<Rightarrow> group_net" where
  "group_start kid ck =
     \<lparr>gn_first = ck, gn_sender = sender_generate kid ck, gn_sent = [], gn_receiver = None, gn_joined = 0, gn_accepted = []\<rparr>"

text \<open>Each message on the wire, the state of the sender, and the state of the follower.\<close>

definition good_sent :: "prims \<Rightarrow> bytes \<Rightarrow> bytes \<Rightarrow> bytes \<Rightarrow> bytes \<Rightarrow> nat \<Rightarrow> bytes \<times> GroupMessage \<Rightarrow> bool" where
  "good_sent C hk gid kid ck i pm \<longleftrightarrow>
     (let m = snd pm in
      aead_decrypt C (gmsg_key C ck i) (gm_nonce m) (group_payload_ad gid (gm_version m) (gm_enc_header m)) (gm_ct m)
        = Some (fst pm)
      \<and> wf_group_message m \<and> open_header C hk m = Inr (kid, word_of_nat i))"

definition follows :: "prims \<Rightarrow> bytes \<Rightarrow> nat \<Rightarrow> nat \<Rightarrow> GroupReceiverChain \<Rightarrow> nat list \<Rightarrow> bool" where
  "follows C ck j len r G \<longleftrightarrow>
     on_chain C ck r \<and> j \<le> unat (gr_iteration r)
     \<and> (\<forall>sk\<in>set (gr_skipped r). j \<le> unat (gk_n sk) \<and> gk_n sk < gr_iteration r
          \<and> gk_mk sk = gmsg_key C ck (unat (gk_n sk)) \<and> unat (gk_n sk) \<notin> set G)
     \<and> distinct (map gk_n (gr_skipped r))
     \<and> distinct G \<and> (\<forall>g\<in>set G. j \<le> g \<and> g < unat (gr_iteration r) \<and> g < len)"

definition group_ok :: "prims \<Rightarrow> bytes \<Rightarrow> bytes \<Rightarrow> bytes \<Rightarrow> group_net \<Rightarrow> bool" where
  "group_ok C hk gid kid w \<longleftrightarrow>
     length kid = 16 \<and> gs_key_id (gn_sender w) = kid \<and> length (gn_sent w) = unat (gs_iteration (gn_sender w))
     \<and> gs_chain_key (gn_sender w) = gchain C (gn_first w) (length (gn_sent w))
     \<and> (\<forall>i < length (gn_sent w). good_sent C hk gid kid (gn_first w) i (gn_sent w ! i))
     \<and> (case gn_receiver w of
          None \<Rightarrow> gn_accepted w = []
        | Some r \<Rightarrow> gn_joined w \<le> length (gn_sent w) \<and> gr_key_id r = kid \<and>
            (\<exists>G. follows C (gn_first w) (gn_joined w) (length (gn_sent w)) r G
               \<and> gn_accepted w = map (\<lambda>i. fst (gn_sent w ! i)) G))"

lemma group_header_ad_eq: "group_header_ad v = GROUP_HDR_AD_DOMAIN @ [v]"
  by (simp add: group_header_ad_def copy_at_def GROUP_HDR_AD_DOMAIN_def ascii_def zeros_def numeral_nat)

lemma sealed_message:
  assumes a: "sound_aead C" and l: "length kid = 16" "length hn = 24" "length nonce = 24"
    and s: "gs_key_id s = kid" "gs_chain_key s = gchain C ck i" "gs_iteration s = word_of_nat i"
    and v: "(cid, v) = (None, 1) \<or> (\<exists>c. (cid, v) = (Some c, 2) \<and> length c = 16)"
    and e: "seal_versioned C s hk gid pt cid v hn nonce = Some (m, s')"
  shows "good_sent C hk gid kid ck i (pt, m)" "s' = s\<lparr>gs_chain_key := gchain C ck (Suc i), gs_iteration := gs_iteration s + 1\<rparr>"
proof -
  define hdr where "hdr = kid @ to_le32 (word_of_nat i) @ (case cid of None \<Rightarrow> [] | Some c \<Rightarrow> c)"
  define enc where "enc = aead_seal C hk (group_header_ad v) hdr hn"
  have e1: "m = \<lparr>gm_version = v, gm_enc_header = enc, gm_nonce = nonce,
      gm_ct = aead_encrypt C (gmsg_key C ck i) nonce (group_payload_ad gid v enc) pt\<rparr>"
    and s': "s' = s\<lparr>gs_chain_key := gchain C ck (Suc i), gs_iteration := gs_iteration s + 1\<rparr>"
    using e v l(1) unfolding seal_versioned_def s kdf_gck_chain enc_def hdr_def
    by (auto simp: header_plain_len_def copy_at_def zeros_def aead_encrypt_with_nonce_def)
  show "s' = s\<lparr>gs_chain_key := gchain C ck (Suc i), gs_iteration := gs_iteration s + 1\<rparr>" by (fact s')
  have h: "header_plain_len v = Some (length hdr)" using v l(1) by (auto simp: header_plain_len_def hdr_def)
  have len: "length enc = 24 + length hdr + 16" using a l(2) by (simp add: enc_def aead_seal_def sound_aead_def)
  have o: "aead_open C hk (group_header_ad v) enc = Inr hdr" using a l(2) by (simp add: enc_def aead_open_seal)
  have "take 16 hdr = kid" "subslice 16 20 hdr = to_le32 (word_of_nat i)" using l(1) by (simp_all add: hdr_def subslice_def)
  then have "open_header C hk m = Inr (kid, word_of_nat i)"
    by (simp add: e1 open_header_def open_header_details_def h o)
  then show "good_sent C hk gid kid ck i (pt, m)"
    using a h len l(3) by (simp add: good_sent_def e1 wf_group_message_def enc_header_len_def sound_aead_def)
qed

section \<open>Receiving keeps the invariant\<close>

lemma followsI:
  assumes "on_chain C ck r" "j \<le> unat (gr_iteration r)"
    and "\<And>sk. sk \<in> set (gr_skipped r) \<Longrightarrow> j \<le> unat (gk_n sk) \<and> gk_n sk < gr_iteration r
          \<and> gk_mk sk = gmsg_key C ck (unat (gk_n sk)) \<and> unat (gk_n sk) \<notin> set G"
    and "distinct (map gk_n (gr_skipped r))" "distinct G"
    and "\<And>g. g \<in> set G \<Longrightarrow> j \<le> g \<and> g < unat (gr_iteration r) \<and> g < len"
  shows "follows C ck j len r G"
  unfolding follows_def using assms by blast

lemma followsD:
  assumes "follows C ck j len r G"
  shows "on_chain C ck r" "j \<le> unat (gr_iteration r)"
    and "\<And>sk. sk \<in> set (gr_skipped r) \<Longrightarrow> j \<le> unat (gk_n sk) \<and> gk_n sk < gr_iteration r
          \<and> gk_mk sk = gmsg_key C ck (unat (gk_n sk)) \<and> unat (gk_n sk) \<notin> set G"
    and "distinct (map gk_n (gr_skipped r))" "distinct G"
    and "\<And>g. g \<in> set G \<Longrightarrow> j \<le> g \<and> g < unat (gr_iteration r) \<and> g < len"
  using assms unfolding follows_def by blast+

lemma follows_purge: "follows C ck j len r G \<Longrightarrow> follows C ck j len (group_purge now r) G"
  unfolding follows_def on_chain_def group_purge_def by (auto simp: distinct_map_filter)

lemma gap_key:
  assumes "sk \<in> set (gap_keys C now ck a (unat (n :: u32)))"
  shows "a \<le> unat (gk_n sk)" "gk_n sk < n" "gk_mk sk = gmsg_key C ck (unat (gk_n sk))"
  using assms by (auto simp: gap_keys_def unat_of_nat_u32 word_less_nat_alt)

lemma distinct_gap_keys: "distinct (map gk_n (gap_keys C now ck a (unat (n :: u32))))"
  by (auto simp: gap_keys_def distinct_map inj_on_def comp_def dest!: arg_cong [where f = unat] simp: unat_of_nat_u32)

lemma follows_moved:
  assumes f: "follows C ck j len r G" and n: "gr_iteration r \<le> n"
  shows "follows C ck j len (moved_to C ck n now r) G"
proof (rule followsI)
  let ?all = "gr_skipped r @ gap_keys C now ck (unat (gr_iteration r)) (unat n)"
  have sub: "set (group_cap_skipped ?all) \<subseteq> set ?all" by (rule set_group_cap)
  note d = followsD [OF f]
  show "on_chain C ck (moved_to C ck n now r)" by (simp add: on_chain_def moved_to_def)
  show "j \<le> unat (gr_iteration (moved_to C ck n now r))" using d(2) n by (simp add: moved_to_def word_le_nat_alt)
  show "j \<le> unat (gk_n sk) \<and> gk_n sk < gr_iteration (moved_to C ck n now r)
      \<and> gk_mk sk = gmsg_key C ck (unat (gk_n sk)) \<and> unat (gk_n sk) \<notin> set G"
    if "sk \<in> set (gr_skipped (moved_to C ck n now r))" for sk
  proof -
    have "sk \<in> set ?all" using that sub by (auto simp: moved_to_def)
    then consider "sk \<in> set (gr_skipped r)" | "sk \<in> set (gap_keys C now ck (unat (gr_iteration r)) (unat n))" by auto
    then show ?thesis
    proof cases
      case 1
      then show ?thesis using d(3) [OF 1] n by (auto simp: moved_to_def)
    next
      case 2
      note g = gap_key [OF 2]
      have "unat (gk_n sk) \<notin> set G" using d(6) g(1) by fastforce
      then show ?thesis using g d(2) by (simp add: moved_to_def)
    qed
  qed
  have "gk_n x \<noteq> gk_n y" if "x \<in> set (gr_skipped r)" "y \<in> set (gap_keys C now ck (unat (gr_iteration r)) (unat n))" for x y
    using d(3) [OF that(1)] gap_key(1) [OF that(2)] by (auto simp: word_less_nat_alt)
  then have "distinct (map gk_n ?all)" using d(4) distinct_gap_keys by auto
  then show "distinct (map gk_n (gr_skipped (moved_to C ck n now r)))"
    by (simp add: moved_to_def distinct_group_cap del: map_append)
  show "distinct G" by (fact d(5))
  show "j \<le> g \<and> g < unat (gr_iteration (moved_to C ck n now r)) \<and> g < len" if "g \<in> set G" for g
    using d(6) [OF that] n by (auto simp: moved_to_def word_le_nat_alt)
qed

text \<open>The chain steps over the message it accepted.\<close>

lemma follows_step:
  assumes f: "follows C ck j len r G" and n: "gr_iteration r = n" "unat n < len" "n \<noteq> - 1"
  shows "follows C ck j len (r\<lparr>gr_chain_key := gchain C ck (Suc (unat n)), gr_iteration := n + 1\<rparr>) (G @ [unat n])"
proof (rule followsI)
  note d = followsD [OF f, unfolded n(1)]
  have "unat n < unat (- 1 :: u32)" using n(3) by (simp add: word_less_nat_alt [symmetric] word_order.not_eq_extremum)
  then have u: "unat (n + 1) = Suc (unat n)" by (rule unat_next)
  let ?r = "r\<lparr>gr_chain_key := gchain C ck (Suc (unat n)), gr_iteration := n + 1\<rparr>"
  show "on_chain C ck ?r" by (simp add: on_chain_def u)
  show "j \<le> unat (gr_iteration ?r)" using d(2) by (simp add: u)
  show "j \<le> unat (gk_n sk) \<and> gk_n sk < gr_iteration ?r \<and> gk_mk sk = gmsg_key C ck (unat (gk_n sk))
      \<and> unat (gk_n sk) \<notin> set (G @ [unat n])" if "sk \<in> set (gr_skipped ?r)" for sk
    using d(3) [of sk] that by (auto simp: word_less_nat_alt u)
  show "distinct (map gk_n (gr_skipped ?r))" using d(4) by simp
  show "distinct (G @ [unat n])" using d(5,6) by fastforce
  show "j \<le> g \<and> g < unat (gr_iteration ?r) \<and> g < len" if "g \<in> set (G @ [unat n])" for g
    using d(2) d(6) [of g] n that by (auto simp: u)
qed

lemma follows_hit:
  assumes f: "follows C ck j len r G" and i: "i < length (gr_skipped r)" and n: "unat (gk_n (gr_skipped r ! i)) < len"
  shows "follows C ck j len (r\<lparr>gr_skipped := take i (gr_skipped r) @ drop (Suc i) (gr_skipped r)\<rparr>)
    (G @ [unat (gk_n (gr_skipped r ! i))])"
proof (rule followsI)
  note d = followsD [OF f] and x = distinct_remove_nth [OF followsD(4) [OF f] i]
  let ?xs = "take i (gr_skipped r) @ drop (Suc i) (gr_skipped r)" and ?k = "gr_skipped r ! i"
  let ?r = "r\<lparr>gr_skipped := ?xs\<rparr>"
  note k = d(3) [OF nth_mem [OF i]]
  show "on_chain C ck ?r" "j \<le> unat (gr_iteration ?r)" "distinct (map gk_n (gr_skipped ?r))"
    using d(1,2) x(1) by (simp_all add: on_chain_def)
  show "distinct (G @ [unat (gk_n ?k)])" using d(5) k by simp
  show "j \<le> g \<and> g < unat (gr_iteration ?r) \<and> g < len" if "g \<in> set (G @ [unat (gk_n ?k)])" for g
    using that d(6) [of g] k n by (auto simp: word_less_nat_alt)
  show "j \<le> unat (gk_n sk) \<and> gk_n sk < gr_iteration ?r \<and> gk_mk sk = gmsg_key C ck (unat (gk_n sk))
      \<and> unat (gk_n sk) \<notin> set (G @ [unat (gk_n ?k)])" if "sk \<in> set (gr_skipped ?r)" for sk
  proof -
    have s: "sk \<in> set ?xs" using that by simp
    then have "gk_n sk \<noteq> gk_n ?k" using x(2) by (metis imageI)
    then show ?thesis using d(3) [of sk] s x(3) by (auto simp: word_unat_eq_iff)
  qed
qed

text \<open>What a delivery leaves, and the two branches of opening.\<close>

definition took :: "prims \<Rightarrow> bytes \<Rightarrow> nat \<Rightarrow> (bytes \<times> GroupMessage) list \<Rightarrow> nat list \<Rightarrow> GroupReceiverChain \<Rightarrow> bytes cresult \<Rightarrow> bool" where
  "took C ck j sent G r res \<longleftrightarrow>
     (case res of Inl _ \<Rightarrow> follows C ck j (length sent) r G
      | Inr pt \<Rightarrow> \<exists>i. follows C ck j (length sent) r (G @ [i]) \<and> fst (sent ! i) = pt)"

lemma opened_is_sent:
  assumes "unforged_group C gid w m" "\<forall>i < length (gn_sent w). good_sent C hk gid kid (gn_first w) i (gn_sent w ! i)"
    and "aead_decrypt C (gmsg_key C (gn_first w) (unat (n :: u32))) (gm_nonce m)
      (group_payload_ad gid (gm_version m) (gm_enc_header m)) (gm_ct m) = Some pt" and n: "unat n = i"
  shows "i < length (gn_sent w)" "fst (gn_sent w ! i) = pt"
proof -
  have i: "i < length (gn_sent w)" "snd (gn_sent w ! i) = m"
    using assms(1,3) unat_u32 [of n] by (auto simp: unforged_group_def n [symmetric])
  then show "i < length (gn_sent w)" by simp
  show "fst (gn_sent w ! i) = pt" using assms(2,3) i n by (auto simp: good_sent_def)
qed

lemma follows_open:
  assumes f: "follows C (gn_first w) j (length (gn_sent w)) r G"
    and g: "\<forall>i < length (gn_sent w). good_sent C hk gid kid (gn_first w) i (gn_sent w ! i)"
    and l: "length (gn_sent w) < 2 ^ 32" and u: "unforged_group C gid w m" and o: "group_open C r gid m n now = (r', res)"
  shows "took C (gn_first w) j (gn_sent w) G r' res \<and> gr_key_id r' = gr_key_id r"
proof -
  define q where "q = group_purge now r"
  define ad where "ad = group_payload_ad gid (gm_version m) (gm_enc_header m)"
  have q: "follows C (gn_first w) j (length (gn_sent w)) q G" "gr_key_id q = gr_key_id r"
    using follows_purge [OF f] by (simp_all add: q_def group_purge_def)
  note sent = opened_is_sent [OF u g _ refl, folded ad_def]
  show ?thesis
  proof (cases "n < gr_iteration q")
    case True
    then have e: "open_past C ad q m n = (r', res)" using o by (simp add: group_open_def q_def ad_def)
    show ?thesis
    proof (cases "find_index (\<lambda>sk. gk_n sk = n) (gr_skipped q)")
      case None
      then show ?thesis using e q by (auto simp: open_past_def took_def)
    next
      case (Some i)
      then have i: "i < length (gr_skipped q)" "gk_n (gr_skipped q ! i) = n" using find_index_Some by fast+
      have mk: "gk_mk (gr_skipped q ! i) = gmsg_key C (gn_first w) (unat n)"
        using followsD(3) [OF q(1) nth_mem [OF i(1)]] i(2) by simp
      show ?thesis
        using e Some q sent [of n] follows_hit [OF q(1) i(1)] i(2)
        by (auto simp: open_past_def mk took_def aead_decrypt_with_nonce_def ok_or_def split: option.splits)
    qed
  next
    case False
    then have n: "gr_iteration q \<le> n" and e: "open_ahead C ad q m n now = (r', res)"
      using o by (simp_all add: group_open_def q_def ad_def)
    let ?r = "moved_to C (gn_first w) n now q"
    note mv = follows_moved [OF q(1) n, of now]
    have k: "gr_iteration ?r = n" "gr_key_id ?r = gr_key_id r" using q(2) by (simp_all add: moved_to_def)
    have "unat (- 1 :: u32) = 4294967295" by (simp add: unsigned_minus_1_eq_mask mask_eq_exp_minus_1)
    then have "n \<noteq> - 1" if "unat n < length (gn_sent w)" using that l by auto
    then show ?thesis
      using e q sent [of n] mv k follows_step [OF mv k(1)]
      unfolding open_ahead_eq [OF followsD(1) [OF q(1)] n]
      by (auto simp: took_def simp del: gchain.simps(2) split: if_splits option.splits)
  qed
qed

lemma group_ok_start: "length kid = 16 \<Longrightarrow> group_ok C hk gid kid (group_start kid ck)"
  by (simp add: group_ok_def group_start_def sender_generate_def)

lemma group_ok_sent:
  assumes a: "sound_aead C" and w: "group_ok C hk gid kid w" and l: "length hn = 24" "length nonce = 24"
    and v: "(cid, v) = (None, 1) \<or> (\<exists>c. (cid, v) = (Some c, 2) \<and> length c = 16)"
    and e: "seal_versioned C (gn_sender w) hk gid pt cid v hn nonce = Some (m, s)" and n: "gs_iteration (gn_sender w) \<noteq> - 1"
  shows "group_ok C hk gid kid (w\<lparr>gn_sender := s, gn_sent := gn_sent w @ [(pt, m)]\<rparr>)"
proof -
  let ?i = "length (gn_sent w)"
  have k: "length kid = 16" "gs_key_id (gn_sender w) = kid" "gs_chain_key (gn_sender w) = gchain C (gn_first w) ?i"
    and it: "?i = unat (gs_iteration (gn_sender w))" and old: "\<forall>i < ?i. good_sent C hk gid kid (gn_first w) i (gn_sent w ! i)"
    using w by (simp_all add: group_ok_def)
  have "gs_iteration (gn_sender w) = word_of_nat ?i" by (simp add: it)
  note sm = sealed_message [OF a k(1) l k(2,3) this v e]
  have "unat (gs_iteration (gn_sender w)) < unat (- 1 :: u32)"
    using n by (simp add: word_less_nat_alt [symmetric] word_order.not_eq_extremum)
  then have u: "unat (gs_iteration (gn_sender w) + 1) = Suc ?i" using unat_next it by metis
  have "good_sent C hk gid kid (gn_first w) i ((gn_sent w @ [(pt, m)]) ! i)" if "i < Suc ?i" for i
    using that old sm(1) by (auto simp: nth_append less_Suc_eq)
  moreover have "follows C (gn_first w) (gn_joined w) (Suc ?i) r G
      \<and> map (\<lambda>i. fst ((gn_sent w @ [(pt, m)]) ! i)) G = map (\<lambda>i. fst (gn_sent w ! i)) G"
    if "follows C (gn_first w) (gn_joined w) ?i r G" for r G
    using that by (auto simp: follows_def nth_append)
  ultimately show ?thesis
    using w u k sm(2) by (force simp: group_ok_def split: option.splits)
qed

lemma group_ok_step:
  assumes a: "sound_aead C" and w: "group_ok C hk gid kid w" and s: "group_step C hk gid w w'"
  shows "group_ok C hk gid kid w'"
  using s
proof cases
  case (sends_legacy pt hn nonce m s)
  then show ?thesis using group_ok_sent [OF a w, of hn nonce None 1 pt m s] by (simp add: group_seal_def)
next
  case (sends_origin cid pt hn nonce m s)
  then show ?thesis using group_ok_sent [OF a w, of hn nonce "Some cid" 2 pt m s] by (simp add: group_seal_origin_def)
next
  case (joins kid' ck n)
  have "follows C (gn_first w) (length (gn_sent w)) (length (gn_sent w)) (receiver_new kid' ck n) []"
    using w joins(3) by (auto simp: follows_def receiver_new_def on_chain_def group_ok_def snapshot_def)
  moreover have "kid' = kid" using w joins(3) by (simp add: group_ok_def snapshot_def)
  ultimately show ?thesis using w joins(1,2) by (simp add: group_ok_def receiver_new_def)
next
  case (receives r m n now r' res)
  have l: "length (gn_sent w) < 2 ^ 32" using w unat_u32 [of "gs_iteration (gn_sender w)"] by (simp add: group_ok_def)
  obtain G where g: "follows C (gn_first w) (gn_joined w) (length (gn_sent w)) r G"
    "gn_accepted w = map (\<lambda>i. fst (gn_sent w ! i)) G"
    and old: "\<forall>i < length (gn_sent w). good_sent C hk gid kid (gn_first w) i (gn_sent w ! i)" "gr_key_id r = kid"
    using w receives(2) by (auto simp: group_ok_def)
  from follows_open [OF g(1) old(1) l receives(3,4)] have t: "took C (gn_first w) (gn_joined w) (gn_sent w) G r' res"
    "gr_key_id r' = kid" using old(2) by simp_all
  then obtain G' where "follows C (gn_first w) (gn_joined w) (length (gn_sent w)) r' G'"
    "map (\<lambda>i. fst (gn_sent w ! i)) G' = gn_accepted w @ (case res of Inr pt \<Rightarrow> [pt] | Inl _ \<Rightarrow> [])"
    using g(2) by (cases res) (auto simp: took_def)
  then show ?thesis using w receives(1,2) t(2) by (auto simp: group_ok_def)
qed

lemma group_ok_reachable:
  assumes "sound_aead C" "length kid = 16" "(group_step C hk gid)\<^sup>*\<^sup>* (group_start kid ck) w"
  shows "group_ok C hk gid kid w"
  using assms(3) by (induction rule: rtranclp_induct) (auto intro: group_ok_step group_ok_start assms)

section \<open>Properties\<close>

text \<open>
  C14. Whatever the network delivers and whatever iteration it claims, a member accepts from a sender chain
  only what was sent on it after the snapshot the member joined with, each message at most once:
  joining grants no history and a consumed iteration cannot be replayed.
\<close>

theorem group_no_replay_no_history:
  assumes "sound_aead C" "length kid = 16" "(group_step C hk gid)\<^sup>*\<^sup>* (group_start kid ck) w"
  shows "mset (gn_accepted w) \<subseteq># mset (map fst (drop (gn_joined w) (gn_sent w)))"
proof (cases "gn_receiver w")
  case None
  then show ?thesis using group_ok_reachable [OF assms] by (simp add: group_ok_def)
next
  case (Some r)
  let ?f = "\<lambda>i. fst (gn_sent w ! i)" and ?n = "length (gn_sent w)"
  obtain G where g: "follows C (gn_first w) (gn_joined w) ?n r G" "gn_accepted w = map ?f G"
    using group_ok_reachable [OF assms] Some by (auto simp: group_ok_def)
  have "mset G \<subseteq># mset [gn_joined w..<?n]"
    using followsD(5,6) [OF g(1)] by (intro distinct_mset_subset) auto
  moreover have "map fst (drop (gn_joined w) (gn_sent w)) = map ?f [gn_joined w..<?n]"
    by (rule nth_equalityI) simp_all
  ultimately show ?thesis using g(2) by (simp add: image_mset_subseteq_mono)
qed

text \<open>
  In every reachable state a message that arrives unaltered opens to its plaintext if its key is within
  reach: at most a thousand iterations ahead, or stored and not expired. This includes the
  wire codec and the sealed header that names the chain and the iteration.
\<close>

theorem group_delivers:
  assumes "sound_aead C" "length kid = 16" "(group_step C hk gid)\<^sup>*\<^sup>* (group_start kid ck) w"
    and "gn_receiver w = Some r" "i < length (gn_sent w)" "gn_sent w ! i = (pt, m)"
    and reach: "unat (gr_iteration r) \<le> i \<and> i \<le> unat (gr_iteration r) + 1000
      \<or> (\<exists>sk\<in>set (gr_skipped r). unat (gk_n sk) = i \<and> saturating_sub now (gk_stored_at sk) \<le> GROUP_SKIPPED_TTL_SECS)"
  shows "group_message_decode (group_message_encode m) = Inr m
    \<and> (\<exists>n r'. open_header C hk m = Inr (gr_key_id r, n) \<and> group_open C r gid m n now = (r', Inr pt))"
proof -
  have ok: "group_ok C hk gid kid w" using group_ok_reachable [OF assms(1-3)] .
  define q where "q = group_purge now r"
  define n :: u32 where "n = word_of_nat i"
  define ad where "ad = group_payload_ad gid (gm_version m) (gm_enc_header m)"
  obtain G where "follows C (gn_first w) (gn_joined w) (length (gn_sent w)) r G" and kid: "gr_key_id r = kid"
    using ok assms(4) by (auto simp: group_ok_def)
  then have q: "follows C (gn_first w) (gn_joined w) (length (gn_sent w)) q G" "gr_iteration q = gr_iteration r"
    using follows_purge by (auto simp: q_def group_purge_def)
  have "i < 4294967296" using ok assms(5) unat_u32 [of "gs_iteration (gn_sender w)"] by (simp add: group_ok_def)
  then have n: "unat n = i" by (simp add: n_def unsigned_of_nat take_bit_nat_eq_self)
  have g: "good_sent C hk gid kid (gn_first w) i (pt, m)" using ok assms(5,6) by (metis group_ok_def)
  then have d: "aead_decrypt C (gmsg_key C (gn_first w) (unat n)) (gm_nonce m) ad (gm_ct m) = Some pt"
    and m: "wf_group_message m" "open_header C hk m = Inr (kid, n)"
    by (simp_all add: good_sent_def n ad_def n_def [symmetric])
  have "\<exists>r'. group_open C r gid m n now = (r', Inr pt)"
  proof (cases "n < gr_iteration q")
    case True
    then obtain sk where sk: "sk \<in> set (gr_skipped q)" "gk_n sk = n"
      using reach n q(2) by (auto simp: word_less_nat_alt q_def group_purge_def word_unat_eq_iff)
    then obtain x where x: "find_index (\<lambda>sk. gk_n sk = n) (gr_skipped q) = Some x"
      using find_index_None [of "\<lambda>sk. gk_n sk = n" "gr_skipped q"] by fastforce
    then have "x < length (gr_skipped q)" "gk_n (gr_skipped q ! x) = n" using find_index_Some by fast+
    then have "gk_mk (gr_skipped q ! x) = gmsg_key C (gn_first w) (unat n)"
      using followsD(3) [OF q(1) nth_mem] by metis
    then show ?thesis using True x d
      by (simp add: group_open_def q_def [symmetric] ad_def [symmetric] open_past_def aead_decrypt_with_nonce_def)
  next
    case False
    then have ge: "gr_iteration q \<le> n" by simp
    have "\<not> unat n > unat (gr_iteration q) + 1000"
    proof
      assume far: "unat n > unat (gr_iteration q) + 1000"
      then obtain sk where "sk \<in> set (gr_skipped q)" "unat (gk_n sk) = i"
        using reach n q(2) by (auto simp: q_def group_purge_def)
      then show False using followsD(3) [OF q(1), of sk] far n by (simp add: word_less_nat_alt)
    qed
    then show ?thesis using False d
      by (simp add: group_open_def q_def [symmetric] ad_def [symmetric] open_ahead_eq [OF followsD(1) [OF q(1)] ge])
  qed
  with m show ?thesis by (auto simp: group_message_iff kid)
qed

section \<open>A concrete chain\<close>

text \<open>Counting keys, an AEAD whose tag is its key, and hashes that keep their input.\<close>

definition toy_tag :: "bytes \<Rightarrow> bytes" where
  "toy_tag k = take 16 (k @ zeros 16)"

lemma length_toy_tag [simp]: "length (toy_tag k) = 16"
  by (cases "length k \<le> 16") (simp_all add: toy_tag_def)

lemma toy_tag_word: "toy_tag (to_le64 x) = to_le64 x @ zeros 8"
  by (simp add: toy_tag_def zeros_def numeral_nat)

definition toy_group :: prims where
  "toy_group = toy_ratchet\<lparr>sha256 := (\<lambda>x. x), hmac := (\<lambda>_ x. x),
     hkdf := (\<lambda>_ ikm info _. if info = GROUP_INFO_CHAIN then to_le64 (from_le64 ikm + 1) else ikm),
     aead_encrypt := (\<lambda>k _ _ p. p @ toy_tag k),
     aead_decrypt := (\<lambda>k _ _ c. if drop (length c - 16) c = toy_tag k then Some (take (length c - 16) c) else None)\<rparr>"

lemma toy_group_sound: "sound_aead toy_group"
  by (simp add: sound_aead_def toy_group_def)

lemma toy_group_infos: "GROUP_INFO_MSG \<noteq> GROUP_INFO_CHAIN"
  by code_simp

lemma toy_gchain: "gchain toy_group (to_le64 0) i = to_le64 (word_of_nat i)"
  by (induction i) (simp_all add: kdf_gck_def hkdf32_def toy_group_def add.commute)

lemma toy_gmsg_key: "gmsg_key toy_group (to_le64 0) i = to_le64 (word_of_nat i)"
  using toy_group_infos by (simp add: gmsg_key_def toy_gchain kdf_gck_def hkdf32_def) (simp add: toy_group_def)

abbreviation toy_gid :: bytes where "toy_gid \<equiv> zeros 32"

definition toy_message :: GroupMessage where
  "toy_message = \<lparr>gm_version = 1, gm_enc_header = zeros 60, gm_nonce = zeros 24, gm_ct = 5 # zeros 16\<rparr>"

definition toy_sender :: GroupSenderChain where
  "toy_sender = \<lparr>gs_key_id = zeros 16, gs_chain_key = to_le64 1, gs_iteration = 1\<rparr>"

definition toy_follower :: GroupReceiverChain where
  "toy_follower = receiver_new (zeros 16) (to_le64 0) 0"

definition toy_joined :: group_net where
  "toy_joined = (group_start (zeros 16) (to_le64 0))\<lparr>gn_receiver := Some toy_follower, gn_joined := 0\<rparr>"

definition toy_sent :: group_net where
  "toy_sent = toy_joined\<lparr>gn_sender := toy_sender, gn_sent := [([5], toy_message)]\<rparr>"

lemma toy_seal:
  "group_seal toy_group (sender_generate (zeros 16) (to_le64 0)) [] toy_gid [5] (zeros 24) (zeros 24)
     = Some (toy_message, toy_sender)"
  by code_simp

lemma toy_reaches: "(group_step toy_group [] toy_gid)\<^sup>*\<^sup>* (group_start (zeros 16) (to_le64 0)) toy_sent"
proof -
  have "group_step toy_group [] toy_gid (group_start (zeros 16) (to_le64 0)) toy_joined"
    using joins [of "group_start (zeros 16) (to_le64 0)" "zeros 16" "to_le64 0" 0 toy_group "[]" toy_gid]
    by (simp add: toy_joined_def toy_follower_def group_start_def sender_generate_def snapshot_def)
  moreover have "group_step toy_group [] toy_gid toy_joined toy_sent"
    using sends_legacy [of toy_group toy_joined "[]" toy_gid "[5]" "zeros 24" "zeros 24" toy_message toy_sender] toy_seal
    by (simp add: toy_sent_def toy_joined_def group_start_def) (simp add: sender_generate_def)
  ultimately show ?thesis by (meson converse_rtranclp_into_rtranclp rtranclp.rtrancl_refl)
qed

theorem group_delivers_witness:
  "group_message_decode (group_message_encode toy_message) = Inr toy_message
    \<and> (\<exists>n r'. open_header toy_group [] toy_message = Inr (gr_key_id toy_follower, n)
         \<and> group_open toy_group toy_follower toy_gid toy_message n 0 = (r', Inr [5]))"
  by (rule group_delivers [OF toy_group_sound _ toy_reaches, of toy_follower 0])
    (simp_all add: toy_sent_def toy_joined_def toy_follower_def receiver_new_def)

lemma toy_unforged_group: "unforged_group toy_group toy_gid toy_sent toy_message"
proof -
  have "i = 0" if "i < 4294967296" "zeros 16 = to_le64 (word_of_nat i) @ zeros 8" for i
  proof -
    have "to_le64 0 @ zeros 8 = to_le64 (word_of_nat i) @ zeros 8"
      unfolding that(2) [symmetric] by code_simp
    then have "from_le64 (to_le64 (word_of_nat i)) = from_le64 (to_le64 0)" by simp
    then have "(word_of_nat i :: u64) = 0" by simp
    then show "i = 0" using that(1) by (auto simp: word_of_nat_eq_0_iff dest: dvd_imp_le)
  qed
  then have "i = 0" if "i < 4294967296" "aead_decrypt toy_group (to_le64 (word_of_nat i)) no ad (gm_ct toy_message) = Some pt" for i no ad pt
    using that by (simp add: toy_group_def toy_message_def toy_tag_word split: if_splits)
  note zero = this
  have f: "gn_first toy_sent = to_le64 0" "gn_sent toy_sent = [([5], toy_message)]"
    by (simp_all add: toy_sent_def toy_joined_def group_start_def)
  show ?thesis
    unfolding unforged_group_def f toy_gmsg_key
    by (intro allI impI) (auto dest: zero)
qed

definition toy_after :: GroupReceiverChain where
  "toy_after = \<lparr>gr_key_id = zeros 16, gr_chain_key = to_le64 1, gr_iteration = 1, gr_skipped = []\<rparr>"

lemma toy_open: "group_open toy_group toy_follower toy_gid toy_message 0 0 = (toy_after, Inr [5])"
proof -
  have z: "to_le64 0 = zeros 8" by code_simp
  have "on_chain toy_group (to_le64 0) toy_follower" by (simp add: on_chain_def toy_follower_def receiver_new_def)
  note o = open_ahead_eq [OF this, of 0]
  have it: "gr_iteration toy_follower = 0" by (simp add: toy_follower_def receiver_new_def)
  have k: "gmsg_key toy_group (to_le64 0) 0 = zeros 8" "gchain toy_group (to_le64 0) (Suc 0) = to_le64 1"
    using toy_gmsg_key [of 0] toy_gchain [of "Suc 0"] z by simp_all
  have d: "aead_decrypt toy_group (zeros 8) (gm_nonce toy_message) ad (gm_ct toy_message) = Some [5]" for ad
    by (simp add: toy_group_def toy_message_def toy_tag_def zeros_def numeral_nat)
  have p: "group_purge 0 toy_follower = toy_follower" "moved_to toy_group (to_le64 0) 0 0 toy_follower = toy_follower"
    by (simp_all add: group_purge_def toy_follower_def receiver_new_def moved_to_def gap_keys_def group_cap_skipped_eq)
  have "open_ahead toy_group ad toy_follower toy_message 0 0
      = (toy_follower\<lparr>gr_chain_key := to_le64 1, gr_iteration := 1\<rparr>, Inr [5])" for ad
    using o it k d p(2) by (simp del: gchain.simps)
  then show ?thesis by (simp add: group_open_def p it) (simp add: toy_after_def toy_follower_def receiver_new_def)
qed

theorem group_no_replay_no_history_witness:
  "mset [[5]] \<subseteq># mset (map fst [([5 :: u8], toy_message)])"
proof -
  let ?w = "toy_sent\<lparr>gn_receiver := Some toy_after, gn_accepted := [[5]]\<rparr>"
  have "group_step toy_group [] toy_gid toy_sent ?w"
    using receives [of toy_sent toy_follower toy_group toy_gid toy_message 0 0 toy_after "Inr [5]"] toy_open toy_unforged_group
    by (simp add: toy_sent_def toy_joined_def group_start_def)
  with toy_reaches have "(group_step toy_group [] toy_gid)\<^sup>*\<^sup>* (group_start (zeros 16) (to_le64 0)) ?w"
    by (rule rtranclp.rtrancl_into_rtrancl)
  from group_no_replay_no_history [OF toy_group_sound _ this] show ?thesis
    by (simp add: toy_sent_def toy_joined_def group_start_def)
qed

definition toy_origin_message :: GroupMessage where
  "toy_origin_message = \<lparr>gm_version = 2, gm_enc_header = zeros 76, gm_nonce = zeros 24, gm_ct = zeros 16\<rparr>"

definition toy_context :: "u64 option \<Rightarrow> GroupOriginContext" where
  "toy_context x = \<lparr>oc_group_id = zeros 32, oc_sender_account = zeros 32, oc_sender_device = zeros 32,
     oc_recipient_account = zeros 32, oc_recipient_device = zeros 32, oc_sender_chain_key_id = zeros 16,
     oc_envelope_content_id = zeros 16, oc_authenticated_retention = x\<rparr>"

theorem origin_tag_binds_witness:
  "\<exists>e. origin_seal toy_group toy_origin_message [1] (toy_context None) = Inr e
     \<and> origin_verify toy_group e [1] (toy_context (Some 0)) = Inr ()
     \<and> origin_verify toy_group e [1] (toy_context (Some 5)) \<noteq> Inr ()"
proof -
  have z: "[1] \<noteq> zeros 32" by (simp add: zeros_def numeral_nat)
  obtain e where e: "origin_seal toy_group toy_origin_message [1] (toy_context None) = Inr e" "oe_shared e = toy_origin_message"
    using z by (auto simp: origin_seal_def toy_origin_message_def)
  have w: "wf_context (toy_context x)" "wf_group_message toy_origin_message" for x
    by (simp_all add: wf_context_def toy_context_def wf_group_message_def toy_origin_message_def enc_header_len_def header_plain_len_def)
  have i: "inj_on (hmac toy_group [1]) A" "inj_on (sha256 toy_group) A" for A by (simp_all add: toy_group_def inj_on_def)
  have "e\<lparr>oe_shared := toy_origin_message\<rparr> = e" using e(2) by simp
  then have "origin_verify toy_group e [1] (toy_context x) = Inr () \<longleftrightarrow> on_wire (toy_context x) = on_wire (toy_context None)" for x
    using origin_tag_binds [OF i e(1) w(1,1,2,2), of x] by simp
  with e(1) show ?thesis by (simp add: on_wire_def toy_context_def)
qed

end
