(* ===== verification/Prekeys.thy ===== *)
theory Prekeys
  imports Crypto_Base
begin

text \<open>
  \<^verbatim>\<open>kult-crypto/src/prekeys.rs\<close> and \<^verbatim>\<open>kult-crypto/src/admission.rs\<close>: prekey secrets, the self-authenticating
  prekey bundle, and the signed admission descriptor and invitation carried in its hints. ML-KEM-768 and
  postcard are parameters; a secret is its bytes.

  A built bundle verifies until it expires, its signature fixes every field but the invitation hints,
  and an attached admission policy is what a verifier gets back, with or without the bearer secret.
\<close>

section \<open>Constants\<close>

definition MAX_PREKEY_BUNDLE_BYTES :: nat where [simp]: "MAX_PREKEY_BUNDLE_BYTES = 32 * 1024"
definition MAX_PREKEY_RELAY_HINTS :: nat where [simp]: "MAX_PREKEY_RELAY_HINTS = 20"
definition MAX_PREKEY_RELAY_HINT_BYTES :: nat where [simp]: "MAX_PREKEY_RELAY_HINT_BYTES = 4 * 1024"
definition MAX_PREKEY_RELAY_HINT_TOTAL_BYTES :: nat where [simp]: "MAX_PREKEY_RELAY_HINT_TOTAL_BYTES = 16 * 1024"
definition MLKEM768_EK_LEN :: nat where [simp]: "MLKEM768_EK_LEN = 1184"
definition MLKEM768_CT_LEN :: nat where [simp]: "MLKEM768_CT_LEN = 1088"
definition MLKEM768_DK_LEN :: nat where [simp]: "MLKEM768_DK_LEN = 2400"

definition DESCRIPTOR_MAGIC :: bytes where "DESCRIPTOR_MAGIC = ascii ''KAD1''"
definition INVITATION_MAGIC :: bytes where "INVITATION_MAGIC = ascii ''KAI1''"
definition BUNDLE_DIGEST_DOMAIN :: bytes where "BUNDLE_DIGEST_DOMAIN = ascii ''Komms-admission-bundle-v1''"
definition INVITATION_DOMAIN :: bytes where "INVITATION_DOMAIN = ascii ''Komms-admission-invitation-v1''"
definition ADMISSION_DESCRIPTOR_VERSION :: u8 where [simp]: "ADMISSION_DESCRIPTOR_VERSION = 1"
definition ADMISSION_EPOCH_SECS :: u64 where [simp]: "ADMISSION_EPOCH_SECS = 3600"
definition MIN_ADMISSION_DIFFICULTY :: u8 where [simp]: "MIN_ADMISSION_DIFFICULTY = 8"
definition MAX_ADMISSION_DIFFICULTY :: u8 where [simp]: "MAX_ADMISSION_DIFFICULTY = 20"
definition DEFAULT_ADMISSION_DIFFICULTY :: u8 where [simp]: "DEFAULT_ADMISSION_DIFFICULTY = 12"
definition MAX_ADMISSION_FIRST_CIPHERTEXT :: nat where [simp]: "MAX_ADMISSION_FIRST_CIPHERTEXT = 16 * 1024"
definition DEFAULT_ADMISSION_FIRST_CIPHERTEXT :: nat where [simp]: "DEFAULT_ADMISSION_FIRST_CIPHERTEXT = 8 * 1024"
definition MAX_ADMISSION_CLOCK_SKEW_SECS :: u32 where [simp]: "MAX_ADMISSION_CLOCK_SKEW_SECS = 6 * 3600"
definition DEFAULT_ADMISSION_CLOCK_SKEW_SECS :: u32 where [simp]: "DEFAULT_ADMISSION_CLOCK_SKEW_SECS = 2 * 3600"
definition MAX_ADMISSION_TOKEN_ISSUERS :: nat where [simp]: "MAX_ADMISSION_TOKEN_ISSUERS = 4"
definition MAX_ADMISSION_DESCRIPTOR_BYTES :: nat where [simp]: "MAX_ADMISSION_DESCRIPTOR_BYTES = 512"

section \<open>Prekey secrets\<close>

record SignedPrekeySecret =
  spks_id :: u32
  spks_secret :: bytes

record OneTimePrekeySecret =
  opks_id :: u32
  opks_secret :: bytes

record PqPrekeySecret =
  pqs_id :: u32
  pqs_dk :: bytes
  pqs_ek :: bytes

text \<open>The key encapsulation as the code uses it: both operations may fail.\<close>

record kem =
  kem_public :: "bytes \<Rightarrow> bytes"
  kem_encapsulate :: "bytes \<Rightarrow> bytes \<Rightarrow> (bytes \<times> bytes) option" \<comment> \<open>public key, random bytes; ciphertext and secret\<close>
  kem_decapsulate :: "bytes \<Rightarrow> bytes \<Rightarrow> bytes option"

definition sound_kem :: "kem \<Rightarrow> bool" where
  "sound_kem K \<longleftrightarrow> (\<forall>dk r. \<exists>ct ss. kem_encapsulate K (kem_public K dk) r = Some (ct, ss)
     \<and> kem_decapsulate K dk ct = Some ss \<and> length ct = 1088) \<and> (\<forall>dk. length (kem_public K dk) = 1184)"

definition spk_public :: "prims \<Rightarrow> SignedPrekeySecret \<Rightarrow> bytes" where
  "spk_public C s = x_public C (spks_secret s)"

definition spk_dh :: "prims \<Rightarrow> SignedPrekeySecret \<Rightarrow> bytes \<Rightarrow> bytes" where
  "spk_dh C s their = x_dh C (spks_secret s) their"

definition opk_public :: "prims \<Rightarrow> OneTimePrekeySecret \<Rightarrow> bytes" where
  "opk_public C s = x_public C (opks_secret s)"

definition opk_dh :: "prims \<Rightarrow> OneTimePrekeySecret \<Rightarrow> bytes \<Rightarrow> bytes" where
  "opk_dh C s their = x_dh C (opks_secret s) their"

definition pq_decapsulate :: "kem \<Rightarrow> PqPrekeySecret \<Rightarrow> bytes \<Rightarrow> bytes cresult" where
  "pq_decapsulate K s ct =
     (if length (pqs_dk s) \<noteq> MLKEM768_DK_LEN then Inl InvalidKey
      else if length ct \<noteq> MLKEM768_CT_LEN then Inl InvalidMessage
      else ok_or (kem_decapsulate K (pqs_dk s) ct) InvalidMessage)"

definition pq_from_bytes :: "u32 \<Rightarrow> bytes \<Rightarrow> bytes \<Rightarrow> PqPrekeySecret cresult" where
  "pq_from_bytes i dk ek =
     (if length dk \<noteq> MLKEM768_DK_LEN \<or> length ek \<noteq> MLKEM768_EK_LEN then Inl InvalidKey
      else Inr \<lparr>pqs_id = i, pqs_dk = dk, pqs_ek = ek\<rparr>)"

section \<open>Admission extensions\<close>

definition is_admission_extension :: "bytes \<Rightarrow> bool" where
  "is_admission_extension b \<longleftrightarrow> starts_with b DESCRIPTOR_MAGIC \<or> starts_with b INVITATION_MAGIC"

definition is_invitation_extension :: "bytes \<Rightarrow> bool" where
  "is_invitation_extension b \<longleftrightarrow> starts_with b INVITATION_MAGIC"

section \<open>The prekey bundle\<close>

record PrekeyBundle =
  pb_identity :: IdentityPublic
  pb_spk_id :: u32
  pb_spk :: bytes
  pb_spk_sig :: bytes
  pb_pqspk_id :: u32
  pb_pqspk :: bytes
  pb_pqspk_sig :: bytes
  pb_opk :: "(u32 \<times> bytes) option"
  pb_expires_at :: u64
  pb_relay_hints :: "bytes list"
  pb_bundle_sig :: bytes

definition hint_bytes :: "bytes \<Rightarrow> bytes" where
  "hint_bytes h = to_le32 (word_of_nat (length h)) @ h"

definition opk_bytes :: "(u32 \<times> bytes) option \<Rightarrow> bytes" where
  "opk_bytes k = (case k of None \<Rightarrow> [0] | Some (i, key) \<Rightarrow> 1 # to_le32 i @ key)"

definition signing_bytes_with_hints :: "PrekeyBundle \<Rightarrow> bytes list \<Rightarrow> bytes" where
  "signing_bytes_with_hints b hints =
     id_ed (pb_identity b) @ id_x (pb_identity b) @ to_le32 (pb_spk_id b) @ pb_spk b
     @ to_le32 (pb_pqspk_id b) @ pb_pqspk b @ opk_bytes (pb_opk b) @ to_le64 (pb_expires_at b)
     @ to_le32 (word_of_nat (length hints)) @ concat (map hint_bytes hints)"

definition prekey_signing_bytes :: "PrekeyBundle \<Rightarrow> bytes" where
  "prekey_signing_bytes b =
     signing_bytes_with_hints b (filter (\<lambda>h. \<not> is_invitation_extension h) (pb_relay_hints b))"

definition admission_signing_bytes :: "PrekeyBundle \<Rightarrow> bytes" where
  "admission_signing_bytes b =
     signing_bytes_with_hints b (filter (\<lambda>h. \<not> is_admission_extension h) (pb_relay_hints b))"

definition prekey_resign :: "prims \<Rightarrow> Identity \<Rightarrow> PrekeyBundle \<Rightarrow> PrekeyBundle" where
  "prekey_resign C i b = b\<lparr>pb_bundle_sig := sign_domain C i PREKEY_BUNDLE_DOMAIN (prekey_signing_bytes b)\<rparr>"

definition prekey_build ::
  "prims \<Rightarrow> Identity \<Rightarrow> SignedPrekeySecret \<Rightarrow> PqPrekeySecret \<Rightarrow> OneTimePrekeySecret option \<Rightarrow> u64 \<Rightarrow> bytes list
    \<Rightarrow> PrekeyBundle" where
  "prekey_build C i s pq opk expires hints =
     (let spk_pub = spk_public C s;
          b = \<lparr>pb_identity = identity_public C i, pb_spk_id = spks_id s, pb_spk = spk_pub,
               pb_spk_sig = sign_domain C i SPK_DOMAIN (to_le32 (spks_id s) @ spk_pub),
               pb_pqspk_id = pqs_id pq, pb_pqspk = pqs_ek pq,
               pb_pqspk_sig = sign_domain C i PQSPK_DOMAIN (to_le32 (pqs_id pq) @ pqs_ek pq),
               pb_opk = map_option (\<lambda>k. (opks_id k, opk_public C k)) opk,
               pb_expires_at = expires, pb_relay_hints = hints, pb_bundle_sig = zeros 64\<rparr> in
      b\<lparr>pb_bundle_sig := sign_domain C i PREKEY_BUNDLE_DOMAIN (prekey_signing_bytes b)\<rparr>)"

definition prekey_verify :: "prims \<Rightarrow> PrekeyBundle \<Rightarrow> u64 \<Rightarrow> PrekeyBundle cresult" where
  "prekey_verify C b now =
     (if length (pb_pqspk b) \<noteq> MLKEM768_EK_LEN
         \<or> length (pb_relay_hints b) > MAX_PREKEY_RELAY_HINTS
         \<or> list_ex (\<lambda>h. length h > MAX_PREKEY_RELAY_HINT_BYTES) (pb_relay_hints b)
         \<or> sum_list (map length (pb_relay_hints b)) > MAX_PREKEY_RELAY_HINT_TOTAL_BYTES then Inl InvalidBundle
      else if now \<noteq> 0 \<and> now > pb_expires_at b then Inl InvalidBundle
      else
        try_then (identity_verify C (pb_identity b)) (\<lambda>_.
        try_then (verify_domain C (pb_identity b) SPK_DOMAIN (to_le32 (pb_spk_id b) @ pb_spk b) (pb_spk_sig b)) (\<lambda>_.
        try_then (verify_domain C (pb_identity b) PQSPK_DOMAIN (to_le32 (pb_pqspk_id b) @ pb_pqspk b) (pb_pqspk_sig b)) (\<lambda>_.
        try_then (verify_domain C (pb_identity b) PREKEY_BUNDLE_DOMAIN (prekey_signing_bytes b) (pb_bundle_sig b)) (\<lambda>_.
        Inr b)))))"

definition without_invitation_capability :: "PrekeyBundle \<Rightarrow> PrekeyBundle" where
  "without_invitation_capability b =
     b\<lparr>pb_relay_hints := filter (\<lambda>h. \<not> is_invitation_extension h) (pb_relay_hints b)\<rparr>"

definition transport_hints :: "PrekeyBundle \<Rightarrow> bytes list" where
  "transport_hints b = filter (\<lambda>h. \<not> is_admission_extension h) (pb_relay_hints b)"

definition without_opk :: "PrekeyBundle \<Rightarrow> PrekeyBundle" where
  "without_opk b = b\<lparr>pb_opk := None\<rparr>"

definition prekey_decode :: "(bytes \<Rightarrow> (PrekeyBundle \<times> bytes) option) \<Rightarrow> bytes \<Rightarrow> PrekeyBundle cresult" where
  "prekey_decode take_from b =
     (if length b > MAX_PREKEY_BUNDLE_BYTES then Inl Serialization
      else try_then (ok_or (take_from b) Serialization) (\<lambda>(bd, remainder).
        if remainder \<noteq> [] then Inl Serialization else Inr bd))"

section \<open>Admission policies and descriptors\<close>

datatype AdmissionPuzzleProfile = Sha256LeadingZeroBits

fun puzzle_profile_code :: "AdmissionPuzzleProfile \<Rightarrow> u8" where
  "puzzle_profile_code Sha256LeadingZeroBits = 1"

record AdmissionPolicy =
  ap_difficulty :: u8
  ap_max_first_ciphertext :: u32
  ap_max_clock_skew_secs :: u32
  ap_token_issuers :: "bytes list"

definition admission_policy_default :: AdmissionPolicy where
  "admission_policy_default =
     \<lparr>ap_difficulty = DEFAULT_ADMISSION_DIFFICULTY,
      ap_max_first_ciphertext = word_of_nat DEFAULT_ADMISSION_FIRST_CIPHERTEXT,
      ap_max_clock_skew_secs = DEFAULT_ADMISSION_CLOCK_SKEW_SECS, ap_token_issuers = []\<rparr>"

definition policy_validate :: "AdmissionPolicy \<Rightarrow> unit cresult" where
  "policy_validate p =
     (if \<not> (MIN_ADMISSION_DIFFICULTY \<le> ap_difficulty p \<and> ap_difficulty p \<le> MAX_ADMISSION_DIFFICULTY)
         \<or> ap_max_first_ciphertext p = 0
         \<or> unat (ap_max_first_ciphertext p) > MAX_ADMISSION_FIRST_CIPHERTEXT
         \<or> ap_max_clock_skew_secs p > MAX_ADMISSION_CLOCK_SKEW_SECS
         \<or> length (ap_token_issuers p) > MAX_ADMISSION_TOKEN_ISSUERS
         \<or> \<not> strictly_increasing (ap_token_issuers p) then Inl InvalidBundle
      else Inr ())"

record AdmissionDescriptor =
  ad_version :: u8
  ad_bundle_digest :: bytes
  ad_validity_epoch :: u64
  ad_expires_at :: u64
  ad_max_clock_skew_secs :: u32
  ad_puzzle_profile :: AdmissionPuzzleProfile
  ad_difficulty :: u8
  ad_max_first_ciphertext :: u32
  ad_invitation_commitment :: "bytes option"
  ad_token_issuers :: "bytes list"
  ad_signature :: bytes

definition descriptor_canonical :: "AdmissionDescriptor \<Rightarrow> bytes" where
  "descriptor_canonical d =
     ad_version d # ad_bundle_digest d @ to_le64 (ad_validity_epoch d) @ to_le64 (ad_expires_at d)
     @ to_le32 (ad_max_clock_skew_secs d) @ puzzle_profile_code (ad_puzzle_profile d) # ad_difficulty d
     # to_le32 (ad_max_first_ciphertext d)
     @ (case ad_invitation_commitment d of Some c \<Rightarrow> 1 # c | None \<Rightarrow> [0])
     @ word_of_nat (length (ad_token_issuers d)) # concat (ad_token_issuers d)"

definition checked_mul :: "u64 \<Rightarrow> u64 \<Rightarrow> u64 option" where
  "checked_mul a b = (if unat a * unat b < 2 ^ 64 then Some (a * b) else None)"

definition descriptor_verify :: "prims \<Rightarrow> AdmissionDescriptor \<Rightarrow> IdentityPublic \<Rightarrow> u64 \<Rightarrow> unit cresult" where
  "descriptor_verify C d recipient now =
     try_then (policy_validate \<lparr>ap_difficulty = ad_difficulty d, ap_max_first_ciphertext = ad_max_first_ciphertext d,
                 ap_max_clock_skew_secs = ad_max_clock_skew_secs d, ap_token_issuers = ad_token_issuers d\<rparr>) (\<lambda>_.
     if ad_version d \<noteq> ADMISSION_DESCRIPTOR_VERSION \<or> ad_puzzle_profile d \<noteq> Sha256LeadingZeroBits
        \<or> ad_expires_at d div ADMISSION_EPOCH_SECS < ad_validity_epoch d then Inl InvalidBundle
     else
       try_then (ok_or (checked_mul (ad_validity_epoch d) ADMISSION_EPOCH_SECS) InvalidBundle) (\<lambda>epoch_start.
       if now \<noteq> 0 \<and> (saturating_add now (ucast (ad_max_clock_skew_secs d)) < epoch_start
                     \<or> now > saturating_add (ad_expires_at d) (ucast (ad_max_clock_skew_secs d))) then Inl InvalidBundle
       else verify_domain C recipient DESCRIPTOR_DOMAIN (descriptor_canonical d) (ad_signature d)))"

record VerifiedAdmission =
  va_descriptor :: AdmissionDescriptor
  va_invitation :: "bytes option"

definition admission_bundle_digest :: "prims \<Rightarrow> PrekeyBundle \<Rightarrow> bytes" where
  "admission_bundle_digest C b = sha256 C (BUNDLE_DIGEST_DOMAIN @ admission_signing_bytes b)"

definition invitation_commitment :: "prims \<Rightarrow> bytes \<Rightarrow> bytes \<Rightarrow> u64 \<Rightarrow> u64 \<Rightarrow> bytes \<Rightarrow> bytes" where
  "invitation_commitment C recipient bundle_digest validity_epoch expires invitation =
     sha256 C (INVITATION_DOMAIN @ recipient @ bundle_digest @ to_le64 validity_epoch @ to_le64 expires @ invitation)"

text \<open>On an error there is no bundle: each caller attaches to a bundle it has just built and drops it.\<close>

definition attach_admission ::
  "prims \<Rightarrow> (AdmissionDescriptor \<Rightarrow> bytes option) \<Rightarrow> PrekeyBundle \<Rightarrow> Identity \<Rightarrow> u64 \<Rightarrow> AdmissionPolicy \<Rightarrow> bytes option
    \<Rightarrow> PrekeyBundle cresult" where
  "attach_admission C to_vec b i now policy invitation =
     try_then (policy_validate policy) (\<lambda>_.
     if pb_identity b \<noteq> identity_public C i \<or> now > pb_expires_at b then Inl InvalidBundle
     else
       let b = b\<lparr>pb_relay_hints := filter (\<lambda>h. \<not> is_admission_extension h) (pb_relay_hints b)\<rparr>;
           bundle_digest = admission_bundle_digest C b;
           validity_epoch = now div ADMISSION_EPOCH_SECS;
           commitment = map_option (invitation_commitment C (id_ed (pb_identity b)) bundle_digest validity_epoch
                                      (pb_expires_at b)) invitation;
           d = \<lparr>ad_version = ADMISSION_DESCRIPTOR_VERSION, ad_bundle_digest = bundle_digest,
                ad_validity_epoch = validity_epoch, ad_expires_at = pb_expires_at b,
                ad_max_clock_skew_secs = ap_max_clock_skew_secs policy, ad_puzzle_profile = Sha256LeadingZeroBits,
                ad_difficulty = ap_difficulty policy, ad_max_first_ciphertext = ap_max_first_ciphertext policy,
                ad_invitation_commitment = commitment, ad_token_issuers = ap_token_issuers policy,
                ad_signature = zeros 64\<rparr>;
           d = d\<lparr>ad_signature := sign_domain C i DESCRIPTOR_DOMAIN (descriptor_canonical d)\<rparr> in
       try_then (ok_or (to_vec d) Serialization) (\<lambda>encoded.
       if length encoded > MAX_ADMISSION_DESCRIPTOR_BYTES then Inl InvalidBundle
       else Inr (prekey_resign C i
              (b\<lparr>pb_relay_hints := pb_relay_hints b @ [DESCRIPTOR_MAGIC @ encoded]
                  @ (case invitation of None \<Rightarrow> [] | Some secret \<Rightarrow> [INVITATION_MAGIC @ secret])\<rparr>))))"

text \<open>The loop over the hints, with the descriptor and the invitation found so far.\<close>

fun scan_hints ::
  "(bytes \<Rightarrow> (AdmissionDescriptor \<times> bytes) option) \<Rightarrow> AdmissionDescriptor option \<Rightarrow> bytes option \<Rightarrow> bytes list
    \<Rightarrow> (AdmissionDescriptor option \<times> bytes option) cresult" where
  "scan_hints take_from d invit [] = Inr (d, invit)"
| "scan_hints take_from d invit (h # hs) =
     (case strip_prefix h DESCRIPTOR_MAGIC of
        Some encoded \<Rightarrow>
          if d \<noteq> None \<or> length encoded > MAX_ADMISSION_DESCRIPTOR_BYTES then Inl InvalidBundle
          else try_then (ok_or (take_from encoded) Serialization) (\<lambda>(decoded, remainder).
            if remainder \<noteq> [] then Inl Serialization else scan_hints take_from (Some decoded) invit hs)
      | None \<Rightarrow>
          (case strip_prefix h INVITATION_MAGIC of
             Some encoded \<Rightarrow>
               if invit \<noteq> None \<or> length encoded \<noteq> 32 then Inl InvalidBundle
               else scan_hints take_from d (Some encoded) hs
           | None \<Rightarrow> scan_hints take_from d invit hs))"

definition verify_admission ::
  "prims \<Rightarrow> (bytes \<Rightarrow> (AdmissionDescriptor \<times> bytes) option) \<Rightarrow> PrekeyBundle \<Rightarrow> u64 \<Rightarrow> VerifiedAdmission cresult" where
  "verify_admission C take_from b now =
     try_then (scan_hints take_from None None (pb_relay_hints b)) (\<lambda>(descriptor, invitation).
     try_then (ok_or descriptor InvalidBundle) (\<lambda>d.
     try_then (descriptor_verify C d (pb_identity b) now) (\<lambda>_.
     if ad_bundle_digest d \<noteq> admission_bundle_digest C b \<or> ad_expires_at d \<noteq> pb_expires_at b then Inl InvalidBundle
     else
       (case (ad_invitation_commitment d, invitation) of
          (Some expected, Some secret) \<Rightarrow>
            if expected = invitation_commitment C (id_ed (pb_identity b)) (ad_bundle_digest d) (ad_validity_epoch d)
                            (ad_expires_at d) secret
            then Inr \<lparr>va_descriptor = d, va_invitation = invitation\<rparr> else Inl InvalidBundle
        | (Some _, None) \<Rightarrow> Inr \<lparr>va_descriptor = d, va_invitation = invitation\<rparr>
        | (None, None) \<Rightarrow> Inr \<lparr>va_descriptor = d, va_invitation = invitation\<rparr>
        | (None, Some _) \<Rightarrow> Inl InvalidBundle))))"

definition prekey_verify_admission ::
  "prims \<Rightarrow> (bytes \<Rightarrow> (AdmissionDescriptor \<times> bytes) option) \<Rightarrow> PrekeyBundle \<Rightarrow> u64 \<Rightarrow> VerifiedAdmission cresult" where
  "prekey_verify_admission C take_from b now =
     try_then (prekey_verify C b now) (\<lambda>_. verify_admission C take_from b now)"

section \<open>A built bundle verifies\<close>

text \<open>The structural limits that verification checks first.\<close>

definition within_limits :: "PrekeyBundle \<Rightarrow> bool" where
  "within_limits b \<longleftrightarrow> length (pb_pqspk b) = 1184 \<and> length (pb_relay_hints b) \<le> 20
     \<and> list_all (\<lambda>h. length h \<le> 4096) (pb_relay_hints b) \<and> sum_list (map length (pb_relay_hints b)) \<le> 16384"

lemma prekey_verify_iff:
  "prekey_verify C b now = Inr v \<longleftrightarrow>
     v = b \<and> within_limits b \<and> (now = 0 \<or> now \<le> pb_expires_at b)
     \<and> identity_verify C (pb_identity b) = Inr ()
     \<and> verify_domain C (pb_identity b) SPK_DOMAIN (to_le32 (pb_spk_id b) @ pb_spk b) (pb_spk_sig b) = Inr ()
     \<and> verify_domain C (pb_identity b) PQSPK_DOMAIN (to_le32 (pb_pqspk_id b) @ pb_pqspk b) (pb_pqspk_sig b) = Inr ()
     \<and> verify_domain C (pb_identity b) PREKEY_BUNDLE_DOMAIN (prekey_signing_bytes b) (pb_bundle_sig b) = Inr ()"
proof -
  have "within_limits b \<longleftrightarrow> \<not> (length (pb_pqspk b) \<noteq> MLKEM768_EK_LEN \<or> length (pb_relay_hints b) > MAX_PREKEY_RELAY_HINTS
         \<or> list_ex (\<lambda>h. length h > MAX_PREKEY_RELAY_HINT_BYTES) (pb_relay_hints b)
         \<or> sum_list (map length (pb_relay_hints b)) > MAX_PREKEY_RELAY_HINT_TOTAL_BYTES)"
    by (auto simp: within_limits_def list_ex_iff list_all_iff not_less)
  then show ?thesis by (auto simp: prekey_verify_def result_simps not_less)
qed

text \<open>Nothing a signature covers refers to the signatures.\<close>

lemma signing_bytes_simps [simp]:
  "signing_bytes_with_hints (b\<lparr>pb_bundle_sig := x\<rparr>) hs = signing_bytes_with_hints b hs"
  "signing_bytes_with_hints (b\<lparr>pb_relay_hints := y\<rparr>) hs = signing_bytes_with_hints b hs"
  "prekey_signing_bytes (b\<lparr>pb_bundle_sig := x\<rparr>) = prekey_signing_bytes b"
  "admission_signing_bytes (b\<lparr>pb_bundle_sig := x\<rparr>) = admission_signing_bytes b"
  by (simp_all add: signing_bytes_with_hints_def prekey_signing_bytes_def admission_signing_bytes_def)

lemma prekey_build_fields:
  assumes "b = prekey_build C i s pq opk expires hints"
  shows "pb_identity b = identity_public C i" "pb_spk_id b = spks_id s" "pb_spk b = spk_public C s"
    "pb_spk_sig b = sign_domain C i SPK_DOMAIN (to_le32 (pb_spk_id b) @ pb_spk b)"
    "pb_pqspk_id b = pqs_id pq" "pb_pqspk b = pqs_ek pq"
    "pb_pqspk_sig b = sign_domain C i PQSPK_DOMAIN (to_le32 (pb_pqspk_id b) @ pb_pqspk b)"
    "pb_opk b = map_option (\<lambda>k. (opks_id k, opk_public C k)) opk" "pb_expires_at b = expires" "pb_relay_hints b = hints"
    "pb_bundle_sig b = sign_domain C i PREKEY_BUNDLE_DOMAIN (prekey_signing_bytes b)"
  unfolding assms prekey_build_def Let_def by (simp_all only: signing_bytes_simps) simp_all

lemma built_bundle_verifies:
  assumes "sound_signatures C" "b = prekey_build C i s pq opk expires hints" "within_limits b"
  shows "prekey_verify C b now = (if now \<noteq> 0 \<and> now > expires then Inl InvalidBundle else Inr b)"
proof -
  have "prekey_verify C b now = Inr b" if "now = 0 \<or> now \<le> expires"
    using assms(3) that verify_sign_domain [OF assms(1)] identity_public_verifies [OF assms(1)]
    by (simp add: prekey_verify_iff prekey_build_fields [OF assms(2)])
  moreover have "prekey_verify C b now = Inl InvalidBundle" if "now \<noteq> 0" "now > expires"
    using that by (simp add: prekey_verify_def prekey_build_fields [OF assms(2)])
  ultimately show ?thesis by (auto simp: not_less)
qed

section \<open>What the bundle signature binds\<close>

definition wf_prekey :: "PrekeyBundle \<Rightarrow> bool" where
  "wf_prekey b \<longleftrightarrow> length (id_ed (pb_identity b)) = 32 \<and> length (id_x (pb_identity b)) = 32 \<and> length (pb_spk b) = 32
     \<and> (case pb_opk b of None \<Rightarrow> True | Some (_, k) \<Rightarrow> length k = 32)"

lemma hint_bytes_inject:
  assumes "length h < 2 ^ 32" "length k < 2 ^ 32" "hint_bytes h @ x = hint_bytes k @ y"
  shows "h = k \<and> x = y"
proof -
  have "to_le32 (word_of_nat (length h)) = to_le32 (word_of_nat (length k))" and r: "h @ x = k @ y"
    using assms(3) by (simp_all add: hint_bytes_def)
  then have "(word_of_nat (length h) :: u32) = word_of_nat (length k)" by (metis from_to_le(2))
  then have "unat (word_of_nat (length h) :: u32) = unat (word_of_nat (length k) :: u32)" by simp
  then have "length h = length k" using assms(1,2) by simp
  with r show ?thesis by simp
qed

lemma hints_inject:
  assumes "length hs = length ks" "\<forall>h\<in>set hs. length h < 2 ^ 32" "\<forall>k\<in>set ks. length k < 2 ^ 32"
    and "concat (map hint_bytes hs) = concat (map hint_bytes ks)"
  shows "hs = ks"
  using assms
proof (induction hs ks rule: list_induct2)
  case (Cons h hs k ks)
  have "h = k \<and> concat (map hint_bytes hs) = concat (map hint_bytes ks)"
    using Cons.prems by (intro hint_bytes_inject) simp_all
  with Cons show ?case by simp
qed simp

text \<open>A bundle stripped of its signatures and of the invitation hints.\<close>

definition signed_part :: "PrekeyBundle \<Rightarrow> PrekeyBundle" where
  "signed_part b = b\<lparr>pb_identity := (pb_identity b)\<lparr>cross_sig := []\<rparr>, pb_spk_sig := [], pb_pqspk_sig := [], pb_bundle_sig := [],
     pb_relay_hints := filter (\<lambda>h. \<not> is_invitation_extension h) (pb_relay_hints b)\<rparr>"

lemma opk_bytes_inject:
  assumes "opk_bytes j @ x = opk_bytes k @ y" "case j of None \<Rightarrow> True | Some (_, q) \<Rightarrow> length q = 32"
    "case k of None \<Rightarrow> True | Some (_, q) \<Rightarrow> length q = 32"
  shows "j = k \<and> x = y"
proof -
  have "to_le32 a = to_le32 b \<Longrightarrow> a = b" for a b by (metis from_to_le(2))
  then show ?thesis using assms by (auto simp: opk_bytes_def split: option.splits)
qed

lemma signing_bytes_with_hints_inject:
  assumes e: "signing_bytes_with_hints b hs = signing_bytes_with_hints c ks"
    and w: "wf_prekey b" "wf_prekey c" "length (pb_pqspk b) = length (pb_pqspk c)"
    and h: "length hs < 2 ^ 32" "length ks < 2 ^ 32" "\<forall>h\<in>set hs. length h < 2 ^ 32" "\<forall>h\<in>set ks. length h < 2 ^ 32"
  shows "id_ed (pb_identity b) = id_ed (pb_identity c) \<and> id_x (pb_identity b) = id_x (pb_identity c)
    \<and> pb_spk_id b = pb_spk_id c \<and> pb_spk b = pb_spk c \<and> pb_pqspk_id b = pb_pqspk_id c \<and> pb_pqspk b = pb_pqspk c
    \<and> pb_opk b = pb_opk c \<and> pb_expires_at b = pb_expires_at c \<and> hs = ks"
proof -
  have l: "length (id_ed (pb_identity x)) = 32" "length (id_x (pb_identity x)) = 32" "length (pb_spk x) = 32"
    if "wf_prekey x" for x using that by (simp_all add: wf_prekey_def)
  note e' = e [unfolded signing_bytes_with_hints_def]
  let ?t = "\<lambda>x hs. to_le64 (pb_expires_at x) @ to_le32 (word_of_nat (length hs)) @ concat (map hint_bytes hs)"
  have f: "id_ed (pb_identity b) = id_ed (pb_identity c)" "id_x (pb_identity b) = id_x (pb_identity c)"
    "to_le32 (pb_spk_id b) = to_le32 (pb_spk_id c)" "pb_spk b = pb_spk c"
    "to_le32 (pb_pqspk_id b) = to_le32 (pb_pqspk_id c)" "pb_pqspk b = pb_pqspk c"
    and r: "opk_bytes (pb_opk b) @ ?t b hs = opk_bytes (pb_opk c) @ ?t c ks"
    using e' l [OF w(1)] l [OF w(2)] w(3) by simp_all
  have o: "pb_opk b = pb_opk c" "?t b hs = ?t c ks" using opk_bytes_inject [OF r] w(1,2) by (simp_all add: wf_prekey_def)
  have g: "to_le64 (pb_expires_at b) = to_le64 (pb_expires_at c)"
    "to_le32 (word_of_nat (length hs)) = to_le32 (word_of_nat (length ks))"
    "concat (map hint_bytes hs) = concat (map hint_bytes ks)" using o(2) by simp_all
  have "(word_of_nat (length hs) :: u32) = word_of_nat (length ks)" using g(2) by (metis from_to_le(2))
  then have "unat (word_of_nat (length hs) :: u32) = unat (word_of_nat (length ks) :: u32)" by simp
  then have "length hs = length ks" using h(1,2) by simp
  then have "hs = ks" using hints_inject g(3) h(3,4) by blast
  moreover have "pb_spk_id b = pb_spk_id c" "pb_pqspk_id b = pb_pqspk_id c" "pb_expires_at b = pb_expires_at c"
    using f(3,5) g(1) by (metis from_to_le(2), metis from_to_le(2), metis from_to_le(3))
  ultimately show ?thesis using f o(1) by blast
qed

text \<open>
  C33. The bundle signature binds: two well-formed bundles within the limits that sign the same bytes agree
  on the owner's keys, every prekey, the one-time key, the expiry and all hints, save
  invitation hints and the signatures themselves.
\<close>

theorem bundle_signature_binds:
  assumes "prekey_signing_bytes b = prekey_signing_bytes c" "wf_prekey b" "wf_prekey c" "within_limits b" "within_limits c"
  shows "signed_part b = signed_part c"
proof -
  let ?h = "\<lambda>x. filter (\<lambda>h. \<not> is_invitation_extension h) (pb_relay_hints x)"
  have "length (?h x) < 2 ^ 32" "\<forall>h\<in>set (?h x). length h < 2 ^ 32" if "within_limits x" for x
    using that by (auto simp: within_limits_def list_all_iff intro: le_less_trans [OF length_filter_le])
  note l = this [OF assms(4)] this [OF assms(5)]
  have "length (pb_pqspk b) = length (pb_pqspk c)" using assms(4,5) by (simp add: within_limits_def)
  note f = signing_bytes_with_hints_inject [OF assms(1) [unfolded prekey_signing_bytes_def] assms(2,3) this l(1,3,2,4)]
  have "(pb_identity b)\<lparr>cross_sig := []\<rparr> = (pb_identity c)\<lparr>cross_sig := []\<rparr>" using f by simp
  then show ?thesis using f by (simp add: signed_part_def)
qed

lemma verify_other_invitation:
  assumes "prekey_verify C b now = Inr b"
    and "filter (\<lambda>h. \<not> is_invitation_extension h) hints = filter (\<lambda>h. \<not> is_invitation_extension h) (pb_relay_hints b)"
    and "within_limits (b\<lparr>pb_relay_hints := hints\<rparr>)"
  shows "prekey_verify C (b\<lparr>pb_relay_hints := hints\<rparr>) now = Inr (b\<lparr>pb_relay_hints := hints\<rparr>)"
  using assms by (simp add: prekey_verify_iff prekey_signing_bytes_def)

section \<open>An attached policy comes back\<close>

lemma magics [simp]: "length DESCRIPTOR_MAGIC = 4" "length INVITATION_MAGIC = 4"
  by (simp_all add: DESCRIPTOR_MAGIC_def INVITATION_MAGIC_def)

lemma magics_differ: "starts_with (INVITATION_MAGIC @ x) DESCRIPTOR_MAGIC = False" "starts_with (DESCRIPTOR_MAGIC @ x) INVITATION_MAGIC = False"
  by (simp_all add: starts_with_def) (simp_all add: DESCRIPTOR_MAGIC_def INVITATION_MAGIC_def ascii_def)

lemma extension_simps [simp]:
  "is_admission_extension (DESCRIPTOR_MAGIC @ x)" "is_admission_extension (INVITATION_MAGIC @ x)"
  "is_invitation_extension (INVITATION_MAGIC @ x)" "\<not> is_invitation_extension (DESCRIPTOR_MAGIC @ x)"
  by (simp_all add: is_admission_extension_def is_invitation_extension_def magics_differ)

lemma scan_plain:
  "list_all (\<lambda>h. \<not> is_admission_extension h) hs \<Longrightarrow> scan_hints tf d x (hs @ rest) = scan_hints tf d x rest"
  by (induction hs) (simp_all add: is_admission_extension_def strip_prefix_def)

lemma scan_attached:
  assumes "list_all (\<lambda>h. \<not> is_admission_extension h) hs" "tf e = Some (d, [])" "length e \<le> 512"
    "case iv of None \<Rightarrow> True | Some y \<Rightarrow> length y = 32"
  shows "scan_hints tf None None (hs @ [DESCRIPTOR_MAGIC @ e] @ (case iv of None \<Rightarrow> [] | Some y \<Rightarrow> [INVITATION_MAGIC @ y]))
    = Inr (Some d, iv)"
  using assms by (auto simp: scan_plain strip_prefix_append magics_differ strip_prefix_def split: option.splits)

lemma saturating_add_ge: "a \<le> saturating_add a b" for a :: "'a::len word"
  using word_order.extremum [of a]
  by (auto simp: saturating_add_def word_le_nat_alt checked_add_def unat_word_ariths split: option.splits)

lemma epoch_start_ok:
  fixes now :: u64
  assumes "now \<le> t" "t \<le> e"
  shows "checked_mul (now div 3600) 3600 = Some (now div 3600 * 3600)" "now div 3600 * 3600 \<le> t" "\<not> e div 3600 < now div 3600"
proof -
  have u: "unat (x div 3600) = unat x div 3600" for x :: u64 by (simp add: unat_div_distrib)
  have m: "unat now div 3600 * 3600 \<le> unat now" by simp
  have b: "unat now < 2 ^ 64" using unsigned_less [of now, where ?'a = nat] by simp
  then have s: "unat now div 3600 * 3600 < 18446744073709551616" using m by simp
  then show "checked_mul (now div 3600) 3600 = Some (now div 3600 * 3600)" by (simp add: checked_mul_def u)
  have "unat (now div 3600 * 3600) = unat now div 3600 * 3600" using s by (simp add: unat_word_ariths u)
  then show "now div 3600 * 3600 \<le> t" using assms(1) m by (simp add: word_le_nat_alt)
  show "\<not> e div 3600 < now div 3600" using assms by (simp add: word_less_nat_alt word_le_nat_alt u div_le_mono)
qed

lemma issued_descriptor_verifies:
  assumes "sound_signatures C" "now \<le> t" "t \<le> ad_expires_at d"
    and "policy_validate \<lparr>ap_difficulty = ad_difficulty d, ap_max_first_ciphertext = ad_max_first_ciphertext d,
       ap_max_clock_skew_secs = ad_max_clock_skew_secs d, ap_token_issuers = ad_token_issuers d\<rparr> = Inr ()"
    and "ad_version d = 1" "ad_validity_epoch d = now div 3600" "ad_puzzle_profile d = Sha256LeadingZeroBits"
    and "ad_signature d = sign_domain C i DESCRIPTOR_DOMAIN (descriptor_canonical d)"
  shows "descriptor_verify C d (identity_public C i) t = Inr ()"
  using epoch_start_ok [OF assms(2,3)] saturating_add_ge [of t] saturating_add_ge [of "ad_expires_at d"] assms(3-)
    verify_sign_domain [OF assms(1)]
  by (auto simp: descriptor_verify_def not_less intro: order.trans)

text \<open>What attaching produces.\<close>

lemma attach_admissionD:
  assumes "attach_admission C to_vec b i now policy invitation = Inr b'"
  obtains d e hs where "policy_validate policy = Inr ()" "pb_identity b = identity_public C i" "now \<le> pb_expires_at b"
    "hs = filter (\<lambda>h. \<not> is_admission_extension h) (pb_relay_hints b)" "to_vec d = Some e" "length e \<le> 512"
    "b' = prekey_resign C i (b\<lparr>pb_relay_hints := hs @ [DESCRIPTOR_MAGIC @ e]
       @ (case invitation of None \<Rightarrow> [] | Some y \<Rightarrow> [INVITATION_MAGIC @ y])\<rparr>)"
    "ad_version d = 1" "ad_bundle_digest d = admission_bundle_digest C b" "ad_validity_epoch d = now div 3600"
    "ad_expires_at d = pb_expires_at b" "ad_puzzle_profile d = Sha256LeadingZeroBits"
    "policy = \<lparr>ap_difficulty = ad_difficulty d, ap_max_first_ciphertext = ad_max_first_ciphertext d,
       ap_max_clock_skew_secs = ad_max_clock_skew_secs d, ap_token_issuers = ad_token_issuers d\<rparr>"
    "ad_invitation_commitment d = map_option (invitation_commitment C (id_ed (pb_identity b)) (ad_bundle_digest d)
       (ad_validity_epoch d) (ad_expires_at d)) invitation"
    "ad_signature d = sign_domain C i DESCRIPTOR_DOMAIN (descriptor_canonical d)"
proof -
  have g: "admission_bundle_digest C (b\<lparr>pb_relay_hints := filter (\<lambda>h. \<not> is_admission_extension h) (pb_relay_hints b)\<rparr>)
      = admission_bundle_digest C b"
    by (simp add: admission_bundle_digest_def admission_signing_bytes_def)
  have c: "descriptor_canonical (d\<lparr>ad_signature := x\<rparr>) = descriptor_canonical d" for d x by (simp add: descriptor_canonical_def)
  define d0 where "d0 = \<lparr>ad_version = 1, ad_bundle_digest = admission_bundle_digest C b, ad_validity_epoch = now div 3600,
      ad_expires_at = pb_expires_at b, ad_max_clock_skew_secs = ap_max_clock_skew_secs policy,
      ad_puzzle_profile = Sha256LeadingZeroBits, ad_difficulty = ap_difficulty policy,
      ad_max_first_ciphertext = ap_max_first_ciphertext policy,
      ad_invitation_commitment = map_option (invitation_commitment C (id_ed (pb_identity b)) (admission_bundle_digest C b)
        (now div 3600) (pb_expires_at b)) invitation,
      ad_token_issuers = ap_token_issuers policy, ad_signature = zeros 64\<rparr>"
  define d where "d = d0\<lparr>ad_signature := sign_domain C i DESCRIPTOR_DOMAIN (descriptor_canonical d0)\<rparr>"
  have a: "policy_validate policy = Inr ()" "pb_identity b = identity_public C i" "\<not> now > pb_expires_at b"
    and t: "try_then (ok_or (to_vec d) Serialization) (\<lambda>encoded.
       if length encoded > 512 then Inl InvalidBundle
       else Inr (prekey_resign C i
              (b\<lparr>pb_relay_hints := filter (\<lambda>h. \<not> is_admission_extension h) (pb_relay_hints b) @ [DESCRIPTOR_MAGIC @ encoded]
                  @ (case invitation of None \<Rightarrow> [] | Some secret \<Rightarrow> [INVITATION_MAGIC @ secret])\<rparr>))) = Inr b'"
    using assms unfolding attach_admission_def Let_def g
    by (auto simp: d_def d0_def result_simps split: if_splits)
  from t obtain e where e: "to_vec d = Some e" "length e \<le> 512"
    "b' = prekey_resign C i (b\<lparr>pb_relay_hints := filter (\<lambda>h. \<not> is_admission_extension h) (pb_relay_hints b) @ [DESCRIPTOR_MAGIC @ e]
       @ (case invitation of None \<Rightarrow> [] | Some y \<Rightarrow> [INVITATION_MAGIC @ y])\<rparr>)"
    by (auto simp: result_simps split: if_splits)
  show thesis
    using a by (intro that [OF _ _ _ refl e]) (simp_all add: d_def c, simp_all add: d0_def)
qed

text \<open>
  A policy attached to a verified bundle comes back from the verifier, at any time from issue to expiry:
  the same policy bound to the same bundle, with the invitation secret if one was attached. Without the
  bearer secret the public copy still verifies, to the same descriptor, and the delivery hints
  of the bundle are unchanged.
\<close>

theorem attached_admission_verifies:
  assumes "sound_signatures C" "\<And>d e. to_vec d = Some e \<Longrightarrow> take_from e = Some (d, [])"
    and "prekey_verify C b now = Inr b" "attach_admission C to_vec b i now policy invitation = Inr b'"
    and "within_limits b'" "case invitation of None \<Rightarrow> True | Some y \<Rightarrow> length y = 32"
    and "now \<le> t" "t \<le> pb_expires_at b"
  shows "\<exists>d. prekey_verify_admission C take_from b' t = Inr \<lparr>va_descriptor = d, va_invitation = invitation\<rparr>
    \<and> prekey_verify_admission C take_from (without_invitation_capability b') t = Inr \<lparr>va_descriptor = d, va_invitation = None\<rparr>
    \<and> policy = \<lparr>ap_difficulty = ad_difficulty d, ap_max_first_ciphertext = ad_max_first_ciphertext d,
         ap_max_clock_skew_secs = ad_max_clock_skew_secs d, ap_token_issuers = ad_token_issuers d\<rparr>
    \<and> transport_hints b' = transport_hints b"
proof -
  obtain d e hs where p: "policy_validate policy = Inr ()" and ident: "pb_identity b = identity_public C i"
    and hs: "hs = filter (\<lambda>h. \<not> is_admission_extension h) (pb_relay_hints b)" and e: "to_vec d = Some e" "length e \<le> 512"
    and b': "b' = prekey_resign C i (b\<lparr>pb_relay_hints := hs @ [DESCRIPTOR_MAGIC @ e]
       @ (case invitation of None \<Rightarrow> [] | Some y \<Rightarrow> [INVITATION_MAGIC @ y])\<rparr>)"
    and d: "ad_version d = 1" "ad_bundle_digest d = admission_bundle_digest C b" "ad_validity_epoch d = now div 3600"
      "ad_expires_at d = pb_expires_at b" "ad_puzzle_profile d = Sha256LeadingZeroBits"
    and pd: "policy = \<lparr>ap_difficulty = ad_difficulty d, ap_max_first_ciphertext = ad_max_first_ciphertext d,
       ap_max_clock_skew_secs = ad_max_clock_skew_secs d, ap_token_issuers = ad_token_issuers d\<rparr>"
    and cm: "ad_invitation_commitment d = map_option (invitation_commitment C (id_ed (pb_identity b)) (ad_bundle_digest d)
       (ad_validity_epoch d) (ad_expires_at d)) invitation"
    and sg: "ad_signature d = sign_domain C i DESCRIPTOR_DOMAIN (descriptor_canonical d)"
    by (rule attach_admissionD [OF assms(4)])
  have plain: "list_all (\<lambda>h. \<not> is_admission_extension h) hs" by (simp add: hs list_all_iff)
  have ninv: "filter (\<lambda>h. \<not> is_invitation_extension h) hs = hs"
    using plain by (auto simp: list_all_iff is_admission_extension_def is_invitation_extension_def intro!: filter_True)
  have nadm: "filter (\<lambda>h. \<not> is_admission_extension h) hs = hs" by (simp add: hs)
  let ?w = "without_invitation_capability b'"
  have h: "pb_relay_hints b' = hs @ [DESCRIPTOR_MAGIC @ e] @ (case invitation of None \<Rightarrow> [] | Some y \<Rightarrow> [INVITATION_MAGIC @ y])"
    "pb_relay_hints ?w = hs @ [DESCRIPTOR_MAGIC @ e]"
    by (simp_all add: b' prekey_resign_def without_invitation_capability_def ninv split: option.split)
  have f: "pb_identity b' = identity_public C i" "pb_expires_at b' = pb_expires_at b" "pb_identity ?w = identity_public C i"
    "pb_expires_at ?w = pb_expires_at b" "pb_pqspk ?w = pb_pqspk b'"
    by (simp_all add: b' prekey_resign_def without_invitation_capability_def ident)
  have dg: "admission_bundle_digest C b' = admission_bundle_digest C b" "admission_bundle_digest C ?w = admission_bundle_digest C b"
    by (simp_all add: admission_bundle_digest_def admission_signing_bytes_def without_invitation_capability_def b' prekey_resign_def
        ninv nadm split: option.split) (simp_all add: hs)
  have v: "prekey_verify C b' t = Inr b'"
    using assms(3,5,8) ident verify_sign_domain [OF assms(1)]
    by (simp add: prekey_verify_iff b' prekey_resign_def)
  moreover have "within_limits ?w"
    using assms(5) by (auto simp: within_limits_def h f split: option.splits)
  ultimately have w: "prekey_verify C ?w t = Inr ?w"
    using verify_other_invitation [of C b' t "pb_relay_hints ?w"] by (simp add: without_invitation_capability_def)
  have dv: "descriptor_verify C d (identity_public C i) t = Inr ()"
    using assms(1,7,8) p pd d sg by (intro issued_descriptor_verifies) simp_all
  have s: "scan_hints take_from None None (pb_relay_hints b') = Inr (Some d, invitation)"
    "scan_hints take_from None None (pb_relay_hints ?w) = Inr (Some d, None)"
    using scan_attached [of hs take_from e d invitation] scan_attached [of hs take_from e d None] plain assms(2) [OF e(1)] e(2) assms(6)
    by (simp_all add: h)
  have "prekey_verify_admission C take_from b' t = Inr \<lparr>va_descriptor = d, va_invitation = invitation\<rparr>"
    using v s dv by (simp add: prekey_verify_admission_def verify_admission_def f dg d cm ident split: option.split)
  moreover have "prekey_verify_admission C take_from ?w t = Inr \<lparr>va_descriptor = d, va_invitation = None\<rparr>"
    using w s dv by (simp add: prekey_verify_admission_def verify_admission_def f dg d split: option.split)
  moreover have "transport_hints b' = transport_hints b"
    by (simp add: transport_hints_def h nadm split: option.split) (simp add: hs)
  ultimately show ?thesis using pd by blast
qed

section \<open>Concrete bundles\<close>

text \<open>Signatures that always verify and hashes that are constant are enough to run both checks.\<close>

definition toy_keys :: prims where
  "toy_keys = \<lparr>vk_from_bytes = (\<lambda>_. True), ed_verify = (\<lambda>_ _ _. True), ed_sign = (\<lambda>_ _. zeros 64),
     ed_public = (\<lambda>_. zeros 32), x_public = (\<lambda>_. zeros 32), x_dh = (\<lambda>_ _. zeros 32), sha256 = (\<lambda>_. zeros 32),
     hmac = (\<lambda>_ _. zeros 32), hkdf = (\<lambda>_ _ _ n. zeros n), aead_encrypt = (\<lambda>_ _ _ p. p @ zeros 16),
     aead_decrypt = (\<lambda>_ _ _ c. Some (take (length c - 16) c))\<rparr>"

lemma toy_keys_sound: "sound_signatures toy_keys"
  by (simp add: sound_signatures_def toy_keys_def)

definition toy_identity :: Identity where
  "toy_identity = \<lparr>signing = [1], agreement = [2]\<rparr>"

definition toy_bundle :: "bytes list \<Rightarrow> PrekeyBundle" where
  "toy_bundle hints = prekey_build toy_keys toy_identity \<lparr>spks_id = 7, spks_secret = [3]\<rparr>
     \<lparr>pqs_id = 8, pqs_dk = [], pqs_ek = zeros 1184\<rparr> None 9000 hints"

lemmas toy_bundle_fields = prekey_build_fields [OF toy_bundle_def]

lemma toy_bundle_limits: "within_limits (toy_bundle [])" "within_limits (toy_bundle [INVITATION_MAGIC])"
  by (simp_all add: within_limits_def toy_bundle_fields)

lemma toy_bundle_wf: "wf_prekey (toy_bundle hints)"
  by (simp add: wf_prekey_def toy_bundle_fields identity_public_def spk_public_def toy_keys_def)

theorem bundle_signature_binds_witness:
  "toy_bundle [INVITATION_MAGIC] \<noteq> toy_bundle [] \<and> signed_part (toy_bundle [INVITATION_MAGIC]) = signed_part (toy_bundle [])"
proof
  have i: "is_invitation_extension INVITATION_MAGIC" by (simp add: is_invitation_extension_def starts_with_def)
  have "prekey_signing_bytes (toy_bundle [INVITATION_MAGIC]) = prekey_signing_bytes (toy_bundle [])"
    by (simp add: prekey_signing_bytes_def signing_bytes_with_hints_def toy_bundle_fields i)
  then show "signed_part (toy_bundle [INVITATION_MAGIC]) = signed_part (toy_bundle [])"
    by (rule bundle_signature_binds) (simp_all add: toy_bundle_wf toy_bundle_limits)
  show "toy_bundle [INVITATION_MAGIC] \<noteq> toy_bundle []"
    using toy_bundle_fields(10) [of "[INVITATION_MAGIC]"] toy_bundle_fields(10) [of "[]"] by (metis list.distinct(1))
qed

text \<open>
  C34. An invitation hint is outside the bundle signature: a bundle that verifies still verifies after any
  change to its invitation hints that respects the limits.
\<close>

theorem invitation_hint_unsigned:
  assumes "prekey_verify C b now = Inr b"
    and "filter (\<lambda>h. \<not> is_invitation_extension h) hints = filter (\<lambda>h. \<not> is_invitation_extension h) (pb_relay_hints b)"
    and "within_limits (b\<lparr>pb_relay_hints := hints\<rparr>)"
  shows "prekey_verify C (b\<lparr>pb_relay_hints := hints\<rparr>) now = Inr (b\<lparr>pb_relay_hints := hints\<rparr>)"
  using assms by (rule verify_other_invitation)

theorem invitation_hint_unsigned_witness:
  "\<exists>b. prekey_verify toy_keys b 7200 = Inr b \<and> b \<noteq> b\<lparr>pb_relay_hints := [INVITATION_MAGIC]\<rparr>
     \<and> prekey_verify toy_keys (b\<lparr>pb_relay_hints := [INVITATION_MAGIC]\<rparr>) 7200 = Inr (b\<lparr>pb_relay_hints := [INVITATION_MAGIC]\<rparr>)"
proof (intro exI conjI)
  let ?b = "toy_bundle []"
  have i: "is_invitation_extension INVITATION_MAGIC" by (simp add: is_invitation_extension_def starts_with_def)
  show v: "prekey_verify toy_keys ?b 7200 = Inr ?b"
    using built_bundle_verifies [OF toy_keys_sound toy_bundle_def toy_bundle_limits(1), of 7200] by simp
  show "?b \<noteq> ?b\<lparr>pb_relay_hints := [INVITATION_MAGIC]\<rparr>"
    using toy_bundle_fields(10) [of "[]"] by (metis PrekeyBundle.select_convs(10) PrekeyBundle.surjective PrekeyBundle.update_convs(10) list.distinct(1))
  show "prekey_verify toy_keys (?b\<lparr>pb_relay_hints := [INVITATION_MAGIC]\<rparr>) 7200 = Inr (?b\<lparr>pb_relay_hints := [INVITATION_MAGIC]\<rparr>)"
    using v by (rule invitation_hint_unsigned) (simp_all add: within_limits_def toy_bundle_fields i)
qed

text \<open>A descriptor codec that is exact on the one descriptor of the example.\<close>

definition toy_policy :: AdmissionPolicy where
  "toy_policy = admission_policy_default"

lemma toy_policy_valid: "policy_validate toy_policy = Inr ()"
  by (simp add: policy_validate_def toy_policy_def admission_policy_default_def word_le_nat_alt word_less_nat_alt)

definition toy_descriptor :: AdmissionDescriptor where
  "toy_descriptor = \<lparr>ad_version = 1, ad_bundle_digest = zeros 32, ad_validity_epoch = 2, ad_expires_at = 9000,
     ad_max_clock_skew_secs = ap_max_clock_skew_secs toy_policy, ad_puzzle_profile = Sha256LeadingZeroBits,
     ad_difficulty = ap_difficulty toy_policy, ad_max_first_ciphertext = ap_max_first_ciphertext toy_policy,
     ad_invitation_commitment = Some (zeros 32), ad_token_issuers = ap_token_issuers toy_policy, ad_signature = zeros 64\<rparr>"

definition toy_to_vec :: "AdmissionDescriptor \<Rightarrow> bytes option" where
  "toy_to_vec d = (if d = toy_descriptor then Some [] else None)"

definition toy_take_from :: "bytes \<Rightarrow> (AdmissionDescriptor \<times> bytes) option" where
  "toy_take_from b = Some (toy_descriptor, b)"

lemma toy_attach:
  "attach_admission toy_keys toy_to_vec (toy_bundle []) toy_identity 7200 toy_policy (Some (zeros 32))
     = Inr (prekey_resign toy_keys toy_identity
         ((toy_bundle [])\<lparr>pb_relay_hints := [DESCRIPTOR_MAGIC, INVITATION_MAGIC @ zeros 32]\<rparr>))"
proof -
  have "(7200 :: u64) div 3600 = 2" by simp
  moreover have "\<not> (9000 :: u64) < 7200" by simp
  moreover have "admission_bundle_digest toy_keys b = zeros 32" "invitation_commitment toy_keys r g v x y = zeros 32"
    "sign_domain toy_keys i m n = zeros 64" for b r g v x y i m n
    by (simp_all add: admission_bundle_digest_def invitation_commitment_def sign_domain_def toy_keys_def)
  ultimately show ?thesis
    by (simp add: attach_admission_def toy_policy_valid toy_bundle_fields toy_to_vec_def toy_descriptor_def)
qed

theorem attached_admission_verifies_witness:
  "\<exists>b' d. attach_admission toy_keys toy_to_vec (toy_bundle []) toy_identity 7200 toy_policy (Some (zeros 32)) = Inr b'
     \<and> prekey_verify_admission toy_keys toy_take_from b' 9000 = Inr \<lparr>va_descriptor = d, va_invitation = Some (zeros 32)\<rparr>
     \<and> prekey_verify_admission toy_keys toy_take_from (without_invitation_capability b') 9000
         = Inr \<lparr>va_descriptor = d, va_invitation = None\<rparr>"
proof -
  have c: "toy_to_vec d = Some e \<Longrightarrow> toy_take_from e = Some (d, [])" for d e
    by (simp add: toy_to_vec_def toy_take_from_def split: if_splits)
  have v: "prekey_verify toy_keys (toy_bundle []) 7200 = Inr (toy_bundle [])"
    using built_bundle_verifies [OF toy_keys_sound toy_bundle_def toy_bundle_limits(1), of 7200] by simp
  have "within_limits (prekey_resign toy_keys toy_identity
         ((toy_bundle [])\<lparr>pb_relay_hints := [DESCRIPTOR_MAGIC, INVITATION_MAGIC @ zeros 32]\<rparr>))"
    by (simp add: within_limits_def prekey_resign_def toy_bundle_fields)
  from attached_admission_verifies [where t = 9000 and take_from = toy_take_from, OF toy_keys_sound c v toy_attach this] show ?thesis
    using toy_attach by (auto simp: toy_bundle_fields)
qed

end
