(* ===== verification/Handshake.thy ===== *)
theory Handshake
  imports Prekeys Ratchet_Net
begin

text \<open>
  \<^verbatim>\<open>kult-crypto/src/handshake.rs\<close>: the hybrid handshake that turns a verified prekey bundle and an identity
  into two ratchet sessions. The ephemeral secret, the encapsulation randomness, the first ratchet key
  and the nonces are arguments; SHA-256, HKDF, X25519 and ML-KEM are parameters.

  Both ends derive the same secrets, so their sessions are the starting point of the two-party
  development of the ratchet, and the transcript fixes every element of the exchange.
\<close>

section \<open>Derivations\<close>

definition PQXDH_INFO :: bytes where "PQXDH_INFO = ascii ''Komms-PQXDH-v1''"
definition INFO_HKA :: bytes where "INFO_HKA = ascii ''KK-hka''"
definition INFO_NHKB :: bytes where "INFO_NHKB = ascii ''KK-nhkb''"
definition INFO_MAILBOX :: bytes where "INFO_MAILBOX = ascii ''KK-mailbox''"
definition INFO_HYBRID_SERVICE_EXPORTER :: bytes where
  "INFO_HYBRID_SERVICE_EXPORTER = ascii ''Komms-Hybrid-Service-Exporter-v1''"

record InitialMessage =
  im_initiator :: IdentityPublic
  im_ek :: bytes
  im_spk_id :: u32
  im_pqspk_id :: u32
  im_opk_id :: "u32 option"
  im_kem_ct :: bytes
  im_first :: bytes

definition identity_dh :: "prims \<Rightarrow> Identity \<Rightarrow> bytes \<Rightarrow> bytes" where
  "identity_dh C i their = x_dh C (agreement i) their"

definition transcript_input ::
  "IdentityPublic \<Rightarrow> IdentityPublic \<Rightarrow> bytes \<Rightarrow> bytes \<Rightarrow> bytes \<Rightarrow> bytes \<Rightarrow> bytes option \<Rightarrow> bytes" where
  "transcript_input initiator responder spk pqspk ek kem_ct opk =
     PQXDH_INFO @ id_ed initiator @ id_x initiator @ id_ed responder @ id_x responder @ spk @ pqspk @ ek @ kem_ct
     @ (case opk of Some k \<Rightarrow> 1 # k | None \<Rightarrow> [0])"

definition transcript ::
  "prims \<Rightarrow> IdentityPublic \<Rightarrow> IdentityPublic \<Rightarrow> bytes \<Rightarrow> bytes \<Rightarrow> bytes \<Rightarrow> bytes \<Rightarrow> bytes option \<Rightarrow> bytes" where
  "transcript C initiator responder spk pqspk ek kem_ct opk =
     sha256 C (transcript_input initiator responder spk pqspk ek kem_ct opk)"

definition derive_root ::
  "prims \<Rightarrow> bytes \<Rightarrow> bytes \<Rightarrow> bytes \<Rightarrow> bytes option \<Rightarrow> bytes \<Rightarrow> bytes \<times> bytes \<times> bytes" where
  "derive_root C dh1 dh2 dh3 dh4 kem_ss =
     (let ikm = replicate 32 0xFF @ dh1 @ dh2 @ dh3 @ (case dh4 of Some d \<Rightarrow> d | None \<Rightarrow> []) @ kem_ss;
          sk_root = hkdf32 C (Some (zeros 32)) ikm PQXDH_INFO in
      (sk_root, hkdf32 C None sk_root INFO_HKA, hkdf32 C None sk_root INFO_NHKB))"

section \<open>The two sides\<close>

definition initiate ::
  "prims \<Rightarrow> kem \<Rightarrow> Identity \<Rightarrow> PrekeyBundle \<Rightarrow> bytes \<Rightarrow> u64 \<Rightarrow> bytes \<Rightarrow> bytes \<Rightarrow> bytes \<Rightarrow> bytes \<Rightarrow> bytes
    \<Rightarrow> (Session \<times> InitialMessage) cresult option" where
  "initiate C K me b first_payload now ek_secret kem_random ratchet_priv header_nonce nonce =
     (let ek_pub = x_public C ek_secret;
          dh1 = identity_dh C me (pb_spk b);
          dh2 = x_dh C ek_secret (id_x (pb_identity b));
          dh3 = x_dh C ek_secret (pb_spk b);
          dh4 = map_option (\<lambda>(_, opk_pub). x_dh C ek_secret opk_pub) (pb_opk b) in
      if length (pb_pqspk b) \<noteq> MLKEM768_EK_LEN then Some (Inl InvalidBundle)
      else
        (case kem_encapsulate K (pb_pqspk b) kem_random of
           None \<Rightarrow> Some (Inl InvalidBundle)
         | Some (kem_ct, kem_ss) \<Rightarrow>
             let (sk_root, hka, nhkb) = derive_root C dh1 dh2 dh3 dh4 kem_ss;
                 sid = transcript C (identity_public C me) (pb_identity b) (pb_spk b) (pb_pqspk b) ek_pub kem_ct
                         (map_option snd (pb_opk b));
                 mbox = hkdf32 C None sk_root INFO_MAILBOX;
                 exporter = hkdf32 C (Some sid) sk_root INFO_HYBRID_SERVICE_EXPORTER;
                 s = init_initiator C ratchet_priv sid sk_root (pb_spk b) hka nhkb mbox exporter in
             (case encrypt C s now first_payload [] header_nonce nonce of
                None \<Rightarrow> None
              | Some (first, s) \<Rightarrow>
                  Some (Inr (s, \<lparr>im_initiator = identity_public C me, im_ek = ek_pub, im_spk_id = pb_spk_id b,
                                 im_pqspk_id = pb_pqspk_id b, im_opk_id = map_option fst (pb_opk b),
                                 im_kem_ct = kem_ct, im_first = message_encode first\<rparr>)))))"

definition respond ::
  "prims \<Rightarrow> kem \<Rightarrow> Identity \<Rightarrow> SignedPrekeySecret \<Rightarrow> PqPrekeySecret \<Rightarrow> OneTimePrekeySecret option \<Rightarrow> InitialMessage
    \<Rightarrow> u64 \<Rightarrow> bytes \<Rightarrow> (Session \<times> bytes) cresult option" where
  "respond C K me spk pqspk opk msg now ratchet_priv =
     (if im_spk_id msg \<noteq> spks_id spk \<or> im_pqspk_id msg \<noteq> pqs_id pqspk
         \<or> im_opk_id msg \<noteq> map_option opks_id opk \<or> length (im_kem_ct msg) \<noteq> MLKEM768_CT_LEN
      then Some (Inl HandshakeMismatch)
      else
        (case try_then (identity_verify C (im_initiator msg)) (\<lambda>_. pq_decapsulate K pqspk (im_kem_ct msg)) of
           Inl e \<Rightarrow> Some (Inl e)
         | Inr kem_ss \<Rightarrow>
             let dh1 = spk_dh C spk (id_x (im_initiator msg));
                 dh2 = identity_dh C me (im_ek msg);
                 dh3 = spk_dh C spk (im_ek msg);
                 dh4 = map_option (\<lambda>k. opk_dh C k (im_ek msg)) opk;
                 (sk_root, hka, nhkb) = derive_root C dh1 dh2 dh3 dh4 kem_ss;
                 sid = transcript C (im_initiator msg) (identity_public C me) (spk_public C spk) (pqs_ek pqspk) (im_ek msg)
                         (im_kem_ct msg) (map_option (opk_public C) opk);
                 mbox = hkdf32 C None sk_root INFO_MAILBOX;
                 exporter = hkdf32 C (Some sid) sk_root INFO_HYBRID_SERVICE_EXPORTER;
                 s = init_responder C sid sk_root (spks_secret spk) hka nhkb mbox exporter in
             (case message_decode (im_first msg) of
                Inl e \<Rightarrow> Some (Inl e)
              | Inr first \<Rightarrow>
                  (case decrypt C ratchet_priv s now first [] of
                     None \<Rightarrow> None
                   | Some (_, Inl e) \<Rightarrow> Some (Inl e)
                   | Some (s, Inr payload) \<Rightarrow> Some (Inr (s, payload))))))"

section \<open>The first message\<close>

lemma first_message_encrypts:
  assumes "sound_aead C" "sound_dh C" "length hn = 24" "length nonce = 24"
  obtains m s where "encrypt C (init_initiator C priv sid root their hka nhkb mbox ex) now pt ad hn nonce = Some (m, s)"
    "message_decode (message_encode m) = Inr m"
proof -
  let ?a = "init_initiator C priv sid root their hka nhkb mbox ex"
  have "cks ?a \<noteq> None" by (simp add: init_initiator_def split: prod.splits)
  then obtain m s where e: "encrypt C ?a now pt ad hn nonce = Some (m, s)"
    using encrypt_never_panics [OF assms(1) wf_init(2) [OF assms(2)] _ assms(3)] by blast
  then obtain hk ck enc where enc: "enc = aead_seal C hk (header_ad ?a) (header_encode \<lparr>h_dh = dhs_pub ?a, h_pn = pn ?a, h_n = ns ?a\<rparr>) hn"
    "m = \<lparr>enc_header = enc, msg_nonce = nonce, msg_ct = aead_encrypt C (snd (kdf_ck C ck)) nonce (payload_ad ?a enc ad) pt\<rparr>"
    using encrypt_SomeE by metis
  have "length (dhs_pub ?a) = 32" using wf_init(2) [OF assms(2)] by (simp add: wf_session_def)
  then have "length enc = 80" using assms(1,3) by (simp add: enc(1) aead_seal_def sound_aead_def length_header_encode)
  then have "message_decode (message_encode m) = Inr m"
    using assms(1,4) by (simp add: message_decode_iff enc(2) sound_aead_def)
  with e show thesis by (rule that)
qed

lemma first_message_decrypts:
  assumes a: "sound_aead C" and d: "sound_dh C" and l: "length hn = 24"
    and e: "encrypt C (init_initiator C priv sid root (x_public C sp) hka nhkb mbox ex) now pt ad hn nonce = Some (m, s)"
  shows "\<exists>t. decrypt C priv' (init_responder C sid root sp hka nhkb mbox ex) now' m ad = Some (t, Inr pt)"
proof -
  let ?a = "init_initiator C priv sid root (x_public C sp) hka nhkb mbox ex"
  define b where "b = init_responder C sid root sp hka nhkb mbox ex"
  obtain k1 c1 n1 where k: "kdf_rk C root (x_dh C priv (x_public C sp)) = (k1, c1, n1)" by (metis prod_cases3)
  have fa: "hks ?a = Some hka" "cks ?a = Some c1" "dhs_pub ?a = x_public C priv" "pn ?a = 0" "ns ?a = 0" "session_id ?a = sid"
    by (simp_all add: init_initiator_def k)
  have fb: "hkr b = None" "ckr b = None" "nhkr b = hka" "skipped b = []" "session_id b = sid" "rk b = root" "dhs_priv b = sp"
    by (simp_all add: b_def init_responder_def)
  define h where "h = \<lparr>h_dh = x_public C priv, h_pn = 0, h_n = 0\<rparr>"
  obtain enc where m: "enc = aead_seal C hka (header_ad ?a) (header_encode h) hn"
    "m = \<lparr>enc_header = enc, msg_nonce = nonce, msg_ct = aead_encrypt C (snd (kdf_ck C c1)) nonce (payload_ad ?a enc ad) pt\<rparr>"
    using encrypt_SomeE [OF e] fa unfolding h_def by (metis option.inject)
  have p: "purge_expired now' b = b" by (simp add: purge_expired_def fb(4))
  have ad: "header_ad b = header_ad ?a" "session_id b = session_id ?a" using fa fb by (simp_all add: ad_cong [of b ?a])
  have o: "aead_open C hka (header_ad b) (enc_header m) = Inr (header_encode h)"
    using aead_open_seal [OF a l] by (simp add: m ad)
  have hd: "header_decode (header_encode h) = Inr h" using d by (intro header_decode_encode) (simp add: h_def sound_dh_def)
  have kb: "kdf_rk C (rk b) (x_dh C (dhs_priv b) (h_dh h)) = (k1, c1, n1)"
    using k d by (simp add: fb h_def sound_dh_def)
  obtain k2 c2 n2 where k2: "kdf_rk C k1 (x_dh C priv' (h_dh h)) = (k2, c2, n2)" by (metis prod_cases3)
  define t where "t = dh_ratchet C h priv' b"
  note ft = dh_ratchet_fields [OF kb k2, folded t_def]
  have t: "hkr t = Some hka" "ckr t = Some (chain C c1 (unat (nr t)))" "nr t = 0" "session_id t = sid"
    by (simp_all add: ft fb)
  have "unat (h_n h) \<le> unat (nr t) + 1000" by (simp add: h_def)
  note sk = skip_message_keys_chain [OF t(2,1) this refl, of now']
  let ?t = "t\<lparr>nr := max (h_n h) (nr t), ckr := Some (chain C c1 (unat (max (h_n h) (nr t)))),
    skipped := cap_skipped (skipped t @ skipped_range C hka now' c1 (nr t) (max (h_n h) (nr t)))\<rparr>"
  have "payload_ad ?t x y = payload_ad ?a x y" for x y by (rule ad_cong(2)) (simp add: t fa)
  then have "\<exists>s'. decrypt_current C m ad ?t = Some (s', Inr pt)"
    using a by (intro decrypt_current_ok [of _ _ c1 0]) (simp_all add: h_def t(3) m msg_key_def sound_aead_def)
  then show ?thesis
    using o hd sk
    by (simp add: decrypt_def p try_skipped_def fb decrypt_next_def skip_message_keys_no_chain h_def flip: b_def)
      (simp add: h_def t_def)
qed

section \<open>Agreement\<close>

text \<open>
  C9. The handshake agrees. Against a bundle the responder built, used with its one-time prekey or without,
  initiation succeeds, and the responder, given the secrets the flight names, derives the same
  transcript, root, header keys, mailbox and exporter and reads the first payload. The two sessions are
  the ends of one \<open>net_start\<close> after its first message, which is where the ratchet theorems begin.
\<close>

theorem handshake_agrees:
  assumes "sound_signatures C" "sound_aead C" "sound_dh C" "sound_kem K"
    and "b = prekey_build C responder spk pqspk opk expires hints"
    and "length (pqs_dk pqspk) = 2400" "pqs_ek pqspk = kem_public K (pqs_dk pqspk)"
    and "(c, used) = (b, opk) \<or> (c, used) = (without_opk b, None)"
    and "length hn = 24" "length nonce = 24"
  shows "\<exists>s msg t m w sid root hka nhkb mbox ex.
    initiate C K initiator c payload now ek_secret kem_random priv hn nonce = Some (Inr (s, msg))
    \<and> respond C K responder spk pqspk used msg now' priv' = Some (Inr (t, payload))
    \<and> w = net_start C priv (spks_secret spk) sid root hka nhkb mbox ex
    \<and> encrypt C (alice w) now payload [] hn nonce = Some (m, s)
    \<and> decrypt C priv' (bob w) now' m [] = Some (t, Inr payload)"
proof -
  note f = prekey_build_fields [OF assms(5)]
  obtain ct ss where k: "kem_encapsulate K (pqs_ek pqspk) kem_random = Some (ct, ss)"
    "kem_decapsulate K (pqs_dk pqspk) ct = Some ss" "length ct = 1088" "length (pqs_ek pqspk) = 1184"
    using assms(4,7) unfolding sound_kem_def by metis
  have c: "pb_identity c = identity_public C responder" "pb_spk c = spk_public C spk" "pb_pqspk c = pqs_ek pqspk"
    "pb_opk c = map_option (\<lambda>k. (opks_id k, opk_public C k)) used" "pb_spk_id c = spks_id spk" "pb_pqspk_id c = pqs_id pqspk"
    using assms(8) f by (auto simp: without_opk_def)
  have comm: "x_dh C u (x_public C v) = x_dh C v (x_public C u)" for u v using assms(3) by (simp add: sound_dh_def)
  let ?ek = "x_public C ek_secret"
  define dh4 where "dh4 = map_option (\<lambda>k. opk_dh C k ?ek) used"
  obtain root hka nhkb where r: "derive_root C (identity_dh C initiator (spk_public C spk)) (identity_dh C responder ?ek)
      (spk_dh C spk ?ek) dh4 ss = (root, hka, nhkb)" by (metis prod_cases3)
  define sid where "sid = transcript C (identity_public C initiator) (identity_public C responder) (spk_public C spk)
      (pqs_ek pqspk) ?ek ct (map_option (opk_public C) used)"
  define mbox where "mbox = hkdf32 C None root INFO_MAILBOX"
  define ex where "ex = hkdf32 C (Some sid) root INFO_HYBRID_SERVICE_EXPORTER"
  have idx: "id_x (identity_public C i) = x_public C (agreement i)" for i by (simp add: identity_public_def)
  have o: "map_option ((\<lambda>(_, p). x_dh C ek_secret p) \<circ> (\<lambda>k. (opks_id k, opk_public C k))) used = dh4"
    "map_option (snd \<circ> (\<lambda>k. (opks_id k, opk_public C k))) used = map_option (opk_public C) used"
    "map_option (fst \<circ> (\<lambda>k. (opks_id k, opk_public C k))) used = map_option opks_id used"
    by (cases used; simp add: dh4_def opk_dh_def opk_public_def comm)+
  have dhs: "x_dh C ek_secret (x_public C (agreement responder)) = identity_dh C responder ?ek"
    "x_dh C ek_secret (spk_public C spk) = spk_dh C spk ?ek"
    "spk_dh C spk (x_public C (agreement initiator)) = identity_dh C initiator (spk_public C spk)"
    by (simp_all add: identity_dh_def spk_dh_def spk_public_def comm)
  obtain m s where e: "encrypt C (init_initiator C priv sid root (spk_public C spk) hka nhkb mbox ex) now payload [] hn nonce = Some (m, s)"
    and md: "message_decode (message_encode m) = Inr m"
    by (rule first_message_encrypts [OF assms(2,3,9,10)])
  then obtain t where t: "decrypt C priv' (init_responder C sid root (spks_secret spk) hka nhkb mbox ex) now' m [] = Some (t, Inr payload)"
    using first_message_decrypts [OF assms(2,3,9)] unfolding spk_public_def by metis
  define msg where "msg = \<lparr>im_initiator = identity_public C initiator, im_ek = ?ek, im_spk_id = spks_id spk, im_pqspk_id = pqs_id pqspk,
      im_opk_id = map_option opks_id used, im_kem_ct = ct, im_first = message_encode m\<rparr>"
  have i: "initiate C K initiator c payload now ek_secret kem_random priv hn nonce = Some (Inr (s, msg))"
    using k(1,4) r e
    by (simp add: initiate_def c option.map_comp o idx dhs sid_def [symmetric] mbox_def [symmetric] ex_def [symmetric] msg_def)
  have v: "identity_verify C (identity_public C initiator) = Inr ()" using identity_public_verifies [OF assms(1)] .
  have re: "respond C K responder spk pqspk used msg now' priv' = Some (Inr (t, payload))"
    using k(2,3) r md t assms(6)
    by (simp add: respond_def msg_def v pq_decapsulate_def idx dhs dh4_def [symmetric] sid_def [symmetric] mbox_def [symmetric]
        ex_def [symmetric])
  let ?w = "net_start C priv (spks_secret spk) sid root hka nhkb mbox ex"
  have "encrypt C (alice ?w) now payload [] hn nonce = Some (m, s)" "decrypt C priv' (bob ?w) now' m [] = Some (t, Inr payload)"
    using e t by (simp_all add: net_start_def spk_public_def)
  with i re show ?thesis by blast
qed

text \<open>A flight that names other prekeys than the ones at hand is refused before any key is used.\<close>

lemma respond_mismatch:
  assumes "im_spk_id msg \<noteq> spks_id spk \<or> im_pqspk_id msg \<noteq> pqs_id pqspk \<or> im_opk_id msg \<noteq> map_option opks_id opk"
  shows "respond C K me spk pqspk opk msg now priv = Some (Inl HandshakeMismatch)"
  using assms by (auto simp: respond_def)

definition wf_transcript :: "IdentityPublic \<Rightarrow> IdentityPublic \<Rightarrow> bytes \<Rightarrow> bytes \<Rightarrow> bytes \<Rightarrow> bytes \<Rightarrow> bytes option \<Rightarrow> bool" where
  "wf_transcript i r spk pqspk ek ct opk \<longleftrightarrow>
     length (id_ed i) = 32 \<and> length (id_x i) = 32 \<and> length (id_ed r) = 32 \<and> length (id_x r) = 32 \<and> length spk = 32
     \<and> length pqspk = 1184 \<and> length ek = 32 \<and> length ct = 1088 \<and> (case opk of None \<Rightarrow> True | Some k \<Rightarrow> length k = 32)"

text \<open>
  The transcript binds: equal transcripts mean equal identity keys on both sides, equal prekeys, equal
  ephemeral key, equal ciphertext and the same use of the one-time prekey.
\<close>

theorem transcript_binds:
  assumes "wf_transcript i r spk pqspk ek ct opk" "wf_transcript i' r' spk' pqspk' ek' ct' opk'"
    and "inj_on (sha256 C) {transcript_input i r spk pqspk ek ct opk, transcript_input i' r' spk' pqspk' ek' ct' opk'}"
    and "transcript C i r spk pqspk ek ct opk = transcript C i' r' spk' pqspk' ek' ct' opk'"
  shows "id_ed i = id_ed i' \<and> id_x i = id_x i' \<and> id_ed r = id_ed r' \<and> id_x r = id_x r' \<and> spk = spk' \<and> pqspk = pqspk'
    \<and> ek = ek' \<and> ct = ct' \<and> opk = opk'"
proof -
  have "transcript_input i r spk pqspk ek ct opk = transcript_input i' r' spk' pqspk' ek' ct' opk'"
    using inj_on_eq_iff [OF assms(3)] assms(4) by (simp add: transcript_def)
  then show ?thesis using assms(1,2) by (auto simp: transcript_input_def wf_transcript_def split: option.splits)
qed

section \<open>A concrete handshake\<close>

definition toy_kem :: kem where
  "toy_kem = \<lparr>kem_public = (\<lambda>_. zeros 1184), kem_encapsulate = (\<lambda>_ _. Some (zeros 1088, zeros 32)),
     kem_decapsulate = (\<lambda>_ _. Some (zeros 32))\<rparr>"

lemma toy_kem_sound: "sound_kem toy_kem"
  by (simp add: sound_kem_def toy_kem_def)

lemma toy_ratchet_signs: "sound_signatures toy_ratchet"
  by (simp add: sound_signatures_def toy_ratchet_def)

theorem handshake_agrees_witness:
  "\<exists>s msg t. initiate toy_ratchet toy_kem \<lparr>signing = [1], agreement = [2]\<rparr>
       (without_opk (prekey_build toy_ratchet \<lparr>signing = [3], agreement = [4]\<rparr> \<lparr>spks_id = 1, spks_secret = [5]\<rparr>
         \<lparr>pqs_id = 2, pqs_dk = zeros 2400, pqs_ek = zeros 1184\<rparr> (Some \<lparr>opks_id = 3, opks_secret = [6]\<rparr>) 9000 []))
       [42] 100 [7] [] [8] (zeros 24) (zeros 24) = Some (Inr (s, msg))
     \<and> respond toy_ratchet toy_kem \<lparr>signing = [3], agreement = [4]\<rparr> \<lparr>spks_id = 1, spks_secret = [5]\<rparr>
         \<lparr>pqs_id = 2, pqs_dk = zeros 2400, pqs_ek = zeros 1184\<rparr> None msg 200 [9] = Some (Inr (t, [42]))"
  using handshake_agrees [OF toy_ratchet_signs toy_ratchet_sound toy_kem_sound refl, of
      "\<lparr>pqs_id = 2, pqs_dk = zeros 2400, pqs_ek = zeros 1184\<rparr>"
      "without_opk (prekey_build toy_ratchet \<lparr>signing = [3], agreement = [4]\<rparr> \<lparr>spks_id = 1, spks_secret = [5]\<rparr>
         \<lparr>pqs_id = 2, pqs_dk = zeros 2400, pqs_ek = zeros 1184\<rparr> (Some \<lparr>opks_id = 3, opks_secret = [6]\<rparr>) 9000 [])"
      None "\<lparr>signing = [3], agreement = [4]\<rparr>" "\<lparr>spks_id = 1, spks_secret = [5]\<rparr>" "Some \<lparr>opks_id = 3, opks_secret = [6]\<rparr>"
      9000 "[]" "zeros 24" "zeros 24" "\<lparr>signing = [1], agreement = [2]\<rparr>" "[42]" 100 "[7]" "[]" "[8]" 200 "[9]"]
  by (fastforce simp: toy_kem_def)

definition toy_public :: IdentityPublic where
  "toy_public = \<lparr>id_ed = zeros 32, id_x = zeros 32, cross_sig = []\<rparr>"

theorem transcript_binds_witness:
  "\<exists>C. transcript C toy_public toy_public (zeros 32) (zeros 1184) (zeros 32) (zeros 1088) None
     \<noteq> transcript C toy_public toy_public (zeros 32) (zeros 1184) (zeros 32) (zeros 1088) (Some (zeros 32))"
proof
  let ?C = "toy_ratchet\<lparr>sha256 := (\<lambda>x. x)\<rparr>"
  have w: "wf_transcript toy_public toy_public (zeros 32) (zeros 1184) (zeros 32) (zeros 1088) None"
    "wf_transcript toy_public toy_public (zeros 32) (zeros 1184) (zeros 32) (zeros 1088) (Some (zeros 32))"
    by (simp_all add: wf_transcript_def toy_public_def)
  have "inj_on (sha256 ?C) A" for A by (simp add: inj_on_def)
  from transcript_binds [OF w this] show "transcript ?C toy_public toy_public (zeros 32) (zeros 1184) (zeros 32) (zeros 1088) None
     \<noteq> transcript ?C toy_public toy_public (zeros 32) (zeros 1184) (zeros 32) (zeros 1088) (Some (zeros 32))" by auto
qed

end
