(* ===== verification/Call_Media.thy ===== *)
theory Call_Media
  imports Crypto_Base
begin

text \<open>
  \<^verbatim>\<open>kult-crypto/src/call.rs\<close>: encrypted call media. A sender seals a hello record and then audio records
  with consecutive sequence numbers; a receiver authenticates a record and passes each sequence number
  at most once, with a 128-bit bitmap for what arrived out of order. Operations return the state they
  leave and a result. BLAKE3 is a parameter.

  The bitmap is shown to refine a set of seen sequence numbers, and over a network that cannot forge
  a call delivers every record at most once, the hello first, and each record that is not too old.
\<close>

type_synonym u128 = "128 word"

section \<open>Constants and data\<close>

definition CALL_MEDIA_MAGIC :: bytes where "CALL_MEDIA_MAGIC = [0x4b, 0x43, 0x4d, 1]"
definition CALL_MEDIA_HEADER_LEN :: nat where [simp]: "CALL_MEDIA_HEADER_LEN = 4 + 1 + 4 + 8 + 8 + 2"
definition MAX_CALL_MEDIA_PAYLOAD_LEN :: nat where [simp]: "MAX_CALL_MEDIA_PAYLOAD_LEN = 1275"
definition CALL_MEDIA_TAG_LEN :: nat where [simp]: "CALL_MEDIA_TAG_LEN = 16"
definition MAX_CALL_MEDIA_FRAME_LEN :: nat where
  [simp]: "MAX_CALL_MEDIA_FRAME_LEN = CALL_MEDIA_HEADER_LEN + MAX_CALL_MEDIA_PAYLOAD_LEN + CALL_MEDIA_TAG_LEN"
definition CALL_MEDIA_RECORDS_PER_KEY_PHASE :: u64 where [simp]: "CALL_MEDIA_RECORDS_PER_KEY_PHASE = 4096"
definition CALL_MEDIA_REPLAY_WINDOW :: u64 where [simp]: "CALL_MEDIA_REPLAY_WINDOW = 128"
definition KIND_HELLO :: u8 where [simp]: "KIND_HELLO = 0"
definition KIND_AUDIO :: u8 where [simp]: "KIND_AUDIO = 1"
definition CONTEXT_DOMAIN :: bytes where "CONTEXT_DOMAIN = ascii ''komms-call-media-context-v1''"
definition I2R_MEDIA_INFO :: bytes where "I2R_MEDIA_INFO = ascii ''komms-call-initiator-to-responder-media-v1''"
definition R2I_MEDIA_INFO :: bytes where "R2I_MEDIA_INFO = ascii ''komms-call-responder-to-initiator-media-v1''"
definition I2R_HEADER_INFO :: bytes where "I2R_HEADER_INFO = ascii ''komms-call-initiator-to-responder-header-v1''"
definition R2I_HEADER_INFO :: bytes where "R2I_HEADER_INFO = ascii ''komms-call-responder-to-initiator-header-v1''"
definition PHASE_INFO :: bytes where "PHASE_INFO = ascii ''komms-call-media-key-phase-v1''"
definition NONCE_INFO :: bytes where "NONCE_INFO = ascii ''komms-call-media-nonce-v1''"

record CallMediaContext =
  mc_call_id :: bytes
  mc_initiator_account :: bytes
  mc_responder_account :: bytes
  mc_initiator_device :: bytes
  mc_responder_device :: bytes

datatype CallRole = CallInitiator | CallResponder

datatype CallMediaKind = MediaHello | MediaAudio

record CallMediaFrame =
  mf_kind :: CallMediaKind
  mf_sequence :: u64
  mf_timestamp_ms :: u64
  mf_payload :: bytes

record CallMediaSender =
  ms_media_base :: bytes
  ms_header_base :: bytes
  ms_context_hash :: bytes
  ms_next_sequence :: u64
  ms_hello_sent :: bool

record CallMediaReceiver =
  mr_media_base :: bytes
  mr_header_base :: bytes
  mr_context_hash :: bytes
  mr_highest_sequence :: u64
  mr_replay_bitmap :: u128
  mr_has_sequence :: bool
  mr_hello_received :: bool

record ParsedHeader =
  ph_kind :: u8
  ph_phase :: u32
  ph_sequence :: u64
  ph_timestamp_ms :: u64
  ph_payload_len :: nat

section \<open>Record headers\<close>

definition call_media_record_len :: "bytes \<Rightarrow> nat cresult" where
  "call_media_record_len header =
     (if length header < CALL_MEDIA_HEADER_LEN \<or> take 4 header \<noteq> CALL_MEDIA_MAGIC then Inl InvalidMessage
      else
        let payload_len = unat (from_le16 (subslice 25 27 header));
            valid_payload =
              (if header ! 4 = KIND_HELLO then payload_len = 0
               else if header ! 4 = KIND_AUDIO then payload_len > 0 \<and> payload_len \<le> MAX_CALL_MEDIA_PAYLOAD_LEN
               else False) in
        if \<not> valid_payload then Inl InvalidMessage
        else
          let n = CALL_MEDIA_HEADER_LEN + payload_len + CALL_MEDIA_TAG_LEN in
          if n \<le> MAX_CALL_MEDIA_FRAME_LEN then Inr n else Inl InvalidMessage)"

definition media_all_zero :: "bytes \<Rightarrow> bool" where
  "media_all_zero b \<longleftrightarrow> list_all (\<lambda>x. x = 0) b"

definition validate_context :: "bytes \<Rightarrow> CallMediaContext \<Rightarrow> unit cresult" where
  "validate_context master_secret c =
     (if media_all_zero master_secret \<or> media_all_zero (mc_call_id c) \<or> media_all_zero (mc_initiator_account c)
         \<or> media_all_zero (mc_responder_account c) \<or> media_all_zero (mc_initiator_device c)
         \<or> media_all_zero (mc_responder_device c) then Inl InvalidKey
      else Inr ())"

definition context_hash :: "(bytes \<Rightarrow> bytes) \<Rightarrow> CallMediaContext \<Rightarrow> bytes" where
  "context_hash blake3 c =
     blake3 (CONTEXT_DOMAIN @ mc_call_id c @ mc_initiator_account c @ mc_responder_account c @ mc_initiator_device c
       @ mc_responder_device c)"

definition key_phase :: "u64 \<Rightarrow> u32 cresult" where
  "key_phase sequence =
     (let q = sequence div CALL_MEDIA_RECORDS_PER_KEY_PHASE in
      if unat q < 2 ^ 32 then Inr (ucast q) else Inl InvalidMessage)"

definition phase_key :: "prims \<Rightarrow> bytes \<Rightarrow> u32 \<Rightarrow> bytes" where
  "phase_key C base phase = hkdf32 C (Some (to_le32 phase)) base PHASE_INFO"

definition media_nonce :: "prims \<Rightarrow> bytes \<Rightarrow> u32 \<Rightarrow> u64 \<Rightarrow> bytes" where
  "media_nonce C header_base phase sequence =
     hkdf_expand C None header_base (NONCE_INFO @ to_le32 phase @ to_le64 sequence) NONCE_LEN"

definition encode_header :: "u8 \<Rightarrow> u32 \<Rightarrow> u64 \<Rightarrow> u64 \<Rightarrow> nat \<Rightarrow> bytes cresult" where
  "encode_header kind phase sequence timestamp_ms payload_len =
     (if payload_len < 2 ^ 16 then
        Inr (CALL_MEDIA_MAGIC @ kind # to_le32 phase @ to_le64 sequence @ to_le64 timestamp_ms
             @ to_le16 (word_of_nat payload_len))
      else Inl InvalidMessage)"

definition parse_header :: "bytes \<Rightarrow> ParsedHeader cresult" where
  "parse_header b =
     (if length b < CALL_MEDIA_HEADER_LEN + CALL_MEDIA_TAG_LEN \<or> length b > MAX_CALL_MEDIA_FRAME_LEN
         \<or> take 4 b \<noteq> CALL_MEDIA_MAGIC then Inl InvalidMessage
      else
        try_then (call_media_record_len b) (\<lambda>n.
        if length b \<noteq> n then Inl InvalidMessage
        else Inr \<lparr>ph_kind = b ! 4, ph_phase = from_le32 (subslice 5 9 b), ph_sequence = from_le64 (subslice 9 17 b),
                  ph_timestamp_ms = from_le64 (subslice 17 25 b),
                  ph_payload_len = unat (from_le16 (subslice 25 27 b))\<rparr>))"

definition associated_data :: "bytes \<Rightarrow> bytes \<Rightarrow> bytes" where
  "associated_data ctx header = ctx @ header"

definition replay_after :: "bool \<Rightarrow> u64 \<Rightarrow> u128 \<Rightarrow> u64 \<Rightarrow> (u64 \<times> u128) cresult" where
  "replay_after has_sequence highest bitmap sequence =
     (if \<not> has_sequence then Inr (sequence, 1)
      else if sequence > highest then
        let shift = sequence - highest in
        Inr (sequence, if shift \<ge> CALL_MEDIA_REPLAY_WINDOW then 1 else push_bit (unat shift) bitmap OR 1)
      else
        let behind = highest - sequence in
        if behind \<ge> CALL_MEDIA_REPLAY_WINDOW \<or> bitmap AND push_bit (unat behind) 1 \<noteq> 0 then Inl MessageAuthentication
        else Inr (highest, bitmap OR push_bit (unat behind) 1))"

section \<open>Sending\<close>

definition direction_infos :: "CallRole \<Rightarrow> bytes \<times> bytes" where
  "direction_infos role =
     (case role of CallInitiator \<Rightarrow> (I2R_MEDIA_INFO, I2R_HEADER_INFO) | CallResponder \<Rightarrow> (R2I_MEDIA_INFO, R2I_HEADER_INFO))"

definition media_sender_new :: "prims \<Rightarrow> (bytes \<Rightarrow> bytes) \<Rightarrow> bytes \<Rightarrow> CallMediaContext \<Rightarrow> CallRole \<Rightarrow> CallMediaSender cresult" where
  "media_sender_new C blake3 master_secret c role =
     try_then (validate_context master_secret c) (\<lambda>_.
     let h = context_hash blake3 c; (media_info, header_info) = direction_infos role in
     Inr \<lparr>ms_media_base = hkdf32 C (Some h) master_secret media_info,
          ms_header_base = hkdf32 C (Some h) master_secret header_info,
          ms_context_hash = h, ms_next_sequence = 0, ms_hello_sent = False\<rparr>)"

definition seal_record :: "prims \<Rightarrow> CallMediaSender \<Rightarrow> u8 \<Rightarrow> u64 \<Rightarrow> bytes \<Rightarrow> CallMediaSender \<times> bytes cresult" where
  "seal_record C s kind timestamp_ms payload =
     (let sequence = ms_next_sequence s in
      case try_then (key_phase sequence) (\<lambda>phase.
           try_then (encode_header kind phase sequence timestamp_ms (length payload)) (\<lambda>header.
           let key = phase_key C (ms_media_base s) phase;
               nonce = media_nonce C (ms_header_base s) phase sequence;
               aad = associated_data (ms_context_hash s) header;
               ciphertext = aead_encrypt_with_nonce C key nonce aad payload in
           try_then (ok_or (checked_add sequence 1) InvalidMessage) (\<lambda>next.
           Inr (next, header @ ciphertext)))) of
        Inl e \<Rightarrow> (s, Inl e)
      | Inr (next, out) \<Rightarrow> (s\<lparr>ms_next_sequence := next\<rparr>, Inr out))"

definition seal_hello :: "prims \<Rightarrow> CallMediaSender \<Rightarrow> CallMediaSender \<times> bytes cresult" where
  "seal_hello C s =
     (if ms_hello_sent s \<or> ms_next_sequence s \<noteq> 0 then (s, Inl InvalidMessage)
      else (case seal_record C s KIND_HELLO 0 [] of
              (s, Inl e) \<Rightarrow> (s, Inl e)
            | (s, Inr out) \<Rightarrow> (s\<lparr>ms_hello_sent := True\<rparr>, Inr out)))"

definition seal_audio :: "prims \<Rightarrow> CallMediaSender \<Rightarrow> u64 \<Rightarrow> bytes \<Rightarrow> CallMediaSender \<times> bytes cresult" where
  "seal_audio C s timestamp_ms opus_packet =
     (if \<not> ms_hello_sent s \<or> timestamp_ms = 0 \<or> opus_packet = [] \<or> length opus_packet > MAX_CALL_MEDIA_PAYLOAD_LEN
      then (s, Inl InvalidMessage)
      else seal_record C s KIND_AUDIO timestamp_ms opus_packet)"

section \<open>Receiving\<close>

definition opposite :: "CallRole \<Rightarrow> CallRole" where
  "opposite role = (case role of CallInitiator \<Rightarrow> CallResponder | CallResponder \<Rightarrow> CallInitiator)"

definition media_receiver_new :: "prims \<Rightarrow> (bytes \<Rightarrow> bytes) \<Rightarrow> bytes \<Rightarrow> CallMediaContext \<Rightarrow> CallRole \<Rightarrow> CallMediaReceiver cresult" where
  "media_receiver_new C blake3 master_secret c role =
     try_then (validate_context master_secret c) (\<lambda>_.
     let h = context_hash blake3 c;
         (media_info, header_info) =
           (case role of CallInitiator \<Rightarrow> (R2I_MEDIA_INFO, R2I_HEADER_INFO)
            | CallResponder \<Rightarrow> (I2R_MEDIA_INFO, I2R_HEADER_INFO)) in
     Inr \<lparr>mr_media_base = hkdf32 C (Some h) master_secret media_info,
          mr_header_base = hkdf32 C (Some h) master_secret header_info,
          mr_context_hash = h, mr_highest_sequence = 0, mr_replay_bitmap = 0, mr_has_sequence = False,
          mr_hello_received = False\<rparr>)"

text \<open>The admissible kinds: one empty hello at sequence zero, then audio.\<close>

definition kind_allowed :: "CallMediaReceiver \<Rightarrow> ParsedHeader \<Rightarrow> bool" where
  "kind_allowed r p \<longleftrightarrow>
     (if ph_kind p = KIND_HELLO \<and> ph_sequence p = 0 \<and> ph_timestamp_ms p = 0 \<and> ph_payload_len p = 0 \<and> \<not> mr_hello_received r
      then True
      else ph_kind p = KIND_AUDIO \<and> mr_hello_received r \<and> ph_sequence p > 0 \<and> ph_timestamp_ms p > 0 \<and> ph_payload_len p > 0)"

text \<open>Everything before the state changes, and the state change.\<close>

definition media_authenticate :: "prims \<Rightarrow> CallMediaReceiver \<Rightarrow> bytes \<Rightarrow> (ParsedHeader \<times> (u64 \<times> u128) \<times> bytes) cresult" where
  "media_authenticate C r b =
     try_then (parse_header b) (\<lambda>p.
     try_then (key_phase (ph_sequence p)) (\<lambda>phase.
     if ph_phase p \<noteq> phase then Inl InvalidMessage
     else if \<not> kind_allowed r p then Inl InvalidMessage
     else
       try_then (replay_after (mr_has_sequence r) (mr_highest_sequence r) (mr_replay_bitmap r) (ph_sequence p)) (\<lambda>replay.
       let key = phase_key C (mr_media_base r) (ph_phase p);
           nonce = media_nonce C (mr_header_base r) (ph_phase p) (ph_sequence p);
           aad = associated_data (mr_context_hash r) (take CALL_MEDIA_HEADER_LEN b) in
       try_then (aead_decrypt_with_nonce C key nonce aad (drop CALL_MEDIA_HEADER_LEN b)) (\<lambda>payload.
       if length payload \<noteq> ph_payload_len p then Inl InvalidMessage
       else Inr (p, replay, payload)))))"

definition media_open :: "prims \<Rightarrow> CallMediaReceiver \<Rightarrow> bytes \<Rightarrow> CallMediaReceiver \<times> CallMediaFrame cresult" where
  "media_open C r b =
     (case media_authenticate C r b of
        Inl e \<Rightarrow> (r, Inl e)
      | Inr (p, replay, payload) \<Rightarrow>
          (r\<lparr>mr_has_sequence := True, mr_highest_sequence := fst replay, mr_replay_bitmap := snd replay,
             mr_hello_received := (ph_kind p = KIND_HELLO \<or> mr_hello_received r)\<rparr>,
           Inr \<lparr>mf_kind = (if ph_kind p = KIND_HELLO then MediaHello else MediaAudio), mf_sequence = ph_sequence p,
                mf_timestamp_ms = ph_timestamp_ms p, mf_payload = payload\<rparr>))"

section \<open>The replay window\<close>

text \<open>What the three fields stand for: the set of sequence numbers accepted so far.\<close>

definition window :: "bool \<Rightarrow> u64 \<Rightarrow> u128 \<Rightarrow> nat set \<Rightarrow> bool" where
  "window has_seq highest bm S \<longleftrightarrow>
     (if has_seq then unat highest \<in> S \<and> (\<forall>q\<in>S. q \<le> unat highest)
        \<and> (\<forall>k<128. bit bm k \<longleftrightarrow> k \<le> unat highest \<and> unat highest - k \<in> S)
      else S = {})"

lemma window_first: "window True q 1 {unat q}"
  by (auto simp: window_def bit_1_iff)

lemma window_ahead:
  assumes w: "window True h bm S" and q: "h < q" "q - h < 128"
  shows "window True q (push_bit (unat (q - h)) bm OR 1) (insert (unat q) S)"
proof -
  have u: "unat (q - h) = unat q - unat h" using q(1) by (simp add: unat_sub_if' word_less_nat_alt word_le_nat_alt)
  have lt: "unat h < unat q" using q(1) by (simp add: word_less_nat_alt)
  have "bit (push_bit (unat (q - h)) bm OR 1) k \<longleftrightarrow> k \<le> unat q \<and> unat q - k \<in> insert (unat q) S" if k: "k < 128" for k
  proof (cases "k = 0")
    case True
    then show ?thesis by (simp add: bit_or_iff bit_1_iff)
  next
    case False
    have "bit (push_bit (unat (q - h)) bm OR 1) k \<longleftrightarrow> unat q - unat h \<le> k \<and> bit bm (k - (unat q - unat h))"
      using k False by (simp add: bit_or_iff bit_1_iff bit_push_bit_iff u)
    also have "\<dots> \<longleftrightarrow> unat q - unat h \<le> k \<and> k - (unat q - unat h) \<le> unat h \<and> unat h - (k - (unat q - unat h)) \<in> S"
      using w k by (auto simp: window_def)
    also have "\<dots> \<longleftrightarrow> k \<le> unat q \<and> unat q - k \<in> insert (unat q) S"
      using w lt False by (auto simp: window_def)
    finally show ?thesis .
  qed
  then show ?thesis using w lt by (auto simp: window_def)
qed

lemma window_jump:
  assumes w: "window True h bm S" and q: "h < q" "128 \<le> q - h"
  shows "window True q 1 (insert (unat q) S)"
proof -
  have u: "unat h + 128 \<le> unat q" using q by (simp add: unat_sub_if' word_less_nat_alt word_le_nat_alt split: if_splits)
  have "unat q - k \<notin> S" if "k < 128" for k using w u that by (auto simp: window_def)
  then show ?thesis using w u by (auto simp: window_def bit_1_iff)
qed

lemma window_behind:
  assumes w: "window True h bm S" and q: "q \<le> h" "h - q < 128"
  shows "bm AND push_bit (unat (h - q)) 1 \<noteq> 0 \<longleftrightarrow> unat q \<in> S"
    and "window True h (bm OR push_bit (unat (h - q)) 1) (insert (unat q) S)"
proof -
  have u: "unat (h - q) = unat h - unat q" using q(1) by (simp add: unat_sub_if' word_le_nat_alt)
  have le: "unat q \<le> unat h" "unat h - unat q < 128" using q u by (simp_all add: word_le_nat_alt word_less_nat_alt)
  show "bm AND push_bit (unat (h - q)) 1 \<noteq> 0 \<longleftrightarrow> unat q \<in> S"
    unfolding bit_iff_and_push_bit_not_eq_0 [symmetric] u using w le by (simp add: window_def)
  have "bit (bm OR push_bit (unat (h - q)) 1) k \<longleftrightarrow> bit bm k \<or> k = unat h - unat q" if "k < 128" for k
    using that by (auto simp: bit_or_iff bit_exp_iff u)
  then show "window True h (bm OR push_bit (unat (h - q)) 1) (insert (unat q) S)"
    using w le by (auto simp: window_def)
qed

definition too_old :: "nat set \<Rightarrow> nat \<Rightarrow> bool" where
  "too_old S q \<longleftrightarrow> (\<exists>h\<in>S. q + 128 \<le> h)"

text \<open>
  The bitmap refines a set of seen numbers: a sequence number is passed exactly when it has not been
  seen and is newer than the highest one minus 128, and passing it adds it to the set.
\<close>

lemma replay_window_refines:
  assumes "window has_seq highest bm S"
  shows "case replay_after has_seq highest bm q of
      Inl e \<Rightarrow> e = MessageAuthentication \<and> (unat q \<in> S \<or> too_old S (unat q))
    | Inr (highest', bm') \<Rightarrow> unat q \<notin> S \<and> \<not> too_old S (unat q) \<and> window True highest' bm' (insert (unat q) S)"
proof (cases has_seq)
  case False
  then show ?thesis using assms window_first [of q] by (simp add: replay_after_def window_def too_old_def)
next
  case True
  then have w: "window True highest bm S" using assms by simp
  then have top: "unat highest \<in> S" "\<And>x. x \<in> S \<Longrightarrow> x \<le> unat highest" by (auto simp: window_def)
  show ?thesis
  proof (cases "highest < q")
    case gt: True
    then have lt: "unat highest < unat q" by (simp add: word_less_nat_alt)
    have "unat q \<notin> S" "\<not> too_old S (unat q)" unfolding too_old_def using top(2) lt by fastforce+
    then show ?thesis
      using True gt window_ahead [OF w gt] window_jump [OF w gt] by (simp add: replay_after_def not_le)
  next
    case False
    then have le: "q \<le> highest" by simp
    have u: "unat (highest - q) = unat highest - unat q" using le by (simp add: unat_sub_if' word_le_nat_alt)
    have "128 \<le> highest - q \<longleftrightarrow> unat q + 128 \<le> unat highest" using le by (auto simp: word_le_nat_alt u)
    also have "\<dots> \<longleftrightarrow> too_old S (unat q)" unfolding too_old_def using top by (meson order.trans)
    finally have "128 \<le> highest - q \<longleftrightarrow> too_old S (unat q)" .
    then show ?thesis
      using True False window_behind [OF w le] by (auto simp: replay_after_def not_le)
  qed
qed

text \<open>The window fed with a whole sequence of numbers, and what it should answer.\<close>

fun window_run :: "bool \<Rightarrow> u64 \<Rightarrow> u128 \<Rightarrow> u64 list \<Rightarrow> bool list" where
  "window_run has_seq highest bm [] = []"
| "window_run has_seq highest bm (q # qs) =
     (case replay_after has_seq highest bm q of
        Inl _ \<Rightarrow> False # window_run has_seq highest bm qs
      | Inr (highest', bm') \<Rightarrow> True # window_run True highest' bm' qs)"

fun set_run :: "nat set \<Rightarrow> u64 list \<Rightarrow> bool list" where
  "set_run S [] = []"
| "set_run S (q # qs) =
     (if unat q \<in> S \<or> too_old S (unat q) then False # set_run S qs else True # set_run (insert (unat q) S) qs)"

lemma window_run_eq: "window has_seq highest bm S \<Longrightarrow> window_run has_seq highest bm qs = set_run S qs"
proof (induction qs arbitrary: has_seq highest bm S)
  case (Cons q qs)
  from replay_window_refines [OF Cons.prems, of q] Cons show ?case by (auto split: sum.splits)
qed simp

text \<open>
  C15. The 128-bit window is an exact replay filter: on every sequence of numbers it answers as a filter that
  remembers all it passed and refuses what it saw before or what is 128 or more behind the newest.
\<close>

theorem replay_window_exact: "window_run False h bm qs = set_run {} qs"
  by (rule window_run_eq) (simp add: window_def)

section \<open>Records round-trip\<close>

lemma length_media_magic [simp]: "length CALL_MEDIA_MAGIC = 4"
  by (simp add: CALL_MEDIA_MAGIC_def)

lemma length_encoded_header: "encode_header kind phase q ts n = Inr header \<Longrightarrow> length header = 27"
  by (auto simp: encode_header_def split: if_splits)

text \<open>The kind and the payload length a record may have.\<close>

definition valid_kind :: "u8 \<Rightarrow> nat \<Rightarrow> bool" where
  "valid_kind kind n \<longleftrightarrow> (kind = 0 \<and> n = 0) \<or> (kind = 1 \<and> 0 < n \<and> n \<le> 1275)"

lemma parse_sealed:
  assumes e: "encode_header kind phase q ts n = Inr header" and v: "valid_kind kind n" and l: "length ct = n + 16"
  shows "parse_header (header @ ct) = Inr \<lparr>ph_kind = kind, ph_phase = phase, ph_sequence = q, ph_timestamp_ms = ts, ph_payload_len = n\<rparr>"
proof -
  have h: "header = CALL_MEDIA_MAGIC @ kind # to_le32 phase @ to_le64 q @ to_le64 ts @ to_le16 (word_of_nat n)" "n < 65536"
    using e by (auto simp: encode_header_def split: if_splits)
  define b where "b = header @ ct"
  have u: "unat (word_of_nat n :: u16) = n" using h(2) by simp
  have f: "take 4 b = CALL_MEDIA_MAGIC" "b ! 4 = kind" "subslice 5 9 b = to_le32 phase" "subslice 9 17 b = to_le64 q"
    "subslice 17 25 b = to_le64 ts" "subslice 25 27 b = to_le16 (word_of_nat n)" "length b = n + 43"
    using l by (simp_all add: b_def h(1) subslice_def nth_append)
  have r: "call_media_record_len b = Inr (n + 43)"
    using v by (auto simp: call_media_record_len_def f u valid_kind_def)
  show ?thesis unfolding b_def [symmetric] using v by (auto simp: parse_header_def f u r valid_kind_def)
qed

section \<open>A call over a network\<close>

text \<open>What was sealed, frame and bytes, in order, and what was accepted.\<close>

record media_net =
  mn_sender :: CallMediaSender
  mn_receiver :: CallMediaReceiver
  mn_sent :: "(CallMediaFrame \<times> bytes) list"
  mn_accepted :: "CallMediaFrame list"

text \<open>No forgery: a record whose payload authenticates under a key of this direction was sent.\<close>

definition unforged_media :: "prims \<Rightarrow> media_net \<Rightarrow> bytes \<Rightarrow> bool" where
  "unforged_media C w b \<longleftrightarrow>
     (\<forall>phase q pt. aead_decrypt C (phase_key C (mr_media_base (mn_receiver w)) phase)
        (media_nonce C (mr_header_base (mn_receiver w)) phase q)
        (associated_data (mr_context_hash (mn_receiver w)) (take 27 b)) (drop 27 b) = Some pt \<longrightarrow> b \<in> snd ` set (mn_sent w))"

inductive media_step :: "prims \<Rightarrow> media_net \<Rightarrow> media_net \<Rightarrow> bool" for C where
  sends_hello:
    "seal_hello C (mn_sender w) = (s, Inr b) \<Longrightarrow>
     media_step C w (w\<lparr>mn_sender := s, mn_sent := mn_sent w @
       [(\<lparr>mf_kind = MediaHello, mf_sequence = ms_next_sequence (mn_sender w), mf_timestamp_ms = 0, mf_payload = []\<rparr>, b)]\<rparr>)"
| sends_audio:
    "seal_audio C (mn_sender w) ts pkt = (s, Inr b) \<Longrightarrow>
     media_step C w (w\<lparr>mn_sender := s, mn_sent := mn_sent w @
       [(\<lparr>mf_kind = MediaAudio, mf_sequence = ms_next_sequence (mn_sender w), mf_timestamp_ms = ts, mf_payload = pkt\<rparr>, b)]\<rparr>)"
| receives_record:
    "unforged_media C w b \<Longrightarrow> media_open C (mn_receiver w) b = (r, res) \<Longrightarrow>
     media_step C w (w\<lparr>mn_receiver := r, mn_accepted := mn_accepted w @ (case res of Inr f \<Rightarrow> [f] | Inl _ \<Rightarrow> [])\<rparr>)"

definition media_start :: "prims \<Rightarrow> (bytes \<Rightarrow> bytes) \<Rightarrow> bytes \<Rightarrow> CallMediaContext \<Rightarrow> CallRole \<Rightarrow> media_net \<Rightarrow> bool" where
  "media_start C blake3 master_secret c role w \<longleftrightarrow>
     (\<exists>s r. media_sender_new C blake3 master_secret c role = Inr s
        \<and> media_receiver_new C blake3 master_secret c (opposite role) = Inr r
        \<and> w = \<lparr>mn_sender = s, mn_receiver = r, mn_sent = [], mn_accepted = []\<rparr>)"

fun media_kind_code :: "CallMediaKind \<Rightarrow> u8" where
  "media_kind_code MediaHello = 0"
| "media_kind_code MediaAudio = 1"

text \<open>The record at position \<open>i\<close>: its frame is well-formed and its bytes are the sealed frame.\<close>

definition good_frame :: "nat \<Rightarrow> CallMediaFrame \<Rightarrow> bool" where
  "good_frame i f \<longleftrightarrow> unat (mf_sequence f) = i
     \<and> (if i = 0 then mf_kind f = MediaHello \<and> mf_timestamp_ms f = 0 \<and> mf_payload f = []
        else mf_kind f = MediaAudio \<and> mf_timestamp_ms f \<noteq> 0 \<and> mf_payload f \<noteq> [] \<and> length (mf_payload f) \<le> 1275)"

definition sealed_as :: "prims \<Rightarrow> CallMediaSender \<Rightarrow> CallMediaFrame \<Rightarrow> bytes \<Rightarrow> bool" where
  "sealed_as C s f b \<longleftrightarrow>
     (\<exists>phase header. key_phase (mf_sequence f) = Inr phase
        \<and> encode_header (media_kind_code (mf_kind f)) phase (mf_sequence f) (mf_timestamp_ms f) (length (mf_payload f)) = Inr header
        \<and> b = header @ aead_encrypt C (phase_key C (ms_media_base s) phase) (media_nonce C (ms_header_base s) phase (mf_sequence f))
                (associated_data (ms_context_hash s) header) (mf_payload f))"

definition same_direction :: "CallMediaSender \<Rightarrow> CallMediaReceiver \<Rightarrow> bool" where
  "same_direction s r \<longleftrightarrow> mr_media_base r = ms_media_base s \<and> mr_header_base r = ms_header_base s
     \<and> mr_context_hash r = ms_context_hash s"

definition took_records :: "media_net \<Rightarrow> nat list \<Rightarrow> bool" where
  "took_records w G \<longleftrightarrow>
     distinct G \<and> set G \<subseteq> {..<length (mn_sent w)} \<and> (G \<noteq> [] \<longrightarrow> hd G = 0)
     \<and> window (mr_has_sequence (mn_receiver w)) (mr_highest_sequence (mn_receiver w)) (mr_replay_bitmap (mn_receiver w)) (set G)
     \<and> (mr_hello_received (mn_receiver w) \<longleftrightarrow> G \<noteq> []) \<and> mn_accepted w = map (\<lambda>i. fst (mn_sent w ! i)) G"

definition media_ok :: "prims \<Rightarrow> media_net \<Rightarrow> bool" where
  "media_ok C w \<longleftrightarrow>
     same_direction (mn_sender w) (mn_receiver w) \<and> unat (ms_next_sequence (mn_sender w)) = length (mn_sent w)
     \<and> (ms_hello_sent (mn_sender w) \<longleftrightarrow> mn_sent w \<noteq> [])
     \<and> (\<forall>i < length (mn_sent w). good_frame i (fst (mn_sent w ! i)) \<and> sealed_as C (mn_sender w) (fst (mn_sent w ! i)) (snd (mn_sent w ! i)))
     \<and> (\<exists>G. took_records w G)"

lemma media_ok_start: "media_start C blake3 secret c role w \<Longrightarrow> media_ok C w"
  by (cases role)
    (auto simp: media_start_def media_sender_new_def media_receiver_new_def direction_infos_def opposite_def media_ok_def
      same_direction_def took_records_def window_def result_simps)

section \<open>Sealing keeps the invariant\<close>

lemma seal_recordD:
  assumes "seal_record C s kind ts pkt = (s', Inr b)"
  shows "s' = s\<lparr>ms_next_sequence := ms_next_sequence s + 1\<rparr>"
    and "unat (ms_next_sequence s + 1) = Suc (unat (ms_next_sequence s))"
    and "\<exists>phase header. key_phase (ms_next_sequence s) = Inr phase
        \<and> encode_header kind phase (ms_next_sequence s) ts (length pkt) = Inr header
        \<and> b = header @ aead_encrypt C (phase_key C (ms_media_base s) phase) (media_nonce C (ms_header_base s) phase (ms_next_sequence s))
                (associated_data (ms_context_hash s) header) pkt"
proof -
  obtain phase header nxt where p: "key_phase (ms_next_sequence s) = Inr phase"
      "encode_header kind phase (ms_next_sequence s) ts (length pkt) = Inr header"
      "checked_add (ms_next_sequence s) 1 = Some nxt" "s' = s\<lparr>ms_next_sequence := nxt\<rparr>"
      "b = header @ aead_encrypt C (phase_key C (ms_media_base s) phase) (media_nonce C (ms_header_base s) phase (ms_next_sequence s))
                (associated_data (ms_context_hash s) header) pkt"
    using assms
    by (auto simp: seal_record_def try_then_def ok_or_def aead_encrypt_with_nonce_def split: sum.splits option.splits prod.splits)
  have n: "nxt = ms_next_sequence s + 1" using p(3) by (simp add: checked_add_def split: if_splits)
  then show "s' = s\<lparr>ms_next_sequence := ms_next_sequence s + 1\<rparr>" using p(4) by simp
  show "unat (ms_next_sequence s + 1) = Suc (unat (ms_next_sequence s))" using checked_add_Some [OF p(3)] n by simp
  show "\<exists>phase header. key_phase (ms_next_sequence s) = Inr phase
        \<and> encode_header kind phase (ms_next_sequence s) ts (length pkt) = Inr header
        \<and> b = header @ aead_encrypt C (phase_key C (ms_media_base s) phase) (media_nonce C (ms_header_base s) phase (ms_next_sequence s))
                (associated_data (ms_context_hash s) header) pkt"
    using p by blast
qed

lemma media_ok_sent:
  assumes w: "media_ok C w" and s: "ms_next_sequence s = ms_next_sequence (mn_sender w) + 1" "ms_hello_sent s"
      "ms_media_base s = ms_media_base (mn_sender w)" "ms_header_base s = ms_header_base (mn_sender w)"
      "ms_context_hash s = ms_context_hash (mn_sender w)"
    and n: "unat (ms_next_sequence (mn_sender w) + 1) = Suc (unat (ms_next_sequence (mn_sender w)))"
    and f: "good_frame (length (mn_sent w)) f" "sealed_as C (mn_sender w) f b"
  shows "media_ok C (w\<lparr>mn_sender := s, mn_sent := mn_sent w @ [(f, b)]\<rparr>)"
proof -
  have same: "sealed_as C s g x = sealed_as C (mn_sender w) g x" for g x by (simp add: sealed_as_def s)
  obtain G where g: "took_records w G" using w by (auto simp: media_ok_def)
  then have "took_records (w\<lparr>mn_sender := s, mn_sent := mn_sent w @ [(f, b)]\<rparr>) G"
    by (auto simp: took_records_def nth_append)
  then show ?thesis
    using w f n s by (auto simp: media_ok_def same same_direction_def nth_append less_Suc_eq)
qed

section \<open>Opening keeps the invariant\<close>

lemma media_open_failed: "media_open C r b = (r', Inl e) \<Longrightarrow> r' = r"
  by (auto simp: media_open_def split: sum.splits prod.splits)

lemma media_open_authentic:
  assumes "media_open C r b = (r', Inr f)"
  shows "\<exists>phase q pt. aead_decrypt C (phase_key C (mr_media_base r) phase) (media_nonce C (mr_header_base r) phase q)
    (associated_data (mr_context_hash r) (take 27 b)) (drop 27 b) = Some pt"
proof -
  obtain v where "media_authenticate C r b = Inr v"
    using assms by (cases "media_authenticate C r b") (simp_all add: media_open_def)
  then show ?thesis by (auto simp: media_authenticate_def result_simps aead_decrypt_with_nonce_def)
qed

text \<open>Opening a sealed record: only the order of kinds and the window decide.\<close>

lemma media_open_sealed:
  assumes a: "sound_aead C" and f: "good_frame i f" "sealed_as C s f b" and d: "same_direction s r"
  shows "media_open C r b =
    (if mr_hello_received r \<longleftrightarrow> i = 0 then (r, Inl InvalidMessage)
     else case replay_after (mr_has_sequence r) (mr_highest_sequence r) (mr_replay_bitmap r) (mf_sequence f) of
            Inl e \<Rightarrow> (r, Inl e)
          | Inr (h, bm) \<Rightarrow> (r\<lparr>mr_has_sequence := True, mr_highest_sequence := h, mr_replay_bitmap := bm, mr_hello_received := True\<rparr>, Inr f))"
proof -
  obtain phase header where k: "key_phase (mf_sequence f) = Inr phase"
    and h: "encode_header (media_kind_code (mf_kind f)) phase (mf_sequence f) (mf_timestamp_ms f) (length (mf_payload f)) = Inr header"
    and b: "b = header @ aead_encrypt C (phase_key C (ms_media_base s) phase) (media_nonce C (ms_header_base s) phase (mf_sequence f))
                (associated_data (ms_context_hash s) header) (mf_payload f)"
    using f(2) by (auto simp: sealed_as_def)
  note hl = length_encoded_header [OF h]
  have v: "valid_kind (media_kind_code (mf_kind f)) (length (mf_payload f))"
    using f(1) by (auto simp: good_frame_def valid_kind_def split: if_splits)
  define p where "p = \<lparr>ph_kind = media_kind_code (mf_kind f), ph_phase = phase, ph_sequence = mf_sequence f,
    ph_timestamp_ms = mf_timestamp_ms f, ph_payload_len = length (mf_payload f)\<rparr>"
  have p: "parse_header b = Inr p"
    unfolding p_def b by (rule parse_sealed [OF h v]) (use a in \<open>simp add: sound_aead_def\<close>)
  have z: "mf_sequence f = 0 \<longleftrightarrow> i = 0" using f(1) by (auto simp: good_frame_def unsigned_eq_0_iff split: if_splits)
  have ka: "kind_allowed r p \<longleftrightarrow> \<not> (mr_hello_received r \<longleftrightarrow> i = 0)"
    using f(1) z by (cases "i = 0") (auto simp: good_frame_def kind_allowed_def p_def word_neq_0_conv)
  have o: "aead_decrypt_with_nonce C (phase_key C (mr_media_base r) phase) (media_nonce C (mr_header_base r) phase (mf_sequence f))
      (associated_data (mr_context_hash r) (take 27 b)) (drop 27 b) = Inr (mf_payload f)"
    using a d by (simp add: b hl same_direction_def aead_decrypt_with_nonce_def sound_aead_def)
  have fe: "\<lparr>mf_kind = (if media_kind_code (mf_kind f) = 0 then MediaHello else MediaAudio), mf_sequence = mf_sequence f,
      mf_timestamp_ms = mf_timestamp_ms f, mf_payload = mf_payload f\<rparr> = f"
    by (cases "mf_kind f") simp_all
  have hello: "(media_kind_code (mf_kind f) = 0 \<or> mr_hello_received r) = True" if "\<not> (mr_hello_received r \<longleftrightarrow> i = 0)"
    using that f(1) by (auto simp: good_frame_def)
  show ?thesis
  proof (cases "mr_hello_received r \<longleftrightarrow> i = 0")
    case True
    then show ?thesis using ka by (simp add: media_open_def media_authenticate_def p) (simp add: p_def k)
  next
    case False
    have q: "ph_sequence p = mf_sequence f" "ph_phase p = phase" "ph_payload_len p = length (mf_payload f)"
      "ph_kind p = media_kind_code (mf_kind f)" "ph_timestamp_ms p = mf_timestamp_ms f" by (simp_all add: p_def)
    show ?thesis
      using False ka o fe hello [OF False]
      by (simp add: media_open_def media_authenticate_def p q k split: sum.split prod.split) auto
  qed
qed

lemma took_records_opened:
  assumes g: "took_records w G" and i: "i < length (mn_sent w)" "good_frame i (fst (mn_sent w ! i))"
    and k: "\<not> (mr_hello_received (mn_receiver w) \<longleftrightarrow> i = 0)"
    and r: "replay_after (mr_has_sequence (mn_receiver w)) (mr_highest_sequence (mn_receiver w)) (mr_replay_bitmap (mn_receiver w))
      (mf_sequence (fst (mn_sent w ! i))) = Inr (h, bm)"
  shows "took_records (w\<lparr>mn_receiver := (mn_receiver w)\<lparr>mr_has_sequence := True, mr_highest_sequence := h, mr_replay_bitmap := bm,
    mr_hello_received := True\<rparr>, mn_accepted := mn_accepted w @ [fst (mn_sent w ! i)]\<rparr>) (G @ [i])"
proof -
  have q: "unat (mf_sequence (fst (mn_sent w ! i))) = i" using i(2) by (simp add: good_frame_def)
  have "i \<notin> set G" "window True h bm (insert i (set G))"
    using replay_window_refines [of "mr_has_sequence (mn_receiver w)" "mr_highest_sequence (mn_receiver w)"
        "mr_replay_bitmap (mn_receiver w)" "set G" "mf_sequence (fst (mn_sent w ! i))"] g r q
    by (simp_all add: took_records_def)
  then show ?thesis using g i(1) k by (cases G) (auto simp: took_records_def insert_commute)
qed

lemma media_ok_step:
  assumes a: "sound_aead C" and w: "media_ok C w" and s: "media_step C w w'"
  shows "media_ok C w'"
  using s
proof cases
  case (sends_hello s b)
  from sends_hello(2) obtain s1 where s1: "seal_record C (mn_sender w) 0 0 [] = (s1, Inr b)" "s = s1\<lparr>ms_hello_sent := True\<rparr>"
    and z: "ms_next_sequence (mn_sender w) = 0"
    by (auto simp: seal_hello_def split: if_splits prod.splits sum.splits)
  note r = seal_recordD [OF s1(1)]
  have "mn_sent w = []" using w z by (auto simp: media_ok_def)
  then show ?thesis
    unfolding sends_hello(1) using r(3) z
    by (intro media_ok_sent [OF w]) (use s1(2) r(1,2) in \<open>simp_all add: good_frame_def sealed_as_def\<close>)
next
  case (sends_audio ts pkt s b)
  then have h: "ms_hello_sent (mn_sender w)" "ts \<noteq> 0" "pkt \<noteq> []" "length pkt \<le> 1275"
    and r0: "seal_record C (mn_sender w) 1 ts pkt = (s, Inr b)"
    by (auto simp: seal_audio_def split: if_splits)
  note r = seal_recordD [OF r0]
  have "unat (ms_next_sequence (mn_sender w)) = length (mn_sent w)" "mn_sent w \<noteq> []" using w h(1) by (auto simp: media_ok_def)
  then show ?thesis
    unfolding sends_audio(1) using r(3) h
    by (intro media_ok_sent [OF w]) (use r(1,2) h(1) in \<open>simp_all add: good_frame_def sealed_as_def\<close>)
next
  case (receives_record b r res)
  show ?thesis
  proof (cases res)
    case (Inl e)
    then have "r = mn_receiver w" using media_open_failed receives_record(3) by blast
    then show ?thesis using w Inl by (simp add: receives_record(1))
  next
    case (Inr f)
    then have "b \<in> snd ` set (mn_sent w)"
      using media_open_authentic receives_record(2,3) unfolding unforged_media_def by blast
    then obtain i where i: "i < length (mn_sent w)" "snd (mn_sent w ! i) = b" by (metis imageE in_set_conv_nth)
    have g: "good_frame i (fst (mn_sent w ! i))" "sealed_as C (mn_sender w) (fst (mn_sent w ! i)) b"
      and d: "same_direction (mn_sender w) (mn_receiver w)" using w i by (auto simp: media_ok_def)
    obtain G where G: "took_records w G" using w by (auto simp: media_ok_def)
    obtain h bm where k: "\<not> (mr_hello_received (mn_receiver w) \<longleftrightarrow> i = 0)"
      and o: "replay_after (mr_has_sequence (mn_receiver w)) (mr_highest_sequence (mn_receiver w)) (mr_replay_bitmap (mn_receiver w))
        (mf_sequence (fst (mn_sent w ! i))) = Inr (h, bm)"
      and r: "r = (mn_receiver w)\<lparr>mr_has_sequence := True, mr_highest_sequence := h, mr_replay_bitmap := bm, mr_hello_received := True\<rparr>"
        "f = fst (mn_sent w ! i)"
      using receives_record(3) Inr unfolding media_open_sealed [OF a g d] by (auto split: if_splits sum.splits)
    have "w' = w\<lparr>mn_receiver := r, mn_accepted := mn_accepted w @ [fst (mn_sent w ! i)]\<rparr>" using receives_record(1) Inr r(2) by simp
    then show ?thesis
      using took_records_opened [OF G i(1) g(1) k o] w r(1) by (auto simp: media_ok_def same_direction_def)
  qed
qed

lemma media_ok_reachable:
  assumes "sound_aead C" "media_start C blake3 secret c role w0" "(media_step C)\<^sup>*\<^sup>* w0 w"
  shows "media_ok C w"
  using assms(3) by (induction rule: rtranclp_induct) (auto intro: media_ok_step media_ok_start assms)

section \<open>Properties\<close>

text \<open>
  C16. Over a network that may lose, reorder, duplicate and tamper but cannot forge, a call delivers each
  media record at most once, exactly as it was sealed, and the proof-of-key hello before any audio.
\<close>

theorem media_no_replay:
  assumes "sound_aead C" "media_start C blake3 secret c role w0" "(media_step C)\<^sup>*\<^sup>* w0 w"
  shows "mset (mn_accepted w) \<subseteq># mset (map fst (mn_sent w))
    \<and> (mn_accepted w \<noteq> [] \<longrightarrow> mf_kind (hd (mn_accepted w)) = MediaHello)"
proof -
  have ok: "media_ok C w" using media_ok_reachable [OF assms] .
  then obtain G where g: "distinct G" "set G \<subseteq> {..<length (mn_sent w)}" "G \<noteq> [] \<longrightarrow> hd G = 0"
    "mn_accepted w = map (\<lambda>i. fst (mn_sent w ! i)) G" by (auto simp: media_ok_def took_records_def)
  have "mset G \<subseteq># mset [0..<length (mn_sent w)]" using g(1,2) by (intro distinct_mset_subset) auto
  moreover have "map fst (mn_sent w) = map (\<lambda>i. fst (mn_sent w ! i)) [0..<length (mn_sent w)]" by (rule nth_equalityI) simp_all
  ultimately have "mset (mn_accepted w) \<subseteq># mset (map fst (mn_sent w))" using g(4) by (simp add: image_mset_subseteq_mono)
  moreover have "mf_kind (hd (mn_accepted w)) = MediaHello" if "mn_accepted w \<noteq> []"
  proof -
    have "G \<noteq> []" using that g(4) by auto
    then have "hd (mn_accepted w) = fst (mn_sent w ! 0)" "0 < length (mn_sent w)" using g by (cases G; auto)+
    then show ?thesis using ok by (auto simp: media_ok_def good_frame_def)
  qed
  ultimately show ?thesis by blast
qed

text \<open>
  Conversely every record gets through that is still wanted: in every reachable state a sealed record
  that has not been accepted opens to its frame, provided the hello went first and no accepted
  record is 128 or more ahead of it.
\<close>

theorem media_delivers:
  assumes "sound_aead C" "media_start C blake3 secret c role w0" "(media_step C)\<^sup>*\<^sup>* w0 w"
    and "(f, b) \<in> set (mn_sent w)" "f \<notin> set (mn_accepted w)"
    and "mf_kind f = MediaHello \<or> mn_accepted w \<noteq> []"
    and "\<forall>g\<in>set (mn_accepted w). unat (mf_sequence g) < unat (mf_sequence f) + 128"
  shows "\<exists>r. media_open C (mn_receiver w) b = (r, Inr f)"
proof -
  have ok: "media_ok C w" using media_ok_reachable [OF assms(1-3)] .
  obtain i where i: "i < length (mn_sent w)" "mn_sent w ! i = (f, b)" using assms(4) by (metis in_set_conv_nth)
  have g: "good_frame i f" "sealed_as C (mn_sender w) f b" "same_direction (mn_sender w) (mn_receiver w)"
    using ok i by (auto simp: media_ok_def)
  obtain G where G: "took_records w G" using ok by (auto simp: media_ok_def)
  have acc: "mn_accepted w = map (\<lambda>i. fst (mn_sent w ! i)) G" using G by (simp add: took_records_def)
  have new: "i \<notin> set G" using assms(5) i acc by force
  have "unat (mf_sequence (fst (mn_sent w ! j))) = j" if "j \<in> set G" for j
    using ok G that by (auto simp: media_ok_def took_records_def good_frame_def)
  then have "j < i + 128" if "j \<in> set G" for j
    using assms(7) g(1) that by (auto simp: acc good_frame_def)
  then have young: "\<not> too_old (set G) i" by (fastforce simp: too_old_def)
  have k: "\<not> (mr_hello_received (mn_receiver w) \<longleftrightarrow> i = 0)"
  proof -
    have "i = 0 \<longleftrightarrow> mf_kind f = MediaHello" using g(1) by (auto simp: good_frame_def split: if_splits)
    moreover have "i \<noteq> 0" if "G \<noteq> []" using G new that by (metis hd_in_set took_records_def)
    moreover have "mr_hello_received (mn_receiver w) \<longleftrightarrow> G \<noteq> []" using G by (simp add: took_records_def)
    ultimately show ?thesis using assms(6) acc by auto
  qed
  have "window (mr_has_sequence (mn_receiver w)) (mr_highest_sequence (mn_receiver w)) (mr_replay_bitmap (mn_receiver w)) (set G)"
    using G by (simp add: took_records_def)
  from replay_window_refines [OF this, of "mf_sequence f"] new young g(1)
  show ?thesis
    unfolding media_open_sealed [OF assms(1) g] using k
    by (auto simp: good_frame_def split: sum.splits)
qed

section \<open>A concrete call\<close>

definition toy_media :: prims where
  "toy_media = \<lparr>vk_from_bytes = (\<lambda>_. True), ed_verify = (\<lambda>_ _ _. True), ed_sign = (\<lambda>_ _. zeros 64),
     ed_public = (\<lambda>_. zeros 32), x_public = (\<lambda>_. zeros 32), x_dh = (\<lambda>_ _. zeros 32), sha256 = (\<lambda>_. zeros 32),
     hmac = (\<lambda>_ _. zeros 32), hkdf = (\<lambda>_ _ _ n. zeros n), aead_encrypt = (\<lambda>_ _ _ p. p @ zeros 16),
     aead_decrypt = (\<lambda>_ _ _ c. Some (take (length c - 16) c))\<rparr>"

lemma toy_media_sound: "sound_aead toy_media"
  by (simp add: sound_aead_def toy_media_def)

definition toy_media_context :: CallMediaContext where
  "toy_media_context = \<lparr>mc_call_id = [1], mc_initiator_account = [1], mc_responder_account = [1], mc_initiator_device = [1],
     mc_responder_device = [1]\<rparr>"

definition toy_hello :: CallMediaFrame where
  "toy_hello = \<lparr>mf_kind = MediaHello, mf_sequence = 0, mf_timestamp_ms = 0, mf_payload = []\<rparr>"

text \<open>A call after its hello was sealed.\<close>

lemma toy_call:
  obtains w0 w b where "media_start toy_media (\<lambda>_. []) [1] toy_media_context CallInitiator w0" "(media_step toy_media)\<^sup>*\<^sup>* w0 w"
    "mn_sent w = [(toy_hello, b)]" "mn_accepted w = []"
proof -
  have v: "validate_context [1] toy_media_context = Inr ()"
    by (simp add: validate_context_def toy_media_context_def media_all_zero_def)
  obtain s r where n: "media_sender_new toy_media (\<lambda>_. []) [1] toy_media_context CallInitiator = Inr s"
    "media_receiver_new toy_media (\<lambda>_. []) [1] toy_media_context (opposite CallInitiator) = Inr r"
    "ms_next_sequence s = 0" "\<not> ms_hello_sent s"
    using v by (simp add: media_sender_new_def media_receiver_new_def direction_infos_def opposite_def)
  define w0 where "w0 = \<lparr>mn_sender = s, mn_receiver = r, mn_sent = [], mn_accepted = []\<rparr>"
  have st: "media_start toy_media (\<lambda>_. []) [1] toy_media_context CallInitiator w0"
    using n unfolding media_start_def w0_def by blast
  obtain s' b where h: "seal_hello toy_media s = (s', Inr b)"
    using n(3,4) by (simp add: seal_hello_def seal_record_def key_phase_def encode_header_def checked_add_def)
  then have "seal_hello toy_media (mn_sender w0) = (s', Inr b)" by (simp add: w0_def)
  from media_step.sends_hello [OF this]
  have "media_step toy_media w0 (w0\<lparr>mn_sender := s', mn_sent := [(toy_hello, b)]\<rparr>)"
    by (simp add: w0_def toy_hello_def n(3))
  then show thesis using that [OF st r_into_rtranclp] by (simp add: w0_def)
qed

theorem media_delivers_witness:
  "\<exists>(w :: media_net) r b. mn_sent w = [(toy_hello, b)] \<and> media_open toy_media (mn_receiver w) b = (r, Inr toy_hello)"
proof (rule toy_call)
  fix w0 w b
  assume st: "media_start toy_media (\<lambda>_. []) [1] toy_media_context CallInitiator w0" "(media_step toy_media)\<^sup>*\<^sup>* w0 w"
    and w: "mn_sent w = [(toy_hello, b)]" "mn_accepted w = []"
  have "mf_kind toy_hello = MediaHello" by (simp add: toy_hello_def)
  with media_delivers [OF toy_media_sound st, of toy_hello b] w obtain r where "media_open toy_media (mn_receiver w) b = (r, Inr toy_hello)"
    by auto
  with w(1) show ?thesis by blast
qed

theorem media_no_replay_witness:
  "\<exists>w :: media_net. mset (mn_accepted w) \<subseteq># mset (map fst (mn_sent w)) \<and> mn_accepted w = [toy_hello] \<and> mf_kind (hd (mn_accepted w)) = MediaHello"
proof (rule toy_call)
  fix w0 w b
  assume st: "media_start toy_media (\<lambda>_. []) [1] toy_media_context CallInitiator w0" "(media_step toy_media)\<^sup>*\<^sup>* w0 w"
    and w: "mn_sent w = [(toy_hello, b)]" "mn_accepted w = []"
  have ok: "media_ok toy_media w" using media_ok_reachable [OF toy_media_sound st] .
  then have g: "good_frame 0 toy_hello" "sealed_as toy_media (mn_sender w) toy_hello b" "same_direction (mn_sender w) (mn_receiver w)"
    using w by (auto simp: media_ok_def)
  obtain G where "took_records w G" using ok by (auto simp: media_ok_def)
  then have "\<not> mr_hello_received (mn_receiver w)" "\<not> mr_has_sequence (mn_receiver w)"
    using w(2) by (auto simp: took_records_def window_def split: if_splits)
  then obtain r where r: "media_open toy_media (mn_receiver w) b = (r, Inr toy_hello)"
    using media_open_sealed [OF toy_media_sound g] by (simp add: replay_after_def)
  have "unforged_media toy_media w b" using w by (simp add: unforged_media_def)
  from media_step.receives_record [OF this r]
  have "media_step toy_media w (w\<lparr>mn_receiver := r, mn_accepted := [toy_hello]\<rparr>)" using w by simp
  with st(2) have "(media_step toy_media)\<^sup>*\<^sup>* w0 (w\<lparr>mn_receiver := r, mn_accepted := [toy_hello]\<rparr>)" by (rule rtranclp.rtrancl_into_rtrancl)
  note p = media_no_replay [OF toy_media_sound st(1) this]
  show ?thesis
    by (rule exI [of _ "w\<lparr>mn_receiver := r, mn_accepted := [toy_hello]\<rparr>"]) (use p in simp)
qed

end
