(* ===== verification/Device_Authority.thy ===== *)
theory Device_Authority
  imports Device_Manifest
begin

text \<open>
  \<^verbatim>\<open>kult-crypto/src/device_authority.rs\<close>: device authority with an offline root. An account's history is a
  chain of complete-state transitions from a root-signed genesis; an ordinary transition carries
  signatures of a strict majority of the devices active before it, and a recovery is signed by the root.
  A call on \<^verbatim>\<open>&mut transition\<close> returns the transition it leaves behind, also when it fails. The
  bytes a random generator yields are a stream, and postcard is a parameter.
\<close>

section \<open>Certificates and entries\<close>

definition DEVICE_AUTHORITY_VERSION :: u16 where [simp]: "DEVICE_AUTHORITY_VERSION = 2"
definition MAX_DEVICE_AUTHORITY_TRANSITIONS :: nat where [simp]: "MAX_DEVICE_AUTHORITY_TRANSITIONS = 64"
definition MAX_DEVICE_AUTHORITY_BYTES :: nat where [simp]: "MAX_DEVICE_AUTHORITY_BYTES = 1024 * 1024"
definition MAX_AUTHORITY_DEVICES :: nat where [simp]: "MAX_AUTHORITY_DEVICES = 8"
definition MAX_AUTHORITY_ENTRIES :: nat where [simp]: "MAX_AUTHORITY_ENTRIES = 64"
definition MAX_AUTHORITY_DEVICE_NAME_BYTES :: nat where [simp]: "MAX_AUTHORITY_DEVICE_NAME_BYTES = 64"
definition AUTHORITY_MAGIC :: bytes where "AUTHORITY_MAGIC = ascii ''KDA2''"

record DeviceAuthorityCertificate =
  ac_account :: IdentityPublic
  ac_device :: IdentityPublic
  ac_serial :: bytes
  ac_issued_at :: u64
  ac_device_signature :: bytes

definition append_identity :: "IdentityPublic \<Rightarrow> bytes" where
  "append_identity p = id_ed p @ id_x p @ cross_sig p"

definition authority_cert_canonical :: "DeviceAuthorityCertificate \<Rightarrow> bytes" where
  "authority_cert_canonical c =
     to_le16 DEVICE_AUTHORITY_VERSION @ append_identity (ac_account c) @ append_identity (ac_device c) @ ac_serial c
     @ to_le64 (ac_issued_at c)"

definition authority_device_id :: "DeviceAuthorityCertificate \<Rightarrow> bytes" where
  "authority_device_id c = id_ed (ac_device c)"

definition authority_cert_verify :: "prims \<Rightarrow> DeviceAuthorityCertificate \<Rightarrow> unit cresult" where
  "authority_cert_verify C c =
     try_then (identity_verify C (ac_account c)) (\<lambda>_.
     try_then (identity_verify C (ac_device c)) (\<lambda>_.
     if ac_serial c = zeros 16 then Inl InvalidMessage
     else verify_domain C (ac_device c) AUTHORITY_CERTIFICATE_DOMAIN (authority_cert_canonical c) (ac_device_signature c)))"

definition authority_issue_with_serial ::
  "prims \<Rightarrow> IdentityPublic \<Rightarrow> Identity \<Rightarrow> bytes \<Rightarrow> u64 \<Rightarrow> DeviceAuthorityCertificate cresult" where
  "authority_issue_with_serial C account device s at =
     try_then (identity_verify C account) (\<lambda>_.
     if s = zeros 16 then Inl InvalidMessage
     else
       let c = \<lparr>ac_account = account, ac_device = identity_public C device, ac_serial = s, ac_issued_at = at,
                ac_device_signature = zeros 64\<rparr>;
           c = c\<lparr>ac_device_signature := sign_domain C device AUTHORITY_CERTIFICATE_DOMAIN (authority_cert_canonical c)\<rparr> in
       try_then (authority_cert_verify C c) (\<lambda>_. Inr c))"

text \<open>The loop that draws sixteen bytes until they are not all zero.\<close>

definition fill_nonzero_16 :: "(nat \<Rightarrow> bytes) \<Rightarrow> nat \<Rightarrow> (bytes \<times> nat) option" where
  "fill_nonzero_16 draws i = draw_serial draws i"

definition authority_issue ::
  "prims \<Rightarrow> IdentityPublic \<Rightarrow> Identity \<Rightarrow> u64 \<Rightarrow> (nat \<Rightarrow> bytes) \<Rightarrow> nat \<Rightarrow> (DeviceAuthorityCertificate cresult \<times> nat) option" where
  "authority_issue C account device at draws i =
     (case identity_verify C account of
        Inl e \<Rightarrow> Some (Inl e, i)
      | Inr _ \<Rightarrow> map_option (\<lambda>(s, i). (authority_issue_with_serial C account device s at, i)) (fill_nonzero_16 draws i))"

record DeviceAuthorityEntry =
  ae_certificate :: DeviceAuthorityCertificate
  ae_name :: bytes
  ae_last_seen :: u64
  ae_revoked_at :: "u64 option"
  ae_revoked_after_counter :: "u64 option"

definition is_active :: "DeviceAuthorityEntry \<Rightarrow> bool" where
  "is_active e \<longleftrightarrow> ae_revoked_at e = None"

abbreviation ae_id :: "DeviceAuthorityEntry \<Rightarrow> bytes" where
  "ae_id e \<equiv> authority_device_id (ae_certificate e)"

definition append_entry :: "DeviceAuthorityEntry \<Rightarrow> bytes" where
  "append_entry e =
     (let cert = authority_cert_canonical (ae_certificate e) in
      to_le32 (word_of_nat (length cert)) @ cert @ ac_device_signature (ae_certificate e)
      @ to_le32 (word_of_nat (length (ae_name e))) @ ae_name e @ to_le64 (ae_last_seen e)
      @ (case ae_revoked_at e of Some v \<Rightarrow> 1 # to_le64 v | None \<Rightarrow> [0])
      @ (case ae_revoked_after_counter e of Some v \<Rightarrow> 1 # to_le64 v | None \<Rightarrow> [0]))"

section \<open>Transitions\<close>

datatype DeviceAuthorityTransitionKind =
    Genesis | AddDevice | RenameDevice | ObserveDevice | RevokeDevice | ReplaceDevice | Recovery

fun transition_kind_code :: "DeviceAuthorityTransitionKind \<Rightarrow> u8" where
  "transition_kind_code Genesis = 1"
| "transition_kind_code AddDevice = 2"
| "transition_kind_code RenameDevice = 3"
| "transition_kind_code ObserveDevice = 4"
| "transition_kind_code RevokeDevice = 5"
| "transition_kind_code ReplaceDevice = 6"
| "transition_kind_code Recovery = 7"

record DeviceAuthoritySignature =
  as_signer :: bytes
  as_signature :: bytes

datatype DeviceAuthorityAuthorization = Devices "DeviceAuthoritySignature list" | Root bytes

record DeviceAuthorityTransition =
  at_version :: u16
  at_account :: IdentityPublic
  at_parent_hash :: bytes
  at_parent_generation :: u64
  at_generation :: u64
  at_recovery_epoch :: u64
  at_transition_id :: bytes
  at_recovery_id :: "bytes option"
  at_kind :: DeviceAuthorityTransitionKind
  at_devices :: "DeviceAuthorityEntry list"
  at_new_certificates :: "DeviceAuthorityCertificate list"
  at_authorization :: DeviceAuthorityAuthorization

definition new_certificate_bytes :: "DeviceAuthorityCertificate \<Rightarrow> bytes" where
  "new_certificate_bytes c =
     (let canonical = authority_cert_canonical c in
      to_le32 (word_of_nat (length canonical)) @ canonical @ ac_device_signature c)"

definition transition_canonical :: "DeviceAuthorityTransition \<Rightarrow> bytes" where
  "transition_canonical t =
     to_le16 (at_version t) @ append_identity (at_account t) @ at_parent_hash t @ to_le64 (at_parent_generation t)
     @ to_le64 (at_generation t) @ to_le64 (at_recovery_epoch t) @ at_transition_id t
     @ (case at_recovery_id t of Some i \<Rightarrow> 1 # i | None \<Rightarrow> [0])
     @ transition_kind_code (at_kind t) # to_le32 (word_of_nat (length (at_devices t)))
     @ concat (map append_entry (at_devices t)) @ to_le32 (word_of_nat (length (at_new_certificates t)))
     @ concat (map new_certificate_bytes (at_new_certificates t))"

definition proposal_id :: "prims \<Rightarrow> DeviceAuthorityTransition \<Rightarrow> bytes" where
  "proposal_id C t = sha256 C (transition_canonical t)"

definition transition_hash :: "prims \<Rightarrow> DeviceAuthorityTransition \<Rightarrow> bytes" where
  "transition_hash C t =
     sha256 C (transition_canonical t
       @ (case at_authorization t of
            Devices sigs \<Rightarrow> 1 # to_le32 (word_of_nat (length sigs)) @ concat (map (\<lambda>s. as_signer s @ as_signature s) sigs)
          | Root sig \<Rightarrow> 2 # sig))"

definition approval_count :: "DeviceAuthorityTransition \<Rightarrow> nat" where
  "approval_count t = (case at_authorization t of Devices sigs \<Rightarrow> length sigs | Root _ \<Rightarrow> 0)"

definition authority_active_count :: "DeviceAuthorityEntry list \<Rightarrow> nat" where
  "authority_active_count es = length (filter is_active es)"

section \<open>Validation\<close>

fun validate_rows ::
  "prims \<Rightarrow> IdentityPublic \<Rightarrow> bytes option \<Rightarrow> nat \<Rightarrow> DeviceAuthorityEntry list \<Rightarrow> nat cresult" where
  "validate_rows C acct prior active [] = Inr active"
| "validate_rows C acct prior active (e # es) =
     try_then (authority_cert_verify C (ae_certificate e)) (\<lambda>_.
     if ac_account (ae_certificate e) \<noteq> acct \<or> ae_name e = [] \<or> length (ae_name e) > MAX_AUTHORITY_DEVICE_NAME_BYTES
       \<or> ae_last_seen e < ac_issued_at (ae_certificate e)
       \<or> (case ae_revoked_at e of None \<Rightarrow> False | Some r \<Rightarrow> r < ac_issued_at (ae_certificate e))
       \<or> (ae_revoked_at e \<noteq> None) \<noteq> (ae_revoked_after_counter e \<noteq> None)
       \<or> (case prior of None \<Rightarrow> False | Some p \<Rightarrow> p \<ge> ae_id e)
     then Inl InvalidMessage
     else validate_rows C acct (Some (ae_id e)) (if is_active e then active + 1 else active) es)"

definition authority_validate_state :: "prims \<Rightarrow> IdentityPublic \<Rightarrow> DeviceAuthorityEntry list \<Rightarrow> unit cresult" where
  "authority_validate_state C acct es =
     try_then (validate_rows C acct None 0 es) (\<lambda>active.
     if active = 0 \<or> active > MAX_AUTHORITY_DEVICES then Inl InvalidMessage else Inr ())"

fun validate_certificates ::
  "prims \<Rightarrow> IdentityPublic \<Rightarrow> bytes option \<Rightarrow> DeviceAuthorityCertificate list \<Rightarrow> unit cresult" where
  "validate_certificates C acct prior [] = Inr ()"
| "validate_certificates C acct prior (c # cs) =
     try_then (authority_cert_verify C c) (\<lambda>_.
     if ac_account c \<noteq> acct \<or> (case prior of None \<Rightarrow> False | Some p \<Rightarrow> p \<ge> authority_device_id c) then Inl InvalidMessage
     else validate_certificates C acct (Some (authority_device_id c)) cs)"

definition validate_transition_common :: "prims \<Rightarrow> DeviceAuthorityTransition \<Rightarrow> unit cresult" where
  "validate_transition_common C t =
     try_then (identity_verify C (at_account t)) (\<lambda>_.
     if at_version t \<noteq> DEVICE_AUTHORITY_VERSION \<or> at_transition_id t = zeros 16 \<or> at_devices t = []
       \<or> length (at_devices t) > MAX_AUTHORITY_ENTRIES \<or> length (at_new_certificates t) > MAX_AUTHORITY_DEVICES
     then Inl InvalidMessage
     else
       try_then (authority_validate_state C (at_account t) (at_devices t)) (\<lambda>_.
       validate_certificates C (at_account t) None (at_new_certificates t)))"

definition find_entry :: "bytes \<Rightarrow> DeviceAuthorityEntry list \<Rightarrow> DeviceAuthorityEntry option" where
  "find_entry dev es = find (\<lambda>e. ae_id e = dev) es"

definition continues_row :: "DeviceAuthorityEntry list \<Rightarrow> DeviceAuthorityEntry \<Rightarrow> bool" where
  "continues_row candidate old \<longleftrightarrow>
     (case find_entry (ae_id old) candidate of
        None \<Rightarrow> False
      | Some new \<Rightarrow>
          \<not> (ae_certificate new \<noteq> ae_certificate old
             \<or> (ae_revoked_at old \<noteq> None \<and> ae_revoked_at new \<noteq> ae_revoked_at old)
             \<or> (ae_revoked_after_counter old \<noteq> None \<and> ae_revoked_after_counter new \<noteq> ae_revoked_after_counter old)
             \<or> ae_last_seen new < ae_last_seen old))"

definition validate_parent_continuity :: "DeviceAuthorityEntry list \<Rightarrow> DeviceAuthorityEntry list \<Rightarrow> unit cresult" where
  "validate_parent_continuity parent candidate =
     (if list_all (continues_row candidate) parent then Inr () else Inl InvalidMessage)"

definition introduced_certificates ::
  "DeviceAuthorityEntry list \<Rightarrow> DeviceAuthorityEntry list \<Rightarrow> DeviceAuthorityCertificate list" where
  "introduced_certificates parent candidate =
     map ae_certificate (filter (\<lambda>e. \<not> list_ex (\<lambda>old. ae_id old = ae_id e) parent) candidate)"

definition validate_new_certificates :: "DeviceAuthorityTransition \<Rightarrow> DeviceAuthorityTransition \<Rightarrow> unit cresult" where
  "validate_new_certificates parent candidate =
     (if introduced_certificates (at_devices parent) (at_devices candidate) \<noteq> at_new_certificates candidate
      then Inl InvalidMessage else Inr ())"

text \<open>How one row changed; no value when the change is none of the permitted ones.\<close>

datatype row_difference = Unchanged | Renamed | Observed | Revoked

definition row_change :: "DeviceAuthorityEntry \<Rightarrow> DeviceAuthorityEntry \<Rightarrow> row_difference option" where
  "row_change old new =
     (if new = old then Some Unchanged
      else if is_active old \<and> is_active new \<and> ae_name new \<noteq> ae_name old \<and> ae_last_seen new = ae_last_seen old
        \<and> old\<lparr>ae_name := ae_name new\<rparr> = new then Some Renamed
      else if is_active old \<and> is_active new \<and> ae_name new = ae_name old \<and> ae_last_seen new > ae_last_seen old
        \<and> old\<lparr>ae_last_seen := ae_last_seen new\<rparr> = new then Some Observed
      else if is_active old \<and> \<not> is_active new \<and> ae_name new = ae_name old \<and> ae_last_seen new = ae_last_seen old
        \<and> old\<lparr>ae_revoked_at := ae_revoked_at new, ae_revoked_after_counter := ae_revoked_after_counter new\<rparr> = new
      then Some Revoked
      else None)"

fun count_changes ::
  "DeviceAuthorityEntry list \<Rightarrow> DeviceAuthorityEntry list \<Rightarrow> nat \<times> nat \<times> nat \<Rightarrow> (nat \<times> nat \<times> nat) cresult" where
  "count_changes candidate [] (renamed, observed, revoked) = Inr (renamed, observed, revoked)"
| "count_changes candidate (old # olds) (renamed, observed, revoked) =
     (case find_entry (ae_id old) candidate of
        None \<Rightarrow> Inl InvalidMessage
      | Some new \<Rightarrow>
          (case row_change old new of
             None \<Rightarrow> Inl InvalidMessage
           | Some Unchanged \<Rightarrow> count_changes candidate olds (renamed, observed, revoked)
           | Some Renamed \<Rightarrow> count_changes candidate olds (renamed + 1, observed, revoked)
           | Some Observed \<Rightarrow> count_changes candidate olds (renamed, observed + 1, revoked)
           | Some Revoked \<Rightarrow> count_changes candidate olds (renamed, observed, revoked + 1)))"

fun kind_permits :: "DeviceAuthorityTransitionKind \<Rightarrow> nat \<Rightarrow> nat \<Rightarrow> nat \<Rightarrow> nat \<Rightarrow> bool" where
  "kind_permits AddDevice introduced renamed observed revoked \<longleftrightarrow> introduced = 1 \<and> renamed = 0 \<and> observed = 0 \<and> revoked = 0"
| "kind_permits RenameDevice introduced renamed observed revoked \<longleftrightarrow> introduced = 0 \<and> renamed = 1 \<and> observed = 0 \<and> revoked = 0"
| "kind_permits ObserveDevice introduced renamed observed revoked \<longleftrightarrow> introduced = 0 \<and> renamed = 0 \<and> observed = 1 \<and> revoked = 0"
| "kind_permits RevokeDevice introduced renamed observed revoked \<longleftrightarrow> introduced = 0 \<and> renamed = 0 \<and> observed = 0 \<and> revoked = 1"
| "kind_permits ReplaceDevice introduced renamed observed revoked \<longleftrightarrow> introduced = 1 \<and> renamed = 0 \<and> observed = 0 \<and> revoked = 1"
| "kind_permits Genesis introduced renamed observed revoked \<longleftrightarrow> False"
| "kind_permits Recovery introduced renamed observed revoked \<longleftrightarrow> False"

definition validate_ordinary_difference ::
  "DeviceAuthorityTransitionKind \<Rightarrow> DeviceAuthorityEntry list \<Rightarrow> DeviceAuthorityEntry list \<Rightarrow> unit cresult" where
  "validate_ordinary_difference kind parent candidate =
     (let introduced = length candidate - length parent in
      try_then (count_changes candidate parent (0, 0, 0)) (\<lambda>(renamed, observed, revoked).
      if kind_permits kind introduced renamed observed revoked then Inr () else Inl InvalidMessage))"

definition recovered_row :: "DeviceAuthorityEntry list \<Rightarrow> DeviceAuthorityEntry \<Rightarrow> bool" where
  "recovered_row candidate old \<longleftrightarrow>
     (case find_entry (ae_id old) candidate of
        None \<Rightarrow> False
      | Some new \<Rightarrow>
          if is_active old then \<not> (is_active new \<or> ae_name new \<noteq> ae_name old \<or> ae_last_seen new \<noteq> ae_last_seen old)
          else new = old)"

definition validate_recovery_difference :: "DeviceAuthorityTransition \<Rightarrow> DeviceAuthorityTransition \<Rightarrow> unit cresult" where
  "validate_recovery_difference parent candidate =
     (if length (at_new_certificates candidate) \<noteq> 1 \<or> length (at_devices candidate) \<noteq> length (at_devices parent) + 1
         \<or> authority_active_count (at_devices candidate) \<noteq> 1 then Inl InvalidMessage
      else if \<not> list_all (recovered_row (at_devices candidate)) (at_devices parent) then Inl InvalidMessage
      else
        (case find_entry (authority_device_id (at_new_certificates candidate ! 0)) (at_devices candidate) of
           None \<Rightarrow> Inl InvalidMessage
         | Some fresh \<Rightarrow> if \<not> is_active fresh then Inl InvalidMessage else Inr ()))"

section \<open>Verification\<close>

definition find_active :: "bytes \<Rightarrow> DeviceAuthorityEntry list \<Rightarrow> DeviceAuthorityEntry option" where
  "find_active dev es = find (\<lambda>e. ae_id e = dev \<and> is_active e) es"

fun verify_signatures ::
  "prims \<Rightarrow> DeviceAuthorityEntry list \<Rightarrow> bytes \<Rightarrow> bytes option \<Rightarrow> DeviceAuthoritySignature list \<Rightarrow> unit cresult" where
  "verify_signatures C parent canonical prior [] = Inr ()"
| "verify_signatures C parent canonical prior (s # ss) =
     (if (case prior of None \<Rightarrow> False | Some p \<Rightarrow> p \<ge> as_signer s) then Inl InvalidMessage
      else
        try_then (ok_or (find_active (as_signer s) parent) InvalidSignature) (\<lambda>signer.
        try_then (verify_domain C (ac_device (ae_certificate signer)) AUTHORITY_TRANSITION_DOMAIN canonical (as_signature s)) (\<lambda>_.
        verify_signatures C parent canonical (Some (as_signer s)) ss)))"

definition verify_genesis :: "prims \<Rightarrow> DeviceAuthorityTransition \<Rightarrow> unit cresult" where
  "verify_genesis C t =
     try_then (validate_transition_common C t) (\<lambda>_.
     if at_parent_hash t \<noteq> zeros 32 \<or> at_parent_generation t \<noteq> 0 \<or> at_generation t \<noteq> 1 \<or> at_recovery_epoch t \<noteq> 0
       \<or> at_recovery_id t \<noteq> None \<or> at_kind t \<noteq> Genesis \<or> length (at_devices t) \<noteq> 1 \<or> length (at_new_certificates t) \<noteq> 1
       \<or> ae_certificate (at_devices t ! 0) \<noteq> at_new_certificates t ! 0 \<or> \<not> is_active (at_devices t ! 0)
     then Inl InvalidMessage
     else
       (case at_authorization t of
          Devices _ \<Rightarrow> Inl InvalidMessage
        | Root sig \<Rightarrow> verify_domain C (at_account t) ROOT_TRANSITION_DOMAIN (transition_canonical t) sig))"

definition next_or_zero :: "u64 \<Rightarrow> u64" where
  "next_or_zero n = (case checked_add n 1 of None \<Rightarrow> 0 | Some m \<Rightarrow> m)"

definition verify_recovery :: "prims \<Rightarrow> DeviceAuthorityTransition \<Rightarrow> DeviceAuthorityTransition \<Rightarrow> unit cresult" where
  "verify_recovery C parent candidate =
     (if at_recovery_epoch candidate \<noteq> next_or_zero (at_recovery_epoch parent)
         \<or> (case at_recovery_id candidate of None \<Rightarrow> True | Some i \<Rightarrow> i = zeros 16) then Inl InvalidMessage
      else
        try_then (validate_recovery_difference parent candidate) (\<lambda>_.
        case at_authorization candidate of
          Devices _ \<Rightarrow> Inl InvalidMessage
        | Root sig \<Rightarrow> verify_domain C (at_account candidate) ROOT_TRANSITION_DOMAIN (transition_canonical candidate) sig))"

definition verify_ordinary :: "prims \<Rightarrow> DeviceAuthorityTransition \<Rightarrow> DeviceAuthorityTransition \<Rightarrow> bool \<Rightarrow> unit cresult" where
  "verify_ordinary C parent candidate require_quorum =
     (if at_recovery_epoch candidate \<noteq> at_recovery_epoch parent \<or> at_recovery_id candidate \<noteq> None then Inl InvalidMessage
      else
        try_then (validate_ordinary_difference (at_kind candidate) (at_devices parent) (at_devices candidate)) (\<lambda>_.
        case at_authorization candidate of
          Root _ \<Rightarrow> Inl InvalidMessage
        | Devices sigs \<Rightarrow>
            if length sigs > authority_active_count (at_devices parent) then Inl InvalidMessage
            else
              try_then (verify_signatures C (at_devices parent) (transition_canonical candidate) None sigs) (\<lambda>_.
              if require_quorum \<and> length sigs < authority_active_count (at_devices parent) div 2 + 1
              then Inl InvalidSignature else Inr ())))"

definition verify_transition :: "prims \<Rightarrow> DeviceAuthorityTransition \<Rightarrow> DeviceAuthorityTransition \<Rightarrow> bool \<Rightarrow> unit cresult" where
  "verify_transition C parent candidate require_quorum =
     try_then (validate_transition_common C candidate) (\<lambda>_.
     if at_account candidate \<noteq> at_account parent \<or> at_parent_hash candidate \<noteq> transition_hash C parent
       \<or> at_parent_generation candidate \<noteq> at_generation parent
       \<or> at_generation candidate \<noteq> next_or_zero (at_generation parent)
     then Inl InvalidMessage
     else
       try_then (validate_parent_continuity (at_devices parent) (at_devices candidate)) (\<lambda>_.
       try_then (validate_new_certificates parent candidate) (\<lambda>_.
       case at_kind candidate of
         Genesis \<Rightarrow> Inl InvalidMessage
       | Recovery \<Rightarrow> verify_recovery C parent candidate
       | _ \<Rightarrow> verify_ordinary C parent candidate require_quorum)))"

record DeviceAuthorityManifest =
  am_transitions :: "DeviceAuthorityTransition list"

fun verify_chain :: "prims \<Rightarrow> DeviceAuthorityTransition list \<Rightarrow> unit cresult" where
  "verify_chain C (a # b # ts) = try_then (verify_transition C a b True) (\<lambda>_. verify_chain C (b # ts))"
| "verify_chain C _ = Inr ()"

definition authority_verify :: "prims \<Rightarrow> DeviceAuthorityManifest \<Rightarrow> unit cresult" where
  "authority_verify C m =
     (if am_transitions m = [] \<or> length (am_transitions m) > MAX_DEVICE_AUTHORITY_TRANSITIONS then Inl InvalidMessage
      else try_then (verify_genesis C (am_transitions m ! 0)) (\<lambda>_. verify_chain C (am_transitions m)))"

section \<open>Manifest operations\<close>

text \<open>The accessors; each use stands behind a successful verification, so the chain is not empty.\<close>

definition manifest_account :: "DeviceAuthorityManifest \<Rightarrow> IdentityPublic" where
  "manifest_account m = at_account (am_transitions m ! 0)"

definition head_transition :: "DeviceAuthorityManifest \<Rightarrow> DeviceAuthorityTransition" where
  "head_transition m = last (am_transitions m)"

definition authority_devices :: "DeviceAuthorityManifest \<Rightarrow> DeviceAuthorityEntry list" where
  "authority_devices m = at_devices (head_transition m)"

definition authority_generation :: "DeviceAuthorityManifest \<Rightarrow> u64" where
  "authority_generation m = at_generation (head_transition m)"

definition authority_recovery_epoch :: "DeviceAuthorityManifest \<Rightarrow> u64" where
  "authority_recovery_epoch m = at_recovery_epoch (head_transition m)"

definition authority_state_id :: "prims \<Rightarrow> DeviceAuthorityManifest \<Rightarrow> bytes" where
  "authority_state_id C m = transition_hash C (head_transition m)"

definition active_certificate :: "DeviceAuthorityManifest \<Rightarrow> bytes \<Rightarrow> DeviceAuthorityCertificate option" where
  "active_certificate m dev = map_option ae_certificate (find_active dev (authority_devices m))"

definition quorum_threshold :: "DeviceAuthorityManifest \<Rightarrow> nat" where
  "quorum_threshold m = authority_active_count (authority_devices m) div 2 + 1"

definition authority_initial ::
  "prims \<Rightarrow> Identity \<Rightarrow> Identity \<Rightarrow> bytes \<Rightarrow> u64 \<Rightarrow> (nat \<Rightarrow> bytes) \<Rightarrow> nat \<Rightarrow> (DeviceAuthorityManifest cresult \<times> nat) option" where
  "authority_initial C root device nm at draws i =
     Option.bind (authority_issue C (identity_public C root) device at draws i) (\<lambda>(issued, i).
     case issued of
       Inl e \<Rightarrow> Some (Inl e, i)
     | Inr cert \<Rightarrow>
         Option.bind (fill_nonzero_16 draws i) (\<lambda>(tid, i).
         let t = \<lparr>at_version = DEVICE_AUTHORITY_VERSION, at_account = identity_public C root, at_parent_hash = zeros 32,
                  at_parent_generation = 0, at_generation = 1, at_recovery_epoch = 0, at_transition_id = tid,
                  at_recovery_id = None, at_kind = Genesis,
                  at_devices = [\<lparr>ae_certificate = cert, ae_name = nm, ae_last_seen = at, ae_revoked_at = None,
                                 ae_revoked_after_counter = None\<rparr>],
                  at_new_certificates = [cert], at_authorization = Root (zeros 64)\<rparr>;
             t = t\<lparr>at_authorization := Root (sign_domain C root ROOT_TRANSITION_DOMAIN (transition_canonical t))\<rparr>;
             m = \<lparr>am_transitions = [t]\<rparr> in
         Some (try_then (authority_verify C m) (\<lambda>_. Inr m), i)))"

definition authority_encode :: "prims \<Rightarrow> (DeviceAuthorityManifest \<Rightarrow> bytes option) \<Rightarrow> DeviceAuthorityManifest \<Rightarrow> bytes cresult" where
  "authority_encode C to_vec m =
     try_then (authority_verify C m) (\<lambda>_.
     try_then (ok_or (to_vec m) Serialization) (\<lambda>body.
     if length body > MAX_DEVICE_AUTHORITY_BYTES then Inl InvalidMessage else Inr (AUTHORITY_MAGIC @ body)))"

definition authority_decode ::
  "prims \<Rightarrow> (bytes \<Rightarrow> (DeviceAuthorityManifest \<times> bytes) option) \<Rightarrow> bytes \<Rightarrow> DeviceAuthorityManifest cresult" where
  "authority_decode C take_from b =
     (if length b > length AUTHORITY_MAGIC + MAX_DEVICE_AUTHORITY_BYTES then Inl InvalidMessage
      else
        try_then (ok_or (strip_prefix b AUTHORITY_MAGIC) Serialization) (\<lambda>body.
        try_then (ok_or (take_from body) Serialization) (\<lambda>(m, remainder).
        if remainder \<noteq> [] then Inl Serialization
        else try_then (authority_verify C m) (\<lambda>_. Inr m))))"

definition ordinary_proposal ::
  "prims \<Rightarrow> DeviceAuthorityManifest \<Rightarrow> DeviceAuthorityTransitionKind \<Rightarrow> DeviceAuthorityEntry list
    \<Rightarrow> DeviceAuthorityCertificate list \<Rightarrow> (nat \<Rightarrow> bytes) \<Rightarrow> nat \<Rightarrow> (DeviceAuthorityTransition cresult \<times> nat) option" where
  "ordinary_proposal C m kind es certs draws i =
     (if kind = Genesis \<or> kind = Recovery then Some (Inl InvalidMessage, i)
      else
        let parent = head_transition m in
        Option.bind (fill_nonzero_16 draws i) (\<lambda>(tid, i).
        Some (try_then (ok_or (checked_add (at_generation parent) 1) InvalidMessage) (\<lambda>g.
              let t = \<lparr>at_version = DEVICE_AUTHORITY_VERSION, at_account = manifest_account m,
                       at_parent_hash = transition_hash C parent, at_parent_generation = at_generation parent,
                       at_generation = g, at_recovery_epoch = at_recovery_epoch parent, at_transition_id = tid,
                       at_recovery_id = None, at_kind = kind, at_devices = es, at_new_certificates = certs,
                       at_authorization = Devices []\<rparr> in
              try_then (verify_transition C parent t False) (\<lambda>_. Inr t)), i)))"

definition propose_add_device ::
  "prims \<Rightarrow> DeviceAuthorityManifest \<Rightarrow> DeviceAuthorityCertificate \<Rightarrow> bytes \<Rightarrow> u64 \<Rightarrow> (nat \<Rightarrow> bytes) \<Rightarrow> nat
    \<Rightarrow> (DeviceAuthorityTransition cresult \<times> nat) option" where
  "propose_add_device C m cert nm seen draws i =
     (case authority_verify C m of
        Inl e \<Rightarrow> Some (Inl e, i)
      | Inr _ \<Rightarrow>
          if ac_account cert \<noteq> manifest_account m
            \<or> list_ex (\<lambda>e. ae_id e = authority_device_id cert) (authority_devices m) then Some (Inl InvalidMessage, i)
          else
            ordinary_proposal C m AddDevice
              (sort_key ae_id (authority_devices m @
                 [\<lparr>ae_certificate = cert, ae_name = nm, ae_last_seen = seen, ae_revoked_at = None,
                   ae_revoked_after_counter = None\<rparr>]))
              [cert] draws i)"

text \<open>The three proposals that edit one active row.\<close>

definition edit_active :: "DeviceAuthorityManifest \<Rightarrow> bytes \<Rightarrow> (DeviceAuthorityEntry \<Rightarrow> DeviceAuthorityEntry)
    \<Rightarrow> DeviceAuthorityEntry list cresult" where
  "edit_active m dev f =
     ok_or (update_first (\<lambda>e. ae_id e = dev \<and> is_active e) f (authority_devices m)) InvalidMessage"

definition propose_rename_device ::
  "prims \<Rightarrow> DeviceAuthorityManifest \<Rightarrow> bytes \<Rightarrow> bytes \<Rightarrow> (nat \<Rightarrow> bytes) \<Rightarrow> nat
    \<Rightarrow> (DeviceAuthorityTransition cresult \<times> nat) option" where
  "propose_rename_device C m dev nm draws i =
     (case try_then (authority_verify C m) (\<lambda>_. edit_active m dev (\<lambda>e. e\<lparr>ae_name := nm\<rparr>)) of
        Inl e \<Rightarrow> Some (Inl e, i)
      | Inr es \<Rightarrow> ordinary_proposal C m RenameDevice es [] draws i)"

definition propose_observe_device ::
  "prims \<Rightarrow> DeviceAuthorityManifest \<Rightarrow> bytes \<Rightarrow> u64 \<Rightarrow> (nat \<Rightarrow> bytes) \<Rightarrow> nat
    \<Rightarrow> (DeviceAuthorityTransition cresult \<times> nat) option" where
  "propose_observe_device C m dev seen draws i =
     (case try_then (authority_verify C m) (\<lambda>_.
           try_then (ok_or (find_active dev (authority_devices m)) InvalidMessage) (\<lambda>e.
           if seen \<le> ae_last_seen e then Inl InvalidMessage
           else edit_active m dev (\<lambda>e. e\<lparr>ae_last_seen := seen\<rparr>))) of
        Inl e \<Rightarrow> Some (Inl e, i)
      | Inr es \<Rightarrow> ordinary_proposal C m ObserveDevice es [] draws i)"

definition propose_revoke_device ::
  "prims \<Rightarrow> DeviceAuthorityManifest \<Rightarrow> bytes \<Rightarrow> u64 \<Rightarrow> u64 \<Rightarrow> (nat \<Rightarrow> bytes) \<Rightarrow> nat
    \<Rightarrow> (DeviceAuthorityTransition cresult \<times> nat) option" where
  "propose_revoke_device C m dev at cutoff draws i =
     (case try_then (authority_verify C m) (\<lambda>_.
           if authority_active_count (authority_devices m) \<le> 1 then Inl InvalidMessage
           else edit_active m dev (\<lambda>e. e\<lparr>ae_revoked_at := Some (max at (ac_issued_at (ae_certificate e))),
                                         ae_revoked_after_counter := Some cutoff\<rparr>)) of
        Inl e \<Rightarrow> Some (Inl e, i)
      | Inr es \<Rightarrow> ordinary_proposal C m RevokeDevice es [] draws i)"

definition add_signature :: "DeviceAuthoritySignature list \<Rightarrow> DeviceAuthoritySignature \<Rightarrow> DeviceAuthoritySignature list" where
  "add_signature sigs s = sort_key as_signer (sigs @ [s])"

definition sign_transition ::
  "prims \<Rightarrow> DeviceAuthorityManifest \<Rightarrow> DeviceAuthorityTransition \<Rightarrow> Identity \<Rightarrow> DeviceAuthorityTransition \<times> unit cresult" where
  "sign_transition C m t signer =
     (let signer_id = id_ed (identity_public C signer) in
      case try_then (authority_verify C m) (\<lambda>_.
           try_then (verify_transition C (head_transition m) t False) (\<lambda>_.
           try_then (ok_or (active_certificate m signer_id) InvalidKey) (\<lambda>cert.
           if ac_device cert \<noteq> identity_public C signer then Inl InvalidKey else Inr ()))) of
        Inl e \<Rightarrow> (t, Inl e)
      | Inr _ \<Rightarrow>
          (case at_authorization t of
             Root _ \<Rightarrow> (t, Inl InvalidMessage)
           | Devices sigs \<Rightarrow>
               let signature = sign_domain C signer AUTHORITY_TRANSITION_DOMAIN (transition_canonical t);
                   sigs = (case update_first (\<lambda>s. as_signer s = signer_id) (\<lambda>s. s\<lparr>as_signature := signature\<rparr>) sigs of
                             Some sigs \<Rightarrow> sigs
                           | None \<Rightarrow> add_signature sigs \<lparr>as_signer = signer_id, as_signature = signature\<rparr>);
                   t = t\<lparr>at_authorization := Devices sigs\<rparr> in
               (t, verify_transition C (head_transition m) t False)))"

definition approve_transition ::
  "prims \<Rightarrow> DeviceAuthorityManifest \<Rightarrow> DeviceAuthorityTransition \<Rightarrow> Identity \<Rightarrow> DeviceAuthoritySignature cresult" where
  "approve_transition C m t signer =
     (case sign_transition C m t signer of
        (_, Inl e) \<Rightarrow> Inl e
      | (candidate, Inr _) \<Rightarrow>
          (case at_authorization candidate of
             Root _ \<Rightarrow> Inl InvalidMessage
           | Devices sigs \<Rightarrow> ok_or (find (\<lambda>s. as_signer s = id_ed (identity_public C signer)) sigs) InvalidSignature))"

definition merge_approval ::
  "prims \<Rightarrow> DeviceAuthorityManifest \<Rightarrow> DeviceAuthorityTransition \<Rightarrow> DeviceAuthoritySignature
    \<Rightarrow> DeviceAuthorityTransition \<times> unit cresult" where
  "merge_approval C m t approval =
     (case authority_verify C m of
        Inl e \<Rightarrow> (t, Inl e)
      | Inr _ \<Rightarrow>
          (case at_authorization t of
             Root _ \<Rightarrow> (t, Inl InvalidMessage)
           | Devices sigs \<Rightarrow>
               if list_ex (\<lambda>s. as_signer s = as_signer approval) sigs then (t, Inl InvalidMessage)
               else
                 let t = t\<lparr>at_authorization := Devices (add_signature sigs approval)\<rparr> in
                 (t, verify_transition C (head_transition m) t False)))"

definition has_quorum :: "prims \<Rightarrow> DeviceAuthorityManifest \<Rightarrow> DeviceAuthorityTransition \<Rightarrow> bool cresult" where
  "has_quorum C m t =
     try_then (authority_verify C m) (\<lambda>_.
     try_then (verify_transition C (head_transition m) t False) (\<lambda>_.
     Inr (approval_count t \<ge> quorum_threshold m)))"

definition authority_append ::
  "prims \<Rightarrow> DeviceAuthorityManifest \<Rightarrow> DeviceAuthorityTransition \<Rightarrow> DeviceAuthorityManifest cresult" where
  "authority_append C m t =
     try_then (authority_verify C m) (\<lambda>_.
     if length (am_transitions m) \<ge> MAX_DEVICE_AUTHORITY_TRANSITIONS then Inl InvalidMessage
     else
       try_then (verify_transition C (head_transition m) t True) (\<lambda>_.
       let m = \<lparr>am_transitions = am_transitions m @ [t]\<rparr> in
       try_then (authority_verify C m) (\<lambda>_. Inr m)))"

definition recovered_rows ::
  "DeviceAuthorityEntry list \<Rightarrow> DeviceAuthorityCertificate \<Rightarrow> bytes \<Rightarrow> u64 \<Rightarrow> DeviceAuthorityEntry list" where
  "recovered_rows es cert nm at =
     sort_key ae_id
       (map (\<lambda>e. if is_active e
                 then e\<lparr>ae_revoked_at := Some (max at (ac_issued_at (ae_certificate e))), ae_revoked_after_counter := Some 0\<rparr>
                 else e) es
        @ [\<lparr>ae_certificate = cert, ae_name = nm, ae_last_seen = at, ae_revoked_at = None, ae_revoked_after_counter = None\<rparr>])"

definition authority_recover ::
  "prims \<Rightarrow> DeviceAuthorityManifest \<Rightarrow> Identity \<Rightarrow> Identity \<Rightarrow> bytes \<Rightarrow> u64 \<Rightarrow> (nat \<Rightarrow> bytes) \<Rightarrow> nat
    \<Rightarrow> (DeviceAuthorityManifest cresult \<times> nat) option" where
  "authority_recover C m root device nm at draws i =
     (case authority_verify C m of
        Inl e \<Rightarrow> Some (Inl e, i)
      | Inr _ \<Rightarrow>
          if identity_public C root \<noteq> manifest_account m \<or> length (am_transitions m) \<ge> MAX_DEVICE_AUTHORITY_TRANSITIONS
            \<or> length (authority_devices m) \<ge> MAX_AUTHORITY_ENTRIES then Some (Inl InvalidKey, i)
          else
            Option.bind (authority_issue C (identity_public C root) device at draws i) (\<lambda>(issued, i).
            case issued of
              Inl e \<Rightarrow> Some (Inl e, i)
            | Inr cert \<Rightarrow>
                if list_ex (\<lambda>e. ae_id e = authority_device_id cert) (authority_devices m) then Some (Inl InvalidMessage, i)
                else
                  Option.bind (fill_nonzero_16 draws i) (\<lambda>(tid, i).
                  Option.bind (fill_nonzero_16 draws i) (\<lambda>(rid, i).
                  let parent = head_transition m in
                  Some (try_then (ok_or (checked_add (at_generation parent) 1) InvalidMessage) (\<lambda>g.
                        try_then (ok_or (checked_add (at_recovery_epoch parent) 1) InvalidMessage) (\<lambda>epoch.
                        let t = \<lparr>at_version = DEVICE_AUTHORITY_VERSION, at_account = manifest_account m,
                                 at_parent_hash = transition_hash C parent, at_parent_generation = at_generation parent,
                                 at_generation = g, at_recovery_epoch = epoch, at_transition_id = tid,
                                 at_recovery_id = Some rid, at_kind = Recovery,
                                 at_devices = recovered_rows (authority_devices m) cert nm at,
                                 at_new_certificates = [cert], at_authorization = Root (zeros 64)\<rparr>;
                            t = t\<lparr>at_authorization := Root (sign_domain C root ROOT_TRANSITION_DOMAIN (transition_canonical t))\<rparr> in
                        authority_append C m t)), i)))))"

section \<open>The relation between two proofs\<close>

text \<open>The anchor accessor panics, the value \<^const>\<open>None\<close>, when the chain has no anchor of its epoch.\<close>

datatype DeviceAuthorityRelation = Same | Descendant | RecoverySupersedes | Stale | OldEpoch | Fork | RecoveryConflict

definition common_prefix_len :: "prims \<Rightarrow> DeviceAuthorityManifest \<Rightarrow> DeviceAuthorityManifest \<Rightarrow> nat" where
  "common_prefix_len C l r =
     length (takeWhile (\<lambda>(a, b). transition_hash C a = transition_hash C b) (zip (am_transitions l) (am_transitions r)))"

definition recovery_anchor :: "prims \<Rightarrow> DeviceAuthorityManifest \<Rightarrow> u64 \<Rightarrow> bytes option" where
  "recovery_anchor C m epoch =
     (if epoch = 0 then (case am_transitions m of [] \<Rightarrow> None | t # _ \<Rightarrow> Some (transition_hash C t))
      else map_option (transition_hash C)
             (find (\<lambda>t. at_recovery_epoch t = epoch \<and> at_kind t = Recovery) (am_transitions m)))"

definition recovery_anchor_id :: "prims \<Rightarrow> DeviceAuthorityManifest \<Rightarrow> bytes option" where
  "recovery_anchor_id C m = recovery_anchor C m (authority_recovery_epoch m)"

definition relation :: "prims \<Rightarrow> DeviceAuthorityManifest \<Rightarrow> DeviceAuthorityManifest \<Rightarrow> DeviceAuthorityRelation cresult" where
  "relation C m candidate =
     try_then (authority_verify C m) (\<lambda>_.
     try_then (authority_verify C candidate) (\<lambda>_.
     if manifest_account m \<noteq> manifest_account candidate then Inl InvalidKey
     else if authority_state_id C m = authority_state_id C candidate then Inr Same
     else if authority_recovery_epoch candidate > authority_recovery_epoch m then Inr RecoverySupersedes
     else if authority_recovery_epoch candidate < authority_recovery_epoch m then Inr OldEpoch
     else if authority_recovery_epoch m > 0
       \<and> recovery_anchor C m (authority_recovery_epoch m) \<noteq> recovery_anchor C candidate (authority_recovery_epoch candidate)
     then Inr RecoveryConflict
     else if common_prefix_len C m candidate = length (am_transitions m) then Inr Descendant
     else if common_prefix_len C m candidate = length (am_transitions candidate) then Inr Stale
     else Inr Fork))"

section \<open>What verification means\<close>

definition good_row :: "prims \<Rightarrow> IdentityPublic \<Rightarrow> DeviceAuthorityEntry \<Rightarrow> bool" where
  "good_row C acct e \<longleftrightarrow>
     authority_cert_verify C (ae_certificate e) = Inr () \<and> ac_account (ae_certificate e) = acct
     \<and> ae_name e \<noteq> [] \<and> length (ae_name e) \<le> 64 \<and> ac_issued_at (ae_certificate e) \<le> ae_last_seen e
     \<and> (\<forall>r. ae_revoked_at e = Some r \<longrightarrow> ac_issued_at (ae_certificate e) \<le> r)
     \<and> (ae_revoked_at e = None \<longleftrightarrow> ae_revoked_after_counter e = None)"

lemma validate_rows_iff:
  "validate_rows C acct prior n es = Inr k \<longleftrightarrow>
     (\<forall>e\<in>set es. good_row C acct e) \<and> sorted_wrt (<) (map ae_id es)
     \<and> (\<forall>p. prior = Some p \<longrightarrow> (\<forall>e\<in>set es. p < ae_id e)) \<and> k = n + authority_active_count es"
proof (induction es arbitrary: prior n)
  case (Cons e es)
  show ?case
  proof (cases "good_row C acct e \<and> (\<forall>p. prior = Some p \<longrightarrow> p < ae_id e)")
    case True
    then have step: "validate_rows C acct prior n (e # es)
        = validate_rows C acct (Some (ae_id e)) (if is_active e then n + 1 else n) es"
      by (auto simp: good_row_def not_less split: option.splits)
    from True show ?thesis unfolding step Cons.IH by (auto simp: authority_active_count_def intro: less_trans)
  next
    case False
    have "validate_rows C acct prior n (e # es) \<noteq> Inr k"
    proof
      assume "validate_rows C acct prior n (e # es) = Inr k"
      then have "good_row C acct e \<and> (\<forall>p. prior = Some p \<longrightarrow> p < ae_id e)"
        by (auto simp: result_simps good_row_def not_less not_le split: option.splits)
      with False show False by blast
    qed
    with False show ?thesis by auto
  qed
qed (auto simp: authority_active_count_def)

lemma validate_certificates_iff:
  "validate_certificates C acct prior cs = Inr () \<longleftrightarrow>
     (\<forall>c\<in>set cs. authority_cert_verify C c = Inr () \<and> ac_account c = acct) \<and> sorted_wrt (<) (map authority_device_id cs)
     \<and> (\<forall>p. prior = Some p \<longrightarrow> (\<forall>c\<in>set cs. p < authority_device_id c))"
  by (induction cs arbitrary: prior) (auto simp: result_simps not_le split: option.splits intro: less_trans)

text \<open>A well-formed complete state.\<close>

definition good_state :: "prims \<Rightarrow> DeviceAuthorityTransition \<Rightarrow> bool" where
  "good_state C t \<longleftrightarrow>
     (\<forall>e\<in>set (at_devices t). good_row C (at_account t) e) \<and> sorted_wrt (<) (map ae_id (at_devices t))
     \<and> 0 < authority_active_count (at_devices t) \<and> authority_active_count (at_devices t) \<le> 8"

lemma validate_transition_common_iff:
  "validate_transition_common C t = Inr () \<longleftrightarrow>
     identity_verify C (at_account t) = Inr () \<and> at_version t = 2 \<and> at_transition_id t \<noteq> zeros 16 \<and> at_devices t \<noteq> []
     \<and> length (at_devices t) \<le> 64 \<and> length (at_new_certificates t) \<le> 8 \<and> good_state C t
     \<and> (\<forall>c\<in>set (at_new_certificates t). authority_cert_verify C c = Inr () \<and> ac_account c = at_account t)
     \<and> sorted_wrt (<) (map authority_device_id (at_new_certificates t))"
  by (auto simp: validate_transition_common_def authority_validate_state_def good_state_def result_simps validate_rows_iff
      validate_certificates_iff not_less)

lemma good_state_distinct: "good_state C t \<Longrightarrow> distinct (map ae_id (at_devices t))"
  by (simp add: good_state_def strict_sorted_iff)

text \<open>A signature counts when an active device of the parent made it over the canonical bytes.\<close>

definition signature_ok :: "prims \<Rightarrow> DeviceAuthorityEntry list \<Rightarrow> bytes \<Rightarrow> DeviceAuthoritySignature \<Rightarrow> bool" where
  "signature_ok C parent canonical s \<longleftrightarrow>
     (\<exists>e. find_active (as_signer s) parent = Some e
        \<and> verify_domain C (ac_device (ae_certificate e)) AUTHORITY_TRANSITION_DOMAIN canonical (as_signature s) = Inr ())"

lemma verify_signatures_iff:
  "verify_signatures C parent canonical prior ss = Inr () \<longleftrightarrow>
     (\<forall>s\<in>set ss. signature_ok C parent canonical s) \<and> sorted_wrt (<) (map as_signer ss)
     \<and> (\<forall>p. prior = Some p \<longrightarrow> (\<forall>s\<in>set ss. p < as_signer s))"
  by (induction ss arbitrary: prior)
    (auto simp: result_simps signature_ok_def not_le split: option.splits intro: less_trans)

lemma find_active_SomeD: "find_active dev es = Some e \<Longrightarrow> e \<in> set es \<and> ae_id e = dev \<and> is_active e"
  by (auto simp: find_active_def find_Some_iff)

lemma find_entry_SomeD: "find_entry dev es = Some e \<Longrightarrow> e \<in> set es \<and> ae_id e = dev"
  by (auto simp: find_entry_def find_Some_iff)

lemma authority_verify_iff:
  "authority_verify C \<lparr>am_transitions = t # ts\<rparr> = Inr () \<longleftrightarrow>
     length ts < 64 \<and> verify_genesis C t = Inr () \<and> verify_chain C (t # ts) = Inr ()"
  by (auto simp: authority_verify_def result_simps)

lemma authority_verify_nonempty: "authority_verify C m = Inr () \<Longrightarrow> am_transitions m \<noteq> []"
  by (auto simp: authority_verify_def result_simps)

lemma verify_chain_append:
  "verify_chain C (ts @ a # b # us) = Inr () \<longleftrightarrow>
     verify_chain C (ts @ [a]) = Inr () \<and> verify_transition C a b True = Inr () \<and> verify_chain C (b # us) = Inr ()"
proof (induction ts)
  case (Cons t ts)
  then show ?case by (cases ts) (auto simp: result_simps)
qed (auto simp: result_simps)

lemma verify_chain_nth:
  "verify_chain C ts = Inr () \<longleftrightarrow> (\<forall>i. Suc i < length ts \<longrightarrow> verify_transition C (ts ! i) (ts ! Suc i) True = Inr ())"
proof (induction C ts rule: verify_chain.induct)
  case (1 C a b ts)
  let ?ok = "\<lambda>ts i. verify_transition C (ts ! i) (ts ! Suc i) True = Inr ()"
  have "(\<forall>i. Suc i < length (a # b # ts) \<longrightarrow> ?ok (a # b # ts) i)
      \<longleftrightarrow> verify_transition C a b True = Inr () \<and> (\<forall>i. Suc i < length (b # ts) \<longrightarrow> ?ok (b # ts) i)" (is "?L \<longleftrightarrow> ?R")
  proof
    assume l: ?L
    show ?R using spec [OF l, of 0] spec [OF l, of "Suc i" for i] by simp
  next
    assume r: ?R
    show ?L
    proof (intro allI impI)
      fix i assume "Suc i < length (a # b # ts)"
      with r show "?ok (a # b # ts) i" by (cases i) simp_all
    qed
  qed
  with 1 show ?case by (auto simp: result_simps)
qed auto

lemma verify_transition_iff:
  "verify_transition C p t q = Inr () \<longleftrightarrow>
     validate_transition_common C t = Inr () \<and> at_account t = at_account p \<and> at_parent_hash t = transition_hash C p
     \<and> at_parent_generation t = at_generation p \<and> at_generation t = next_or_zero (at_generation p)
     \<and> list_all (continues_row (at_devices t)) (at_devices p)
     \<and> introduced_certificates (at_devices p) (at_devices t) = at_new_certificates t \<and> at_kind t \<noteq> Genesis
     \<and> (if at_kind t = Recovery then verify_recovery C p t = Inr () else verify_ordinary C p t q = Inr ())"
  by (cases "at_kind t")
    (auto simp: verify_transition_def result_simps validate_parent_continuity_def validate_new_certificates_def)

lemma verify_ordinary_iff:
  "verify_ordinary C p t q = Inr () \<longleftrightarrow>
     at_recovery_epoch t = at_recovery_epoch p \<and> at_recovery_id t = None
     \<and> validate_ordinary_difference (at_kind t) (at_devices p) (at_devices t) = Inr ()
     \<and> (\<exists>sigs. at_authorization t = Devices sigs \<and> length sigs \<le> authority_active_count (at_devices p)
          \<and> (\<forall>s\<in>set sigs. signature_ok C (at_devices p) (transition_canonical t) s) \<and> sorted_wrt (<) (map as_signer sigs)
          \<and> (q \<longrightarrow> authority_active_count (at_devices p) div 2 < length sigs))"
  by (auto simp: verify_ordinary_def result_simps verify_signatures_iff split: DeviceAuthorityAuthorization.splits)

lemma verified_states:
  assumes "authority_verify C m = Inr ()" "t \<in> set (am_transitions m)"
  shows "validate_transition_common C t = Inr ()"
proof -
  obtain i where i: "i < length (am_transitions m)" "t = am_transitions m ! i" using assms(2) by (auto simp: in_set_conv_nth)
  show ?thesis
  proof (cases i)
    case 0
    then show ?thesis using assms(1) i by (auto simp: authority_verify_def verify_genesis_def result_simps)
  next
    case (Suc j)
    then have "verify_transition C (am_transitions m ! j) t True = Inr ()"
      using assms(1) i by (auto simp: authority_verify_def result_simps verify_chain_nth)
    then show ?thesis by (simp add: verify_transition_iff)
  qed
qed

section \<open>Quorums intersect\<close>

text \<open>What a quorum rule promises: any two quorums share a member.\<close>

locale quorum_system =
  fixes quorum :: "'a set \<Rightarrow> bool"
  assumes overlap: "quorum A \<Longrightarrow> quorum B \<Longrightarrow> A \<inter> B \<noteq> {}"
begin

lemma shared_member: "quorum A \<Longrightarrow> quorum B \<Longrightarrow> \<exists>x. x \<in> A \<and> x \<in> B"
  using overlap by blast

text \<open>If nobody votes for two values, at most one value has a quorum.\<close>

lemma single_winner:
  assumes "quorum {x. votes x a}" "quorum {x. votes x b}" "\<And>x. votes x a \<Longrightarrow> votes x b \<Longrightarrow> a = b"
  shows "a = b"
  using shared_member [OF assms(1,2)] assms(3) by blast

end

text \<open>The strict majorities of the active devices of a state are such a rule.\<close>

definition device_quorum :: "DeviceAuthorityEntry list \<Rightarrow> DeviceAuthorityEntry set \<Rightarrow> bool" where
  "device_quorum es S \<longleftrightarrow> S \<subseteq> set (filter is_active es) \<and> authority_active_count es < 2 * card S"

interpretation majority: quorum_system "device_quorum es" for es
proof
  fix A B assume q: "device_quorum es A" "device_quorum es B"
  show "A \<inter> B \<noteq> {}"
  proof
    assume d: "A \<inter> B = {}"
    have f: "finite A" "finite B" using q by (auto simp: device_quorum_def intro: finite_subset)
    have "card A + card B = card (A \<union> B)" using d f by (simp add: card_Un_disjoint)
    also have "\<dots> \<le> card (set (filter is_active es))" using q by (intro card_mono) (auto simp: device_quorum_def)
    also have "\<dots> \<le> authority_active_count es" unfolding authority_active_count_def by (rule card_length)
    finally show False using q by (simp add: device_quorum_def)
  qed
qed

definition signed_by :: "prims \<Rightarrow> DeviceAuthorityEntry \<Rightarrow> DeviceAuthorityTransition \<Rightarrow> bool" where
  "signed_by C e t \<longleftrightarrow>
     (\<exists>sig. verify_domain C (ac_device (ae_certificate e)) AUTHORITY_TRANSITION_DOMAIN (transition_canonical t) sig = Inr ())"

lemma signers_majority:
  assumes "verify_ordinary C p t True = Inr ()"
  shows "device_quorum (at_devices p) {e \<in> set (at_devices p). is_active e \<and> signed_by C e t}"
proof -
  let ?S = "{e \<in> set (at_devices p). is_active e \<and> signed_by C e t}"
  obtain sigs where s: "\<forall>s\<in>set sigs. signature_ok C (at_devices p) (transition_canonical t) s"
    "sorted_wrt (<) (map as_signer sigs)" "authority_active_count (at_devices p) div 2 < length sigs"
    using assms by (auto simp: verify_ordinary_iff)
  have sub: "as_signer ` set sigs \<subseteq> ae_id ` ?S"
  proof
    fix x assume "x \<in> as_signer ` set sigs"
    then obtain g where g: "g \<in> set sigs" "x = as_signer g" by blast
    with s(1) obtain e where e: "find_active x (at_devices p) = Some e" "signed_by C e t"
      unfolding signature_ok_def signed_by_def by blast
    from find_active_SomeD [OF e(1)] e(2) show "x \<in> ae_id ` ?S" by blast
  qed
  have "card (as_signer ` set sigs) \<le> card (ae_id ` ?S)" using sub by (intro card_mono) simp_all
  also have "\<dots> \<le> card ?S" by (rule card_image_le) simp
  finally have "card (as_signer ` set sigs) \<le> card ?S" .
  moreover have "distinct (map as_signer sigs)" using s(2) by (simp add: strict_sorted_iff)
  then have "card (as_signer ` set sigs) = length sigs" using distinct_card [of "map as_signer sigs"] by simp
  ultimately show ?thesis using s(3) by (auto simp: device_quorum_def)
qed

text \<open>
  C10. A fork needs a device that signs twice: if two ordinary children of one verified state are both
  accepted, some device active in that state signed both. No minority, and no set of
  devices that each sign one child at most, can split an account.
\<close>

theorem fork_needs_double_signer:
  assumes "authority_verify C \<lparr>am_transitions = ts @ p # a # us\<rparr> = Inr ()"
    and "authority_verify C \<lparr>am_transitions = ts @ p # b # vs\<rparr> = Inr ()"
    and "at_kind a \<noteq> Recovery" "at_kind b \<noteq> Recovery"
  shows "\<exists>e\<in>set (at_devices p). is_active e \<and> signed_by C e a \<and> signed_by C e b"
proof -
  have chain: "verify_chain C (am_transitions m) = Inr ()" if "authority_verify C m = Inr ()" for m
    using that by (simp add: authority_verify_def result_simps)
  have "verify_ordinary C p a True = Inr ()" "verify_ordinary C p b True = Inr ()"
    using chain [OF assms(1)] chain [OF assms(2)] assms(3,4) by (simp_all add: verify_chain_append verify_transition_iff)
  from majority.shared_member [OF this [THEN signers_majority]] show ?thesis by blast
qed

section \<open>Rows along a chain\<close>

definition row_forward :: "DeviceAuthorityEntry \<Rightarrow> DeviceAuthorityEntry \<Rightarrow> bool" where
  "row_forward old new \<longleftrightarrow> ae_certificate new = ae_certificate old \<and> ae_last_seen old \<le> ae_last_seen new
     \<and> (\<not> is_active old \<longrightarrow> ae_revoked_at new = ae_revoked_at old)
     \<and> (ae_revoked_after_counter old \<noteq> None \<longrightarrow> ae_revoked_after_counter new = ae_revoked_after_counter old)"

lemma row_forward_refl: "row_forward e e"
  by (simp add: row_forward_def)

lemma row_forward_trans: "row_forward a b \<Longrightarrow> row_forward b c \<Longrightarrow> row_forward a c"
  by (auto simp: row_forward_def is_active_def)

lemma continues_row_forward:
  "continues_row es old \<Longrightarrow> \<exists>new\<in>set es. row_forward old new"
  by (auto simp: continues_row_def row_forward_def is_active_def not_less split: option.splits dest: find_entry_SomeD)

lemma chain_rows_forward:
  assumes "authority_verify C m = Inr ()" "j < length (am_transitions m)" "i \<le> j"
    and "e \<in> set (at_devices (am_transitions m ! i))"
  shows "\<exists>e'\<in>set (at_devices (am_transitions m ! j)). row_forward e e'"
  using assms(3,2)
proof (induction rule: dec_induct)
  case base
  then show ?case using assms(4) row_forward_refl by blast
next
  case (step k)
  then obtain f where f: "f \<in> set (at_devices (am_transitions m ! k))" "row_forward e f" by auto
  have "verify_transition C (am_transitions m ! k) (am_transitions m ! Suc k) True = Inr ()"
    using assms(1) step.prems by (simp add: authority_verify_def result_simps verify_chain_nth)
  then have "continues_row (at_devices (am_transitions m ! Suc k)) f"
    using f(1) by (auto simp: verify_transition_iff list_all_iff)
  from continues_row_forward [OF this] f(2) show ?case using row_forward_trans by blast
qed

lemma verified_step:
  assumes "authority_verify C m = Inr ()" "Suc i < length (am_transitions m)"
  shows "verify_transition C (am_transitions m ! i) (am_transitions m ! Suc i) True = Inr ()"
  using assms by (simp add: authority_verify_def result_simps verify_chain_nth)

lemma verified_genesis:
  assumes "authority_verify C m = Inr ()"
  shows "am_transitions m \<noteq> [] \<and> at_generation (am_transitions m ! 0) = 1 \<and> at_recovery_epoch (am_transitions m ! 0) = 0
    \<and> at_kind (am_transitions m ! 0) = Genesis \<and> length (am_transitions m) \<le> 64"
  using assms by (auto simp: authority_verify_def verify_genesis_def result_simps)

lemma next_or_zero_unat: "unat n < 2 ^ 64 - 1 \<Longrightarrow> unat (next_or_zero n) = unat n + 1"
  by (auto simp: next_or_zero_def checked_add_def unat_word_ariths)

lemma transition_epoch:
  assumes "verify_transition C p t q = Inr ()"
  shows "at_recovery_epoch t = (if at_kind t = Recovery then next_or_zero (at_recovery_epoch p) else at_recovery_epoch p)"
  using assms by (auto simp: verify_transition_iff verify_ordinary_iff verify_recovery_def result_simps split: if_splits)

lemma chain_counters:
  assumes "authority_verify C m = Inr ()" "i < length (am_transitions m)"
  shows "unat (at_generation (am_transitions m ! i)) = i + 1
    \<and> unat (at_recovery_epoch (am_transitions m ! i)) = length (filter (\<lambda>t. at_kind t = Recovery) (take (Suc i) (am_transitions m)))"
  using assms(2)
proof (induction i)
  case 0
  then show ?case using verified_genesis [OF assms(1)] by (auto simp: take_Suc_conv_app_nth)
next
  case (Suc i)
  let ?ts = "am_transitions m"
  have v: "verify_transition C (?ts ! i) (?ts ! Suc i) True = Inr ()" using verified_step [OF assms(1)] Suc.prems by simp
  have g: "at_generation (?ts ! Suc i) = next_or_zero (at_generation (?ts ! i))" using v by (simp add: verify_transition_iff)
  have l: "length ?ts \<le> 64" using verified_genesis [OF assms(1)] by blast
  have k: "length (filter (\<lambda>t. at_kind t = Recovery) (take (Suc i) ?ts)) \<le> Suc i"
    by (rule le_trans [OF length_filter_le]) simp
  have t: "take (Suc (Suc i)) ?ts = take (Suc i) ?ts @ [?ts ! Suc i]" using Suc.prems by (rule take_Suc_conv_app_nth)
  have IH: "unat (at_generation (?ts ! i)) = i + 1"
    "unat (at_recovery_epoch (?ts ! i)) = length (filter (\<lambda>t. at_kind t = Recovery) (take (Suc i) ?ts))"
    using Suc by simp_all
  show ?case
    using next_or_zero_unat [of "at_generation (?ts ! i)"] next_or_zero_unat [of "at_recovery_epoch (?ts ! i)"]
      transition_epoch [OF v] g IH k l Suc.prems unfolding t by simp
qed

text \<open>
  The counters of a verified proof never reach the fallback of an overflowing addition: the generation
  of a transition is its position, and its recovery epoch is the number of recoveries up to it.
\<close>

theorem chain_counters_exact:
  assumes "authority_verify C m = Inr ()" "i < length (am_transitions m)"
  shows "unat (at_generation (am_transitions m ! i)) = i + 1
    \<and> unat (at_recovery_epoch (am_transitions m ! i)) = length (filter (\<lambda>t. at_kind t = Recovery) (take (Suc i) (am_transitions m)))"
  using assms by (rule chain_counters)

lemma epoch_anchor:
  assumes "authority_verify C m = Inr ()" "i < length (am_transitions m)" "at_recovery_epoch (am_transitions m ! i) \<noteq> 0"
  shows "\<exists>t\<in>set (am_transitions m). at_recovery_epoch t = at_recovery_epoch (am_transitions m ! i) \<and> at_kind t = Recovery"
  using assms(2,3)
proof (induction i)
  case 0
  then show ?case using verified_genesis [OF assms(1)] by simp
next
  case (Suc i)
  then show ?case
    using transition_epoch [OF verified_step [OF assms(1), of i]] by (cases "at_kind (am_transitions m ! Suc i) = Recovery") auto
qed

text \<open>A verified proof contains the anchor of its epoch, so the accessor never panics.\<close>

lemma recovery_anchor_id_total:
  assumes "authority_verify C m = Inr ()"
  shows "recovery_anchor_id C m \<noteq> None"
proof -
  have n: "am_transitions m \<noteq> []" using verified_genesis [OF assms] by blast
  then have h: "head_transition m = am_transitions m ! (length (am_transitions m) - 1)" by (simp add: head_transition_def last_conv_nth)
  show ?thesis
  proof (cases "authority_recovery_epoch m = 0")
    case True
    then show ?thesis using n by (auto simp: recovery_anchor_id_def recovery_anchor_def split: list.splits)
  next
    case False
    then show ?thesis
      using epoch_anchor [OF assms, of "length (am_transitions m) - 1"] n
      by (auto simp: recovery_anchor_id_def recovery_anchor_def authority_recovery_epoch_def h find_None_iff)
  qed
qed

end
