(* ===== verification/Authority_Protocol.thy ===== *)
theory Authority_Protocol
  imports Device_Authority
begin

text \<open>
  The device authority in use: approvals that devices make on their own merge into a quorum, what a
  refused approval does to a proposal, how two proofs compare, and recovery by the offline root. A
  small account makes every hypothesis concrete.
\<close>

section \<open>Collecting approvals\<close>

lemma canonical_authorization [simp]: "transition_canonical (t\<lparr>at_authorization := a\<rparr>) = transition_canonical t"
  by (simp add: transition_canonical_def)

lemma common_authorization [simp]: "validate_transition_common C (t\<lparr>at_authorization := a\<rparr>) = validate_transition_common C t"
  by (simp add: validate_transition_common_def)

definition good_signatures :: "prims \<Rightarrow> DeviceAuthorityTransition \<Rightarrow> DeviceAuthorityTransition \<Rightarrow> DeviceAuthoritySignature list \<Rightarrow> bool" where
  "good_signatures C p t sigs \<longleftrightarrow>
     (\<forall>s\<in>set sigs. signature_ok C (at_devices p) (transition_canonical t) s) \<and> sorted_wrt (<) (map as_signer sigs)"

lemma good_signatures_bounded:
  assumes "good_signatures C p t sigs"
  shows "length sigs \<le> authority_active_count (at_devices p)"
proof -
  have "as_signer ` set sigs \<subseteq> ae_id ` set (filter is_active (at_devices p))"
    using assms by (force simp: good_signatures_def signature_ok_def dest: find_active_SomeD)
  then have "card (as_signer ` set sigs) \<le> card (ae_id ` set (filter is_active (at_devices p)))" by (intro card_mono) simp_all
  also have "\<dots> \<le> card (set (filter is_active (at_devices p)))" by (rule card_image_le) simp
  also have "\<dots> \<le> authority_active_count (at_devices p)" unfolding authority_active_count_def by (rule card_length)
  finally show ?thesis
    using assms distinct_card [of "map as_signer sigs"] by (simp add: good_signatures_def strict_sorted_iff)
qed

lemma verify_with_signatures:
  assumes "verify_transition C p t False = Inr ()" "at_kind t \<noteq> Recovery"
  shows "verify_transition C p (t\<lparr>at_authorization := Devices sigs\<rparr>) q = Inr () \<longleftrightarrow>
    good_signatures C p t sigs \<and> (q \<longrightarrow> authority_active_count (at_devices p) div 2 < length sigs)"
  using assms good_signatures_bounded [of C p t sigs]
  by (auto simp: verify_transition_iff verify_ordinary_iff good_signatures_def)

lemma add_signature_set [simp]: "set (add_signature sigs s) = insert s (set sigs)" "length (add_signature sigs s) = Suc (length sigs)"
  by (auto simp: add_signature_def)

lemma no_such_signer: "as_signer a \<notin> as_signer ` set sigs \<Longrightarrow> \<not> list_ex (\<lambda>s. as_signer s = as_signer a) sigs"
  by (induction sigs) auto

lemma good_signatures_add:
  assumes "good_signatures C p t sigs" "signature_ok C (at_devices p) (transition_canonical t) s"
    and "as_signer s \<notin> as_signer ` set sigs"
  shows "good_signatures C p t (add_signature sigs s)"
proof -
  have "distinct (map as_signer sigs)" using assms(1) by (simp add: good_signatures_def strict_sorted_iff)
  then have "distinct (map as_signer (sigs @ [s]))" using assms(3) by auto
  then have "distinct (map as_signer (add_signature sigs s))"
    unfolding add_signature_def by (metis distinct_map distinct_sort set_sort)
  then show ?thesis using assms by (auto simp: good_signatures_def strict_sorted_iff) (simp add: add_signature_def)
qed

text \<open>The proposals of an account holder, and merging approvals one after the other.\<close>

inductive proposes :: "prims \<Rightarrow> DeviceAuthorityManifest \<Rightarrow> DeviceAuthorityTransition \<Rightarrow> bool" for C m where
    proposes_add: "propose_add_device C m cert nm seen draws i = Some (Inr t, j) \<Longrightarrow> proposes C m t"
  | proposes_rename: "propose_rename_device C m dev nm draws i = Some (Inr t, j) \<Longrightarrow> proposes C m t"
  | proposes_observe: "propose_observe_device C m dev seen draws i = Some (Inr t, j) \<Longrightarrow> proposes C m t"
  | proposes_revoke: "propose_revoke_device C m dev at cutoff draws i = Some (Inr t, j) \<Longrightarrow> proposes C m t"

fun merge_all ::
  "prims \<Rightarrow> DeviceAuthorityManifest \<Rightarrow> DeviceAuthorityTransition \<Rightarrow> DeviceAuthoritySignature list
    \<Rightarrow> DeviceAuthorityTransition \<times> unit cresult" where
  "merge_all C m t [] = (t, Inr ())"
| "merge_all C m t (a # as) =
     (case merge_approval C m t a of (t, Inl e) \<Rightarrow> (t, Inl e) | (t, Inr _) \<Rightarrow> merge_all C m t as)"

lemma ordinary_proposal_verified:
  assumes "ordinary_proposal C m kind es certs draws i = Some (Inr t, j)"
  shows "verify_transition C (head_transition m) t False = Inr () \<and> at_kind t = kind \<and> kind \<noteq> Recovery
    \<and> at_authorization t = Devices []"
  using assms
  by (auto simp: ordinary_proposal_def Let_def result_simps bind_eq_Some_conv split: if_splits)

lemma proposes_verified:
  assumes "proposes C m t"
  shows "authority_verify C m = Inr () \<and> verify_transition C (head_transition m) t False = Inr () \<and> at_kind t \<noteq> Recovery
    \<and> at_authorization t = Devices []"
  using assms
proof cases
  case (proposes_add cert nm seen draws i j)
  then show ?thesis by (auto simp: propose_add_device_def split: sum.splits if_splits dest: ordinary_proposal_verified)
next
  case (proposes_rename dev nm draws i j)
  then show ?thesis by (auto simp: propose_rename_device_def result_simps split: sum.splits if_splits dest: ordinary_proposal_verified)
next
  case (proposes_observe dev seen draws i j)
  then show ?thesis by (auto simp: propose_observe_device_def result_simps split: sum.splits if_splits dest: ordinary_proposal_verified)
next
  case (proposes_revoke dev at cutoff draws i j)
  then show ?thesis by (auto simp: propose_revoke_device_def result_simps split: sum.splits if_splits dest: ordinary_proposal_verified)
qed

text \<open>An active device that holds the key its certificate names.\<close>

definition active_signer :: "prims \<Rightarrow> DeviceAuthorityManifest \<Rightarrow> Identity \<Rightarrow> bool" where
  "active_signer C m i \<longleftrightarrow>
     (\<exists>cert. active_certificate m (id_ed (identity_public C i)) = Some cert \<and> ac_device cert = identity_public C i)"

definition approval_of :: "prims \<Rightarrow> DeviceAuthorityTransition \<Rightarrow> Identity \<Rightarrow> DeviceAuthoritySignature" where
  "approval_of C t i = \<lparr>as_signer = id_ed (identity_public C i),
     as_signature = sign_domain C i AUTHORITY_TRANSITION_DOMAIN (transition_canonical t)\<rparr>"

lemma approval_of_ok:
  assumes "sound_signatures C" "active_signer C m i"
  shows "signature_ok C (at_devices (head_transition m)) (transition_canonical t) (approval_of C t i)"
  using assms verify_sign_domain [OF assms(1)]
  by (auto simp: signature_ok_def approval_of_def active_signer_def active_certificate_def authority_devices_def)

lemma approve_transition_eq:
  assumes "sound_signatures C" "proposes C m t" "active_signer C m i"
  shows "approve_transition C m t i = Inr (approval_of C t i)"
proof -
  note p = proposes_verified [OF assms(2)]
  have "good_signatures C (head_transition m) t [approval_of C t i]"
    using approval_of_ok [OF assms(1,3)] by (simp add: good_signatures_def)
  then have "verify_transition C (head_transition m) (t\<lparr>at_authorization := Devices [approval_of C t i]\<rparr>) False = Inr ()"
    using verify_with_signatures [of C "head_transition m" t] p by simp
  then show ?thesis
    using p assms(3)
    by (auto simp: approve_transition_def sign_transition_def active_signer_def add_signature_def approval_of_def Let_def)
qed

lemma merge_all_good:
  assumes "sound_signatures C" "proposes C m t" "\<forall>i\<in>set signers. active_signer C m i"
    and "distinct (map (\<lambda>i. id_ed (identity_public C i)) signers)"
    and "good_signatures C (head_transition m) t sigs"
    and "\<forall>i\<in>set signers. id_ed (identity_public C i) \<notin> as_signer ` set sigs"
  shows "\<exists>sigs'. merge_all C m (t\<lparr>at_authorization := Devices sigs\<rparr>) (map (approval_of C t) signers)
      = (t\<lparr>at_authorization := Devices sigs'\<rparr>, Inr ())
    \<and> good_signatures C (head_transition m) t sigs' \<and> length sigs' = length sigs + length signers"
  using assms(3-)
proof (induction signers arbitrary: sigs)
  case Nil
  then show ?case by (intro exI [of _ sigs]) simp
next
  case (Cons i signers)
  let ?a = "approval_of C t i"
  note p = proposes_verified [OF assms(2)]
  have ok: "signature_ok C (at_devices (head_transition m)) (transition_canonical t) ?a"
    using approval_of_ok [OF assms(1)] Cons.prems(1) by simp
  have fresh: "as_signer ?a \<notin> as_signer ` set sigs" using Cons.prems(4) by (simp add: approval_of_def)
  have g: "good_signatures C (head_transition m) t (add_signature sigs ?a)"
    using good_signatures_add [OF Cons.prems(3) ok fresh] .
  then have v: "verify_transition C (head_transition m) (t\<lparr>at_authorization := Devices (add_signature sigs ?a)\<rparr>) False = Inr ()"
    using verify_with_signatures [of C "head_transition m" t] p by simp
  have "\<not> list_ex (\<lambda>s. as_signer s = as_signer ?a) sigs" using no_such_signer [OF fresh] .
  then have step: "merge_approval C m (t\<lparr>at_authorization := Devices sigs\<rparr>) ?a
      = (t\<lparr>at_authorization := Devices (add_signature sigs ?a)\<rparr>, Inr ())"
    using p v by (simp add: merge_approval_def)
  have r: "\<forall>k\<in>set signers. active_signer C m k" "distinct (map (\<lambda>i. id_ed (identity_public C i)) signers)"
    using Cons.prems(1,2) by simp_all
  have "as_signer ?a = id_ed (identity_public C i)" by (simp add: approval_of_def)
  then have "\<forall>k\<in>set signers. id_ed (identity_public C k) \<notin> as_signer ` set (add_signature sigs ?a)"
    using Cons.prems(2,4) by (simp add: image_iff) metis
  from Cons.IH [OF r g this] show ?case by (simp add: step)
qed

lemma authority_append_ok:
  assumes "authority_verify C m = Inr ()" "length (am_transitions m) < 64"
    and "verify_transition C (head_transition m) t True = Inr ()"
  shows "authority_append C m t = Inr \<lparr>am_transitions = am_transitions m @ [t]\<rparr>"
proof -
  have n: "am_transitions m \<noteq> []" using authority_verify_nonempty [OF assms(1)] .
  then have s: "am_transitions m @ [t] = butlast (am_transitions m) @ head_transition m # t # []"
    by (simp add: head_transition_def)
  have "verify_chain C (am_transitions m @ [t]) = Inr ()"
    unfolding s verify_chain_append using assms(1,3) n by (simp add: authority_verify_def result_simps head_transition_def)
  then have "authority_verify C \<lparr>am_transitions = am_transitions m @ [t]\<rparr> = Inr ()"
    using assms(1,2) n by (simp add: authority_verify_def result_simps nth_append)
  then show ?thesis using assms by (simp add: authority_append_def Let_def)
qed

text \<open>
  C11. A majority is enough: if a proposal is approved by distinct active devices that reach the threshold, each
  signing on its own, the approvals merge in whatever order they arrive, the proposal has its quorum
  and the extended proof is accepted.
\<close>

theorem majority_appends:
  assumes "sound_signatures C" "proposes C m t" "length (am_transitions m) < 64"
    and "\<forall>i\<in>set signers. active_signer C m i" "distinct (map (\<lambda>i. id_ed (identity_public C i)) signers)"
    and "quorum_threshold m \<le> length signers"
  shows "\<exists>approvals t' m'. list_all2 (\<lambda>i a. approve_transition C m t i = Inr a) signers approvals
    \<and> merge_all C m t approvals = (t', Inr ()) \<and> has_quorum C m t' = Inr True
    \<and> authority_append C m t' = Inr m' \<and> am_transitions m' = am_transitions m @ [t']"
proof -
  note p = proposes_verified [OF assms(2)]
  have a: "list_all2 (\<lambda>i a. approve_transition C m t i = Inr a) signers (map (approval_of C t) signers)"
    using approve_transition_eq [OF assms(1,2)] assms(4) by (simp add: list_all2_map2 list.rel_refl_strong)
  have t: "t\<lparr>at_authorization := Devices []\<rparr> = t" using p by simp
  obtain sigs where s: "merge_all C m t (map (approval_of C t) signers) = (t\<lparr>at_authorization := Devices sigs\<rparr>, Inr ())"
    "good_signatures C (head_transition m) t sigs" "length sigs = length signers"
    using merge_all_good [OF assms(1,2,4,5), of "[]"] unfolding t by (auto simp: good_signatures_def)
  let ?t = "t\<lparr>at_authorization := Devices sigs\<rparr>"
  have v: "verify_transition C (head_transition m) ?t q = Inr ()" for q
    using verify_with_signatures [of C "head_transition m" t] p s(2,3) assms(6)
    by (simp add: quorum_threshold_def authority_devices_def)
  have "has_quorum C m ?t = Inr True" using p v s(3) assms(6) by (simp add: has_quorum_def approval_count_def)
  with a s(1) authority_append_ok [of C m ?t] v p assms(3) show ?thesis by auto
qed

section \<open>A refused approval stays\<close>

definition signatures_of :: "DeviceAuthorityTransition \<Rightarrow> DeviceAuthoritySignature list" where
  "signatures_of t = (case at_authorization t of Devices sigs \<Rightarrow> sigs | Root _ \<Rightarrow> [])"

lemma bad_signature_refused:
  assumes "a \<in> set (signatures_of t)" "\<not> signature_ok C (at_devices p) (transition_canonical t) a"
  shows "\<exists>e. verify_transition C p t q = Inl e"
proof -
  obtain sigs where s: "at_authorization t = Devices sigs" "a \<in> set sigs"
    using assms(1) by (cases "at_authorization t") (auto simp: signatures_of_def)
  have "verify_transition C p t q \<noteq> Inr ()"
    using s assms(2) by (auto simp: verify_transition_iff verify_ordinary_iff verify_recovery_def result_simps)
  then show ?thesis by (cases "verify_transition C p t q") auto
qed

lemma merge_keeps_signatures:
  "set (signatures_of t) \<subseteq> set (signatures_of (fst (merge_approval C m t b)))"
  "transition_canonical (fst (merge_approval C m t b)) = transition_canonical t"
  by (auto simp: merge_approval_def signatures_of_def Let_def split: sum.splits DeviceAuthorityAuthorization.splits)

lemma merges_keep_signatures:
  fixes C m
  defines "merges \<equiv> foldl (\<lambda>t b. fst (merge_approval C m t b))"
  shows "set (signatures_of t) \<subseteq> set (signatures_of (merges t bs)) \<and> transition_canonical (merges t bs) = transition_canonical t"
proof (induction bs arbitrary: t)
  case (Cons b bs)
  from Cons.IH [of "fst (merge_approval C m t b)"] merge_keeps_signatures [where t = t and C = C and m = m and b = b] show ?case
    unfolding merges_def by auto
qed (simp add: merges_def)

text \<open>
  C12. \<^verbatim>\<open>merge_approval\<close> enters an approval into the proposal before it verifies it and does not take it out again.
  One approval that no active device signed therefore makes the proposal unusable: it is refused,
  and whatever is merged afterwards, valid approvals included, the proposal never has a quorum and is never
  appended.
\<close>

theorem refused_approval_poisons:
  assumes "authority_verify C m = Inr ()" "at_authorization t = Devices sigs"
    and "as_signer a \<notin> as_signer ` set sigs" "\<not> signature_ok C (authority_devices m) (transition_canonical t) a"
  shows "\<exists>t' e. merge_approval C m t a = (t', Inl e)
    \<and> (\<forall>bs. \<exists>e1 e2. has_quorum C m (foldl (\<lambda>t b. fst (merge_approval C m t b)) t' bs) = Inl e1
         \<and> authority_append C m (foldl (\<lambda>t b. fst (merge_approval C m t b)) t' bs) = Inl e2)"
proof -
  let ?t = "t\<lparr>at_authorization := Devices (add_signature sigs a)\<rparr>"
  let ?m = "\<lambda>bs. foldl (\<lambda>t b. fst (merge_approval C m t b)) ?t bs"
  have a: "a \<in> set (signatures_of ?t)" by (simp add: signatures_of_def)
  have bad: "\<exists>e. verify_transition C (head_transition m) (?m bs) q = Inl e" for bs q
    using bad_signature_refused [of a "?m bs"] merges_keep_signatures [where t = ?t and C = C and m = m and bs = bs] a assms(4)
    by (auto simp: authority_devices_def)
  have "\<not> list_ex (\<lambda>s. as_signer s = as_signer a) sigs" using no_such_signer [OF assms(3)] .
  then have "merge_approval C m t a = (?t, verify_transition C (head_transition m) ?t False)"
    using assms(1,2) by (simp add: merge_approval_def Let_def)
  moreover obtain e where "verify_transition C (head_transition m) ?t False = Inl e" using bad [of "[]" False] by auto
  moreover have "\<exists>e1 e2. has_quorum C m (?m bs) = Inl e1 \<and> authority_append C m (?m bs) = Inl e2" for bs
    using bad [of bs False] bad [of bs True] assms(1) by (auto simp: has_quorum_def authority_append_def)
  ultimately show ?thesis by auto
qed

section \<open>Comparing two proofs\<close>

fun mirrored :: "DeviceAuthorityRelation \<Rightarrow> DeviceAuthorityRelation" where
  "mirrored Same = Same"
| "mirrored Descendant = Stale"
| "mirrored Stale = Descendant"
| "mirrored RecoverySupersedes = OldEpoch"
| "mirrored OldEpoch = RecoverySupersedes"
| "mirrored Fork = Fork"
| "mirrored RecoveryConflict = RecoveryConflict"

lemma common_prefix_sym: "common_prefix_len C n m = common_prefix_len C m n"
proof -
  have "length (takeWhile (\<lambda>(a, b). f a = f b) (zip xs ys)) = length (takeWhile (\<lambda>(a, b). f a = f b) (zip ys xs))"
    for f :: "DeviceAuthorityTransition \<Rightarrow> bytes" and xs ys
    by (induction xs arbitrary: ys) (auto simp: zip_Cons1 split: list.splits)
  then show ?thesis by (simp add: common_prefix_len_def)
qed

lemma full_prefix_same_head:
  assumes "common_prefix_len C m n = length (am_transitions m)" "length (am_transitions n) = length (am_transitions m)"
    and "am_transitions m \<noteq> []"
  shows "authority_state_id C m = authority_state_id C n"
proof -
  let ?z = "zip (am_transitions m) (am_transitions n)"
  have l: "length ?z = length (am_transitions m)" using assms(2) by simp
  then have "takeWhile (\<lambda>(a, b). transition_hash C a = transition_hash C b) ?z = ?z"
    using assms(1) by (metis common_prefix_len_def takeWhile_eq_take take_all_iff order_refl)
  then have "\<forall>(a, b)\<in>set ?z. transition_hash C a = transition_hash C b" by (metis takeWhile_eq_all_conv)
  moreover have "(last (am_transitions m), last (am_transitions n)) \<in> set ?z"
    using assms(2,3) last_zip [of "am_transitions m" "am_transitions n"] last_in_set [of ?z] l by (metis length_0_conv zip_eq_Nil_iff)
  ultimately show ?thesis by (auto simp: authority_state_id_def head_transition_def)
qed

text \<open>
  Two devices that compare their proofs reach mirrored verdicts: where one sees a descendant the other sees
  a stale ancestor, where one sees a superseding recovery the other sees an old epoch, and equality,
  fork and conflict are seen by both.
\<close>

theorem relation_mirrored:
  assumes "relation C m n = Inr r"
  shows "relation C n m = Inr (mirrored r)"
proof -
  have v: "authority_verify C m = Inr ()" "authority_verify C n = Inr ()" using assms by (auto simp: relation_def result_simps)
  have "authority_state_id C m = authority_state_id C n"
    if "common_prefix_len C m n = length (am_transitions m)" "length (am_transitions m) = length (am_transitions n)"
    using full_prefix_same_head [OF that(1)] that(2) authority_verify_nonempty [OF v(1)] by simp
  then show ?thesis using assms v common_prefix_sym [of C n m] by (auto simp: relation_def not_less split: if_splits)
qed

lemma common_prefix_append:
  "common_prefix_len C m \<lparr>am_transitions = am_transitions m @ [t]\<rparr> = length (am_transitions m)"
proof -
  have "takeWhile (\<lambda>(a, b). f a = f b) (zip xs (xs @ ys)) = zip xs xs" for f :: "DeviceAuthorityTransition \<Rightarrow> bytes" and xs ys
    by (induction xs) auto
  then show ?thesis by (simp add: common_prefix_len_def)
qed

lemma authority_appendD:
  assumes "authority_append C m t = Inr m'"
  shows "authority_verify C m = Inr () \<and> authority_verify C m' = Inr () \<and> m' = \<lparr>am_transitions = am_transitions m @ [t]\<rparr>
    \<and> verify_transition C (head_transition m) t True = Inr () \<and> length (am_transitions m) < 64"
  using assms by (auto simp: authority_append_def Let_def result_simps)

lemma generation_no_wrap:
  assumes "authority_verify C m = Inr ()"
  shows "unat (authority_generation m) \<le> 64"
  using chain_counters [OF assms, of "length (am_transitions m) - 1"] verified_genesis [OF assms]
  by (simp add: authority_generation_def head_transition_def last_conv_nth)

lemma epoch_no_wrap:
  assumes "authority_verify C m = Inr ()"
  shows "unat (authority_recovery_epoch m) < 64"
proof -
  have n: "am_transitions m \<noteq> []" "length (am_transitions m) \<le> 64" using verified_genesis [OF assms] by auto
  let ?i = "length (am_transitions m) - 1" and ?r = "filter (\<lambda>t. at_kind t = Recovery)"
  have h: "head_transition m = am_transitions m ! ?i" using n by (simp add: head_transition_def last_conv_nth)
  have "am_transitions m ! 0 \<notin> set (?r (am_transitions m))" using verified_genesis [OF assms] by simp
  then have "length (?r (am_transitions m)) < length (am_transitions m)"
    using n(1) length_filter_less [of "am_transitions m ! 0" "am_transitions m"] by simp
  then show ?thesis using chain_counters [OF assms, of ?i] n by (simp add: authority_recovery_epoch_def h)
qed

text \<open>
  What was appended is seen as newer: a device that still holds the shorter proof sees an ordinary
  extension as a descendant and a recovery as superseding.
\<close>

theorem append_seen_as_newer:
  assumes "authority_append C m t = Inr m'" "transition_hash C t \<noteq> authority_state_id C m"
  shows "relation C m m' = Inr (if at_kind t = Recovery then RecoverySupersedes else Descendant)"
proof -
  note d = authority_appendD [OF assms(1)]
  have n: "am_transitions m \<noteq> []" using authority_verify_nonempty d by blast
  have h: "head_transition m' = t" using d by (simp add: head_transition_def)
  have base: "authority_verify C m = Inr ()" "authority_verify C m' = Inr ()" "manifest_account m' = manifest_account m"
    "authority_state_id C m' \<noteq> authority_state_id C m"
    using d n assms(2) h by (auto simp: manifest_account_def nth_append authority_state_id_def)
  have e: "authority_recovery_epoch m' = (if at_kind t = Recovery then next_or_zero (authority_recovery_epoch m)
      else authority_recovery_epoch m)"
    using transition_epoch [of C "head_transition m" t True] d h by (simp add: authority_recovery_epoch_def)
  have c: "common_prefix_len C m m' = length (am_transitions m)" using common_prefix_append d by simp
  have "unat (next_or_zero (authority_recovery_epoch m)) = unat (authority_recovery_epoch m) + 1"
    using epoch_no_wrap [OF base(1)] by (intro next_or_zero_unat) simp
  then have up: "authority_recovery_epoch m < next_or_zero (authority_recovery_epoch m)" by (simp add: word_less_nat_alt)
  have "recovery_anchor C m' x = recovery_anchor C m x" if "at_kind t \<noteq> Recovery" for x
  proof -
    have f: "find P (ts @ [u]) = find P ts" if "\<not> P u" for P ts and u :: DeviceAuthorityTransition
      using that by (induction ts) auto
    show ?thesis using that d n by (auto simp: recovery_anchor_def f split: list.splits)
  qed
  then show ?thesis using base base(4) [symmetric] e up less_not_sym [OF up] less_imp_neq [OF up] c by (simp add: relation_def)
qed

text \<open>
  Revocation is permanent along a verified proof: a row keeps its certificate, its observation time never
  falls, and a revocation time or counter cutoff, once set, stays what it is, through recoveries too.
\<close>

theorem authority_revocation_permanent:
  assumes "authority_verify C m = Inr ()" "i \<le> j" "j < length (am_transitions m)"
    and "e \<in> set (at_devices (am_transitions m ! i))"
  shows "\<exists>e'\<in>set (at_devices (am_transitions m ! j)). ae_certificate e' = ae_certificate e \<and> ae_last_seen e \<le> ae_last_seen e'
    \<and> (\<forall>r. ae_revoked_at e = Some r \<longrightarrow> ae_revoked_at e' = Some r)
    \<and> (\<forall>c. ae_revoked_after_counter e = Some c \<longrightarrow> ae_revoked_after_counter e' = Some c)"
  using chain_rows_forward [OF assms(1,3,2,4)] by (fastforce simp: row_forward_def is_active_def)

section \<open>Recovery by the offline root\<close>

lemma chain_account:
  assumes "authority_verify C m = Inr ()" "i < length (am_transitions m)"
  shows "at_account (am_transitions m ! i) = manifest_account m"
  using assms(2)
proof (induction i)
  case 0
  then show ?case by (simp add: manifest_account_def)
next
  case (Suc i)
  then show ?case using verified_step [OF assms(1), of i] by (simp add: verify_transition_iff)
qed

lemma head_account: "authority_verify C m = Inr () \<Longrightarrow> at_account (head_transition m) = manifest_account m"
  using chain_account [of C m "length (am_transitions m) - 1"] authority_verify_nonempty [of C m]
  by (simp add: head_transition_def last_conv_nth)

lemma head_verified: "authority_verify C m = Inr () \<Longrightarrow> validate_transition_common C (head_transition m) = Inr ()"
  using verified_states [of C m] authority_verify_nonempty [of C m] by (simp add: head_transition_def)

lemma fill_nonzero_16_ends:
  assumes "\<forall>n. \<exists>k\<ge>n. draws k \<noteq> zeros 16"
  shows "\<exists>v j. fill_nonzero_16 draws i = Some (v, j) \<and> v \<noteq> zeros 16"
proof -
  obtain r where r: "draw_serial draws i = Some r" using assms draw_serial_terminates [of draws i] by blast
  with draw_serial_value [OF r] show ?thesis by (cases r) (auto simp: fill_nonzero_16_def)
qed

lemma authority_issue_ok:
  assumes "sound_signatures C" "identity_verify C acct = Inr ()" "\<forall>n. \<exists>k\<ge>n. draws k \<noteq> zeros 16"
  shows "\<exists>c j. authority_issue C acct device at draws i = Some (Inr c, j) \<and> authority_cert_verify C c = Inr ()
    \<and> ac_account c = acct \<and> ac_device c = identity_public C device \<and> ac_issued_at c = at"
proof -
  obtain s j where s: "fill_nonzero_16 draws i = Some (s, j)" "s \<noteq> zeros 16" using fill_nonzero_16_ends [OF assms(3)] by blast
  have c: "authority_cert_canonical (c\<lparr>ac_device_signature := g\<rparr>) = authority_cert_canonical c" for c g
    by (simp add: authority_cert_canonical_def)
  show ?thesis
    using s assms(2) identity_public_verifies [OF assms(1)] verify_sign_domain [OF assms(1)]
    by (simp add: authority_issue_def authority_issue_with_serial_def authority_cert_verify_def Let_def c
        authority_cert_canonical_def)
qed

definition revoke_row :: "u64 \<Rightarrow> DeviceAuthorityEntry \<Rightarrow> DeviceAuthorityEntry" where
  "revoke_row at e =
     (if is_active e
      then e\<lparr>ae_revoked_at := Some (max at (ac_issued_at (ae_certificate e))), ae_revoked_after_counter := Some 0\<rparr> else e)"

definition recovery_row :: "DeviceAuthorityCertificate \<Rightarrow> bytes \<Rightarrow> u64 \<Rightarrow> DeviceAuthorityEntry" where
  "recovery_row cert nm at =
     \<lparr>ae_certificate = cert, ae_name = nm, ae_last_seen = at, ae_revoked_at = None, ae_revoked_after_counter = None\<rparr>"

lemma recovered_rows_eq: "recovered_rows es cert nm at = sort_key ae_id (map (revoke_row at) es @ [recovery_row cert nm at])"
  by (simp add: recovered_rows_def revoke_row_def [abs_def] recovery_row_def)

lemma revoke_row_simps [simp]:
  "ae_certificate (revoke_row at e) = ae_certificate e" "\<not> is_active (revoke_row at e)" "ae_name (revoke_row at e) = ae_name e"
  "ae_last_seen (revoke_row at e) = ae_last_seen e"
  by (simp_all add: revoke_row_def is_active_def)

lemma recovery_row_simps [simp]: "ae_certificate (recovery_row c nm at) = c" "is_active (recovery_row c nm at)"
  by (simp_all add: recovery_row_def is_active_def)

lemma rows_set: "set (recovered_rows es cert nm at) = insert (recovery_row cert nm at) (revoke_row at ` set es)"
  by (auto simp: recovered_rows_eq)

lemma rows_sorted:
  assumes "distinct (map ae_id es)" "\<forall>e\<in>set es. ae_id e \<noteq> authority_device_id cert"
  shows "sorted_wrt (<) (map ae_id (recovered_rows es cert nm at))"
proof -
  have "distinct (map ae_id (map (revoke_row at) es @ [recovery_row cert nm at]))" using assms by (auto simp: comp_def)
  then have "distinct (map ae_id (recovered_rows es cert nm at))"
    unfolding recovered_rows_eq by (metis distinct_map distinct_sort set_sort)
  then show ?thesis by (simp add: strict_sorted_iff recovered_rows_eq)
qed

lemma rows_active: "filter is_active (recovered_rows es cert nm at) = [recovery_row cert nm at]"
proof -
  have "filter is_active (map (revoke_row at) es) = []" by (induction es) auto
  then show ?thesis by (simp add: recovered_rows_eq filter_sort)
qed

lemma rows_introduced:
  assumes "\<forall>e\<in>set es. ae_id e \<noteq> authority_device_id cert"
  shows "introduced_certificates es (recovered_rows es cert nm at) = [cert]"
proof -
  have "filter (\<lambda>e. \<not> list_ex (\<lambda>old. ae_id old = ae_id e) es) (map (revoke_row at) es) = []"
    by (auto simp: filter_empty_conv list_ex_iff)
  moreover have "\<not> list_ex (\<lambda>old. ae_id old = authority_device_id cert) es" using assms by (auto simp: list_ex_iff)
  ultimately show ?thesis by (simp add: introduced_certificates_def recovered_rows_eq filter_sort)
qed

lemma rows_find:
  assumes "distinct (map ae_id es)" "\<forall>e\<in>set es. ae_id e \<noteq> authority_device_id cert"
  shows "e \<in> set es \<Longrightarrow> find_entry (ae_id e) (recovered_rows es cert nm at) = Some (revoke_row at e)"
    and "find_entry (authority_device_id cert) (recovered_rows es cert nm at) = Some (recovery_row cert nm at)"
proof -
  have d: "distinct (map ae_id (recovered_rows es cert nm at))" using rows_sorted [OF assms] by (simp add: strict_sorted_iff)
  show "find_entry (authority_device_id cert) (recovered_rows es cert nm at) = Some (recovery_row cert nm at)"
    using find_distinct [OF d, of "recovery_row cert nm at"] by (simp add: rows_set find_entry_def)
  show "find_entry (ae_id e) (recovered_rows es cert nm at) = Some (revoke_row at e)" if "e \<in> set es"
    using find_distinct [OF d, of "revoke_row at e"] that by (simp add: rows_set find_entry_def)
qed

lemma recovery_transition_verifies:
  assumes "sound_signatures C" "authority_verify C m = Inr ()" "identity_public C root = manifest_account m"
    and "length (authority_devices m) < 64" "\<forall>e\<in>set (authority_devices m). ae_id e \<noteq> authority_device_id cert"
    and "authority_cert_verify C cert = Inr ()" "ac_account cert = manifest_account m" "ac_issued_at cert = at"
    and "nm \<noteq> []" "length nm \<le> 64" "tid \<noteq> zeros 16" "rid \<noteq> zeros 16"
    and t: "t = \<lparr>at_version = 2, at_account = manifest_account m, at_parent_hash = transition_hash C (head_transition m),
      at_parent_generation = at_generation (head_transition m), at_generation = next_or_zero (at_generation (head_transition m)),
      at_recovery_epoch = next_or_zero (at_recovery_epoch (head_transition m)), at_transition_id = tid,
      at_recovery_id = Some rid, at_kind = Recovery, at_devices = recovered_rows (authority_devices m) cert nm at,
      at_new_certificates = [cert], at_authorization = Root x\<rparr>"
    and sig: "x = sign_domain C root ROOT_TRANSITION_DOMAIN (transition_canonical (t\<lparr>at_authorization := Root y\<rparr>))"
  shows "verify_transition C (head_transition m) t q = Inr ()"
proof -
  let ?es = "authority_devices m" and ?rows = "recovered_rows (authority_devices m) cert nm at"
  have h: "good_state C (head_transition m)" "identity_verify C (manifest_account m) = Inr ()"
    using head_verified [OF assms(2)] head_account [OF assms(2)] by (auto simp: validate_transition_common_iff)
  have d: "distinct (map ae_id ?es)" using good_state_distinct [OF h(1)] by (simp add: authority_devices_def)
  have good: "\<forall>e\<in>set ?es. good_row C (manifest_account m) e"
    using h(1) head_account [OF assms(2)] by (simp add: good_state_def authority_devices_def)
  then have "\<forall>e\<in>set ?rows. good_row C (manifest_account m) e"
    using assms(6-10) by (auto simp: rows_set good_row_def revoke_row_def recovery_row_def is_active_def)
  then have state: "good_state C t"
    using rows_sorted [OF d assms(5)] by (simp add: good_state_def t authority_active_count_def rows_active)
  have len: "length ?rows = Suc (length ?es)" by (simp add: recovered_rows_eq)
  have common: "validate_transition_common C t = Inr ()"
    unfolding validate_transition_common_iff using state h(2) len assms(4,6,7,11) by (auto simp: t)
  have cont: "list_all (continues_row ?rows) ?es"
    using rows_find(1) [OF d assms(5)] good by (auto simp: list_all_iff continues_row_def revoke_row_def is_active_def good_row_def)
  have rec: "list_all (recovered_row ?rows) ?es"
    using rows_find(1) [OF d assms(5)] by (auto simp: list_all_iff recovered_row_def) (simp add: revoke_row_def)
  have "verify_recovery C (head_transition m) t = Inr ()"
    using rec len rows_find(2) [OF d assms(5)] assms(12) verify_sign_domain [OF assms(1), of root] sig assms(3)
    by (simp add: verify_recovery_def validate_recovery_difference_def t authority_devices_def [symmetric]
        authority_active_count_def rows_active transition_canonical_def)
  then show ?thesis
    using common cont rows_introduced [OF assms(5)] head_account [OF assms(2)]
    by (simp add: verify_transition_iff t authority_devices_def [symmetric])
qed

lemma recover_ok:
  assumes "sound_signatures C" "authority_verify C m = Inr ()" "identity_public C root = manifest_account m"
    and "length (am_transitions m) < 64" "length (authority_devices m) < 64"
    and "\<forall>e\<in>set (authority_devices m). ae_id e \<noteq> id_ed (identity_public C device)"
    and "nm \<noteq> []" "length nm \<le> 64" "\<forall>n. \<exists>k\<ge>n. draws k \<noteq> zeros 16"
  shows "\<exists>m' j. authority_recover C m root device nm at draws i = Some (Inr m', j) \<and> authority_verify C m' = Inr ()
    \<and> unat (authority_recovery_epoch m') = unat (authority_recovery_epoch m) + 1
    \<and> map ae_certificate (filter is_active (authority_devices m')) = at_new_certificates (head_transition m')
    \<and> map ac_device (at_new_certificates (head_transition m')) = [identity_public C device]"
proof -
  let ?p = "head_transition m"
  have acct: "identity_verify C (manifest_account m) = Inr ()" using identity_public_verifies [OF assms(1)] assms(3) by metis
  obtain cert i1 where c: "authority_issue C (manifest_account m) device at draws i = Some (Inr cert, i1)"
    "authority_cert_verify C cert = Inr ()" "ac_account cert = manifest_account m" "ac_device cert = identity_public C device"
    "ac_issued_at cert = at" using authority_issue_ok [OF assms(1) acct assms(9)] by blast
  obtain tid i2 where tid: "fill_nonzero_16 draws i1 = Some (tid, i2)" "tid \<noteq> zeros 16"
    using fill_nonzero_16_ends [OF assms(9)] by blast
  obtain rid i3 where rid: "fill_nonzero_16 draws i2 = Some (rid, i3)" "rid \<noteq> zeros 16"
    using fill_nonzero_16_ends [OF assms(9)] by blast
  have fresh: "\<forall>e\<in>set (authority_devices m). ae_id e \<noteq> authority_device_id cert" using assms(6) c(4) by (simp add: authority_device_id_def)
  then have fresh': "\<not> list_ex (\<lambda>e. ae_id e = authority_device_id cert) (authority_devices m)" by (auto simp: list_ex_iff)
  have bound: "unat (at_generation ?p) < 2 ^ 64 - 1" "unat (at_recovery_epoch ?p) < 2 ^ 64 - 1"
    using generation_no_wrap [OF assms(2)] epoch_no_wrap [OF assms(2)] by (simp_all add: authority_generation_def authority_recovery_epoch_def)
  then have add: "checked_add (at_generation ?p) 1 = Some (next_or_zero (at_generation ?p))"
    "checked_add (at_recovery_epoch ?p) 1 = Some (next_or_zero (at_recovery_epoch ?p))"
    by (simp_all add: next_or_zero_def checked_add_def)
  define t0 where "t0 = \<lparr>at_version = 2, at_account = manifest_account m, at_parent_hash = transition_hash C ?p,
      at_parent_generation = at_generation ?p, at_generation = next_or_zero (at_generation ?p),
      at_recovery_epoch = next_or_zero (at_recovery_epoch ?p), at_transition_id = tid,
      at_recovery_id = Some rid, at_kind = Recovery, at_devices = recovered_rows (authority_devices m) cert nm at,
      at_new_certificates = [cert], at_authorization = Root (zeros 64)\<rparr>"
  define x where "x = sign_domain C root ROOT_TRANSITION_DOMAIN (transition_canonical t0)"
  define t where "t = t0\<lparr>at_authorization := Root x\<rparr>"
  have "verify_transition C ?p t True = Inr ()"
    by (rule recovery_transition_verifies [OF assms(1-3,5) fresh c(2,3,5) assms(7,8) tid(2) rid(2), where x = x and y = "zeros 64"])
      (simp_all add: t_def t0_def x_def)
  from authority_append_ok [OF assms(2,4) this] have app: "authority_append C m t = Inr \<lparr>am_transitions = am_transitions m @ [t]\<rparr>" .
  have "authority_recover C m root device nm at draws i = Some (authority_append C m t, i3)"
    using assms(2-5) c(1) tid(1) rid(1) fresh' add by (simp add: authority_recover_def Let_def t_def t0_def x_def)
  then show ?thesis
    using app authority_appendD [OF app] next_or_zero_unat [OF bound(2)] c(4)
    by (simp add: head_transition_def authority_recovery_epoch_def authority_devices_def t_def t0_def rows_active)
qed

lemma recoverD:
  assumes "authority_recover C m root device nm at draws i = Some (Inr m', j)"
  obtains cert t k where "authority_append C m t = Inr m'" "at_devices t = recovered_rows (authority_devices m) cert nm at"
    "authority_issue C (manifest_account m) device at draws i = Some (Inr cert, k)" "length (authority_devices m) < 64"
    "\<forall>e\<in>set (authority_devices m). ae_id e \<noteq> authority_device_id cert"
proof -
  have guards: "authority_verify C m = Inr ()" "identity_public C root = manifest_account m"
    "length (am_transitions m) < 64" "length (authority_devices m) < 64"
    using assms by (auto simp: authority_recover_def not_le split: sum.splits if_splits)
  then obtain issued i1 where i: "authority_issue C (manifest_account m) device at draws i = Some (issued, i1)"
    using assms by (auto simp: authority_recover_def bind_eq_Some_conv)
  then obtain cert where c: "issued = Inr cert" using assms guards by (cases issued) (auto simp: authority_recover_def)
  have fresh: "\<not> list_ex (\<lambda>e. ae_id e = authority_device_id cert) (authority_devices m)"
    using assms guards i unfolding c authority_recover_def by (auto split: if_splits)
  then obtain t where "authority_append C m t = Inr m'" "at_devices t = recovered_rows (authority_devices m) cert nm at"
    using assms guards i unfolding c authority_recover_def Let_def by (auto simp: bind_eq_Some_conv result_simps)
  then show thesis using that i c guards(4) fresh by (auto simp: list_ex_iff)
qed

lemma issued_device: "authority_issue C acct device at draws i = Some (Inr c, j) \<Longrightarrow> ac_device c = identity_public C device"
  by (auto simp: authority_issue_def authority_issue_with_serial_def Let_def result_simps split: sum.splits if_splits)

lemma recover_returns:
  assumes "sound_signatures C" "identity_public C root = manifest_account m" "\<forall>n. \<exists>k\<ge>n. draws k \<noteq> zeros 16"
  shows "\<exists>r. authority_recover C m root device nm at draws i = Some r"
proof -
  have acct: "identity_verify C (manifest_account m) = Inr ()" using identity_public_verifies [OF assms(1)] assms(2) by metis
  obtain cert i1 where c: "authority_issue C (manifest_account m) device at draws i = Some (Inr cert, i1)"
    using authority_issue_ok [OF assms(1) acct assms(3)] by blast
  obtain tid i2 where "fill_nonzero_16 draws i1 = Some (tid, i2)" using fill_nonzero_16_ends [OF assms(3)] by blast
  moreover obtain rid i3 where "fill_nonzero_16 draws i2 = Some (rid, i3)" using fill_nonzero_16_ends [OF assms(3)] by blast
  ultimately show ?thesis using c assms(2) by (simp add: authority_recover_def Let_def split: sum.splits)
qed

lemma recover_limits:
  assumes "authority_recover C m root device nm at draws i = Some (Inr m', j)"
  shows "length (am_transitions m) < 64 \<and> length (authority_devices m) < 64
    \<and> (\<forall>e\<in>set (authority_devices m). ae_id e \<noteq> id_ed (identity_public C device)) \<and> nm \<noteq> [] \<and> length nm \<le> 64"
proof -
  obtain cert t k where t: "authority_append C m t = Inr m'" "at_devices t = recovered_rows (authority_devices m) cert nm at"
    "authority_issue C (manifest_account m) device at draws i = Some (Inr cert, k)" "length (authority_devices m) < 64"
    "\<forall>e\<in>set (authority_devices m). ae_id e \<noteq> authority_device_id cert"
    using recoverD [OF assms] by metis
  have "good_state C t" using authority_appendD [OF t(1)] by (auto simp: verify_transition_iff validate_transition_common_iff)
  then have "good_row C (at_account t) (recovery_row cert nm at)" by (simp add: good_state_def t(2) rows_set)
  then have "nm \<noteq> [] \<and> length nm \<le> 64" by (simp add: good_row_def) (simp add: recovery_row_def)
  then show ?thesis
    using authority_appendD [OF t(1)] t(4,5) issued_device [OF t(3)] by (simp add: authority_device_id_def)
qed

text \<open>
  C13. When recovery works, and what it gives. For the holder of the root key of a verified account, recovery always
  returns. It succeeds exactly when the chain and the table have room for one more entry (fewer than 64 transitions and
  fewer than 64 rows), the device is not in the table, and its name has 1 to 64 bytes; the result then is a verified
  proof of the next epoch in which that device, and no other, is active.
\<close>

theorem recovery_takes_over:
  assumes "sound_signatures C" "authority_verify C m = Inr ()" "identity_public C root = manifest_account m"
    and "\<forall>n. \<exists>k\<ge>n. draws k \<noteq> zeros 16"
  shows "\<exists>r j. authority_recover C m root device nm at draws i = Some (r, j)
    \<and> ((\<exists>m'. r = Inr m') \<longleftrightarrow>
         length (am_transitions m) < 64 \<and> length (authority_devices m) < 64
         \<and> (\<forall>e\<in>set (authority_devices m). ae_id e \<noteq> id_ed (identity_public C device)) \<and> nm \<noteq> [] \<and> length nm \<le> 64)
    \<and> (\<forall>m'. r = Inr m' \<longrightarrow> authority_verify C m' = Inr ()
         \<and> unat (authority_recovery_epoch m') = unat (authority_recovery_epoch m) + 1
         \<and> map ae_certificate (filter is_active (authority_devices m')) = at_new_certificates (head_transition m')
         \<and> map ac_device (at_new_certificates (head_transition m')) = [identity_public C device])"
proof -
  obtain r j where r: "authority_recover C m root device nm at draws i = Some (r, j)"
    using recover_returns [OF assms(1,3,4)] by (metis prod.exhaust)
  show ?thesis
  proof (cases r)
    case (Inl e)
    then show ?thesis using r recover_ok [OF assms(1-3) _ _ _ _ _ assms(4), of device nm at i] by auto
  next
    case (Inr m')
    note l = recover_limits [OF r [unfolded Inr]]
    then show ?thesis using r Inr recover_ok [OF assms(1-3) _ _ _ _ _ assms(4), of device nm at i] by auto
  qed
qed

section \<open>A concrete account\<close>

definition toy_device :: Identity where "toy_device = \<lparr>signing = [3], agreement = [4]\<rparr>"

definition toy_certificate :: DeviceAuthorityCertificate where
  "toy_certificate = \<lparr>ac_account = identity_public toy_prims toy_account, ac_device = identity_public toy_prims toy_device,
     ac_serial = [9], ac_issued_at = 0, ac_device_signature = []\<rparr>"

definition toy_row :: "bytes \<Rightarrow> DeviceAuthorityEntry" where
  "toy_row nm = recovery_row toy_certificate nm 0"

definition toy_genesis :: DeviceAuthorityTransition where
  "toy_genesis = \<lparr>at_version = 2, at_account = identity_public toy_prims toy_account, at_parent_hash = zeros 32,
     at_parent_generation = 0, at_generation = 1, at_recovery_epoch = 0, at_transition_id = [9], at_recovery_id = None,
     at_kind = Genesis, at_devices = [toy_row [0x61]], at_new_certificates = [toy_certificate],
     at_authorization = Root []\<rparr>"

definition toy_child :: "bytes \<Rightarrow> DeviceAuthoritySignature list \<Rightarrow> DeviceAuthorityTransition" where
  "toy_child nm sigs = \<lparr>at_version = 2, at_account = identity_public toy_prims toy_account,
     at_parent_hash = transition_hash toy_prims toy_genesis, at_parent_generation = 1, at_generation = 2, at_recovery_epoch = 0,
     at_transition_id = [9], at_recovery_id = None, at_kind = RenameDevice, at_devices = [toy_row nm],
     at_new_certificates = [], at_authorization = Devices sigs\<rparr>"

abbreviation toy_approval :: DeviceAuthoritySignature where "toy_approval \<equiv> \<lparr>as_signer = [3], as_signature = [3]\<rparr>"

abbreviation toy_first :: DeviceAuthorityManifest where "toy_first \<equiv> \<lparr>am_transitions = [toy_genesis]\<rparr>"

abbreviation toy_second :: "bytes \<Rightarrow> DeviceAuthorityManifest" where
  "toy_second nm \<equiv> \<lparr>am_transitions = [toy_genesis, toy_child nm [toy_approval]]\<rparr>"

lemma toy_certificate_simps [simp]:
  "authority_device_id toy_certificate = [3]" "ac_device toy_certificate = identity_public toy_prims toy_device"
  by (simp_all add: toy_certificate_def authority_device_id_def identity_public_def toy_device_def)

lemma toy_row_simps [simp]:
  "ae_certificate (toy_row nm) = toy_certificate" "is_active (toy_row nm)" "ae_name (toy_row nm) = nm" "ae_last_seen (toy_row nm) = 0"
  by (simp_all add: toy_row_def) (simp_all add: recovery_row_def)

lemma toy_row_good: "nm \<noteq> [] \<Longrightarrow> length nm \<le> 64 \<Longrightarrow> good_row toy_prims (identity_public toy_prims toy_account) (toy_row nm)"
  using nine_not_zeros by (simp add: good_row_def toy_row_def recovery_row_def toy_certificate_def authority_cert_verify_def)

lemma toy_genesis_verifies: "authority_verify toy_prims toy_first = Inr ()"
proof -
  have "validate_transition_common toy_prims toy_genesis = Inr ()"
    using toy_row_good [of "[0x61]"] nine_not_zeros
    by (simp add: validate_transition_common_iff good_state_def toy_genesis_def authority_active_count_def) (simp add: good_row_def)
  then show ?thesis by (simp add: authority_verify_iff verify_genesis_def) (simp add: toy_genesis_def)
qed

lemma toy_child_verifies:
  assumes "nm \<noteq> []" "length nm \<le> 64" "nm \<noteq> [0x61]" "sigs = [] \<or> sigs = [toy_approval]"
  shows "verify_transition toy_prims toy_genesis (toy_child nm sigs) (sigs \<noteq> []) = Inr ()"
proof -
  have c: "validate_transition_common toy_prims (toy_child nm sigs) = Inr ()"
    using toy_row_good [OF assms(1,2)] nine_not_zeros
    by (simp add: validate_transition_common_iff good_state_def toy_child_def authority_active_count_def)
  have n: "next_or_zero 1 = 2" by (simp add: next_or_zero_def checked_add_def)
  have k: "list_all (continues_row [toy_row nm]) [toy_row [0x61]]"
    by (simp add: continues_row_def find_entry_def) (simp add: toy_row_def recovery_row_def)
  have ne: "toy_row nm \<noteq> toy_row [0x61]" using assms(3) by (metis toy_row_simps(3))
  have up: "(toy_row [0x61])\<lparr>ae_name := nm\<rparr> = toy_row nm" by (simp add: toy_row_def recovery_row_def)
  have "verify_ordinary toy_prims toy_genesis (toy_child nm sigs) (sigs \<noteq> []) = Inr ()"
    using assms(3,4) ne up
    by (auto simp: verify_ordinary_iff toy_child_def toy_genesis_def validate_ordinary_difference_def find_entry_def row_change_def
        authority_active_count_def signature_ok_def find_active_def)
  then show ?thesis using c k n
    by (simp add: verify_transition_iff) (simp add: toy_child_def toy_genesis_def introduced_certificates_def)
qed

lemma toy_second_verifies: "nm \<noteq> [] \<Longrightarrow> length nm \<le> 64 \<Longrightarrow> nm \<noteq> [0x61] \<Longrightarrow> authority_verify toy_prims (toy_second nm) = Inr ()"
  using toy_genesis_verifies toy_child_verifies [of nm "[toy_approval]"] by (simp add: authority_verify_iff)

theorem fork_needs_double_signer_witness:
  "\<exists>e\<in>set (at_devices toy_genesis). is_active e \<and> signed_by toy_prims e (toy_child [0x62] [toy_approval])
     \<and> signed_by toy_prims e (toy_child [0x63] [toy_approval])"
  using fork_needs_double_signer [of toy_prims "[]" toy_genesis "toy_child [0x62] [toy_approval]" "[]"
      "toy_child [0x63] [toy_approval]" "[]"] toy_second_verifies [of "[0x62]"] toy_second_verifies [of "[0x63]"]
  by (simp add: toy_child_def)

theorem authority_revocation_permanent_witness:
  "\<exists>e'\<in>set (at_devices (toy_child [0x62] [toy_approval])). ae_certificate e' = toy_certificate"
  using authority_revocation_permanent [OF toy_second_verifies [of "[0x62]"], of 0 1 "toy_row [0x61]"]
  by (auto simp: toy_genesis_def toy_child_def)

theorem chain_counters_exact_witness:
  "unat (at_generation (am_transitions (toy_second [0x62]) ! 1)) = 2"
  using chain_counters_exact [OF toy_second_verifies [of "[0x62]"], of 1] by simp

lemma toy_proposes: "proposes toy_prims toy_first (toy_child [0x62] [])"
proof (rule proposes_rename)
  have f: "fill_nonzero_16 (\<lambda>_. [9]) 0 = Some ([9], 1)"
    unfolding fill_nonzero_16_def using nine_not_zeros by (subst draw_serial.simps) simp
  have c: "checked_add (1 :: u64) 1 = Some 2" by (simp add: checked_add_def)
  have up: "(toy_row [0x61])\<lparr>ae_name := [0x62]\<rparr> = toy_row [0x62]" by (simp add: toy_row_def recovery_row_def)
  have h: "head_transition toy_first = toy_genesis" "manifest_account toy_first = identity_public toy_prims toy_account"
    "at_devices toy_genesis = [toy_row [0x61]]" "at_generation toy_genesis = 1" "at_recovery_epoch toy_genesis = 0"
    by (simp_all add: head_transition_def manifest_account_def toy_genesis_def)
  show "propose_rename_device toy_prims toy_first [3] [0x62] (\<lambda>_. [9]) 0 = Some (Inr (toy_child [0x62] []), 1)"
    using toy_genesis_verifies toy_child_verifies [of "[0x62]" "[]"] f
    by (simp add: propose_rename_device_def edit_active_def authority_devices_def h up ordinary_proposal_def c
        toy_child_def [of "[0x62]" "[]", symmetric])
qed

theorem majority_appends_witness:
  "\<exists>approvals t' m'. list_all2 (\<lambda>i a. approve_transition toy_prims toy_first (toy_child [0x62] []) i = Inr a) [toy_device] approvals
     \<and> merge_all toy_prims toy_first (toy_child [0x62] []) approvals = (t', Inr ())
     \<and> has_quorum toy_prims toy_first t' = Inr True \<and> authority_append toy_prims toy_first t' = Inr m'
     \<and> am_transitions m' = am_transitions toy_first @ [t']"
proof -
  have d: "authority_devices toy_first = [toy_row [0x61]]" by (simp add: authority_devices_def head_transition_def toy_genesis_def)
  have "active_signer toy_prims toy_first toy_device"
    by (simp add: active_signer_def active_certificate_def find_active_def d) (simp add: identity_public_def toy_device_def)
  moreover have "quorum_threshold toy_first \<le> 1" by (simp add: quorum_threshold_def d authority_active_count_def)
  ultimately show ?thesis using majority_appends [OF toy_sound(1) toy_proposes, of "[toy_device]"] by simp
qed

theorem refused_approval_poisons_witness:
  "\<exists>t' e. merge_approval toy_prims toy_first (toy_child [0x62] []) \<lparr>as_signer = [8], as_signature = []\<rparr> = (t', Inl e)
     \<and> (\<exists>e. authority_append toy_prims toy_first (fst (merge_approval toy_prims toy_first t' toy_approval)) = Inl e)"
proof -
  have "\<not> signature_ok toy_prims (authority_devices toy_first) (transition_canonical (toy_child [0x62] []))
      \<lparr>as_signer = [8], as_signature = []\<rparr>"
    by (simp add: signature_ok_def find_active_def authority_devices_def head_transition_def toy_genesis_def)
  from refused_approval_poisons [OF toy_genesis_verifies _ _ this, of "[]"]
  obtain t' e where "merge_approval toy_prims toy_first (toy_child [0x62] []) \<lparr>as_signer = [8], as_signature = []\<rparr> = (t', Inl e)"
    and all: "\<And>bs. \<exists>e2. authority_append toy_prims toy_first (foldl (\<lambda>t b. fst (merge_approval toy_prims toy_first t b)) t' bs) = Inl e2"
    by (auto simp: toy_child_def)
  with all [of "[toy_approval]"] show ?thesis by auto
qed

lemma toy_hashes_differ: "transition_hash toy_prims (toy_child nm sigs) \<noteq> transition_hash toy_prims toy_genesis"
proof -
  have "length (transition_hash toy_prims toy_genesis) < length (transition_hash toy_prims (toy_child nm sigs))"
    unfolding transition_hash_def [of _ "toy_child nm sigs"] by (simp add: transition_canonical_def) (simp add: toy_child_def)
  then show ?thesis by auto
qed

lemma toy_appends: "authority_append toy_prims toy_first (toy_child [0x62] [toy_approval]) = Inr (toy_second [0x62])"
  using authority_append_ok [OF toy_genesis_verifies, of "toy_child [0x62] [toy_approval]"] toy_child_verifies [of "[0x62]" "[toy_approval]"]
  by (simp add: head_transition_def)

theorem append_seen_as_newer_witness: "relation toy_prims toy_first (toy_second [0x62]) = Inr Descendant"
  using append_seen_as_newer [OF toy_appends] toy_hashes_differ [of "[0x62]"]
  by (simp add: authority_state_id_def head_transition_def) (simp add: toy_child_def)

theorem relation_mirrored_witness: "relation toy_prims (toy_second [0x62]) toy_first = Inr Stale"
proof -
  have e: "at_recovery_epoch toy_genesis = 0" "at_recovery_epoch (toy_child nm sigs) = 0" for nm sigs
    by (simp_all add: toy_genesis_def toy_child_def)
  have "relation toy_prims toy_first (toy_second [0x62]) = Inr Descendant"
    using toy_genesis_verifies toy_second_verifies [of "[0x62]"] toy_hashes_differ [of "[0x62]" "[toy_approval]"]
      common_prefix_append [of toy_prims toy_first "toy_child [0x62] [toy_approval]"]
    by (auto simp: relation_def manifest_account_def authority_state_id_def head_transition_def authority_recovery_epoch_def e)
  from relation_mirrored [OF this] show ?thesis by simp
qed

theorem recovery_takes_over_witness:
  "\<exists>m' j. authority_recover toy_prims toy_first toy_account \<lparr>signing = [5], agreement = [6]\<rparr> [0x62] 7 (\<lambda>_. [9]) 0 = Some (Inr m', j)
     \<and> authority_verify toy_prims m' = Inr () \<and> unat (authority_recovery_epoch m') = 1"
proof -
  have d: "authority_devices toy_first = [toy_row [0x61]]" "authority_recovery_epoch toy_first = 0"
    "manifest_account toy_first = identity_public toy_prims toy_account"
    by (simp_all add: authority_devices_def head_transition_def toy_genesis_def authority_recovery_epoch_def manifest_account_def)
  have f: "id_ed (identity_public toy_prims \<lparr>signing = [5], agreement = [6]\<rparr>) = [5]" by (simp add: identity_public_def)
  have w: "\<forall>n. \<exists>k\<ge>n. (\<lambda>_. [9 :: u8]) (k :: nat) \<noteq> zeros 16" using nine_not_zeros by blast
  show ?thesis
    using recovery_takes_over [OF toy_sound(1) toy_genesis_verifies d(3) [symmetric] w, of "\<lparr>signing = [5], agreement = [6]\<rparr>" "[0x62]" 7 0]
      d f by auto
qed

end
