(* ===== verification/Authority_Sync.thy ===== *)
theory Authority_Sync
  imports Device_Sync Authority_Protocol
begin

text \<open>
  The version-two half of \<^verbatim>\<open>kult-protocol/src/device_sync.rs\<close>: synchronisation under the quorum authority of
  \<^verbatim>\<open>kult-crypto/src/device_authority.rs\<close>. The theorems compose the two: what the authority revokes, synchronisation
  refuses.
\<close>

section \<open>The quorum authority as seen by synchronisation\<close>

text \<open>\<^verbatim>\<open>impl DeviceSyncAuthority for DeviceAuthorityManifest\<close>.\<close>

definition quorum_authority :: "DeviceAuthorityManifest \<Rightarrow> SyncAuthority" where
  "quorum_authority m =
     \<lparr>sync_account_id = id_ed (manifest_account m), sync_generation = authority_generation m,
      sync_device = (\<lambda>dev. map_option (\<lambda>e. (ac_device (ae_certificate e), ae_revoked_after_counter e))
        (find_entry dev (authority_devices m)))\<rparr>"

section \<open>Bundles\<close>

record AuthorityDeviceSyncBundle =
  ab_sender :: bytes
  ab_recipient :: bytes
  ab_sequence :: u64
  ab_sealed :: bytes

type_synonym authority_payload = "DeviceAuthorityManifest \<times> DeviceSyncEvent list"

definition authority_bundle_seal ::
  "prims \<Rightarrow> (authority_payload \<Rightarrow> bytes option) \<Rightarrow> bytes \<Rightarrow> bytes \<Rightarrow> bytes \<Rightarrow> u64 \<Rightarrow> DeviceAuthorityManifest
     \<Rightarrow> DeviceSyncEvent list \<Rightarrow> bytes \<Rightarrow> AuthorityDeviceSyncBundle result" where
  "authority_bundle_seal C to_vec root s r q manifest events nonce =
     (if s = r \<or> q = 0 \<or> length events > MAX_DEVICE_SYNC_BUNDLE_EVENTS then Inl Malformed
      else try_then (case authority_verify C manifest of Inl _ \<Rightarrow> Inl Malformed | Inr _ \<Rightarrow> Inr ()) (\<lambda>_.
      if active_certificate manifest s = None \<or> \<not> list_ex (\<lambda>e. ae_id e = r) (authority_devices manifest) then Inl Malformed
      else try_then (verify_events C (quorum_authority manifest) events) (\<lambda>_.
      try_then (ok_or (to_vec (manifest, events)) Malformed) (\<lambda>plain.
      if length plain > MAX_DEVICE_SYNC_BUNDLE_BYTES then Inl TooLarge
      else Inr \<lparr>ab_sender = s, ab_recipient = r, ab_sequence = q,
                ab_sealed = storage_seal C root (authority_bundle_ad s r q) plain nonce\<rparr>))))"

definition authority_bundle_encode :: "(AuthorityDeviceSyncBundle \<Rightarrow> bytes option) \<Rightarrow> AuthorityDeviceSyncBundle \<Rightarrow> bytes result" where
  "authority_bundle_encode to_vec b =
     try_then (ok_or (to_vec b) Malformed) (\<lambda>out.
     if length out > MAX_DEVICE_SYNC_BUNDLE_BYTES + 256 then Inl TooLarge else Inr out)"

definition authority_bundle_decode ::
  "(bytes \<Rightarrow> (AuthorityDeviceSyncBundle \<times> bytes) option) \<Rightarrow> bytes \<Rightarrow> AuthorityDeviceSyncBundle result" where
  "authority_bundle_decode take_from b =
     (if length b > MAX_DEVICE_SYNC_BUNDLE_BYTES + 256 then Inl TooLarge
      else try_then (ok_or (take_from b) Malformed) (\<lambda>(bundle, remainder).
      if remainder \<noteq> [] \<or> ab_sender bundle = ab_recipient bundle \<or> ab_sequence bundle = 0
        \<or> length (ab_sealed bundle) > MAX_DEVICE_SYNC_BUNDLE_BYTES + 64
      then Inl Malformed else Inr bundle))"

definition authority_bundle_open ::
  "prims \<Rightarrow> (bytes \<Rightarrow> (authority_payload \<times> bytes) option) \<Rightarrow> AuthorityDeviceSyncBundle \<Rightarrow> bytes \<Rightarrow> bytes \<Rightarrow> bytes
     \<Rightarrow> authority_payload result" where
  "authority_bundle_open C take_from b root local_device expected_sender =
     (if ab_recipient b \<noteq> local_device \<or> ab_sender b \<noteq> expected_sender then Inl Malformed
      else try_then (case storage_open C root (authority_bundle_ad (ab_sender b) (ab_recipient b) (ab_sequence b)) (ab_sealed b) of
                       Inl _ \<Rightarrow> Inl Malformed | Inr p \<Rightarrow> Inr p) (\<lambda>plain.
      if length plain > MAX_DEVICE_SYNC_BUNDLE_BYTES then Inl TooLarge
      else try_then (ok_or (take_from plain) Malformed) (\<lambda>((manifest, events), remainder).
      if remainder \<noteq> [] \<or> length events > MAX_DEVICE_SYNC_BUNDLE_EVENTS then Inl Malformed
      else try_then (case authority_verify C manifest of Inl _ \<Rightarrow> Inl Malformed | Inr _ \<Rightarrow> Inr ()) (\<lambda>_.
      try_then (verify_events C (quorum_authority manifest) events) (\<lambda>_.
      Inr (manifest, events))))))"

text \<open>
  A bundle that was sealed and encoded decodes on the other side and opens there to exactly the proof and the events
  that were sealed: the size limits of the four steps agree.
\<close>

theorem authority_bundle_travels:
  assumes "sound_aead C" "length nonce = 24" "\<And>p out. to_vec p = Some out \<Longrightarrow> take_from out = Some (p, [])"
    and "\<And>b out. to_outer b = Some out \<Longrightarrow> take_outer out = Some (b, [])"
    and "authority_bundle_seal C to_vec root s r q manifest events nonce = Inr b" "authority_bundle_encode to_outer b = Inr wire"
  shows "authority_bundle_decode take_outer wire = Inr b
    \<and> authority_bundle_open C take_from b root r s = Inr (manifest, events)"
proof -
  from assms(5) obtain plain where n: "length events \<le> 4096" "length plain \<le> 16777216" "s \<noteq> r" "q \<noteq> 0"
    and m: "authority_verify C manifest = Inr ()" and e: "verify_events C (quorum_authority manifest) events = Inr ()"
    and p: "to_vec (manifest, events) = Some plain"
    and b: "b = \<lparr>ab_sender = s, ab_recipient = r, ab_sequence = q,
      ab_sealed = storage_seal C root (authority_bundle_ad s r q) plain nonce\<rparr>"
    by (force simp: authority_bundle_seal_def result_simps not_less split: sum.splits if_splits)
  have "length (ab_sealed b) \<le> 16777280"
    using assms(1,2) n(2) by (simp add: b storage_seal_def aead_seal_def sound_aead_def)
  then have "authority_bundle_decode take_outer wire = Inr b"
    using assms(4,6) n(3,4) by (auto simp: authority_bundle_encode_def authority_bundle_decode_def result_simps b split: if_splits)
  then show ?thesis
    using n m e assms(3) [OF p] aead_open_seal [OF assms(1,2)]
    by (simp add: authority_bundle_open_def b storage_seal_def storage_open_def)
qed

section \<open>Revocation and recovery reach synchronisation\<close>

lemma beyond_cutoff_refused:
  assumes "authority_verify C m = Inr ()" "e \<in> set (authority_devices m)" "ae_revoked_after_counter e = Some cutoff"
    and "author_device ev = ae_id e" "cutoff < counter ev"
  shows "sync_verify C (quorum_authority m) ev = Inl Malformed"
proof -
  have "distinct (map ae_id (authority_devices m))"
    using good_state_distinct [of C "head_transition m"] head_verified [OF assms(1)]
    by (simp add: validate_transition_common_iff authority_devices_def)
  from find_distinct [OF this assms(2)] have "find_entry (author_device ev) (authority_devices m) = Some e"
    by (simp add: find_entry_def assms(4))
  then show ?thesis using assms(3,5)
    by (auto simp: sync_verify_def quorum_authority_def validate_bounds_def)
qed

lemma resolved_verifies:
  assumes "bt_get (resolve_device_sync_events C A es) k = Some ev"
  shows "sync_verify C A ev = Inr ()"
proof -
  have "case bt_get (resolve_device_sync_events C A es) k of None \<Rightarrow> candidates C A (set es) k = {} | Some e \<Rightarrow> winner C A (set es) k e"
    using resolved_ok_resolve [of C A es] unfolding resolved_ok_def by blast
  then show ?thesis using assms by (simp add: winner_def candidates_def)
qed

text \<open>
  A counter cutoff is final: once some state of a verified proof revokes a device after a counter, no later event of
  that device verifies under the proof or any extension of it, nor appears in a resolved log.
\<close>

theorem cutoff_is_final:
  assumes "authority_verify C m = Inr ()" "i < length (am_transitions m)" "e \<in> set (at_devices (am_transitions m ! i))"
    and "ae_revoked_after_counter e = Some cutoff" "author_device ev = ae_id e" "cutoff < counter ev"
  shows "sync_verify C (quorum_authority m) ev = Inl Malformed
    \<and> bt_get (resolve_device_sync_events C (quorum_authority m) es) k \<noteq> Some ev"
proof -
  have "length (am_transitions m) - 1 < length (am_transitions m)" "i \<le> length (am_transitions m) - 1" using assms(2) by auto
  from chain_rows_forward [OF assms(1) this assms(3)] obtain e' where e': "e' \<in> set (authority_devices m)" "row_forward e e'"
    using authority_verify_nonempty [OF assms(1)] by (auto simp: authority_devices_def head_transition_def last_conv_nth)
  then have "ae_revoked_after_counter e' = Some cutoff" "ae_id e' = ae_id e" using assms(4) by (simp_all add: row_forward_def)
  then have "sync_verify C (quorum_authority m) ev = Inl Malformed" using beyond_cutoff_refused [OF assms(1) e'(1)] assms(5,6) by simp
  then show ?thesis using resolved_verifies [of C "quorum_authority m" es k ev] by auto
qed

text \<open>
  C18. Recovery silences every device that was active before it: under the recovered proof no event of such a device
  verifies, with any counter and any signature, and so none survives in a resolved log, also not one that was accepted
  before the recovery.
\<close>

theorem recovery_silences:
  assumes "authority_recover C m root device nm at draws i = Some (Inr m', j)"
    and "e \<in> set (authority_devices m)" "is_active e" "author_device ev = ae_id e"
  shows "sync_verify C (quorum_authority m') ev = Inl Malformed
    \<and> bt_get (resolve_device_sync_events C (quorum_authority m') es) k \<noteq> Some ev"
proof -
  obtain cert t where t: "authority_append C m t = Inr m'" "at_devices t = recovered_rows (authority_devices m) cert nm at"
    using recoverD [OF assms(1)] .
  note d = authority_appendD [OF t(1)]
  have "revoke_row at e \<in> set (authority_devices m')" using d t(2) assms(2) by (simp add: authority_devices_def head_transition_def rows_set)
  moreover have "ae_revoked_after_counter (revoke_row at e) = Some 0" using assms(3) by (simp add: revoke_row_def)
  moreover have "authority_verify C m' = Inr ()" using d by blast
  moreover have "ae_id (revoke_row at e) = ae_id e" by (simp add: revoke_row_def)
  ultimately have "sync_verify C (quorum_authority m') ev = Inl Malformed" if "0 < counter ev"
    using beyond_cutoff_refused assms(4) that by metis
  moreover have "sync_verify C (quorum_authority m') ev = Inl Malformed" if "counter ev = 0"
    using that by (simp add: sync_verify_def validate_bounds_def)
  ultimately have "sync_verify C (quorum_authority m') ev = Inl Malformed" using word_neq_0_conv by blast
  then show ?thesis using resolved_verifies [of C "quorum_authority m'" es k ev] by auto
qed

section \<open>A concrete recovery\<close>

definition toy_fresh :: Identity where "toy_fresh = \<lparr>signing = [5], agreement = [6]\<rparr>"

lemma toy_recovered:
  "\<exists>m' j. authority_recover toy_prims toy_first toy_account toy_fresh [0x62] 7 (\<lambda>_. [9]) 0 = Some (Inr m', j)
     \<and> authority_verify toy_prims m' = Inr ()
     \<and> map ae_certificate (filter is_active (authority_devices m')) = at_new_certificates (head_transition m')
     \<and> map ac_device (at_new_certificates (head_transition m')) = [identity_public toy_prims toy_fresh]"
proof -
  have d: "authority_devices toy_first = [toy_row [0x61]]" "manifest_account toy_first = identity_public toy_prims toy_account"
    by (simp_all add: authority_devices_def head_transition_def toy_genesis_def manifest_account_def)
  have f: "id_ed (identity_public toy_prims toy_fresh) = [5]" by (simp add: identity_public_def toy_fresh_def)
  have w: "\<forall>n. \<exists>k\<ge>n. (\<lambda>_::nat. [9]) k \<noteq> zeros 16" using nine_not_zeros by auto
  show ?thesis
    using recover_ok [OF toy_sound(1) toy_genesis_verifies _ _ _ _ _ _ w, of toy_account toy_fresh "[0x62]" 7 0] d f by auto
qed

lemma toy_first_row: "toy_row [0x61] \<in> set (authority_devices toy_first)"
  by (simp add: authority_devices_def head_transition_def toy_genesis_def)

theorem recovery_silences_witness:
  "\<exists>m' j. authority_recover toy_prims toy_first toy_account toy_fresh [0x62] 7 (\<lambda>_. [9]) 0 = Some (Inr m', j)
     \<and> sync_verify toy_prims (quorum_authority m') ((toy_event 1)\<lparr>author_device := [3]\<rparr>) = Inl Malformed"
proof -
  obtain m' j where r: "authority_recover toy_prims toy_first toy_account toy_fresh [0x62] 7 (\<lambda>_. [9]) 0 = Some (Inr m', j)"
    using toy_recovered by blast
  from recovery_silences [OF r toy_first_row, of "(toy_event 1)\<lparr>author_device := [3]\<rparr>"] r show ?thesis by simp
qed

theorem cutoff_is_final_witness:
  "\<exists>m' j. authority_recover toy_prims toy_first toy_account toy_fresh [0x62] 7 (\<lambda>_. [9]) 0 = Some (Inr m', j)
     \<and> bt_get (resolve_device_sync_events toy_prims (quorum_authority m') [(toy_event 1)\<lparr>author_device := [3]\<rparr>]) (Contacts, [1])
       \<noteq> Some ((toy_event 1)\<lparr>author_device := [3]\<rparr>)"
proof -
  obtain m' j where r: "authority_recover toy_prims toy_first toy_account toy_fresh [0x62] 7 (\<lambda>_. [9]) 0 = Some (Inr m', j)"
    and v: "authority_verify toy_prims m' = Inr ()" using toy_recovered by blast
  obtain cert t where t: "authority_append toy_prims toy_first t = Inr m'"
    "at_devices t = recovered_rows (authority_devices toy_first) cert [0x62] 7" using recoverD [OF r] .
  have m': "am_transitions m' = [toy_genesis, t]" using authority_appendD [OF t(1)] by simp
  have row: "revoke_row 7 (toy_row [0x61]) \<in> set (at_devices (am_transitions m' ! 1))" using t(2) toy_first_row by (simp add: m' rows_set)
  have "ae_revoked_after_counter (revoke_row 7 (toy_row [0x61])) = Some 0" "ae_id (revoke_row 7 (toy_row [0x61])) = [3]"
    by (simp_all add: revoke_row_def)
  from cutoff_is_final [OF v _ row this(1), of "(toy_event 1)\<lparr>author_device := [3]\<rparr>"] this(2) m' r show ?thesis
    by (simp add: toy_event_def)
qed

theorem authority_bundle_travels_witness:
  "\<exists>m' j b. authority_recover toy_prims toy_first toy_account toy_fresh [0x62] 7 (\<lambda>_. [9]) 0 = Some (Inr m', j)
     \<and> authority_bundle_seal toy_prims (\<lambda>p. if p = (m', []) then Some [7] else None) (zeros 32) [5] [3] 1 m' [] (zeros 24) = Inr b
     \<and> authority_bundle_decode (\<lambda>_. Some (b, [])) [8] = Inr b
     \<and> authority_bundle_open toy_prims (\<lambda>_. Some ((m', []), [])) b (zeros 32) [3] [5] = Inr (m', [])"
proof -
  obtain m' j where r: "authority_recover toy_prims toy_first toy_account toy_fresh [0x62] 7 (\<lambda>_. [9]) 0 = Some (Inr m', j)"
    and v: "authority_verify toy_prims m' = Inr ()"
    and act: "map ae_certificate (filter is_active (authority_devices m')) = at_new_certificates (head_transition m')"
    "map ac_device (at_new_certificates (head_transition m')) = [identity_public toy_prims toy_fresh]"
    using toy_recovered by (elim exE conjE) (rule that)
  obtain cert t where t: "authority_append toy_prims toy_first t = Inr m'"
    "at_devices t = recovered_rows (authority_devices toy_first) cert [0x62] 7" using recoverD [OF r] .
  have d: "authority_devices m' = recovered_rows (authority_devices toy_first) cert [0x62] 7"
    using authority_appendD [OF t(1)] t(2) by (simp add: authority_devices_def head_transition_def)
  have five: "authority_device_id cert = [5]"
    using act by (simp add: d rows_active authority_device_id_def identity_public_def toy_fresh_def flip: act(1))
  let ?to = "\<lambda>p. if p = (m', []) then Some [7] else None"
  have "active_certificate m' [5] \<noteq> None"
    using five by (auto simp: active_certificate_def find_active_def find_None_iff d rows_set
        intro!: exI [where x = "recovery_row cert [0x62] 7"])
  moreover have "list_ex (\<lambda>e. ae_id e = [3]) (authority_devices m')"
    unfolding list_ex_iff d rows_set
    using toy_first_row by (intro bexI [where x = "revoke_row 7 (toy_row [0x61])"]) simp_all
  ultimately obtain b where b: "authority_bundle_seal toy_prims ?to (zeros 32) [5] [3] 1 m' [] (zeros 24) = Inr b"
    using v by (simp add: authority_bundle_seal_def)
  have "authority_bundle_decode (\<lambda>_. Some (b, [])) [8] = Inr b
      \<and> authority_bundle_open toy_prims (\<lambda>_. Some ((m', []), [])) b (zeros 32) [3] [5] = Inr (m', [])"
    by (rule authority_bundle_travels [OF toy_sound(2) _ _ _ b, where to_outer = "\<lambda>x. if x = b then Some [8] else None"])
      (simp_all add: authority_bundle_encode_def split: if_splits)
  with r b show ?thesis by blast
qed

end
