(* ===== verification/Token.thy ===== *)
theory Token
  imports Ratchet_Net
begin

text \<open>
  \<^verbatim>\<open>kult-protocol/src/token.rs\<close>: the rotating mailbox addresses of a session. The mailbox key is the one the
  session holds; HMAC is a parameter.
\<close>

definition TOKEN_DOMAIN :: bytes where "TOKEN_DOMAIN = ascii ''KK-token-v1''"
definition INTRO_DOMAIN :: bytes where "INTRO_DOMAIN = ascii ''KK-intro-v1''"

definition epoch_day :: "u64 \<Rightarrow> u64" where
  "epoch_day now_secs = now_secs div 86400"

definition delivery_token :: "prims \<Rightarrow> bytes \<Rightarrow> u64 \<Rightarrow> bytes \<Rightarrow> bytes" where
  "delivery_token C key epoch recipient_ed = hmac C key (TOKEN_DOMAIN @ to_le64 epoch @ recipient_ed)"

definition intro_token :: "prims \<Rightarrow> bytes \<Rightarrow> u64 \<Rightarrow> bytes" where
  "intro_token C recipient_ed epoch = hmac C recipient_ed (INTRO_DOMAIN @ to_le64 epoch)"

section \<open>The mailbox key never changes\<close>

lemma encrypt_mailbox: "encrypt C s now pt ad hn nonce = Some (m, s') \<Longrightarrow> mailbox s' = mailbox s"
  by (auto simp: encrypt_def Let_def purge_expired_def split: option.splits prod.splits if_splits)

lemma run_then_mailbox:
  assumes "run_then x f = Some (s', r)" "\<And>t q. x = Some (t, q) \<Longrightarrow> mailbox t = k"
    and "\<And>t a s' r. mailbox t = k \<Longrightarrow> f t a = Some (s', r) \<Longrightarrow> mailbox s' = k"
  shows "mailbox s' = k"
  using assms by (cases "(x, f)" rule: run_then.cases) auto

lemma skip_mailbox: "skip_message_keys C until now s = Some (s', r) \<Longrightarrow> mailbox s' = mailbox s"
  by (auto simp: skip_message_keys_def Let_def split: option.splits prod.splits if_splits)

lemma current_mailbox: "decrypt_current C msg ad s = Some (s', r) \<Longrightarrow> mailbox s' = mailbox s"
  by (auto simp: decrypt_current_def Let_def split: option.splits prod.splits sum.splits)

lemma dh_ratchet_mailbox: "mailbox (dh_ratchet C h priv s) = mailbox s"
  by (simp add: dh_ratchet_def Let_def split: prod.splits)

lemma known_mailbox: "decrypt_known C now msg ad hdr s = Some (s', r) \<Longrightarrow> mailbox s' = mailbox s"
  by (auto simp: decrypt_known_def split: sum.splits if_splits elim!: run_then_mailbox dest: skip_mailbox current_mailbox)

lemma next_mailbox: "decrypt_next C priv now msg ad hdr s = Some (s', r) \<Longrightarrow> mailbox s' = mailbox s"
  by (auto simp: decrypt_next_def dh_ratchet_mailbox split: sum.splits elim!: run_then_mailbox
      dest!: skip_mailbox current_mailbox)

lemma try_skipped_mailbox: "mailbox (fst (try_skipped C s msg ad)) = mailbox s"
  by (simp add: try_skipped_def split: sum.splits option.splits)

lemma decrypt_mailbox: "decrypt C priv s now msg ad = Some (s', r) \<Longrightarrow> mailbox s' = mailbox s"
  using try_skipped_mailbox [of C "purge_expired now s" msg ad] known_mailbox next_mailbox
  by (fastforce simp: decrypt_def purge_expired_def split: prod.splits sum.splits option.splits)

lemma net_mailbox:
  assumes "(net_step C)\<^sup>*\<^sup>* (net_start C pa pb sid root hka nhkb mbox ex) w"
  shows "mailbox (alice w) = mbox \<and> mailbox (bob w) = mbox"
  using assms
proof (induction rule: rtranclp_induct)
  case base
  show ?case by (simp add: net_start_def init_initiator_def init_responder_def Let_def split: prod.splits)
next
  case (step w w')
  from step.hyps(2) step.IH show ?case
    by cases (auto dest: encrypt_mailbox decrypt_mailbox)
qed

lemma token_input_inject:
  assumes "length r = 32" "length r' = 32"
  shows "TOKEN_DOMAIN @ to_le64 e @ r = TOKEN_DOMAIN @ to_le64 e' @ r' \<longleftrightarrow> e = e' \<and> r = r'"
proof -
  have "to_le64 e = to_le64 e' \<longleftrightarrow> e = e'" by (metis from_to_le(3))
  then show ?thesis using assms by auto
qed

text \<open>
  C27. The two ends of a session, in every state it can reach, compute the same token for the same day and addressee, so
  mail is found; and different ones for different days or for the two directions, so neither days nor
  directions share an address, where HMAC does not collide on the two inputs.
\<close>

theorem tokens_meet:
  assumes "(net_step C)\<^sup>*\<^sup>* (net_start C pa pb sid root hka nhkb mbox ex) w" "length r = 32" "length r' = 32"
    and "inj_on (hmac C mbox) {TOKEN_DOMAIN @ to_le64 e @ r, TOKEN_DOMAIN @ to_le64 e' @ r'}"
  shows "delivery_token C (mailbox (alice w)) e r = delivery_token C (mailbox (bob w)) e' r' \<longleftrightarrow> e = e' \<and> r = r'"
  using net_mailbox [OF assms(1)] token_input_inject [OF assms(2,3), of e e'] inj_on_eq_iff [OF assms(4)]
  by (auto simp: delivery_token_def)

theorem tokens_meet_witness:
  "(let C = toy_ratchet\<lparr>hmac := (\<lambda>_ x. x)\<rparr>; w = net_start C [1] [2] [3] [4] [5] [6] [7] [8] in
    delivery_token C (mailbox (alice w)) 1 (zeros 32) = delivery_token C (mailbox (bob w)) 1 (zeros 32)
    \<and> delivery_token C (mailbox (alice w)) 1 (zeros 32) \<noteq> delivery_token C (mailbox (bob w)) 2 (zeros 32))"
proof -
  let ?C = "toy_ratchet\<lparr>hmac := (\<lambda>_ x. x)\<rparr>"
  have "inj_on (hmac ?C [7]) A" for A by (simp add: inj_on_def)
  then show ?thesis
    using tokens_meet [of ?C "[1]" "[2]" "[3]" "[4]" "[5]" "[6]" "[7]" "[8]" _ "zeros 32" "zeros 32" 1 1, OF rtranclp.rtrancl_refl]
      tokens_meet [of ?C "[1]" "[2]" "[3]" "[4]" "[5]" "[6]" "[7]" "[8]" _ "zeros 32" "zeros 32" 1 2, OF rtranclp.rtrancl_refl]
    by (simp add: Let_def)
qed

end
