(* ===== verification/Airtime.thy ===== *)
theory Airtime
  imports Komms_Prelude "HOL-Library.Log_Nat"
begin

text \<open>
  \<^verbatim>\<open>kult-transport/src/airtime.rs\<close>: the time on air of a LoRa frame and the duty-cycle budget of the radio.

  A \<^verbatim>\<open>Duration\<close> is its number of nanoseconds; clocks are elapsed process time, so sums of durations stay
  far below the limit of the type. The \<^verbatim>\<open>f64\<close> operations of the allowance are rationals rounded to 53
  significant bits, ties to even, which is what IEEE 754 arithmetic computes on this range.
\<close>

section \<open>Time on air\<close>

record ModemParams =
  bandwidth_hz :: u32
  spreading_factor :: u8
  coding_rate_denominator :: u8
  preamble_symbols :: u16

definition modem_valid :: "ModemParams \<Rightarrow> bool" where
  "modem_valid p \<longleftrightarrow>
     5 \<le> spreading_factor p \<and> spreading_factor p \<le> 12 \<and> 5 \<le> coding_rate_denominator p \<and> coding_rate_denominator p \<le> 8
     \<and> bandwidth_hz p > 0 \<and> preamble_symbols p > 0"

definition symbol_micros :: "ModemParams \<Rightarrow> nat" where
  "symbol_micros p = (2 ^ unat (spreading_factor p) * 1000000) div unat (bandwidth_hz p)"

definition LOW_DATA_RATE_THRESHOLD_MICROS :: nat where [simp]: "LOW_DATA_RATE_THRESHOLD_MICROS = 16380"

definition div_ceil :: "nat \<Rightarrow> nat \<Rightarrow> nat" where
  "div_ceil a b = a div b + (if a mod b = 0 then 0 else 1)"

definition from_micros :: "nat \<Rightarrow> nat" where
  "from_micros n = 1000 * n"

definition time_on_air :: "ModemParams \<Rightarrow> nat \<Rightarrow> nat option" where
  "time_on_air p payload_len =
     (if \<not> modem_valid p \<or> payload_len > 255 then None
      else
        let sf = int (unat (spreading_factor p));
            de = (if symbol_micros p \<ge> LOW_DATA_RATE_THRESHOLD_MICROS then 1 else 0);
            cr_den = int (unat (coding_rate_denominator p));
            numerator = 8 * int payload_len - 4 * sf + 28 + 16;
            denominator = 4 * (sf - 2 * de) in
        if denominator \<le> 0 then None
        else
          let extra_symbols = (if numerator > 0 then div_ceil (nat numerator) (nat denominator) * nat cr_den else 0);
              n_payload = 8 + extra_symbols;
              quarter_symbols = 4 * (unat (preamble_symbols p) + n_payload) + 17 in
          Some (from_micros (div_ceil (quarter_symbols * symbol_micros p) 4)))"

section \<open>Floating point, as the allowance uses it\<close>

definition round_half_even :: "rat \<Rightarrow> int" where
  "round_half_even x =
     (let n = \<lfloor>x\<rfloor>; r = x - of_int n in
      if r < 1 / 2 then n else if r > 1 / 2 then n + 1 else if even n then n else n + 1)"

definition pow2 :: "int \<Rightarrow> rat" where
  "pow2 k = (if k \<ge> 0 then 2 ^ nat k else 1 / 2 ^ nat (- k))"

text \<open>The nearest double to a positive rational of the normal range.\<close>

definition f64 :: "rat \<Rightarrow> rat" where
  "f64 x =
     (if x = 0 then 0
      else
        let (a, b) = quotient_of x;
            e = bitlen a - bitlen b;
            e = (if x < pow2 e then e - 1 else e);
            ulp = pow2 (e - 52) in
        of_int (round_half_even (x / ulp)) * ulp)"

definition as_secs_f64 :: "nat \<Rightarrow> rat" where
  "as_secs_f64 d = f64 (f64 (of_nat (d div 10 ^ 9)) + f64 (f64 (of_nat (d mod 10 ^ 9)) / 10 ^ 9))"

definition from_secs_f64 :: "rat \<Rightarrow> nat" where
  "from_secs_f64 x = nat (round_half_even (x * 10 ^ 9))"

definition mul_f64 :: "nat \<Rightarrow> rat \<Rightarrow> nat" where
  "mul_f64 d x = from_secs_f64 (f64 (x * as_secs_f64 d))"

section \<open>The duty-cycle budget\<close>

record AirtimeBudget =
  limit_percent :: u8
  ab_window :: nat
  ab_spent :: "(nat \<times> nat) list"

definition DUTY_CYCLE_WINDOW :: nat where "DUTY_CYCLE_WINDOW = 3600 * 10 ^ 9"

definition budget_new :: "u8 \<Rightarrow> nat \<Rightarrow> AirtimeBudget" where
  "budget_new percent w = \<lparr>limit_percent = min (max percent 1) 100, ab_window = w, ab_spent = []\<rparr>"

definition allowance :: "AirtimeBudget \<Rightarrow> nat" where
  "allowance b = mul_f64 (ab_window b) (f64 (of_nat (unat (limit_percent b)) / 100))"

definition airtime_purge :: "AirtimeBudget \<Rightarrow> nat \<Rightarrow> AirtimeBudget" where
  "airtime_purge b now = b\<lparr>ab_spent := dropWhile (\<lambda>(start, _). start < now - ab_window b) (ab_spent b)\<rparr>"

definition available :: "AirtimeBudget \<Rightarrow> nat \<Rightarrow> AirtimeBudget \<times> nat" where
  "available b now =
     (let b = airtime_purge b now in (b, allowance b - sum_list (map snd (ab_spent b))))"

definition try_reserve :: "AirtimeBudget \<Rightarrow> nat \<Rightarrow> nat \<Rightarrow> AirtimeBudget \<times> (nat + unit)" where
  "try_reserve b airtime now =
     (if airtime > allowance b then (b, Inl (ab_window b))
      else
        let (b, left) = available b now in
        if left \<ge> airtime then (b\<lparr>ab_spent := ab_spent b @ [(now, airtime)]\<rparr>, Inr ())
        else
          let oldest = (case ab_spent b of [] \<Rightarrow> now | (start, _) # _ \<Rightarrow> start) in
          (b, Inl (oldest + ab_window b - now)))"

section \<open>The formula of the data sheet\<close>

text \<open>The modem formula as the manufacturer prints it, over the rationals.\<close>

definition payload_symbols :: "ModemParams \<Rightarrow> nat \<Rightarrow> int" where
  "payload_symbols p n =
     (let sf = rat_of_nat (unat (spreading_factor p)); de = (if symbol_micros p \<ge> 16380 then 1 else 0) in
      8 + max (\<lceil>(8 * rat_of_nat n - 4 * sf + 28 + 16) / (4 * (sf - 2 * de))\<rceil> * int (unat (coding_rate_denominator p))) 0)"

definition datasheet_micros :: "ModemParams \<Rightarrow> nat \<Rightarrow> int" where
  "datasheet_micros p n =
     \<lceil>(rat_of_nat (unat (preamble_symbols p)) + 4.25 + rat_of_int (payload_symbols p n)) * rat_of_nat (symbol_micros p)\<rceil>"

lemma div_ceil_ceiling:
  assumes "0 < b"
  shows "int (div_ceil a b) = \<lceil>rat_of_nat a / rat_of_nat b\<rceil>"
proof (rule ceiling_unique [symmetric])
  let ?q = "a div b" and ?r = "a mod b"
  have a: "rat_of_nat a / rat_of_nat b = rat_of_nat ?q + rat_of_nat ?r / rat_of_nat b"
    using assms by (simp add: field_simps flip: of_nat_mult of_nat_add)
  have r: "0 \<le> rat_of_nat ?r / rat_of_nat b" "rat_of_nat ?r / rat_of_nat b < 1"
    using assms by (simp_all add: divide_less_eq)
  show "rat_of_int (int (div_ceil a b)) - 1 < rat_of_nat a / rat_of_nat b"
    unfolding a using r(1) assms by (auto simp: div_ceil_def)
  show "rat_of_nat a / rat_of_nat b \<le> rat_of_int (int (div_ceil a b))"
    unfolding a using r(2) by (auto simp: div_ceil_def)
qed

lemma modem_bounds:
  assumes "modem_valid p"
  shows "5 \<le> unat (spreading_factor p)" "unat (spreading_factor p) \<le> 12" "5 \<le> unat (coding_rate_denominator p)"
    "unat (coding_rate_denominator p) \<le> 8"
  using assms by (simp_all add: modem_valid_def word_le_nat_alt)

lemma modem_factor: "modem_valid p \<Longrightarrow> 5 \<le> int (unat (spreading_factor p))"
  using modem_bounds(1) [of p] by (metis of_nat_le_iff of_nat_numeral)

lemma payload_symbols_eq:
  fixes num den :: int
  assumes "modem_valid p" "de = (if symbol_micros p \<ge> 16380 then 1 else 0)"
    and "num = 8 * int n - 4 * int (unat (spreading_factor p)) + 28 + 16" "den = 4 * (int (unat (spreading_factor p)) - 2 * de)"
  shows "payload_symbols p n
    = 8 + int ((if num > 0 then div_ceil (nat num) (nat den) * nat (int (unat (coding_rate_denominator p))) else 0))"
proof -
  have den: "0 < den" using assms(2,4) modem_factor [OF assms(1)] by auto
  have sym: "payload_symbols p n = 8 + max (\<lceil>rat_of_int num / rat_of_int den\<rceil> * int (unat (coding_rate_denominator p))) 0"
    by (simp add: payload_symbols_def assms(2-4))
  show ?thesis
  proof (cases "num > 0")
    case True
    then have "int (div_ceil (nat num) (nat den)) = \<lceil>rat_of_int num / rat_of_int den\<rceil>"
      using den div_ceil_ceiling [of "nat den" "nat num"] by simp
    then have c: "\<lceil>rat_of_int num / rat_of_int den\<rceil> = int (div_ceil (nat num) (nat den))" ..
    show ?thesis using True unfolding sym c by simp
  next
    case False
    then have "\<lceil>rat_of_int num / rat_of_int den\<rceil> \<le> 0" using den by (simp add: ceiling_le_iff divide_le_0_iff)
    then show ?thesis using False unfolding sym by (simp add: mult_nonpos_nonneg max_absorb2)
  qed
qed

text \<open>
  The integer computation is the data-sheet formula, rounded up to whole microseconds, on all parameters
  it accepts, and it refuses nothing else: the test for a non-positive denominator never fires.
\<close>

theorem time_on_air_datasheet:
  "time_on_air p n = (if modem_valid p \<and> n \<le> 255 then Some (from_micros (nat (datasheet_micros p n))) else None)"
proof (cases "modem_valid p \<and> n \<le> 255")
  case True
  define de :: int where "de = (if symbol_micros p \<ge> 16380 then 1 else 0)"
  define num where "num = 8 * int n - 4 * int (unat (spreading_factor p)) + 28 + 16"
  define den where "den = 4 * (int (unat (spreading_factor p)) - 2 * de)"
  define extra where "extra = (if num > 0 then div_ceil (nat num) (nat den) * nat (int (unat (coding_rate_denominator p))) else 0)"
  define q where "q = 4 * (unat (preamble_symbols p) + (8 + extra)) + 17"
  have den: "\<not> den \<le> 0" using modem_factor [of p] True by (auto simp: den_def de_def)
  have toa: "time_on_air p n = Some (from_micros (div_ceil (q * symbol_micros p) 4))"
    using True den by (simp add: time_on_air_def Let_def q_def extra_def num_def den_def de_def)
  have pay: "rat_of_int (payload_symbols p n) = 8 + rat_of_nat extra"
    using payload_symbols_eq [of p de num n den] True by (simp add: de_def num_def den_def extra_def)
  have "int (div_ceil (q * symbol_micros p) 4) = \<lceil>rat_of_nat (q * symbol_micros p) / rat_of_nat 4\<rceil>"
    by (rule div_ceil_ceiling) simp
  also have "rat_of_nat (q * symbol_micros p) / rat_of_nat 4
      = (rat_of_nat (unat (preamble_symbols p)) + 4.25 + rat_of_int (payload_symbols p n)) * rat_of_nat (symbol_micros p)"
    unfolding pay by (simp add: q_def field_simps)
  finally have "datasheet_micros p n = int (div_ceil (q * symbol_micros p) 4)" by (simp add: datasheet_micros_def)
  then show ?thesis using True toa by simp
qed (auto simp: time_on_air_def)

section \<open>The allowance is exact\<close>

lemma round_half_even_near: "\<bar>rat_of_int (round_half_even x) - x\<bar> \<le> 1 / 2"
proof -
  define n where "n = \<lfloor>x\<rfloor>"
  define r where "r = x - of_int n"
  have r: "0 \<le> r" "r < 1" unfolding r_def n_def by linarith+
  have x: "x = of_int n + r" by (simp add: r_def)
  have "round_half_even x = (if r < 1 / 2 then n else if r > 1 / 2 then n + 1 else if even n then n else n + 1)"
    unfolding round_half_even_def Let_def n_def r_def ..
  then have "round_half_even x = n \<and> r \<le> 1 / 2 \<or> round_half_even x = n + 1 \<and> 1 / 2 \<le> r"
    by (cases r "1 / 2 :: rat" rule: linorder_cases) auto
  then show ?thesis unfolding x using r by (auto simp: abs_if)
qed

lemma round_half_even_eq:
  assumes "\<bar>x - rat_of_int n\<bar> < 1 / 2"
  shows "round_half_even x = n"
proof -
  have "\<bar>rat_of_int (round_half_even x) - rat_of_int n\<bar> < 1" using round_half_even_near [of x] assms by linarith
  then show ?thesis by linarith
qed

lemma pow2_pos [simp]: "0 < pow2 k"
  by (simp add: pow2_def)

lemma pow2_add: "pow2 (k + l) = pow2 k * pow2 l"
proof -
  have "pow2 k = 2 powi k" for k by (simp add: pow2_def power_int_def field_simps)
  then show ?thesis by (simp add: power_int_add)
qed

lemma quotient_lower:
  assumes "0 < x" "quotient_of x = (a, b)"
  shows "pow2 (bitlen a - bitlen b - 1) \<le> x"
proof -
  have b: "0 < b" and x: "x = of_int a / of_int b" using assms(2) by (simp_all add: quotient_of_denom_pos quotient_of_div)
  then have a: "0 < a" using assms(1) by (simp add: zero_less_divide_iff)
  have i: "2 ^ nat (bitlen a - 1) \<le> a" "b \<le> 2 ^ nat (bitlen b)"
    using bitlen_bounds [OF a] bitlen_bounds [OF b] by simp_all
  have "rat_of_int (2 ^ nat (bitlen a - 1)) \<le> of_int a" "rat_of_int b \<le> of_int (2 ^ nat (bitlen b))"
    using i by (simp_all only: of_int_le_iff)
  then have l: "(2 :: rat) ^ nat (bitlen a - 1) \<le> of_int a" "rat_of_int b \<le> 2 ^ nat (bitlen b)" by simp_all
  have p: "1 \<le> bitlen a" "0 \<le> bitlen b" using a b by (simp_all add: bitlen_def floorlog_def)
  have "pow2 (bitlen a - bitlen b - 1) = pow2 (bitlen a - 1) * pow2 (- bitlen b)"
    unfolding pow2_add [symmetric] by (simp add: algebra_simps)
  also have "\<dots> = 2 ^ nat (bitlen a - 1) / 2 ^ nat (bitlen b)" using p by (auto simp: pow2_def)
  also have "\<dots> \<le> of_int a / of_int b" using l b a by (intro frac_le) auto
  finally show ?thesis using x by simp
qed

text \<open>Rounding to a double loses at most one part in \<open>2 ^ 53\<close>.\<close>

lemma f64_error:
  assumes "0 \<le> x"
  shows "\<bar>f64 x - x\<bar> \<le> x / 2 ^ 53"
proof (cases "x = 0")
  case False
  obtain a b where q: "quotient_of x = (a, b)" by fastforce
  define e where "e = (if x < pow2 (bitlen a - bitlen b) then bitlen a - bitlen b - 1 else bitlen a - bitlen b)"
  have e: "pow2 e \<le> x" using quotient_lower [OF _ q] assms False by (auto simp: e_def)
  define u where "u = pow2 (e - 52)"
  have f: "f64 x = of_int (round_half_even (x / u)) * u" using False q by (simp add: f64_def Let_def e_def u_def)
  have u: "0 < u" by (simp add: u_def)
  have "\<bar>f64 x - x\<bar> = \<bar>of_int (round_half_even (x / u)) - x / u\<bar> * u" using u by (simp add: f abs_mult field_simps flip: abs_mult_pos)
  also have "\<dots> \<le> 1 / 2 * u" using round_half_even_near [of "x / u"] u by (intro mult_right_mono) auto
  also have "\<dots> = pow2 e / 2 ^ 53"
    using pow2_add [of "e - 52" 52] by (simp add: u_def pow2_def [of 52])
  also have "\<dots> \<le> x / 2 ^ 53" using e by (simp add: divide_right_mono)
  finally show ?thesis .
qed (simp add: f64_def)

lemma f64_between:
  assumes "0 \<le> x" "\<bar>x - y\<bar> \<le> d" "0 \<le> y"
  shows "\<bar>f64 x - y\<bar> \<le> d + (y + d) / 2 ^ 53"
proof -
  have "x / 2 ^ 53 \<le> (y + d) / 2 ^ 53" using assms(2) by (intro divide_right_mono) (auto simp: abs_le_iff)
  then show ?thesis using f64_error [OF assms(1)] assms(2) by linarith
qed

lemma f64_nonneg: "0 \<le> x \<Longrightarrow> 0 \<le> f64 x"
proof -
  assume x: "0 \<le> x"
  have "x / 2 ^ 53 \<le> x" using x by (simp add: divide_le_eq)
  with f64_error [OF x] show ?thesis by linarith
qed

lemma product_error:
  fixes P A q W :: rat
  assumes "0 \<le> A" "0 \<le> q"
  shows "\<bar>P * A - q * W\<bar> \<le> \<bar>P - q\<bar> * A + q * \<bar>A - W\<bar>"
proof -
  have "P * A - q * W = (P - q) * A + q * (A - W)" by (simp add: algebra_simps)
  then show ?thesis using abs_triangle_ineq [of "(P - q) * A" "q * (A - W)"] assms by (simp add: abs_mult)
qed

text \<open>For a window of whole seconds, up to a day and more, the allowance is the exact percentage.\<close>

lemma allowance_exact:
  assumes "ab_window b = w * 10 ^ 9" "w \<le> 100000" "limit_percent b \<le> 100"
  shows "allowance b = unat (limit_percent b) * w * 10 ^ 7"
proof -
  define k where "k = unat (limit_percent b)"
  have k: "k \<le> 100" using assms(3) by (simp add: k_def word_le_nat_alt)
  define q where "q = rat_of_nat k / 100"
  define W where "W = rat_of_nat w"
  define E :: rat where "E = 1 / 2 ^ 53"
  define P where "P = f64 q"
  define A where "A = as_secs_f64 (ab_window b)"
  have E: "0 < E" "E \<le> 1 / (9 * 10 ^ 15)" by (simp_all add: E_def)
  have q: "0 \<le> q" "q \<le> 1" using k by (simp_all add: q_def)
  have W: "0 \<le> W" "W \<le> 100000" using assms(2) by (simp_all add: W_def)
  have qW: "0 \<le> q * W" "q * W \<le> 100000" using q W mult_mono [of q 1 W 100000] by simp_all
  have P: "\<bar>P - q\<bar> \<le> q * E" using f64_error [OF q(1)] by (simp add: P_def E_def)
  have "\<bar>f64 W - W\<bar> \<le> W * E" using f64_error [OF W(1)] by (simp add: E_def)
  from f64_between [OF f64_nonneg [OF W(1)] this W(1)] have "\<bar>f64 (f64 W) - W\<bar> \<le> W * E + (W + W * E) * E" by (simp add: E_def)
  moreover have "W * E * E \<le> W * E * 1" using W(1) E by (intro mult_left_mono) auto
  moreover have "A = f64 (f64 W)" by (simp add: A_def as_secs_f64_def assms(1) W_def f64_def [of 0])
  ultimately have A: "\<bar>A - W\<bar> \<le> 3 * W * E" by (simp add: algebra_simps)
  have A0: "0 \<le> A" using f64_nonneg [OF f64_nonneg [OF W(1)]] by (simp add: \<open>A = f64 (f64 W)\<close>)
  have A2: "A \<le> 2 * W"
  proof -
    have "3 * W * E \<le> 3 * W * (1 / 3)" using W(1) E by (intro mult_left_mono) auto
    with A show ?thesis by linarith
  qed
  have "\<bar>P * A - q * W\<bar> \<le> \<bar>P - q\<bar> * A + q * \<bar>A - W\<bar>" using A0 q(1) by (rule product_error)
  also have "\<bar>P - q\<bar> * A \<le> q * E * (2 * W)" using P A2 A0 q(1) E by (intro mult_mono) auto
  also have "q * \<bar>A - W\<bar> \<le> q * (3 * W * E)" using A q(1) by (intro mult_left_mono)
  finally have d: "\<bar>P * A - q * W\<bar> \<le> 5 * (q * W) * E" by (simp add: algebra_simps)
  have P0: "0 \<le> P" using f64_nonneg [OF q(1)] by (simp add: P_def)
  have "\<bar>f64 (P * A) - q * W\<bar> \<le> 5 * (q * W) * E + (q * W + 5 * (q * W) * E) * E"
    using f64_between [OF mult_nonneg_nonneg [OF P0 A0] d qW(1)] by (simp add: E_def)
  also have "(q * W + 5 * (q * W) * E) * E \<le> 6 * (q * W) * E"
  proof -
    have "5 * (q * W) * E \<le> 5 * (q * W) * 1" using qW(1) E by (intro mult_left_mono) auto
    then show ?thesis using E(1) mult_right_mono [of "q * W + 5 * (q * W) * E" "6 * (q * W)" E] by linarith
  qed
  finally have f: "\<bar>f64 (P * A) - q * W\<bar> \<le> 11 * (q * W) * E" by (simp add: algebra_simps)
  have "11 * (q * W) * E \<le> 11 * 100000 * (1 / (9 * 10 ^ 15))" using qW E by (intro mult_mono) auto
  with f have "\<bar>f64 (P * A) - q * W\<bar> < 1 / (2 * 10 ^ 9)" by (rule le_less_trans [OF order_trans]) simp
  then have "\<bar>f64 (P * A) - q * W\<bar> * 10 ^ 9 < 1 / 2" by simp
  moreover have "\<bar>f64 (P * A) * 10 ^ 9 - q * W * 10 ^ 9\<bar> = \<bar>f64 (P * A) - q * W\<bar> * 10 ^ 9"
    unfolding left_diff_distrib [symmetric] abs_mult by simp
  ultimately have "\<bar>f64 (P * A) * 10 ^ 9 - q * W * 10 ^ 9\<bar> < 1 / 2" by simp
  moreover have "q * W * 10 ^ 9 = rat_of_int (int (k * w * 10 ^ 7))" by (simp add: q_def W_def)
  ultimately have "round_half_even (f64 (P * A) * 10 ^ 9) = int (k * w * 10 ^ 7)"
    by (intro round_half_even_eq) metis
  then have "nat (round_half_even (f64 (P * A) * 10 ^ 9)) = k * w * 10 ^ 7" by (simp only: nat_int)
  then show ?thesis unfolding allowance_def mul_f64_def from_secs_f64_def A_def P_def q_def k_def .
qed

section \<open>The duty cycle is respected\<close>

text \<open>A radio that reserves before it sends: the budget, what was granted, and the clock.\<close>

record radio =
  rd_budget :: AirtimeBudget
  rd_granted :: "(nat \<times> nat) list"
  rd_clock :: nat

inductive radio_step :: "radio \<Rightarrow> radio \<Rightarrow> bool" where
    granted: "rd_clock r \<le> now \<Longrightarrow> try_reserve (rd_budget r) airtime now = (b, Inr ()) \<Longrightarrow>
      radio_step r \<lparr>rd_budget = b, rd_granted = rd_granted r @ [(now, airtime)], rd_clock = now\<rparr>"
  | refused: "rd_clock r \<le> now \<Longrightarrow> try_reserve (rd_budget r) airtime now = (b, Inl d) \<Longrightarrow>
      radio_step r \<lparr>rd_budget = b, rd_granted = rd_granted r, rd_clock = now\<rparr>"
  | asked: "rd_clock r \<le> now \<Longrightarrow> available (rd_budget r) now = (b, left) \<Longrightarrow>
      radio_step r \<lparr>rd_budget = b, rd_granted = rd_granted r, rd_clock = now\<rparr>"

definition radio_start :: "u8 \<Rightarrow> nat \<Rightarrow> radio" where
  "radio_start percent w = \<lparr>rd_budget = budget_new percent w, rd_granted = [], rd_clock = 0\<rparr>"

text \<open>The airtime granted between two instants.\<close>

definition airtime_in :: "nat \<Rightarrow> nat \<Rightarrow> (nat \<times> nat) list \<Rightarrow> nat" where
  "airtime_in from_t to_t g = sum_list (map snd (filter (\<lambda>(t, _). from_t \<le> t \<and> t \<le> to_t) g))"

definition radio_ok :: "u8 \<Rightarrow> nat \<Rightarrow> radio \<Rightarrow> bool" where
  "radio_ok percent w r \<longleftrightarrow>
     limit_percent (rd_budget r) = percent \<and> ab_window (rd_budget r) = w \<and> sorted (map fst (rd_granted r))
     \<and> (\<forall>(t, a)\<in>set (rd_granted r). t \<le> rd_clock r)
     \<and> (\<exists>old. rd_granted r = old @ ab_spent (rd_budget r) \<and> (\<forall>(t, a)\<in>set old. t + w < rd_clock r))
     \<and> (\<forall>s. airtime_in s (s + w) (rd_granted r) \<le> allowance (rd_budget r))"

lemma airtime_purge_fields [simp]:
  "limit_percent (airtime_purge b now) = limit_percent b" "ab_window (airtime_purge b now) = ab_window b"
  "allowance (airtime_purge b now) = allowance b"
  by (simp_all add: airtime_purge_def allowance_def)

lemma allowance_spent [simp]: "allowance (b\<lparr>ab_spent := x\<rparr>) = allowance b"
  by (simp add: allowance_def)

lemma radio_ok_purge:
  assumes "radio_ok percent w r" "rd_clock r \<le> now"
  shows "radio_ok percent w \<lparr>rd_budget = airtime_purge (rd_budget r) now, rd_granted = rd_granted r, rd_clock = now\<rparr>"
proof -
  obtain old where o: "rd_granted r = old @ ab_spent (rd_budget r)" "\<forall>(t, a)\<in>set old. t + w < rd_clock r"
    using assms(1) by (auto simp: radio_ok_def)
  have w: "ab_window (rd_budget r) = w" using assms(1) by (simp add: radio_ok_def)
  let ?P = "\<lambda>(start, _ :: nat). start < now - w"
  let ?gone = "takeWhile ?P (ab_spent (rd_budget r))"
  have "rd_granted r = (old @ ?gone) @ ab_spent (airtime_purge (rd_budget r) now)" by (simp add: o(1) airtime_purge_def w)
  moreover have "\<forall>(t, a)\<in>set (old @ ?gone). t + w < now" using o(2) assms(2) by (fastforce dest: set_takeWhileD)
  moreover have "\<forall>(t, a)\<in>set (rd_granted r). t \<le> now" using assms by (fastforce simp: radio_ok_def)
  ultimately show ?thesis using assms(1) by (auto simp: radio_ok_def)
qed

lemma airtime_in_append: "airtime_in s e (g @ h) = airtime_in s e g + airtime_in s e h"
  by (simp add: airtime_in_def)

lemma airtime_in_le: "airtime_in s e g \<le> sum_list (map snd g)"
  by (induction g) (auto simp: airtime_in_def)

lemma radio_ok_step:
  assumes "radio_ok percent w r" "radio_step r r'"
  shows "radio_ok percent w r'"
  using assms(2)
proof cases
  case (granted now airtime b)
  let ?p = "airtime_purge (rd_budget r) now"
  have b: "b = ?p\<lparr>ab_spent := ab_spent ?p @ [(now, airtime)]\<rparr>"
    and fits: "airtime = 0 \<or> airtime + sum_list (map snd (ab_spent ?p)) \<le> allowance ?p"
    using granted(3) by (auto simp: try_reserve_def available_def Let_def split: if_splits)
  have ok: "radio_ok percent w \<lparr>rd_budget = ?p, rd_granted = rd_granted r, rd_clock = now\<rparr>"
    using radio_ok_purge [OF assms(1) granted(2)] .
  then obtain old where o: "rd_granted r = old @ ab_spent ?p" "\<forall>(t, a)\<in>set old. t + w < now" by (auto simp: radio_ok_def)
  have "airtime_in s (s + w) (rd_granted r @ [(now, airtime)]) \<le> allowance b" for s
  proof (cases "airtime \<noteq> 0 \<and> s \<le> now \<and> now \<le> s + w")
    case True
    then have "airtime_in s (s + w) old = 0" using o(2) by (fastforce simp: airtime_in_def filter_empty_conv)
    moreover have "airtime_in s (s + w) (ab_spent ?p) \<le> sum_list (map snd (ab_spent ?p))" by (rule airtime_in_le)
    ultimately show ?thesis using fits True by (simp add: o(1) airtime_in_append b) (simp add: airtime_in_def)
  next
    case False
    then have "airtime_in s (s + w) [(now, airtime)] = 0" by (auto simp: airtime_in_def)
    then show ?thesis using ok by (simp add: airtime_in_append radio_ok_def b)
  qed
  then show ?thesis using ok o by (fastforce simp: radio_ok_def granted(1) b sorted_append)
next
  case (refused now airtime b d)
  have "b = rd_budget r \<or> b = airtime_purge (rd_budget r) now"
    using refused(3) by (auto simp: try_reserve_def available_def Let_def split: if_splits)
  moreover have "radio_ok percent w \<lparr>rd_budget = rd_budget r, rd_granted = rd_granted r, rd_clock = now\<rparr>"
    using assms(1) refused(2) by (fastforce simp: radio_ok_def)
  ultimately show ?thesis using radio_ok_purge [OF assms(1) refused(2)] by (auto simp: refused(1))
next
  case (asked now b left)
  then have "b = airtime_purge (rd_budget r) now" by (simp add: available_def Let_def)
  then show ?thesis using radio_ok_purge [OF assms(1) asked(2)] by (simp add: asked(1))
qed

lemma radio_ok_start: "radio_ok (min (max percent 1) 100) w (radio_start percent w)"
  by (simp add: radio_ok_def radio_start_def budget_new_def airtime_in_def)

lemma radio_ok_reachable:
  assumes "radio_step\<^sup>*\<^sup>* (radio_start percent w) r"
  shows "radio_ok (min (max percent 1) 100) w r"
  using assms by (induction rule: rtranclp_induct) (auto intro: radio_ok_start radio_ok_step)

text \<open>
  C25. The duty cycle is respected: whatever is requested and however the requests fall, the airtime granted in
  every interval of one hour is at most the configured percentage of that hour, exactly.
\<close>

theorem duty_cycle_respected:
  assumes "radio_step\<^sup>*\<^sup>* (radio_start percent DUTY_CYCLE_WINDOW) r"
  shows "100 * airtime_in s (s + DUTY_CYCLE_WINDOW) (rd_granted r) \<le> unat (min (max percent 1) 100) * DUTY_CYCLE_WINDOW"
proof -
  note ok = radio_ok_reachable [OF assms]
  have l: "limit_percent (rd_budget r) = min (max percent 1) 100" "ab_window (rd_budget r) = 3600 * 10 ^ 9"
    using ok by (simp_all add: radio_ok_def DUTY_CYCLE_WINDOW_def)
  have "allowance (rd_budget r) = unat (min (max percent 1) 100) * 3600 * 10 ^ 7"
    using allowance_exact [OF l(2)] l(1) by simp
  moreover have "airtime_in s (s + DUTY_CYCLE_WINDOW) (rd_granted r) \<le> allowance (rd_budget r)" using ok by (simp add: radio_ok_def)
  ultimately show ?thesis by (simp add: DUTY_CYCLE_WINDOW_def)
qed

text \<open>
  C26. What the retry hint is worth. Within the allowance, a refused reservation is refused again at
  every moment up to and including the hinted one, so the hint is a strict lower bound of the wait; and it is granted at every
  moment more than a window after the last grant.
\<close>

theorem retry_hint_bounds:
  assumes "radio_step\<^sup>*\<^sup>* (radio_start percent w) r" "rd_clock r \<le> now" "airtime \<le> allowance (rd_budget r)"
    and "try_reserve (rd_budget r) airtime now = (b, Inl d)"
  shows "(\<forall>t. now \<le> t \<and> t \<le> now + d \<longrightarrow> (\<exists>d'. try_reserve b airtime t = (b, Inl d')))
    \<and> (\<forall>t. (\<forall>(at_t, a)\<in>set (ab_spent b). at_t + w < t) \<longrightarrow> (\<exists>b'. try_reserve b airtime t = (b', Inr ())))"
proof -
  let ?p = "airtime_purge (rd_budget r) now"
  have b: "b = ?p" and tight: "\<not> airtime \<le> allowance ?p - sum_list (map snd (ab_spent ?p))"
    and d: "d = (case ab_spent ?p of [] \<Rightarrow> now | (start, _) # _ \<Rightarrow> start) + ab_window ?p - now"
    using assms(3,4) by (auto simp: try_reserve_def available_def Let_def split: if_splits)
  have w: "ab_window (rd_budget r) = w" using radio_ok_reachable [OF assms(1)] by (simp add: radio_ok_def)
  obtain start a rest where s: "ab_spent ?p = (start, a) # rest"
    using tight assms(3) by (cases "ab_spent ?p") auto
  have keep: "airtime_purge b t = b" if "now \<le> t" "t \<le> now + d" for t
  proof -
    have "now - w \<le> start" using s hd_dropWhile [of "\<lambda>(u, _). u < now - w" "ab_spent (rd_budget r)"]
      by (fastforce simp: airtime_purge_def w)
    then have "t - w \<le> start" using that d s w by simp
    then have "dropWhile (\<lambda>(u, _). u < t - w) (ab_spent ?p) = ab_spent ?p" by (simp add: s)
    then show ?thesis by (simp add: b airtime_purge_def [of _ t] w)
  qed
  have "\<exists>d'. try_reserve b airtime t = (b, Inl d')" if "now \<le> t" "t \<le> now + d" for t
    using tight assms(3) keep [OF that] by (simp add: try_reserve_def available_def Let_def b)
  moreover have "\<exists>b'. try_reserve b airtime t = (b', Inr ())" if "\<forall>(u, a)\<in>set (ab_spent b). u + w < t" for t
  proof -
    have "dropWhile (\<lambda>(u, _). u < t - w) (ab_spent b) = []" using that by (fastforce simp: dropWhile_eq_Nil_conv)
    then have "ab_spent (airtime_purge b t) = []" unfolding airtime_purge_def [of b t] using w by (simp add: b)
    then show ?thesis using assms(3) by (simp add: try_reserve_def available_def Let_def b)
  qed
  ultimately show ?thesis by blast
qed

section \<open>A concrete radio\<close>

text \<open>Ten percent of an hour, spent in one go, and a request one second later.\<close>

definition toy_spent :: radio where
  "toy_spent = \<lparr>rd_budget = (budget_new 10 DUTY_CYCLE_WINDOW)\<lparr>ab_spent := [(0, 360 * 10 ^ 9)]\<rparr>,
     rd_granted = [(0, 360 * 10 ^ 9)], rd_clock = 0\<rparr>"

lemma toy_allowance [simp]: "allowance (budget_new 10 DUTY_CYCLE_WINDOW) = 360 * 10 ^ 9"
  using allowance_exact [of "budget_new 10 DUTY_CYCLE_WINDOW" 3600]
  by (simp add: budget_new_def DUTY_CYCLE_WINDOW_def word_le_nat_alt min_def max_def)

lemma toy_spends: "radio_step\<^sup>*\<^sup>* (radio_start 10 DUTY_CYCLE_WINDOW) toy_spent"
proof (rule r_into_rtranclp)
  have "try_reserve (budget_new 10 DUTY_CYCLE_WINDOW) (360 * 10 ^ 9) 0
      = ((budget_new 10 DUTY_CYCLE_WINDOW)\<lparr>ab_spent := [(0, 360 * 10 ^ 9)]\<rparr>, Inr ())"
    by (simp add: try_reserve_def available_def Let_def) (simp add: airtime_purge_def budget_new_def)
  then show "radio_step (radio_start 10 DUTY_CYCLE_WINDOW) toy_spent"
    using granted [of "radio_start 10 DUTY_CYCLE_WINDOW" 0 "360 * 10 ^ 9"]
    by (simp add: radio_start_def toy_spent_def)
qed

theorem duty_cycle_respected_witness:
  "100 * airtime_in 0 DUTY_CYCLE_WINDOW (rd_granted toy_spent) \<le> 10 * DUTY_CYCLE_WINDOW
    \<and> airtime_in 0 DUTY_CYCLE_WINDOW (rd_granted toy_spent) = 360 * 10 ^ 9"
  proof
  have m: "min (max 10 1) 100 = (10 :: u8)" by (simp add: min_def max_def word_le_nat_alt)
  show "100 * airtime_in 0 DUTY_CYCLE_WINDOW (rd_granted toy_spent) \<le> 10 * DUTY_CYCLE_WINDOW"
    using duty_cycle_respected [OF toy_spends, of 0] unfolding m by simp
qed (simp add: toy_spent_def airtime_in_def)

theorem retry_hint_bounds_witness:
  "\<exists>b d. try_reserve (rd_budget toy_spent) (10 ^ 9) (10 ^ 9) = (b, Inl d) \<and> 10 ^ 9 + d = DUTY_CYCLE_WINDOW
     \<and> (\<exists>d'. try_reserve b (10 ^ 9) DUTY_CYCLE_WINDOW = (b, Inl d'))"
proof -
  have a: "allowance (rd_budget toy_spent) = 360 * 10 ^ 9" by (simp add: toy_spent_def)
  have "airtime_purge (rd_budget toy_spent) (10 ^ 9) = rd_budget toy_spent"
    by (simp add: airtime_purge_def toy_spent_def budget_new_def DUTY_CYCLE_WINDOW_def)
  then have t: "try_reserve (rd_budget toy_spent) (10 ^ 9) (10 ^ 9) = (rd_budget toy_spent, Inl (DUTY_CYCLE_WINDOW - 10 ^ 9))"
    using a by (simp add: try_reserve_def available_def Let_def) (simp add: toy_spent_def budget_new_def)
  have le: "10 ^ 9 \<le> DUTY_CYCLE_WINDOW" by (simp add: DUTY_CYCLE_WINDOW_def)
  from retry_hint_bounds [OF toy_spends _ _ t] a le
  have "\<exists>d'. try_reserve (rd_budget toy_spent) (10 ^ 9) DUTY_CYCLE_WINDOW = (rd_budget toy_spent, Inl d')"
    by (simp add: toy_spent_def)
  with t le show ?thesis by auto
qed

end
