(* ===== verification/Big_Endian.thy ===== *)
theory Big_Endian
  imports Komms_Prelude
begin

text \<open>Big-endian integers, \<^verbatim>\<open>to_be_bytes\<close> and \<^verbatim>\<open>from_be_bytes\<close>.\<close>

definition to_be16 :: "u16 \<Rightarrow> bytes" where "to_be16 x = rev (to_le16 x)"
definition to_be32 :: "u32 \<Rightarrow> bytes" where "to_be32 x = rev (to_le32 x)"
definition to_be64 :: "u64 \<Rightarrow> bytes" where "to_be64 x = rev (to_le64 x)"
definition from_be32 :: "bytes \<Rightarrow> u32" where "from_be32 b = from_le32 (rev b)"
definition from_be64 :: "bytes \<Rightarrow> u64" where "from_be64 b = from_le64 (rev b)"

lemma to_be_simps [simp]:
  "length (to_be16 z) = 2" "length (to_be64 x) = 8" "length (to_be32 y) = 4"
  "from_be64 (to_be64 x) = x" "from_be32 (to_be32 y) = y"
  by (simp_all add: to_be16_def to_be64_def to_be32_def from_be64_def from_be32_def)

lemma to_from_be [simp]:
  "length b = 8 \<Longrightarrow> to_be64 (from_be64 b) = b" "length b = 4 \<Longrightarrow> to_be32 (from_be32 b) = b"
  by (simp_all add: to_be64_def to_be32_def from_be64_def from_be32_def)

lemma to_be_inject [simp]:
  "to_be16 a = to_be16 b \<longleftrightarrow> a = b" "to_be64 c = to_be64 d \<longleftrightarrow> c = d"
  unfolding to_be16_def to_be64_def rev_is_rev_conv by (metis from_to_le(1)) (metis from_to_le(3))

end
