(* ===== verification/Rendezvous_Service.thy ===== *)
theory Rendezvous_Service
  imports BTree_Map Big_Endian "HOL-Library.List_Lexorder"
begin

text \<open>
  \<^verbatim>\<open>kult-rendezvous/src/lib.rs\<close>, the in-memory rendezvous service, with the two request codecs of
  \<^verbatim>\<open>kult-protocol/src/rendezvous.rs\<close>.

  A \<^verbatim>\<open>HashMap\<close> is a finite map with its rows in key order; the order in which the real map iterates, which only
  the expiry sweep observes, is the parameter \<open>iter\<close>. No code panics while it holds the mutex, so
  locking never fails. A random fill is a function from the number of bytes to the bytes.
\<close>

section \<open>Requests\<close>

definition RENDEZVOUS_SEALED_RECORD_LEN :: nat where [simp]: "RENDEZVOUS_SEALED_RECORD_LEN = 24 + 4096 + 16"
definition RENDEZVOUS_MAX_TTL_SECS :: u32 where [simp]: "RENDEZVOUS_MAX_TTL_SECS = 7200"
definition RENDEZVOUS_EPOCH_SECS :: u64 where [simp]: "RENDEZVOUS_EPOCH_SECS = 3600"
definition RENDEZVOUS_REGISTER_REQUEST_LEN :: nat where [simp]: "RENDEZVOUS_REGISTER_REQUEST_LEN = 32 + 8 + 4 + RENDEZVOUS_SEALED_RECORD_LEN"
definition RENDEZVOUS_REGISTER_ACK_LEN :: nat where [simp]: "RENDEZVOUS_REGISTER_ACK_LEN = 64"
definition RENDEZVOUS_LOOKUP_REQUEST_LEN :: nat where [simp]: "RENDEZVOUS_LOOKUP_REQUEST_LEN = 64"
definition RENDEZVOUS_LOOKUP_RESPONSE_LEN :: nat where [simp]: "RENDEZVOUS_LOOKUP_RESPONSE_LEN = RENDEZVOUS_SEALED_RECORD_LEN"
definition RENDEZVOUS_MALFORMED_RESPONSE_LEN :: nat where [simp]: "RENDEZVOUS_MALFORMED_RESPONSE_LEN = 64"
definition RENDEZVOUS_MEDIA_TYPE :: string where "RENDEZVOUS_MEDIA_TYPE = ''application/komms-rendezvous-v1''"
definition RENDEZVOUS_REGISTER_PATH :: string where "RENDEZVOUS_REGISTER_PATH = ''/v1/rendezvous/register''"
definition RENDEZVOUS_LOOKUP_PATH :: string where "RENDEZVOUS_LOOKUP_PATH = ''/v1/rendezvous/lookup''"

definition rendezvous_epoch :: "u64 \<Rightarrow> u64" where
  "rendezvous_epoch now = now div RENDEZVOUS_EPOCH_SECS"

record RendezvousRegisterRequest =
  rr_slot :: bytes
  rr_epoch :: u64
  rr_ttl_seconds :: u32
  rr_sealed_record :: bytes

definition register_encode :: "RendezvousRegisterRequest \<Rightarrow> bytes result" where
  "register_encode r =
     (if rr_ttl_seconds r = 0 \<or> rr_ttl_seconds r > RENDEZVOUS_MAX_TTL_SECS then Inl Malformed
      else Inr (rr_slot r @ to_be64 (rr_epoch r) @ to_be32 (rr_ttl_seconds r) @ rr_sealed_record r))"

definition register_decode :: "bytes \<Rightarrow> RendezvousRegisterRequest result" where
  "register_decode b =
     (if length b \<noteq> RENDEZVOUS_REGISTER_REQUEST_LEN then Inl Malformed
      else
        let ttl = from_be32 (subslice 40 44 b) in
        if ttl = 0 \<or> ttl > RENDEZVOUS_MAX_TTL_SECS then Inl Malformed
        else Inr \<lparr>rr_slot = take 32 b, rr_epoch = from_be64 (subslice 32 40 b), rr_ttl_seconds = ttl, rr_sealed_record = drop 44 b\<rparr>)"

record RendezvousLookupRequest =
  rl_slot :: bytes
  rl_epoch :: u64

definition lookup_encode :: "RendezvousLookupRequest \<Rightarrow> bytes" where
  "lookup_encode r = rl_slot r @ to_be64 (rl_epoch r) @ zeros 24"

definition lookup_decode :: "bytes \<Rightarrow> RendezvousLookupRequest result" where
  "lookup_decode b =
     (if length b \<noteq> RENDEZVOUS_LOOKUP_REQUEST_LEN \<or> list_ex (\<lambda>x. x \<noteq> 0) (drop 40 b) then Inl Malformed
      else Inr \<lparr>rl_slot = take 32 b, rl_epoch = from_be64 (subslice 32 40 b)\<rparr>)"

section \<open>State\<close>

definition RATE_WINDOW_SECS :: u64 where [simp]: "RATE_WINDOW_SECS = 60"
definition MAX_EXPIRY_SWEEP_PER_REQUEST :: nat where [simp]: "MAX_EXPIRY_SWEEP_PER_REQUEST = 64"
definition ACCOUNTED_BYTES_PER_RECORD :: nat where
  [simp]: "ACCOUNTED_BYTES_PER_RECORD = RENDEZVOUS_SEALED_RECORD_LEN + 32 + 8 + 8 + 128"
definition ACCOUNTED_BYTES_PER_SLOT_BUCKET :: nat where [simp]: "ACCOUNTED_BYTES_PER_SLOT_BUCKET = 128"
definition ACCOUNTED_BYTES_PER_CLIENT_BUCKET :: nat where [simp]: "ACCOUNTED_BYTES_PER_CLIENT_BUCKET = 128"

record RendezvousServiceConfig =
  max_records :: nat
  max_memory_bytes :: nat
  max_concurrent_requests :: nat
  max_global_operations_per_minute :: u32
  max_global_bytes_per_minute :: u64
  max_slot_operations_per_minute :: u32
  max_slot_buckets :: nat
  max_client_operations_per_minute :: u32
  max_client_buckets :: nat

definition config_default :: RendezvousServiceConfig where
  "config_default = \<lparr>max_records = 16384, max_memory_bytes = 96 * 1024 * 1024, max_concurrent_requests = 256,
     max_global_operations_per_minute = 120000, max_global_bytes_per_minute = 512 * 1024 * 1024,
     max_slot_operations_per_minute = 24, max_slot_buckets = 65536, max_client_operations_per_minute = 600,
     max_client_buckets = 16384\<rparr>"

text \<open>Checked and saturating arithmetic on \<^verbatim>\<open>usize\<close>.\<close>

definition usize_checked :: "nat \<Rightarrow> nat option" where
  "usize_checked n = (if n < 2 ^ 64 then Some n else None)"

definition usize_saturating :: "nat \<Rightarrow> nat" where
  "usize_saturating n = min n (2 ^ 64 - 1)"

definition accounted_capacity :: "RendezvousServiceConfig \<Rightarrow> nat option" where
  "accounted_capacity c =
     Option.bind (usize_checked (max_records c * ACCOUNTED_BYTES_PER_RECORD)) (\<lambda>bytes.
     Option.bind (usize_checked (max_slot_buckets c * ACCOUNTED_BYTES_PER_SLOT_BUCKET)) (\<lambda>slots.
     Option.bind (usize_checked (bytes + slots)) (\<lambda>bytes.
     Option.bind (usize_checked (max_client_buckets c * ACCOUNTED_BYTES_PER_CLIENT_BUCKET)) (\<lambda>clients.
     usize_checked (bytes + clients)))))"

definition config_valid :: "RendezvousServiceConfig \<Rightarrow> bool" where
  "config_valid c \<longleftrightarrow>
     max_records c > 0 \<and> max_concurrent_requests c > 0 \<and> max_global_operations_per_minute c > 0
     \<and> max_global_bytes_per_minute c > 0 \<and> max_slot_operations_per_minute c > 0 \<and> max_slot_buckets c > 0
     \<and> max_client_operations_per_minute c > 0 \<and> max_client_buckets c > 0
     \<and> (case accounted_capacity c of None \<Rightarrow> False | Some bytes \<Rightarrow> bytes \<le> max_memory_bytes c)"

record StoredRecord =
  sr_epoch :: u64
  sr_expires_at :: u64
  sr_sealed :: bytes

record RateBucket =
  rb_window :: u64
  rb_operations :: u32
  rb_bytes :: u64

definition bucket_default :: RateBucket where
  "bucket_default = \<lparr>rb_window = 0, rb_operations = 0, rb_bytes = 0\<rparr>"

definition charge :: "u64 \<Rightarrow> u32 \<Rightarrow> u64 \<Rightarrow> RateBucket \<Rightarrow> RateBucket" where
  "charge now operations bytes b =
     (let window = now div RATE_WINDOW_SECS;
          b = (if rb_window b \<noteq> window then \<lparr>rb_window = window, rb_operations = 0, rb_bytes = 0\<rparr> else b) in
      b\<lparr>rb_operations := saturating_add (rb_operations b) operations, rb_bytes := saturating_add (rb_bytes b) bytes\<rparr>)"

record MutableState =
  mu_records :: "(bytes, StoredRecord) btree"
  mu_slot_rates :: "(bytes, RateBucket) btree"
  mu_client_rates :: "(bytes, RateBucket) btree"
  mu_global_rate :: RateBucket

record RendezvousService =
  rs_config :: RendezvousServiceConfig
  rs_mutable :: MutableState
  rs_active :: nat

definition service_new :: "RendezvousServiceConfig \<Rightarrow> RendezvousService option" where
  "service_new c =
     (if config_valid c
      then Some \<lparr>rs_config = c, rs_mutable = \<lparr>mu_records = [], mu_slot_rates = [], mu_client_rates = [],
             mu_global_rate = bucket_default\<rparr>, rs_active = 0\<rparr>
      else None)"

definition record_count :: "RendezvousService \<Rightarrow> nat" where
  "record_count s = length (mu_records (rs_mutable s))"

definition accounted_record_bytes :: "RendezvousService \<Rightarrow> nat" where
  "accounted_record_bytes s = usize_saturating (record_count s * ACCOUNTED_BYTES_PER_RECORD)"

definition accounted_mutable_bytes :: "RendezvousService \<Rightarrow> nat" where
  "accounted_mutable_bytes s =
     (let st = rs_mutable s in
      usize_saturating (usize_saturating
        (usize_saturating (length (mu_records st) * ACCOUNTED_BYTES_PER_RECORD)
         + usize_saturating (length (mu_slot_rates st) * ACCOUNTED_BYTES_PER_SLOT_BUCKET))
        + usize_saturating (length (mu_client_rates st) * ACCOUNTED_BYTES_PER_CLIENT_BUCKET)))"

section \<open>Operations\<close>

type_synonym iteration = "(bytes, StoredRecord) btree \<Rightarrow> (bytes \<times> StoredRecord) list"

definition drop_slot :: "bytes \<Rightarrow> MutableState \<Rightarrow> MutableState" where
  "drop_slot slot st =
     st\<lparr>mu_records := bt_remove slot (mu_records st), mu_slot_rates := bt_remove slot (mu_slot_rates st)\<rparr>"

definition sweep_expired :: "iteration \<Rightarrow> u64 \<Rightarrow> MutableState \<Rightarrow> MutableState" where
  "sweep_expired iter now st =
     fold drop_slot
       (take MAX_EXPIRY_SWEEP_PER_REQUEST (map fst (filter (\<lambda>(_, r). sr_expires_at r \<le> now) (iter (mu_records st))))) st"

definition try_enter :: "RendezvousService \<Rightarrow> RendezvousService option" where
  "try_enter s =
     (if rs_active s < max_concurrent_requests (rs_config s) then Some (s\<lparr>rs_active := rs_active s + 1\<rparr>) else None)"

definition leave :: "RendezvousService \<Rightarrow> RendezvousService" where
  "leave s = s\<lparr>rs_active := rs_active s - 1\<rparr>"

definition bucket_of :: "(bytes, RateBucket) btree \<Rightarrow> bytes \<Rightarrow> RateBucket" where
  "bucket_of m k = (case bt_get m k of None \<Rightarrow> bucket_default | Some b \<Rightarrow> b)"

definition current_ops :: "u64 \<Rightarrow> RateBucket \<Rightarrow> u32" where
  "current_ops window b = (if rb_window b = window then rb_operations b else 0)"

definition admit ::
  "RendezvousServiceConfig \<Rightarrow> iteration \<Rightarrow> bytes \<Rightarrow> bytes \<Rightarrow> nat \<Rightarrow> u64 \<Rightarrow> MutableState \<Rightarrow> MutableState \<times> bool" where
  "admit c iter client slot bytes now st =
     (let st = sweep_expired iter now st;
          window = now div RATE_WINDOW_SECS;
          st = st\<lparr>mu_slot_rates := bt_retain (\<lambda>b. rb_window b = window) (mu_slot_rates st),
                  mu_client_rates := bt_retain (\<lambda>b. rb_window b = window) (mu_client_rates st)\<rparr> in
      if bt_get (mu_client_rates st) client = None \<and> length (mu_client_rates st) \<ge> max_client_buckets c then (st, False)
      else if bt_get (mu_slot_rates st) slot = None \<and> length (mu_slot_rates st) \<ge> max_slot_buckets c then (st, False)
      else
        let bytes = (if bytes < 2 ^ 64 then word_of_nat bytes else - 1);
            global = mu_global_rate st;
            current_global_bytes = (if rb_window global = window then rb_bytes global else 0) in
        if current_ops window global \<ge> max_global_operations_per_minute c
          \<or> saturating_add current_global_bytes bytes > max_global_bytes_per_minute c
          \<or> current_ops window (bucket_of (mu_slot_rates st) slot) \<ge> max_slot_operations_per_minute c
          \<or> current_ops window (bucket_of (mu_client_rates st) client) \<ge> max_client_operations_per_minute c
        then (st, False)
        else
          (st\<lparr>mu_global_rate := charge now 1 bytes global,
              mu_slot_rates := bt_insert slot (charge now 1 0 (bucket_of (mu_slot_rates st) slot)) (mu_slot_rates st),
              mu_client_rates := bt_insert client (charge now 1 0 (bucket_of (mu_client_rates st) client)) (mu_client_rates st)\<rparr>,
           True))"

definition register ::
  "RendezvousServiceConfig \<Rightarrow> iteration \<Rightarrow> RendezvousRegisterRequest \<Rightarrow> u64 \<Rightarrow> MutableState \<Rightarrow> MutableState" where
  "register c iter request now st =
     (let epoch = rendezvous_epoch now in
      if rr_epoch request \<noteq> epoch \<and> rr_epoch request \<noteq> saturating_add epoch 1 then st
      else
        let st = sweep_expired iter now st;
            replacing = bt_get (mu_records st) (rr_slot request) \<noteq> None in
        if \<not> replacing
          \<and> (length (mu_records st) \<ge> max_records c
             \<or> usize_saturating (usize_saturating (length (mu_records st) + 1) * ACCOUNTED_BYTES_PER_RECORD) > max_memory_bytes c)
        then st
        else
          st\<lparr>mu_records := bt_insert (rr_slot request)
               \<lparr>sr_epoch = rr_epoch request,
                sr_expires_at = saturating_add now (ucast (min (rr_ttl_seconds request) RENDEZVOUS_MAX_TTL_SECS)),
                sr_sealed = rr_sealed_record request\<rparr> (mu_records st)\<rparr>)"

definition lookup :: "iteration \<Rightarrow> RendezvousLookupRequest \<Rightarrow> u64 \<Rightarrow> MutableState \<Rightarrow> MutableState \<times> bytes option" where
  "lookup iter request now st =
     (let current = rendezvous_epoch now in
      if rl_epoch request < saturating_sub current 1 \<or> rl_epoch request > saturating_add current 1 then (st, None)
      else
        let st = sweep_expired iter now st in
        (st, case bt_get (mu_records st) (rl_slot request) of
               None \<Rightarrow> None
             | Some r \<Rightarrow> if sr_epoch r = rl_epoch request \<and> sr_expires_at r > now then Some (sr_sealed r) else None))"

record ServiceResponse =
  sp_status :: u16
  sp_body :: bytes
  sp_media_type :: string
  sp_no_store :: bool

definition response_ok :: "bytes \<Rightarrow> ServiceResponse" where
  "response_ok body = \<lparr>sp_status = 200, sp_body = body, sp_media_type = RENDEZVOUS_MEDIA_TYPE, sp_no_store = True\<rparr>"

definition response_malformed :: "(nat \<Rightarrow> bytes) \<Rightarrow> ServiceResponse" where
  "response_malformed fill = \<lparr>sp_status = 400, sp_body = fill RENDEZVOUS_MALFORMED_RESPONSE_LEN,
     sp_media_type = RENDEZVOUS_MEDIA_TYPE, sp_no_store = True\<rparr>"

text \<open>The admission of a request, with its slot among the concurrent ones held when there was one.\<close>

definition enter_and_admit ::
  "iteration \<Rightarrow> bytes \<Rightarrow> bytes \<Rightarrow> nat \<Rightarrow> u64 \<Rightarrow> RendezvousService \<Rightarrow> RendezvousService \<times> bool \<times> bool" where
  "enter_and_admit iter client slot bytes now s =
     (case try_enter s of
        None \<Rightarrow> (s, False, False)
      | Some s \<Rightarrow>
          let (st, admitted) = admit (rs_config s) iter client slot bytes now (rs_mutable s) in
          (s\<lparr>rs_mutable := st\<rparr>, True, admitted))"

definition handle ::
  "iteration \<Rightarrow> string \<Rightarrow> string \<Rightarrow> bytes \<Rightarrow> bytes \<Rightarrow> u64 \<Rightarrow> (nat \<Rightarrow> bytes) \<Rightarrow> RendezvousService
    \<Rightarrow> RendezvousService \<times> ServiceResponse" where
  "handle iter path media_type body client now fill s =
     (if media_type \<noteq> RENDEZVOUS_MEDIA_TYPE then (s, response_malformed fill)
      else if path = RENDEZVOUS_REGISTER_PATH then
        (case register_decode body of
           Inl _ \<Rightarrow> (s, response_malformed fill)
         | Inr request \<Rightarrow>
             let (s, held, admitted) = enter_and_admit iter client (rr_slot request) (length body + RENDEZVOUS_REGISTER_ACK_LEN) now s;
                 s = (if admitted then s\<lparr>rs_mutable := register (rs_config s) iter request now (rs_mutable s)\<rparr> else s) in
             (if held then leave s else s, response_ok (fill RENDEZVOUS_REGISTER_ACK_LEN)))
      else if path = RENDEZVOUS_LOOKUP_PATH then
        (case lookup_decode body of
           Inl _ \<Rightarrow> (s, response_malformed fill)
         | Inr request \<Rightarrow>
             let (s, held, admitted) = enter_and_admit iter client (rl_slot request) (length body + RENDEZVOUS_LOOKUP_RESPONSE_LEN) now s;
                 (st, found) = (if admitted then lookup iter request now (rs_mutable s) else (rs_mutable s, None));
                 s = s\<lparr>rs_mutable := st\<rparr> in
             (if held then leave s else s,
              response_ok (case found of Some r \<Rightarrow> r | None \<Rightarrow> fill RENDEZVOUS_LOOKUP_RESPONSE_LEN)))
      else (s, response_malformed fill))"

section \<open>Request codecs\<close>

definition wf_register :: "RendezvousRegisterRequest \<Rightarrow> bool" where
  "wf_register r \<longleftrightarrow> length (rr_slot r) = 32 \<and> length (rr_sealed_record r) = RENDEZVOUS_SEALED_RECORD_LEN"

text \<open>Both request codecs are canonical.\<close>

lemma register_decode_iff: "register_decode b = Inr r \<longleftrightarrow> wf_register r \<and> register_encode r = Inr b"
proof
  assume d: "register_decode b = Inr r"
  then have l: "length b = 4180" and r: "r = \<lparr>rr_slot = take 32 b, rr_epoch = from_be64 (subslice 32 40 b),
      rr_ttl_seconds = from_be32 (subslice 40 44 b), rr_sealed_record = drop 44 b\<rparr>"
    and ttl: "\<not> (rr_ttl_seconds r = 0 \<or> rr_ttl_seconds r > RENDEZVOUS_MAX_TTL_SECS)"
    by (auto simp: register_decode_def Let_def split: if_splits)
  have "take 8 (drop 32 b) @ drop 40 b = drop 32 b" "take 4 (drop 40 b) @ drop 44 b = drop 40 b"
    using append_take_drop_id [of 8 "drop 32 b"] append_take_drop_id [of 4 "drop 40 b"] by simp_all
  then have "take 32 b @ subslice 32 40 b @ subslice 40 44 b @ drop 44 b = b" by (simp add: subslice_def)
  moreover have "length (subslice 32 40 b) = 8" "length (subslice 40 44 b) = 4" using l by (simp_all add: subslice_def)
  ultimately have "register_encode r = Inr b" using ttl unfolding register_encode_def by (simp add: r)
  then show "wf_register r \<and> register_encode r = Inr b" using l by (simp add: wf_register_def r)
next
  assume "wf_register r \<and> register_encode r = Inr b"
  then show "register_decode b = Inr r"
    by (auto simp: register_decode_def register_encode_def wf_register_def subslice_def split: if_splits)
qed

section \<open>The service stays within its bounds\<close>

definition state_ok :: "RendezvousServiceConfig \<Rightarrow> MutableState \<Rightarrow> bool" where
  "state_ok c st \<longleftrightarrow>
     bt_valid (mu_records st) \<and> bt_valid (mu_slot_rates st) \<and> bt_valid (mu_client_rates st)
     \<and> length (mu_records st) \<le> max_records c \<and> length (mu_slot_rates st) \<le> max_slot_buckets c
     \<and> length (mu_client_rates st) \<le> max_client_buckets c
     \<and> (\<forall>k r. bt_get (mu_records st) k = Some r \<longrightarrow> length (sr_sealed r) = RENDEZVOUS_SEALED_RECORD_LEN)"

lemma length_bt_remove: "length (bt_remove k m) \<le> length m"
  by (simp add: bt_remove_def)

lemma length_bt_insert: "bt_valid m \<Longrightarrow> length (bt_insert k v m) = (if bt_get m k = None then length m + 1 else length m)"
  using bt.length_put [of m k v] by simp

lemma drop_slot_ok: "state_ok c st \<Longrightarrow> state_ok c (drop_slot slot st)"
  using length_bt_remove [of slot "mu_records st"] length_bt_remove [of slot "mu_slot_rates st"]
  by (auto simp: state_ok_def drop_slot_def bt_valid_remove bt_get_remove split: if_splits)

lemma fold_drop_slot_ok: "state_ok c st \<Longrightarrow> state_ok c (fold drop_slot slots st)"
  by (induction slots arbitrary: st) (simp_all add: drop_slot_ok)

lemma sweep_ok: "state_ok c st \<Longrightarrow> state_ok c (sweep_expired iter now st)"
  by (simp add: sweep_expired_def fold_drop_slot_ok)

text \<open>The state in which admission counts: swept, with the buckets of other minutes gone.\<close>

definition admission_state :: "iteration \<Rightarrow> u64 \<Rightarrow> MutableState \<Rightarrow> MutableState" where
  "admission_state iter now st =
     (let st = sweep_expired iter now st in
      st\<lparr>mu_slot_rates := bt_retain (\<lambda>b. rb_window b = now div RATE_WINDOW_SECS) (mu_slot_rates st),
         mu_client_rates := bt_retain (\<lambda>b. rb_window b = now div RATE_WINDOW_SECS) (mu_client_rates st)\<rparr>)"

lemma admission_state_ok:
  assumes "state_ok c st"
  shows "state_ok c (admission_state iter now st)"
proof -
  define p where "p = sweep_expired iter now st"
  have "state_ok c p" using sweep_ok [OF assms] by (simp add: p_def)
  moreover have "length (bt_retain P m) \<le> n" if "length m \<le> n" for P n and m :: "(bytes, RateBucket) btree"
    using length_bt_retain [of P m] that by (rule le_trans)
  ultimately show ?thesis by (simp add: state_ok_def admission_state_def Let_def bt_valid_retain flip: p_def)
qed

lemma admit_cases:
  assumes "admit c iter client slot bytes now st = (st', admitted)" "p = admission_state iter now st"
  shows "(\<not> admitted \<and> st' = p) \<or>
    (admitted
     \<and> (bt_get (mu_client_rates p) client \<noteq> None \<or> length (mu_client_rates p) < max_client_buckets c)
     \<and> (bt_get (mu_slot_rates p) slot \<noteq> None \<or> length (mu_slot_rates p) < max_slot_buckets c)
     \<and> current_ops (now div 60) (mu_global_rate p) < max_global_operations_per_minute c
     \<and> current_ops (now div 60) (bucket_of (mu_client_rates p) client) < max_client_operations_per_minute c
     \<and> (\<exists>n. st' = p\<lparr>mu_global_rate := charge now 1 n (mu_global_rate p),
          mu_slot_rates := bt_insert slot (charge now 1 0 (bucket_of (mu_slot_rates p) slot)) (mu_slot_rates p),
          mu_client_rates := bt_insert client (charge now 1 0 (bucket_of (mu_client_rates p) client)) (mu_client_rates p)\<rparr>))"
proof -
  have p: "p = (let st = sweep_expired iter now st in
      st\<lparr>mu_slot_rates := bt_retain (\<lambda>b. rb_window b = now div RATE_WINDOW_SECS) (mu_slot_rates st),
         mu_client_rates := bt_retain (\<lambda>b. rb_window b = now div RATE_WINDOW_SECS) (mu_client_rates st)\<rparr>)"
    unfolding assms(2) admission_state_def ..
  show ?thesis
    using assms(1) unfolding admit_def Let_def p [unfolded Let_def, symmetric]
    by (auto simp: not_le not_less split: if_splits)
qed

lemma admit_ok:
  assumes "state_ok c st" "admit c iter client slot bytes now st = (st', admitted)"
  shows "state_ok c st'"
proof -
  define p where "p = admission_state iter now st"
  have ok: "state_ok c p" using admission_state_ok [OF assms(1)] by (simp add: p_def)
  from admit_cases [OF assms(2) p_def] show ?thesis
    using ok by (auto simp: state_ok_def bt_valid_insert length_bt_insert)
qed

lemma register_ok:
  assumes "state_ok c st" "wf_register request"
  shows "state_ok c (register c iter request now st)"
proof -
  have "state_ok c (sweep_expired iter now st)" using assms(1) by (rule sweep_ok)
  then show ?thesis using assms
    by (auto simp: register_def Let_def state_ok_def bt_valid_insert length_bt_insert bt_get_insert wf_register_def not_le)
qed

lemma lookup_ok: "state_ok c st \<Longrightarrow> lookup iter request now st = (st', r) \<Longrightarrow> state_ok c st'"
  by (auto simp: lookup_def Let_def sweep_ok split: if_splits)

lemma lookup_length:
  assumes "state_ok c st" "lookup iter request now st = (st', Some r)"
  shows "length r = RENDEZVOUS_SEALED_RECORD_LEN"
  using assms sweep_ok [OF assms(1), of iter now]
  by (auto simp: lookup_def Let_def state_ok_def split: if_splits option.splits)

text \<open>
  Handlers run concurrently. The step relation has one step for each section that holds the mutex or
  updates the counter of active requests, in any order, which covers every interleaving of handlers; the
  log records who was admitted when, and the clock readings of all sections.
\<close>

record service_run =
  sv_service :: RendezvousService
  sv_log :: "(bytes \<times> bytes \<times> u64) list"
  sv_times :: "u64 list"

inductive service_step :: "iteration \<Rightarrow> service_run \<Rightarrow> service_run \<Rightarrow> bool" for iter where
    enters: "try_enter (sv_service r) = Some s \<Longrightarrow> service_step iter r (r\<lparr>sv_service := s\<rparr>)"
  | leaves: "rs_active (sv_service r) > 0 \<Longrightarrow> service_step iter r (r\<lparr>sv_service := leave (sv_service r)\<rparr>)"
  | admits: "admit (rs_config (sv_service r)) iter client slot bytes now (rs_mutable (sv_service r)) = (st, admitted) \<Longrightarrow>
      service_step iter r (r\<lparr>sv_service := (sv_service r)\<lparr>rs_mutable := st\<rparr>,
        sv_log := sv_log r @ (if admitted then [(client, slot, now)] else []), sv_times := sv_times r @ [now]\<rparr>)"
  | registers: "register_decode body = Inr request \<Longrightarrow>
      service_step iter r (r\<lparr>sv_service := (sv_service r)\<lparr>rs_mutable :=
        register (rs_config (sv_service r)) iter request now (rs_mutable (sv_service r))\<rparr>, sv_times := sv_times r @ [now]\<rparr>)"
  | looks_up: "lookup iter request now (rs_mutable (sv_service r)) = (st, found) \<Longrightarrow>
      service_step iter r (r\<lparr>sv_service := (sv_service r)\<lparr>rs_mutable := st\<rparr>, sv_times := sv_times r @ [now]\<rparr>)"

definition run_start :: "RendezvousService \<Rightarrow> service_run" where
  "run_start s = \<lparr>sv_service = s, sv_log = [], sv_times = []\<rparr>"

definition service_ok :: "RendezvousServiceConfig \<Rightarrow> RendezvousService \<Rightarrow> bool" where
  "service_ok c s \<longleftrightarrow> rs_config s = c \<and> state_ok c (rs_mutable s) \<and> rs_active s \<le> max_concurrent_requests c"

lemma service_ok_step:
  assumes "service_step iter r r'" "service_ok c (sv_service r)"
  shows "service_ok c (sv_service r')"
  using assms
proof cases
  case (enters s)
  then show ?thesis using assms(2) by (auto simp: service_ok_def try_enter_def split: if_splits)
next
  case leaves
  then show ?thesis using assms(2) by (auto simp: service_ok_def leave_def)
next
  case (admits client slot bytes now st admitted)
  then show ?thesis using assms(2) admit_ok by (fastforce simp: service_ok_def)
next
  case (registers body request now)
  then show ?thesis using assms(2) register_ok register_decode_iff by (auto simp: service_ok_def)
next
  case (looks_up request now st found)
  then show ?thesis using assms(2) lookup_ok by (fastforce simp: service_ok_def)
qed

lemma service_ok_new: "service_new c = Some s \<Longrightarrow> service_ok c s"
  by (auto simp: service_new_def service_ok_def state_ok_def bt_get_def split: if_splits)

lemma service_ok_reachable:
  assumes "service_new c = Some s" "(service_step iter)\<^sup>*\<^sup>* (run_start s) r"
  shows "service_ok c (sv_service r)"
  using assms(2) by (induction rule: rtranclp_induct) (auto simp: run_start_def service_ok_new [OF assms(1)] intro: service_ok_step)

lemma default_config_valid: "config_valid config_default"
  by (simp add: config_valid_def accounted_capacity_def usize_checked_def config_default_def)

lemma capacity_bound:
  assumes "config_valid c" "state_ok c (rs_mutable s)"
  shows "accounted_mutable_bytes s \<le> max_memory_bytes c"
proof -
  have "max_records c * ACCOUNTED_BYTES_PER_RECORD + max_slot_buckets c * 128 + max_client_buckets c * 128 \<le> max_memory_bytes c"
    using assms(1) by (auto simp: config_valid_def accounted_capacity_def usize_checked_def bind_eq_Some_conv
        split: option.splits if_splits)
  moreover have "accounted_mutable_bytes s \<le> length (mu_records (rs_mutable s)) * ACCOUNTED_BYTES_PER_RECORD
      + length (mu_slot_rates (rs_mutable s)) * 128 + length (mu_client_rates (rs_mutable s)) * 128"
    by (simp add: accounted_mutable_bytes_def Let_def usize_saturating_def min_def)
  moreover have "length (mu_records (rs_mutable s)) * ACCOUNTED_BYTES_PER_RECORD \<le> max_records c * ACCOUNTED_BYTES_PER_RECORD"
    "length (mu_slot_rates (rs_mutable s)) * 128 \<le> max_slot_buckets c * 128"
    "length (mu_client_rates (rs_mutable s)) * 128 \<le> max_client_buckets c * 128"
    using assms(2) by (auto simp: state_ok_def intro: mult_le_mono1)
  ultimately show ?thesis by linarith
qed

text \<open>
  C20. A constructed service stays within every capacity it was configured with, under any requests, any
  interleaving of handlers, any clock and any iteration order of the hash maps.
\<close>

theorem service_bounded:
  assumes "service_new c = Some s" "(service_step iter)\<^sup>*\<^sup>* (run_start s) r"
  shows "accounted_mutable_bytes (sv_service r) \<le> max_memory_bytes c
    \<and> record_count (sv_service r) \<le> max_records c
    \<and> rs_active (sv_service r) \<le> max_concurrent_requests c"
proof -
  have "config_valid c" using assms(1) by (simp add: service_new_def split: if_splits)
  then show ?thesis using service_ok_reachable [OF assms] capacity_bound by (auto simp: service_ok_def state_ok_def record_count_def)
qed

section \<open>Responses reveal nothing by their shape\<close>

definition request_shape :: "string \<Rightarrow> string \<Rightarrow> bytes \<Rightarrow> u16 \<times> nat" where
  "request_shape path media_type body =
     (if media_type = RENDEZVOUS_MEDIA_TYPE \<and> path = RENDEZVOUS_REGISTER_PATH \<and> (\<exists>q. register_decode body = Inr q) then (200, 64)
      else if media_type = RENDEZVOUS_MEDIA_TYPE \<and> path = RENDEZVOUS_LOOKUP_PATH \<and> (\<exists>q. lookup_decode body = Inr q) then (200, 4136)
      else (400, 64))"

lemma enter_and_admit_ok:
  assumes "service_ok c s" "enter_and_admit iter client slot bytes now s = (s', held, admitted)"
  shows "service_ok c s'"
  using assms admit_ok [of c "rs_mutable s" iter client slot bytes now]
  by (fastforce simp: enter_and_admit_def try_enter_def service_ok_def split: if_splits option.splits prod.splits)

text \<open>
  C23. The status and the length of a response depend on the request alone: a hit, a miss, a rate-limited, an overloaded and
  an expired lookup look the same, and so do a stored and a dropped registration.
\<close>

theorem response_shape_uniform:
  assumes "service_ok c s" "\<And>n. length (fill n) = n" "handle iter path media_type body client now fill s = (s', response)"
  shows "(sp_status response, length (sp_body response)) = request_shape path media_type body
    \<and> sp_media_type response = RENDEZVOUS_MEDIA_TYPE \<and> sp_no_store response"
proof -
  have paths: "RENDEZVOUS_REGISTER_PATH \<noteq> RENDEZVOUS_LOOKUP_PATH"
    by (simp add: RENDEZVOUS_REGISTER_PATH_def RENDEZVOUS_LOOKUP_PATH_def)
  have len: "length r = 4136"
    if "enter_and_admit iter client slot n now s = (s1, held, admitted)" "lookup iter q now (rs_mutable s1) = (st, Some r)"
    for slot n s1 held admitted q st r
    using lookup_length [OF _ that(2), of c] enter_and_admit_ok [OF assms(1) that(1)] by (simp add: service_ok_def)
  show ?thesis
    using assms(2,3) paths len
    by (fastforce simp: handle_def request_shape_def response_ok_def response_malformed_def Let_def
        split: if_splits sum.splits prod.splits option.splits)
qed

section \<open>Rate limits\<close>

text \<open>How many operations of the chosen clients were admitted in one minute.\<close>

definition admitted_ops :: "(bytes \<Rightarrow> bool) \<Rightarrow> u64 \<Rightarrow> (bytes \<times> bytes \<times> u64) list \<Rightarrow> nat" where
  "admitted_ops P w log = length (filter (\<lambda>(client, slot, t). P client \<and> t div RATE_WINDOW_SECS = w) log)"

definition tracks :: "(bytes \<times> bytes \<times> u64) list \<Rightarrow> (bytes \<Rightarrow> bool) \<Rightarrow> u64 \<Rightarrow> RateBucket \<Rightarrow> bool" where
  "tracks log P now b \<longleftrightarrow>
     rb_window b \<le> now div 60 \<and> admitted_ops P (now div 60) log = unat (current_ops (now div 60) b)"

lemma unat_bound32: "unat (m :: u32) < 2 ^ 32"
  using unsigned_less [where w = m] by simp

lemma window_mono: "(a :: u64) \<le> b \<Longrightarrow> a div 60 \<le> b div 60"
  by (simp add: word_le_nat_alt unat_div_distrib div_le_mono)

lemma tracks_in_time:
  assumes "tracks log P t b" "t \<le> now" "\<forall>(client, slot, u)\<in>set log. u \<le> t"
  shows "tracks log P now b"
proof (cases "now div 60 = t div 60")
  case True
  then show ?thesis using assms(1) by (simp add: tracks_def)
next
  case False
  then have lt: "t div 60 < now div 60" using window_mono [OF assms(2)] by simp
  have "u div 60 \<noteq> now div 60" if "(client, slot, u) \<in> set log" for client slot u
  proof -
    have "u \<le> t" using assms(3) that by blast
    then show ?thesis using window_mono [of u t] lt by auto
  qed
  then have "admitted_ops P (now div 60) log = 0" by (auto simp: admitted_ops_def filter_empty_conv)
  moreover have "rb_window b < now div 60" using assms(1) lt le_less_trans unfolding tracks_def by blast
  ultimately show ?thesis by (auto simp: tracks_def current_ops_def)
qed

lemma tracks_charge:
  assumes "tracks log P now b" "current_ops (now div 60) b < m" "P client"
  shows "tracks (log @ [(client, slot, now)]) P now (charge now 1 n b)"
proof -
  define k where "k = current_ops (now div 60) b"
  have "unat k + 1 < 2 ^ 32" using assms(2) unat_bound32 [of m] by (simp add: k_def word_less_nat_alt)
  then have "unat (saturating_add k 1) = unat k + 1"
    by (simp add: saturating_add_def checked_add_def unat_word_ariths)
  moreover have "current_ops (now div 60) (charge now 1 n b) = saturating_add k 1" "rb_window (charge now 1 n b) = now div 60"
    by (simp_all add: charge_def Let_def current_ops_def k_def)
  ultimately show ?thesis using assms(1,3) by (simp add: tracks_def admitted_ops_def k_def)
qed

lemma tracks_unchosen: "\<not> P client \<Longrightarrow> tracks (log @ [(client, slot, t)]) P now b = tracks log P now b"
  by (simp add: tracks_def admitted_ops_def)

lemma tracks_retain:
  assumes "bt_valid m" "tracks log P now (bucket_of m k)"
  shows "tracks log P now (bucket_of (bt_retain (\<lambda>b. rb_window b = now div 60) m) k)"
  using assms by (auto simp: bucket_of_def bt_get_retain tracks_def current_ops_def bucket_default_def split: option.splits)

lemma sweep_rates [simp]:
  "mu_client_rates (sweep_expired iter now st) = mu_client_rates st" "mu_global_rate (sweep_expired iter now st) = mu_global_rate st"
proof -
  have "mu_client_rates (fold drop_slot slots st) = mu_client_rates st \<and> mu_global_rate (fold drop_slot slots st) = mu_global_rate st" for slots
    by (induction slots arbitrary: st) (simp_all add: drop_slot_def)
  then show "mu_client_rates (sweep_expired iter now st) = mu_client_rates st" "mu_global_rate (sweep_expired iter now st) = mu_global_rate st"
    by (simp_all add: sweep_expired_def)
qed

definition run_clock :: "service_run \<Rightarrow> u64" where
  "run_clock r = (if sv_times r = [] then 0 else last (sv_times r))"

lemma run_clock_service [simp]: "run_clock (r\<lparr>sv_service := s\<rparr>) = run_clock r"
  by (simp add: run_clock_def)

definition rates_ok :: "RendezvousServiceConfig \<Rightarrow> service_run \<Rightarrow> bool" where
  "rates_ok c r \<longleftrightarrow>
     (\<forall>(client, slot, t)\<in>set (sv_log r). t \<le> run_clock r)
     \<and> tracks (sv_log r) (\<lambda>_. True) (run_clock r) (mu_global_rate (rs_mutable (sv_service r)))
     \<and> (\<forall>k. tracks (sv_log r) ((=) k) (run_clock r) (bucket_of (mu_client_rates (rs_mutable (sv_service r))) k))
     \<and> (\<forall>w. admitted_ops (\<lambda>_. True) w (sv_log r) \<le> unat (max_global_operations_per_minute c))
     \<and> (\<forall>k w. admitted_ops ((=) k) w (sv_log r) \<le> unat (max_client_operations_per_minute c))"

lemma admitted_ops_snoc:
  assumes "tracks log P now b" "current_ops (now div 60) b < m" "\<forall>w. admitted_ops P w log \<le> unat m"
  shows "admitted_ops P w (log @ [(client, slot, now)]) \<le> unat m"
proof (cases "P client \<and> now div 60 = w")
  case True
  then show ?thesis using assms(1,2) by (auto simp: tracks_def admitted_ops_def word_less_nat_alt)
next
  case False
  then show ?thesis using assms(3) by (auto simp: admitted_ops_def)
qed

lemma rates_ok_later:
  assumes "rates_ok c r" "run_clock r \<le> now" "sv_log r' = sv_log r" "run_clock r' = now"
    and "mu_client_rates (rs_mutable (sv_service r')) = mu_client_rates (rs_mutable (sv_service r))"
    and "mu_global_rate (rs_mutable (sv_service r')) = mu_global_rate (rs_mutable (sv_service r))"
  shows "rates_ok c r'"
proof -
  have log: "\<forall>(client, slot, t)\<in>set (sv_log r). t \<le> run_clock r" using assms(1) by (simp add: rates_ok_def)
  have "tracks (sv_log r) P now b" if "tracks (sv_log r) P (run_clock r) b" for P b
    using tracks_in_time [OF that assms(2) log] .
  moreover have "\<forall>(client, slot, t)\<in>set (sv_log r). t \<le> now" using log assms(2) by fastforce
  ultimately show ?thesis using assms(1,3-6) by (simp add: rates_ok_def)
qed

lemma rates_ok_admit:
  assumes "rates_ok c r" "service_ok c (sv_service r)" "run_clock r \<le> now"
    and "admit c iter client slot bytes now (rs_mutable (sv_service r)) = (st, admitted)"
    and "sv_log r' = sv_log r @ (if admitted then [(client, slot, now)] else [])" "run_clock r' = now"
    and "rs_mutable (sv_service r') = st"
  shows "rates_ok c r'"
proof -
  let ?mu = "rs_mutable (sv_service r)"
  define p where "p = admission_state iter now ?mu"
  have valid: "bt_valid (mu_client_rates p)" "bt_valid (mu_client_rates ?mu)"
    using admission_state_ok [of c ?mu] assms(2) by (auto simp: p_def service_ok_def state_ok_def)
  have g: "mu_global_rate p = mu_global_rate ?mu"
    and k: "mu_client_rates p = bt_retain (\<lambda>b. rb_window b = now div 60) (mu_client_rates ?mu)"
    by (simp_all add: p_def admission_state_def Let_def)
  have log: "\<forall>(client, slot, t)\<in>set (sv_log r). t \<le> run_clock r" using assms(1) by (simp add: rates_ok_def)
  then have log': "\<forall>(client, slot, t)\<in>set (sv_log r). t \<le> now" using assms(3) by fastforce
  have tg: "tracks (sv_log r) (\<lambda>_. True) now (mu_global_rate p)"
    using tracks_in_time [OF _ assms(3) log] assms(1) by (simp add: rates_ok_def g)
  have tc: "tracks (sv_log r) ((=) j) now (bucket_of (mu_client_rates p) j)" for j
    unfolding k using assms(1) by (intro tracks_retain valid(2) tracks_in_time [OF _ assms(3) log]) (simp add: rates_ok_def)
  have lim: "\<forall>w. admitted_ops (\<lambda>_. True) w (sv_log r) \<le> unat (max_global_operations_per_minute c)"
    "\<forall>w. admitted_ops ((=) j) w (sv_log r) \<le> unat (max_client_operations_per_minute c)" for j
    using assms(1) by (simp_all add: rates_ok_def)
  show ?thesis
  proof (cases admitted)
    case False
    then have "st = p" using admit_cases [OF assms(4) p_def] by blast
    then show ?thesis using False assms(5-7) log' tg tc lim by (simp add: rates_ok_def)
  next
    case True
    then obtain n where room: "current_ops (now div 60) (mu_global_rate p) < max_global_operations_per_minute c"
      "current_ops (now div 60) (bucket_of (mu_client_rates p) client) < max_client_operations_per_minute c"
      and st: "mu_global_rate st = charge now 1 n (mu_global_rate p)"
      "mu_client_rates st = bt_insert client (charge now 1 0 (bucket_of (mu_client_rates p) client)) (mu_client_rates p)"
      using admit_cases [OF assms(4) p_def] by auto
    have b: "bucket_of (mu_client_rates st) j = (if j = client then charge now 1 0 (bucket_of (mu_client_rates p) client)
        else bucket_of (mu_client_rates p) j)" for j
      using valid(1) by (simp add: st(2) bucket_of_def bt_get_insert)
    have "tracks (sv_log r @ [(client, slot, now)]) ((=) j) now (bucket_of (mu_client_rates st) j)" for j
      using tracks_charge [OF tc room(2)] tc [of j] by (simp add: b tracks_unchosen)
    moreover have "tracks (sv_log r @ [(client, slot, now)]) (\<lambda>_. True) now (mu_global_rate st)"
      using tracks_charge [OF tg room(1)] by (simp add: st(1))
    moreover have "admitted_ops (\<lambda>_. True) w (sv_log r @ [(client, slot, now)]) \<le> unat (max_global_operations_per_minute c)" for w
      using admitted_ops_snoc [OF tg room(1) lim(1)] .
    moreover have "admitted_ops ((=) j) w (sv_log r @ [(client, slot, now)]) \<le> unat (max_client_operations_per_minute c)" for j w
    proof (cases "j = client")
      case True
      then show ?thesis using admitted_ops_snoc [OF tc room(2) lim(2)] by simp
    next
      case False
      then show ?thesis using lim(2) [of j] by (simp add: admitted_ops_def)
    qed
    ultimately show ?thesis using True assms(5-7) log' by (simp add: rates_ok_def)
  qed
qed

lemma register_rates [simp]:
  "mu_client_rates (register c iter q now st) = mu_client_rates st" "mu_global_rate (register c iter q now st) = mu_global_rate st"
  by (simp_all add: register_def Let_def)

lemma lookup_rates: "lookup iter q now st = (st', found) \<Longrightarrow> mu_client_rates st' = mu_client_rates st \<and> mu_global_rate st' = mu_global_rate st"
  by (auto simp: lookup_def Let_def split: if_splits)

lemma rates_ok_step:
  assumes "service_step iter r r'" "service_ok c (sv_service r)" "rates_ok c r" "sorted (sv_times r')"
  shows "rates_ok c r'"
  using assms(1)
proof cases
  case (enters s)
  then show ?thesis using assms(3) by (auto simp: rates_ok_def try_enter_def split: if_splits)
next
  case leaves
  then show ?thesis using assms(3) by (simp add: rates_ok_def leave_def)
next
  case (admits client slot bytes now st admitted)
  have c: "rs_config (sv_service r) = c" using assms(2) by (simp add: service_ok_def)
  have "run_clock r \<le> now" using assms(4) by (auto simp: admits(1) run_clock_def sorted_append)
  from rates_ok_admit [OF assms(3,2) this admits(2) [unfolded c]] show ?thesis by (simp add: admits(1) run_clock_def)
next
  case (registers body q now)
  have "run_clock r \<le> now" using assms(4) by (auto simp: registers(1) run_clock_def sorted_append)
  from rates_ok_later [OF assms(3) this] show ?thesis by (simp add: registers(1) run_clock_def)
next
  case (looks_up q now st found)
  have "run_clock r \<le> now" using assms(4) by (auto simp: looks_up(1) run_clock_def sorted_append)
  from rates_ok_later [OF assms(3) this] show ?thesis using lookup_rates [OF looks_up(2)] by (simp add: looks_up(1) run_clock_def)
qed

lemma step_times: "service_step iter r r' \<Longrightarrow> sorted (sv_times r') \<Longrightarrow> sorted (sv_times r)"
  by (erule service_step.cases) (auto simp: sorted_append)

lemma rates_ok_start: "service_new c = Some s \<Longrightarrow> rates_ok c (run_start s)"
  by (auto simp: service_new_def rates_ok_def run_start_def run_clock_def tracks_def admitted_ops_def current_ops_def
      bucket_of_def bt_get_def bucket_default_def split: if_splits)

lemma rates_ok_reachable:
  assumes "service_new c = Some s" "(service_step iter)\<^sup>*\<^sup>* (run_start s) r" "sorted (sv_times r)"
  shows "rates_ok c r"
  using assms(2,3)
proof (induction rule: rtranclp_induct)
  case base
  show ?case using rates_ok_start [OF assms(1)] .
next
  case (step r r')
  have "service_ok c (sv_service r)" using service_ok_reachable [OF assms(1) step.hyps(1)] .
  then show ?case using rates_ok_step [OF step.hyps(2)] step.IH step_times [OF step.hyps(2)] step.prems by blast
qed

text \<open>
  C21. As long as the clock does not run backwards, no minute admits more operations than the global limit, and none
  more of one client than the client limit, whatever else happens in between.
\<close>

theorem rate_limits_hold:
  assumes "service_new c = Some s" "(service_step iter)\<^sup>*\<^sup>* (run_start s) r" "sorted (sv_times r)"
  shows "admitted_ops (\<lambda>_. True) w (sv_log r) \<le> unat (max_global_operations_per_minute c)
    \<and> admitted_ops ((=) client) w (sv_log r) \<le> unat (max_client_operations_per_minute c)"
  using rates_ok_reachable [OF assms] by (simp add: rates_ok_def)

section \<open>A registered record is served\<close>

lemma sweep_keeps:
  assumes "bt_get (mu_records st) k = Some r" "now < sr_expires_at r" "bt_valid (mu_records st)"
    and "set (iter (mu_records st)) \<subseteq> set (mu_records st)"
  shows "bt_get (mu_records (sweep_expired iter now st)) k = Some r"
proof -
  have keep: "bt_get (mu_records (fold drop_slot slots st)) k = Some r"
    if "k \<notin> set slots" "bt_get (mu_records st) k = Some r" for slots st
    using that by (induction slots arbitrary: st) (simp_all add: drop_slot_def bt_get_remove)
  have uniq: "r' = r" if "(k, r') \<in> set (mu_records st)" for r'
  proof -
    have "distinct (map fst (mu_records st))" using bt.keys_distinct [OF assms(3)] by (simp add: bt_keys_def)
    from map_of_is_SomeI [OF this that] show ?thesis using assms(1) by (simp add: bt_get_def)
  qed
  let ?e = "map fst (filter (\<lambda>(_, r). sr_expires_at r \<le> now) (iter (mu_records st)))"
  have "k \<notin> set ?e" using assms(2,4) uniq by fastforce
  then have "k \<notin> set (take 64 ?e)" by (meson in_set_takeD)
  then show ?thesis using keep assms(1) by (simp add: sweep_expired_def)
qed

text \<open>
  What may happen between a registration and a lookup at \<open>t\<close>: every section of any handler, on a clock that has not passed
  \<open>t\<close>, but no other registration of the slot.
\<close>

inductive other_step :: "iteration \<Rightarrow> bytes \<Rightarrow> u64 \<Rightarrow> service_run \<Rightarrow> service_run \<Rightarrow> bool" for iter slot t where
    other_enters: "try_enter (sv_service r) = Some s \<Longrightarrow> other_step iter slot t r (r\<lparr>sv_service := s\<rparr>)"
  | other_leaves: "rs_active (sv_service r) > 0 \<Longrightarrow> other_step iter slot t r (r\<lparr>sv_service := leave (sv_service r)\<rparr>)"
  | other_admits: "admit (rs_config (sv_service r)) iter client k bytes now (rs_mutable (sv_service r)) = (st, admitted) \<Longrightarrow> now \<le> t \<Longrightarrow>
      other_step iter slot t r (r\<lparr>sv_service := (sv_service r)\<lparr>rs_mutable := st\<rparr>,
        sv_log := sv_log r @ (if admitted then [(client, k, now)] else []), sv_times := sv_times r @ [now]\<rparr>)"
  | other_registers: "register_decode body = Inr request \<Longrightarrow> rr_slot request \<noteq> slot \<Longrightarrow> now \<le> t \<Longrightarrow>
      other_step iter slot t r (r\<lparr>sv_service := (sv_service r)\<lparr>rs_mutable :=
        register (rs_config (sv_service r)) iter request now (rs_mutable (sv_service r))\<rparr>, sv_times := sv_times r @ [now]\<rparr>)"
  | other_looks_up: "lookup iter request now (rs_mutable (sv_service r)) = (st, found) \<Longrightarrow> now \<le> t \<Longrightarrow>
      other_step iter slot t r (r\<lparr>sv_service := (sv_service r)\<lparr>rs_mutable := st\<rparr>, sv_times := sv_times r @ [now]\<rparr>)"

lemma other_step_service: "other_step iter slot t r r' \<Longrightarrow> service_step iter r r'"
  by (induction rule: other_step.induct) (rule service_step.intros, assumption)+

text \<open>Until \<open>t\<close> the row is there, or it has expired and was swept.\<close>

definition held :: "bytes \<Rightarrow> StoredRecord \<Rightarrow> u64 \<Rightarrow> MutableState \<Rightarrow> bool" where
  "held slot row t st \<longleftrightarrow> bt_get (mu_records st) slot = Some row \<or> (bt_get (mu_records st) slot = None \<and> sr_expires_at row \<le> t)"

lemma fold_drop_get:
  "bt_get (mu_records (fold drop_slot slots st)) k = bt_get (mu_records st) k \<or> bt_get (mu_records (fold drop_slot slots st)) k = None"
proof (induction slots arbitrary: st)
  case (Cons x slots)
  then show ?case using Cons.IH [of "drop_slot x st"] by (auto simp: drop_slot_def bt_get_remove split: if_splits)
qed simp

lemma sweep_get:
  "bt_get (mu_records (sweep_expired iter now st)) k = bt_get (mu_records st) k \<or> bt_get (mu_records (sweep_expired iter now st)) k = None"
  unfolding sweep_expired_def by (rule fold_drop_get)

lemma held_sweep:
  assumes "held slot row t st" "now \<le> t" "bt_valid (mu_records st)" "set (iter (mu_records st)) \<subseteq> set (mu_records st)"
  shows "held slot row t (sweep_expired iter now st)"
proof (cases "bt_get (mu_records st) slot = Some row \<and> now < sr_expires_at row")
  case True
  with sweep_keeps [of st slot row now iter] assms(3,4) show ?thesis by (simp add: held_def)
next
  case False
  with assms(1,2) have "bt_get (mu_records st) slot = Some row \<or> bt_get (mu_records st) slot = None" "sr_expires_at row \<le> t"
    by (auto simp: held_def not_less)
  with sweep_get [of iter now st slot] show ?thesis by (auto simp: held_def)
qed

lemma held_step:
  assumes "other_step iter slot t r r'" "held slot row t (rs_mutable (sv_service r))" "service_ok c (sv_service r)"
    and "\<And>m. set (iter m) \<subseteq> set m"
  shows "held slot row t (rs_mutable (sv_service r'))"
proof -
  have v: "bt_valid (mu_records (rs_mutable (sv_service r)))" using assms(3) by (simp add: service_ok_def state_ok_def)
  have sweep: "held slot row t (sweep_expired iter now (rs_mutable (sv_service r)))" if "now \<le> t" for now
    using held_sweep [OF assms(2) that v] assms(4) by blast
  from assms(1) show ?thesis
  proof cases
    case (other_enters s)
    then show ?thesis using assms(2) by (auto simp: try_enter_def split: if_splits)
  next
    case other_leaves
    then show ?thesis using assms(2) by (simp add: leave_def)
  next
    case (other_admits client k bytes now st admitted)
    have "mu_records st = mu_records (sweep_expired iter now (rs_mutable (sv_service r)))"
      using admit_cases [OF other_admits(2) refl] by (auto simp: admission_state_def Let_def)
    then show ?thesis using sweep [OF other_admits(3)] other_admits(1) by (simp add: held_def)
  next
    case (other_registers body request now)
    have "bt_valid (mu_records (sweep_expired iter now (rs_mutable (sv_service r))))"
      using assms(3) sweep_ok [of c "rs_mutable (sv_service r)" iter now] by (simp add: service_ok_def state_ok_def)
    then show ?thesis using other_registers(1,3) sweep [OF other_registers(4)] assms(2)
      by (auto simp: register_def Let_def held_def bt_get_insert)
  next
    case (other_looks_up request now st found)
    then show ?thesis using sweep [OF other_looks_up(3)] assms(2) by (auto simp: lookup_def Let_def split: if_splits)
  qed
qed

lemma held_run:
  assumes "(other_step iter slot t)\<^sup>*\<^sup>* r r'" "held slot row t (rs_mutable (sv_service r))" "service_ok c (sv_service r)"
    and "\<And>m. set (iter m) \<subseteq> set m"
  shows "held slot row t (rs_mutable (sv_service r')) \<and> service_ok c (sv_service r')"
  using assms(1)
proof (induction rule: rtranclp_induct)
  case (step y z)
  then show ?case using held_step [OF step.hyps(2)] service_ok_step [OF other_step_service [OF step.hyps(2)]] assms(4) by blast
qed (use assms(2,3) in simp)

lemma swept_room:
  assumes "state_ok c st" "length (mu_records st) < max_records c \<or> bt_get (mu_records st) k \<noteq> None"
  shows "bt_get (mu_records (sweep_expired iter now st)) k \<noteq> None \<or> length (mu_records (sweep_expired iter now st)) < max_records c"
proof -
  let ?p = "sweep_expired iter now st"
  have d: "distinct (map fst (mu_records st))" "distinct (map fst (mu_records ?p))"
    using bt.keys_distinct [of "mu_records st"] bt.keys_distinct [of "mu_records ?p"] sweep_ok [OF assms(1), of iter now] assms(1)
    by (simp_all add: state_ok_def bt_keys_def)
  have keys: "set (bt_keys (mu_records ?p)) \<subseteq> set (bt_keys (mu_records st))"
  proof
    fix x
    assume "x \<in> set (bt_keys (mu_records ?p))"
    with sweep_get [of iter now st x] show "x \<in> set (bt_keys (mu_records st))" unfolding bt_keys_get by metis
  qed
  have len: "length (mu_records st) = card (set (bt_keys (mu_records st)))" "length (mu_records ?p) = card (set (bt_keys (mu_records ?p)))"
    using distinct_card [OF d(1)] distinct_card [OF d(2)] by (simp_all add: bt_keys_def)
  have max: "length (mu_records st) \<le> max_records c" using assms(1) by (simp add: state_ok_def)
  show ?thesis
  proof (cases "length (mu_records st) < max_records c \<or> k \<in> set (bt_keys (mu_records ?p))")
    case True
    then show ?thesis using card_mono [OF _ keys] len unfolding bt_keys_get by auto
  next
    case False
    then have "set (bt_keys (mu_records ?p)) \<subset> set (bt_keys (mu_records st))"
      using keys assms(2) unfolding bt_keys_get [symmetric] by blast
    from psubset_card_mono [OF _ this] len max show ?thesis by simp
  qed
qed

lemma registered_row:
  assumes "config_valid c" "state_ok c st" "rr_epoch q = rendezvous_epoch now \<or> rr_epoch q = saturating_add (rendezvous_epoch now) 1"
    and "length (mu_records st) < max_records c \<or> bt_get (mu_records st) (rr_slot q) \<noteq> None"
  shows "bt_get (mu_records (register c iter q now st)) (rr_slot q) = Some \<lparr>sr_epoch = rr_epoch q,
      sr_expires_at = saturating_add now (ucast (min (rr_ttl_seconds q) RENDEZVOUS_MAX_TTL_SECS)), sr_sealed = rr_sealed_record q\<rparr>"
proof -
  let ?p = "sweep_expired iter now st"
  have "max_records c * 4312 \<le> max_memory_bytes c"
    using assms(1) by (auto simp: config_valid_def accounted_capacity_def usize_checked_def bind_eq_Some_conv split: option.splits if_splits)
  then have "usize_saturating (usize_saturating (length (mu_records ?p) + 1) * ACCOUNTED_BYTES_PER_RECORD) \<le> max_memory_bytes c"
    if "length (mu_records ?p) < max_records c" using that by (auto simp: usize_saturating_def min_def)
  moreover have "bt_valid (mu_records ?p)" using sweep_ok [OF assms(2), of iter now] by (simp add: state_ok_def)
  ultimately show ?thesis
    using assms(3) swept_room [OF assms(2,4), of iter now] by (auto simp: register_def Let_def bt_get_insert)
qed

lemma registered_expiry:
  assumes "register_decode body = Inr q" "unat now + unat (rr_ttl_seconds q) < 2 ^ 64"
  shows "unat (saturating_add now (ucast (min (rr_ttl_seconds q) RENDEZVOUS_MAX_TTL_SECS)) :: u64) = unat now + unat (rr_ttl_seconds q)"
proof -
  have "rr_ttl_seconds q \<le> 7200" using assms(1) by (auto simp: register_decode_def Let_def split: if_splits)
  moreover have "unat (ucast (rr_ttl_seconds q) :: u64) = unat (rr_ttl_seconds q)"
    using unat_bound32 [of "rr_ttl_seconds q"] by (simp add: unsigned_ucast_eq take_bit_nat_eq_self)
  ultimately show ?thesis using assms(2) by (simp add: saturating_add_def checked_add_def unat_word_ariths min_def)
qed

lemma epoch_not_ahead:
  assumes "rr_epoch q = rendezvous_epoch now \<or> rr_epoch q = saturating_add (rendezvous_epoch now) 1" "now \<le> t"
  shows "\<not> saturating_add (rendezvous_epoch t) 1 < rr_epoch q"
proof -
  have e: "unat (rendezvous_epoch x) = unat x div 3600" for x by (simp add: rendezvous_epoch_def unat_div)
  have s: "unat (saturating_add (rendezvous_epoch x) 1) = unat x div 3600 + 1" for x
  proof -
    have "unat x \<le> 2 ^ 64 - 1" using unsigned_less [of x, where 'a = nat] by simp
    then have "unat x div 3600 \<le> (2 ^ 64 - 1) div 3600" by (rule div_le_mono)
    then show ?thesis by (simp add: saturating_add_def checked_add_def unat_word_ariths e)
  qed
  have "unat now div 3600 \<le> unat t div 3600" using assms(2) by (simp add: word_le_nat_alt div_le_mono)
  then show ?thesis using assms(1) by (auto simp: word_less_nat_alt s e)
qed

text \<open>
  C24. When a registration is served. In a service with room for the slot, a registration for this epoch or the next is
  stored. Whatever handlers do afterwards, as long as none registers the slot again, a lookup at a time \<open>t\<close> not before any of
  them returns the record exactly while it has not expired and the epoch of \<open>t\<close> is at most one past the epoch of the record.
\<close>

theorem registered_is_served:
  assumes "service_new c = Some s" "(service_step iter)\<^sup>*\<^sup>* (run_start s) r" "st = rs_mutable (sv_service r)"
    and "\<And>m. set (iter m) \<subseteq> set m" "register_decode body = Inr q"
    and "rr_epoch q = rendezvous_epoch now \<or> rr_epoch q = saturating_add (rendezvous_epoch now) 1"
    and "length (mu_records st) < max_records c \<or> bt_get (mu_records st) (rr_slot q) \<noteq> None"
    and "r1 = r\<lparr>sv_service := (sv_service r)\<lparr>rs_mutable := register c iter q now st\<rparr>, sv_times := sv_times r @ [now]\<rparr>"
    and "(other_step iter (rr_slot q) t)\<^sup>*\<^sup>* r1 r2" "now \<le> t" "unat now + unat (rr_ttl_seconds q) < 2 ^ 64"
  shows "snd (lookup iter \<lparr>rl_slot = rr_slot q, rl_epoch = rr_epoch q\<rparr> t (rs_mutable (sv_service r2)))
    = (if unat t < unat now + unat (rr_ttl_seconds q) \<and> saturating_sub (rendezvous_epoch t) 1 \<le> rr_epoch q
       then Some (rr_sealed_record q) else None)"
proof -
  have valid: "config_valid c" using assms(1) by (simp add: service_new_def split: if_splits)
  have ok: "service_ok c (sv_service r)" using service_ok_reachable [OF assms(1,2)] .
  define row where "row = \<lparr>sr_epoch = rr_epoch q,
      sr_expires_at = saturating_add now (ucast (min (rr_ttl_seconds q) RENDEZVOUS_MAX_TTL_SECS)), sr_sealed = rr_sealed_record q\<rparr>"
  have "service_step iter r r1" using service_step.registers [OF assms(5), of iter r now] ok assms(3,8) by (simp add: service_ok_def)
  then have ok1: "service_ok c (sv_service r1)" using ok by (rule service_ok_step)
  have "state_ok c st" using ok assms(3) by (simp add: service_ok_def)
  from registered_row [OF valid this assms(6,7)] have "held (rr_slot q) row t (rs_mutable (sv_service r1))"
    by (simp add: held_def row_def assms(8))
  from held_run [OF assms(9) this ok1 assms(4)] have h: "held (rr_slot q) row t (rs_mutable (sv_service r2))" "service_ok c (sv_service r2)"
    by blast+
  then have "held (rr_slot q) row t (sweep_expired iter t (rs_mutable (sv_service r2)))"
    using held_sweep [OF h(1)] assms(4) by (simp add: service_ok_def state_ok_def)
  moreover have "t < sr_expires_at row \<longleftrightarrow> unat t < unat now + unat (rr_ttl_seconds q)"
    using registered_expiry [OF assms(5,11)] by (simp add: row_def word_less_nat_alt)
  ultimately show ?thesis
    using epoch_not_ahead [OF assms(6,10)] by (auto simp: lookup_def Let_def held_def not_le not_less) (auto simp: row_def)
qed

section \<open>The limit of a slot is not kept\<close>

definition toy_rv_config :: RendezvousServiceConfig where
  "toy_rv_config = \<lparr>max_records = 1, max_memory_bytes = 4568, max_concurrent_requests = 1,
     max_global_operations_per_minute = 8, max_global_bytes_per_minute = 100000, max_slot_operations_per_minute = 1,
     max_slot_buckets = 1, max_client_operations_per_minute = 8, max_client_buckets = 1\<rparr>"

definition toy_rv_request :: "u32 \<Rightarrow> RendezvousRegisterRequest" where
  "toy_rv_request ttl = \<lparr>rr_slot = zeros 32, rr_epoch = 0, rr_ttl_seconds = ttl, rr_sealed_record = zeros 4136\<rparr>"

definition toy_rv_service :: RendezvousService where
  "toy_rv_service = \<lparr>rs_config = toy_rv_config, rs_mutable = \<lparr>mu_records = [], mu_slot_rates = [], mu_client_rates = [],
     mu_global_rate = bucket_default\<rparr>, rs_active = 0\<rparr>"

definition toy_rv_admitted :: "u32 \<Rightarrow> MutableState" where
  "toy_rv_admitted n = \<lparr>mu_records = [], mu_slot_rates = [(zeros 32, \<lparr>rb_window = 0, rb_operations = 1, rb_bytes = 0\<rparr>)],
     mu_client_rates = [([1], \<lparr>rb_window = 0, rb_operations = n, rb_bytes = 0\<rparr>)],
     mu_global_rate = \<lparr>rb_window = 0, rb_operations = n, rb_bytes = 100 * ucast n\<rparr>\<rparr>"

lemma toy_rv_new: "service_new toy_rv_config = Some toy_rv_service"
  by (simp add: service_new_def config_valid_def accounted_capacity_def usize_checked_def toy_rv_config_def toy_rv_service_def)

lemma toy_rv_decode:
  assumes "ttl \<noteq> 0" "ttl \<le> 7200"
  shows "\<exists>body. register_decode body = Inr (toy_rv_request ttl)"
  using assms unfolding register_decode_iff
  by (simp add: wf_register_def register_encode_def toy_rv_request_def not_less)

lemma toy_rv_admit_first:
  "admit toy_rv_config id [1] (zeros 32) 100 0 (rs_mutable toy_rv_service) = (toy_rv_admitted 1, True)"
  by (simp add: admit_def Let_def sweep_expired_def toy_rv_service_def toy_rv_config_def toy_rv_admitted_def bt_retain_def bucket_of_def
      bucket_default_def current_ops_def charge_def saturating_add_def checked_add_def)

lemma toy_rv_register:
  "register toy_rv_config id (toy_rv_request ttl) 0 (toy_rv_admitted 1) = (toy_rv_admitted 1)\<lparr>mu_records :=
     [(zeros 32, \<lparr>sr_epoch = 0, sr_expires_at = saturating_add 0 (ucast (min ttl 7200)), sr_sealed = zeros 4136\<rparr>)]\<rparr>"
  by (simp add: register_def Let_def sweep_expired_def toy_rv_config_def toy_rv_admitted_def toy_rv_request_def rendezvous_epoch_def
      usize_saturating_def)

lemma toy_rv_admit_again:
  "admit toy_rv_config id [1] (zeros 32) 100 1 ((toy_rv_admitted 1)\<lparr>mu_records :=
     [(zeros 32, \<lparr>sr_epoch = 0, sr_expires_at = saturating_add 0 (ucast (min 1 (7200::u32))), sr_sealed = zeros 4136\<rparr>)]\<rparr>)
   = (toy_rv_admitted 2, True)"
  by (simp add: word_le_nat_alt [where a = 8] admit_def Let_def sweep_expired_def drop_slot_def toy_rv_config_def toy_rv_admitted_def bt_retain_def bt_remove_def bucket_of_def
      bucket_default_def current_ops_def charge_def saturating_add_def checked_add_def bt_get_Cons)

definition toy_rv_run :: service_run where
  "toy_rv_run = \<lparr>sv_service = toy_rv_service\<lparr>rs_mutable := (toy_rv_admitted 2)\<rparr>,
     sv_log = [([1], zeros 32, 0), ([1], zeros 32, 1)], sv_times = [0, 0, 1]\<rparr>"

lemma toy_rv_reach: "(service_step id)\<^sup>*\<^sup>* (run_start toy_rv_service) toy_rv_run"
proof -
  let ?r1 = "\<lparr>sv_service = toy_rv_service\<lparr>rs_mutable := toy_rv_admitted 1\<rparr>, sv_log = [([1], zeros 32, 0)], sv_times = [0]\<rparr>"
  let ?r2 = "\<lparr>sv_service = toy_rv_service\<lparr>rs_mutable := register toy_rv_config id (toy_rv_request 1) 0 (toy_rv_admitted 1)\<rparr>,
    sv_log = [([1], zeros 32, 0)], sv_times = [0, 0]\<rparr>"
  have c: "rs_config toy_rv_service = toy_rv_config" by (simp add: toy_rv_service_def)
  obtain body where body: "register_decode body = Inr (toy_rv_request 1)" using toy_rv_decode [of 1] by auto
  have "service_step id (run_start toy_rv_service) ?r1"
    using service_step.admits [of "run_start toy_rv_service" id "[1]" "zeros 32" 100 0] toy_rv_admit_first by (simp add: run_start_def c)
  moreover have "service_step id ?r1 ?r2"
    using service_step.registers [OF body, of id ?r1 0] by (simp add: c)
  moreover have "service_step id ?r2 toy_rv_run"
    using service_step.admits [of ?r2 id "[1]" "zeros 32" 100 1] toy_rv_admit_again by (simp add: toy_rv_run_def toy_rv_register c)
  ultimately show ?thesis by (meson converse_rtranclp_into_rtranclp rtranclp.rtrancl_refl)
qed

text \<open>
  C22. The limit per slot does not hold: the sweep drops the rate bucket of a slot together with its expired record, so a
  slot registered for one second starts again with a full allowance in the same minute.
\<close>

theorem slot_limit_reset:
  "\<exists>c s r slot w. service_new c = Some s \<and> (service_step id)\<^sup>*\<^sup>* (run_start s) r \<and> sorted (sv_times r)
     \<and> unat (max_slot_operations_per_minute c) < length (filter (\<lambda>(_, slot', t). slot' = slot \<and> t div RATE_WINDOW_SECS = w) (sv_log r))"
proof (intro exI conjI)
  show "service_new toy_rv_config = Some toy_rv_service" by (rule toy_rv_new)
  show "(service_step id)\<^sup>*\<^sup>* (run_start toy_rv_service) toy_rv_run" by (rule toy_rv_reach)
  show "sorted (sv_times toy_rv_run)" by (simp add: toy_rv_run_def)
  show "unat (max_slot_operations_per_minute toy_rv_config)
      < length (filter (\<lambda>(_, slot', t). slot' = zeros 32 \<and> t div RATE_WINDOW_SECS = 0) (sv_log toy_rv_run))"
    by (simp add: toy_rv_run_def toy_rv_config_def)
qed

section \<open>Witnesses\<close>

theorem service_bounded_witness:
  "accounted_mutable_bytes (sv_service toy_rv_run) \<le> max_memory_bytes toy_rv_config
    \<and> record_count (sv_service toy_rv_run) \<le> max_records toy_rv_config
    \<and> rs_active (sv_service toy_rv_run) \<le> max_concurrent_requests toy_rv_config"
  using service_bounded [OF toy_rv_new toy_rv_reach] .

theorem rate_limits_hold_witness:
  "admitted_ops (\<lambda>_. True) 0 (sv_log toy_rv_run) = 2
    \<and> admitted_ops (\<lambda>_. True) 0 (sv_log toy_rv_run) \<le> unat (max_global_operations_per_minute toy_rv_config)
    \<and> admitted_ops ((=) [1]) 0 (sv_log toy_rv_run) \<le> unat (max_client_operations_per_minute toy_rv_config)"
proof -
  have "sorted (sv_times toy_rv_run)" by (simp add: toy_rv_run_def)
  moreover have "admitted_ops (\<lambda>_. True) 0 (sv_log toy_rv_run) = 2" by (simp add: admitted_ops_def toy_rv_run_def)
  ultimately show ?thesis using rate_limits_hold [OF toy_rv_new toy_rv_reach] by blast
qed

theorem response_shape_uniform_witness:
  "(let response = snd (handle id RENDEZVOUS_LOOKUP_PATH RENDEZVOUS_MEDIA_TYPE (zeros 64) [1] 0 zeros toy_rv_service) in
    (sp_status response, length (sp_body response)) = request_shape RENDEZVOUS_LOOKUP_PATH RENDEZVOUS_MEDIA_TYPE (zeros 64))"
proof -
  have "service_ok toy_rv_config toy_rv_service" by (rule service_ok_new [OF toy_rv_new])
  moreover have "length (zeros n) = n" for n by simp
  moreover obtain s' response where h: "handle id RENDEZVOUS_LOOKUP_PATH RENDEZVOUS_MEDIA_TYPE (zeros 64) [1] 0 zeros toy_rv_service
      = (s', response)" by fastforce
  ultimately have "(sp_status response, length (sp_body response)) = request_shape RENDEZVOUS_LOOKUP_PATH RENDEZVOUS_MEDIA_TYPE (zeros 64)"
    using response_shape_uniform by blast
  then show ?thesis by (simp add: h)
qed

definition toy_rv_stored :: MutableState where
  "toy_rv_stored = register toy_rv_config id (toy_rv_request 7200) 0 (rs_mutable toy_rv_service)"

theorem registered_is_served_witness:
  "snd (lookup id \<lparr>rl_slot = zeros 32, rl_epoch = 0\<rparr> 3600 toy_rv_stored) = Some (zeros 4136)
    \<and> snd (lookup id \<lparr>rl_slot = zeros 32, rl_epoch = 0\<rparr> 7200 toy_rv_stored) = None"
proof -
  obtain body where body: "register_decode body = Inr (toy_rv_request 7200)" using toy_rv_decode [of 7200] by auto
  let ?q = "toy_rv_request 7200"
  let ?r1 = "(run_start toy_rv_service)\<lparr>sv_service := toy_rv_service\<lparr>rs_mutable := toy_rv_stored\<rparr>, sv_times := [0]\<rparr>"
  have "snd (lookup id \<lparr>rl_slot = rr_slot ?q, rl_epoch = rr_epoch ?q\<rparr> t (rs_mutable (sv_service ?r1)))
      = (if unat t < unat (0 :: u64) + unat (rr_ttl_seconds ?q) \<and> saturating_sub (rendezvous_epoch t) 1 \<le> rr_epoch ?q
         then Some (rr_sealed_record ?q) else None)" for t
    by (rule registered_is_served [OF toy_rv_new rtranclp.rtrancl_refl refl _ body, where ?r1.0 = ?r1])
      (simp_all add: run_start_def toy_rv_request_def toy_rv_stored_def toy_rv_config_def rendezvous_epoch_def toy_rv_service_def)
  from this [of 3600] this [of 7200] show ?thesis
    by (simp add: toy_rv_request_def rendezvous_epoch_def saturating_sub_def)
qed

end
