(* ===== verification/Provider_Origin.thy ===== *)
theory Provider_Origin
  imports Crypto_Base
begin

text \<open>
  Rendezvous providers: \<^verbatim>\<open>RendezvousProvider::new\<close> and the test for a canonical HTTPS origin of
  \<^verbatim>\<open>kult-transport/src/rendezvous.rs\<close>, with the provider id of \<^verbatim>\<open>kult-crypto/src/rendezvous.rs\<close>.

  The first section models what the code uses of the standard library: splitting, decimal numbers, and the text forms of
  \<^verbatim>\<open>Ipv4Addr\<close> and \<^verbatim>\<open>Ipv6Addr\<close>. Strings are their UTF-8 bytes.
\<close>

section \<open>Standard library\<close>

fun split_on :: "'a \<Rightarrow> 'a list \<Rightarrow> 'a list list" where
  "split_on c [] = [[]]"
| "split_on c (x # xs) =
     (if x = c then [] # split_on c xs
      else (case split_on c xs of [] \<Rightarrow> [[x]] | part # parts \<Rightarrow> (x # part) # parts))"

definition is_digit :: "u8 \<Rightarrow> bool" where "is_digit b \<longleftrightarrow> 0x30 \<le> b \<and> b \<le> 0x39"
definition is_lower :: "u8 \<Rightarrow> bool" where "is_lower b \<longleftrightarrow> 0x61 \<le> b \<and> b \<le> 0x7A"
definition is_upper :: "u8 \<Rightarrow> bool" where "is_upper b \<longleftrightarrow> 0x41 \<le> b \<and> b \<le> 0x5A"
definition is_whitespace :: "u8 \<Rightarrow> bool" where "is_whitespace b \<longleftrightarrow> b \<in> set [0x20, 0x09, 0x0A, 0x0C, 0x0D]"

text \<open>The value of a character as a digit of the given radix.\<close>

definition to_digit :: "nat \<Rightarrow> u8 \<Rightarrow> nat option" where
  "to_digit radix b =
     (let d = (if is_digit b then unat b - 48 else if is_lower b then unat b - 87 else if is_upper b then unat b - 55 else radix) in
      if d < radix then Some d else None)"

definition number_of :: "nat \<Rightarrow> bytes \<Rightarrow> nat" where
  "number_of radix s = foldl (\<lambda>n b. n * radix + the (to_digit radix b)) 0 s"

fun show_number :: "nat \<Rightarrow> nat \<Rightarrow> bytes" where
  "show_number radix n =
     (if radix < 2 then []
      else
        let d = n mod radix; c = word_of_nat (if d < 10 then 48 + d else 87 + d) in
        if n < radix then [c] else show_number radix (n div radix) @ [c])"

declare show_number.simps [simp del]

text \<open>\<^verbatim>\<open>str::parse\<close> for \<^verbatim>\<open>u16\<close>.\<close>

definition parse_u16 :: "bytes \<Rightarrow> nat option" where
  "parse_u16 s =
     (let digits = (if s \<noteq> [] \<and> hd s = 0x2B then tl s else s) in
      if digits \<noteq> [] \<and> list_all is_digit digits \<and> number_of 10 digits < 65536 then Some (number_of 10 digits) else None)"

text \<open>A number in an address: at most \<open>n\<close> digits, below \<open>bound\<close>, leading zeros only where they are allowed.\<close>

definition read_number :: "nat \<Rightarrow> nat \<Rightarrow> bool \<Rightarrow> nat \<Rightarrow> bytes \<Rightarrow> (nat \<times> bytes) option" where
  "read_number radix n leading_zeros bound s =
     (let ds = takeWhile (\<lambda>b. to_digit radix b \<noteq> None) s; v = number_of radix ds in
      if ds = [] \<or> length ds > n \<or> v \<ge> bound \<or> (\<not> leading_zeros \<and> length ds > 1 \<and> hd ds = 0x30) then None
      else Some (v, drop (length ds) s))"

definition read_char :: "u8 \<Rightarrow> bytes \<Rightarrow> bytes option" where
  "read_char c s = (case s of b # r \<Rightarrow> if b = c then Some r else None | [] \<Rightarrow> None)"

fun read_octets :: "nat \<Rightarrow> nat \<Rightarrow> bytes \<Rightarrow> (nat list \<times> bytes) option" where
  "read_octets i 0 s = Some ([], s)"
| "read_octets i (Suc n) s =
     Option.bind (if i = 0 then Some s else read_char 0x2E s) (\<lambda>s.
     Option.bind (read_number 10 3 False 256 s) (\<lambda>(v, s).
     Option.bind (read_octets (Suc i) n s) (\<lambda>(vs, s). Some (v # vs, s))))"

definition ipv4_from_str :: "bytes \<Rightarrow> nat list option" where
  "ipv4_from_str s = (case read_octets 0 4 s of Some (vs, []) \<Rightarrow> Some vs | _ \<Rightarrow> None)"

definition ipv4_show :: "nat list \<Rightarrow> bytes" where
  "ipv4_show vs = concat (map (\<lambda>i. (if i = 0 then [] else [0x2E]) @ show_number 10 (vs ! i)) [0..<length vs])"

text \<open>The groups of an IPv6 address: a run of at most \<open>n\<close> groups, which an embedded IPv4 address may end.\<close>

fun read_groups :: "nat \<Rightarrow> nat \<Rightarrow> bytes \<Rightarrow> nat list \<times> bool \<times> bytes" where
  "read_groups i 0 s = ([], False, s)"
| "read_groups i (Suc n) s =
     (let after = (if i = 0 then Some s else read_char 0x3A s) in
      case (if n = 0 then None else Option.bind after (read_octets 0 4)) of
        Some (vs, r) \<Rightarrow> ([vs ! 0 * 256 + vs ! 1, vs ! 2 * 256 + vs ! 3], True, r)
      | None \<Rightarrow>
          (case Option.bind after (read_number 16 4 True 65536) of
             None \<Rightarrow> ([], False, s)
           | Some (g, r) \<Rightarrow> let (gs, v4, r) = read_groups (Suc i) n r in (g # gs, v4, r)))"

definition ipv6_from_str :: "bytes \<Rightarrow> nat list option" where
  "ipv6_from_str s =
     (let (hd_groups, v4, r) = read_groups 0 8 s in
      if length hd_groups = 8 then (if r = [] then Some hd_groups else None)
      else if v4 then None
      else
        Option.bind (read_char 0x3A r) (\<lambda>r. Option.bind (read_char 0x3A r) (\<lambda>r.
        let (tl_groups, _, r) = read_groups 0 (7 - length hd_groups) r in
        if r = [] then Some (hd_groups @ replicate (8 - length hd_groups - length tl_groups) 0 @ tl_groups) else None)))"

text \<open>The first longest run of zero groups, as start and length.\<close>

fun longest_zeros :: "nat \<Rightarrow> nat \<times> nat \<Rightarrow> nat \<times> nat \<Rightarrow> nat list \<Rightarrow> nat \<times> nat" where
  "longest_zeros i best current [] = best"
| "longest_zeros i best current (g # gs) =
     (if g = 0 then
        let current = (if snd current = 0 then i else fst current, snd current + 1) in
        longest_zeros (Suc i) (if snd current > snd best then current else best) current gs
      else longest_zeros (Suc i) best (0, 0) gs)"

definition show_groups :: "nat list \<Rightarrow> bytes" where
  "show_groups gs = concat (map (\<lambda>i. (if i = 0 then [] else [0x3A]) @ show_number 16 (gs ! i)) [0..<length gs])"

definition ipv6_show :: "nat list \<Rightarrow> bytes" where
  "ipv6_show gs =
     (if take 6 gs = [0, 0, 0, 0, 0, 0xFFFF]
      then ascii ''::ffff:'' @ ipv4_show [gs ! 6 div 256, gs ! 6 mod 256, gs ! 7 div 256, gs ! 7 mod 256]
      else
        let (start, len) = longest_zeros 0 (0, 0) (0, 0) gs in
        if len > 1 then show_groups (take start gs) @ [0x3A, 0x3A] @ show_groups (drop (start + len) gs)
        else show_groups gs)"

section \<open>Origins\<close>

definition MAX_RENDEZVOUS_PROVIDER_ORIGIN_BYTES :: nat where [simp]: "MAX_RENDEZVOUS_PROVIDER_ORIGIN_BYTES = 512"

definition dns_label :: "bytes \<Rightarrow> bool" where
  "dns_label s \<longleftrightarrow> s \<noteq> [] \<and> length s \<le> 63 \<and> hd s \<noteq> 0x2D \<and> last s \<noteq> 0x2D
     \<and> list_all (\<lambda>b. is_lower b \<or> is_digit b \<or> b = 0x2D) s"

definition canonical_host :: "bytes \<Rightarrow> bool" where
  "canonical_host host =
     (if host = [] \<or> length host > 253 \<or> hd host = 0x2E \<or> last host = 0x2E then False
      else (case ipv4_from_str host of
              Some address \<Rightarrow> ipv4_show address = host
            | None \<Rightarrow>
                if list_all (\<lambda>b. is_digit b \<or> b = 0x2E) host then False
                else list_all dns_label (split_on 0x2E host)))"

definition canonical_nondefault_port :: "bytes \<Rightarrow> bool" where
  "canonical_nondefault_port port =
     (case parse_u16 port of None \<Rightarrow> False | Some v \<Rightarrow> v \<noteq> 0 \<and> v \<noteq> 443 \<and> show_number 10 v = port)"

text \<open>The port of an authority, when its host is acceptable: \<open>Some None\<close> is a host without a port.\<close>

definition authority_port :: "bytes \<Rightarrow> bytes option option" where
  "authority_port authority =
     (case strip_prefix authority [0x5B] of
        Some bracketed \<Rightarrow>
          (if 0x5D \<notin> set bracketed then None
           else
             let host = takeWhile (\<lambda>b. b \<noteq> 0x5D) bracketed; suffix = drop (length host + 1) bracketed in
             if host = [] \<or> \<not> (case ipv6_from_str host of None \<Rightarrow> False | Some address \<Rightarrow> ipv6_show address = host) then None
             else if suffix = [] then Some None
             else map_option Some (strip_prefix suffix [0x3A]))
      | None \<Rightarrow>
          (let parts = split_on 0x3A authority in
           if length parts > 2 then None
           else if \<not> canonical_host (hd parts) then None
           else Some (if length parts = 2 then Some (parts ! 1) else None)))"

definition canonical_https_origin :: "bytes \<Rightarrow> bool" where
  "canonical_https_origin origin =
     (let PREFIX = ascii ''https://'' in
      if length origin \<le> length PREFIX \<or> length origin > MAX_RENDEZVOUS_PROVIDER_ORIGIN_BYTES
        \<or> \<not> starts_with origin PREFIX \<or> last origin = 0x2F then False
      else
        let authority = drop (length PREFIX) origin in
        if authority = []
          \<or> list_ex (\<lambda>b. is_whitespace b \<or> is_upper b \<or> b \<in> set [0x2F, 0x3F, 0x23, 0x40, 0]) authority then False
        else (case authority_port authority of
                None \<Rightarrow> False
              | Some None \<Rightarrow> True
              | Some (Some port) \<Rightarrow> canonical_nondefault_port port))"

section \<open>Providers\<close>

record RendezvousProvider =
  rp_origin :: bytes
  rp_static_key :: bytes
  rp_provider_id :: bytes

definition rendezvous_provider_id :: "prims \<Rightarrow> bytes \<Rightarrow> bytes \<Rightarrow> bytes cresult" where
  "rendezvous_provider_id C origin key =
     (if origin = [] \<or> length origin > MAX_RENDEZVOUS_PROVIDER_ORIGIN_BYTES \<or> 0 \<in> set origin then Inl InvalidKey
      else Inr (sha256 C (origin @ key)))"

text \<open>The constructor, \<open>None\<close> standing for \<^verbatim>\<open>TransportError::UnsupportedHint\<close>.\<close>

definition provider_new :: "prims \<Rightarrow> bytes \<Rightarrow> bytes \<Rightarrow> RendezvousProvider option" where
  "provider_new C origin key =
     (if \<not> canonical_https_origin origin \<or> key = zeros 32 then None
      else (case rendezvous_provider_id C origin key of
              Inl _ \<Rightarrow> None
            | Inr i \<Rightarrow> Some \<lparr>rp_origin = origin, rp_static_key = key, rp_provider_id = i\<rparr>))"

lemma provider_new_fields:
  "provider_new C origin key = Some p \<Longrightarrow> rp_origin p = origin \<and> rp_static_key p = key"
  by (auto simp: provider_new_def split: if_splits sum.splits)

text \<open>A provider can be refused for its origin or a zero key only: the id of an accepted origin always exists.\<close>

lemma provider_new_iff:
  "provider_new C origin key \<noteq> None \<longleftrightarrow> canonical_https_origin origin \<and> key \<noteq> zeros 32"
proof -
  have "rendezvous_provider_id C origin key = Inr (sha256 C (origin @ key))" if o: "canonical_https_origin origin"
  proof -
    define P where "P = ascii ''https://''"
    have P: "0 \<notin> set P" unfolding P_def by code_simp
    have split: "(if a then False else b) \<longleftrightarrow> \<not> a \<and> b" for a b by simp
    from o have o: "length P < length origin" "length origin \<le> 512" "starts_with origin P"
        "\<forall>b\<in>set (drop (length P) origin). b \<notin> set [0x2F, 0x3F, 0x23, 0x40, 0]"
      unfolding canonical_https_origin_def Let_def P_def [symmetric] split list_ex_iff de_Morgan_disj not_le not_less
        MAX_RENDEZVOUS_PROVIDER_ORIGIN_BYTES_def by blast+
    have "0 \<in> set [0x2F, 0x3F, 0x23, 0x40, 0 :: u8]" by simp
    with o(4) have "0 \<notin> set (drop (length P) origin)" by blast
    moreover have "origin \<noteq> []" using o(1) by (cases origin) simp_all
    moreover have "take (length P) origin = P" using o(3) by (simp add: starts_with_def)
    moreover have "set origin = set (take (length P) origin) \<union> set (drop (length P) origin)"
      by (metis append_take_drop_id set_append)
    ultimately show ?thesis using P o(2) by (auto simp: rendezvous_provider_id_def)
  qed
  then show ?thesis by (auto simp: provider_new_def)
qed

end
