(* ===== verification/Provider_Directory.thy ===== *)
theory Provider_Directory
  imports Provider_Origin Big_Endian "HOL-Library.List_Lexorder" "HOL-Library.Product_Lexorder"
begin

text \<open>
  \<^verbatim>\<open>kult-transport/src/provider_directory.rs\<close>: signed directories of service providers, their hash-linked chain in a local
  cache, and the providers a shell starts with.

  A string is its UTF-8 bytes. Parsing a multiaddress (\<^verbatim>\<open>internet::parse_addr\<close>, which calls libp2p) and the JSON forms
  (serde) are parameters. A path is what is found there: nothing, or a file, readable or not, with its metadata and content; how the
  atomic replacement of the cache ends is an argument.
\<close>

section \<open>Data\<close>

definition PROVIDER_DIRECTORY_VERSION :: u8 where [simp]: "PROVIDER_DIRECTORY_VERSION = 1"
definition MAX_PROVIDER_DIRECTORY_FILE_BYTES :: nat where [simp]: "MAX_PROVIDER_DIRECTORY_FILE_BYTES = 256 * 1024"
definition MAX_TRUSTED_DIRECTORY_KEYS :: nat where [simp]: "MAX_TRUSTED_DIRECTORY_KEYS = 8"
definition MAX_PROVIDER_DIRECTORY_CHAIN :: nat where [simp]: "MAX_PROVIDER_DIRECTORY_CHAIN = 16"
definition MAX_PROVIDER_OPERATORS :: nat where [simp]: "MAX_PROVIDER_OPERATORS = 32"
definition MAX_PROVIDER_ROLE_ENTRIES :: nat where [simp]: "MAX_PROVIDER_ROLE_ENTRIES = 8"
definition MAX_PROVIDER_DIRECTORY_VALIDITY_SECS :: u64 where
  [simp]: "MAX_PROVIDER_DIRECTORY_VALIDITY_SECS = 90 * 24 * 60 * 60"
definition PROVIDER_DIRECTORY_STALE_GRACE_SECS :: u64 where
  [simp]: "PROVIDER_DIRECTORY_STALE_GRACE_SECS = 30 * 24 * 60 * 60"
definition PROVIDER_DIRECTORY_CLOCK_SKEW_SECS :: u64 where
  [simp]: "PROVIDER_DIRECTORY_CLOCK_SKEW_SECS = 24 * 60 * 60"
definition MAX_RENDEZVOUS_PROVIDERS :: nat where [simp]: "MAX_RENDEZVOUS_PROVIDERS = 8"

datatype OperatingMode = Standard | Private | Sovereign

record ProviderRendezvous =
  pr_origin :: bytes
  pr_static_key :: bytes
  pr_standard :: bool
  pr_private_via_tor :: bool

record ProviderOperator =
  operator_id :: bytes
  administrative_domain :: bytes
  op_bootstrap :: "bytes list"
  op_relays :: "bytes list"
  op_mailboxes :: "bytes list"
  op_rendezvous :: "ProviderRendezvous list"

record ProviderDirectory =
  pd_version :: u8
  pd_generation :: u64
  pd_valid_from :: u64
  pd_valid_until :: u64
  pd_previous_digest :: "bytes option"
  pd_signing_key :: bytes
  pd_next_signing_key :: "bytes option"
  pd_next_key_not_before :: "u64 option"
  pd_operators :: "ProviderOperator list"
  pd_signature :: bytes

record ManualProviderSet =
  mn_bootstrap :: "bytes list"
  mn_relay :: "bytes option"
  mn_mailboxes :: "bytes list"
  mn_rendezvous :: "ProviderRendezvous list"

record EffectiveProviderSet =
  ef_bootstrap :: "bytes list"
  ef_relay :: "bytes option"
  ef_mailboxes :: "bytes list"
  ef_rendezvous :: "RendezvousProvider list"

datatype ProviderDirectoryStatus = Current | RetainedLastValid | Stale | Conflict | Unavailable

record ProviderDirectoryResolution =
  rs_directory :: "ProviderDirectory option"
  rs_status :: ProviderDirectoryStatus
  rs_providers :: EffectiveProviderSet

datatype ProviderDirectoryError = Io | Encoding | Invalid string

type_synonym 'a dresult = "ProviderDirectoryError + 'a"

record VerifiedDirectory =
  vd_document :: ProviderDirectory
  vd_signing_key :: bytes
  vd_next_signing_key :: "bytes option"
  vd_digest :: bytes

record ProviderDirectoryCache =
  ca_version :: u8
  ca_chain :: "ProviderDirectory list"

section \<open>Canonical bytes\<close>

definition hex_nibble :: "u8 \<Rightarrow> u8" where
  "hex_nibble v = (if is_digit v then v - 0x30 else if 0x61 \<le> v \<and> v \<le> 0x66 then v - 0x61 + 10 else 0)"

fun hex_pairs :: "bytes \<Rightarrow> bytes" where
  "hex_pairs (a # b # r) = (push_bit 4 (hex_nibble a) OR hex_nibble b) # hex_pairs r"
| "hex_pairs _ = []"

definition parse_hex :: "nat \<Rightarrow> bytes \<Rightarrow> bytes dresult" where
  "parse_hex n v =
     (if length v \<noteq> n * 2 \<or> list_ex (\<lambda>b. \<not> is_digit b \<and> \<not> (0x61 \<le> b \<and> b \<le> 0x66)) v then Inl (Invalid ''non-canonical hexadecimal'')
      else Inr (hex_pairs v))"

definition hex_digit :: "u8 \<Rightarrow> u8" where
  "hex_digit d = ascii ''0123456789abcdef'' ! unat d"

definition hex_string :: "bytes \<Rightarrow> bytes" where
  "hex_string b = concat (map (\<lambda>x. [hex_digit (drop_bit 4 x), hex_digit (x AND 0x0F)]) b)"

text \<open>\<^verbatim>\<open>Option<String>\<close> through \<^verbatim>\<open>parse_hex\<close> and \<^verbatim>\<open>transpose\<close>.\<close>

definition parse_optional :: "bytes option \<Rightarrow> bytes option dresult" where
  "parse_optional v = (case v of None \<Rightarrow> Inr None | Some s \<Rightarrow> try_then (parse_hex 32 s) (\<lambda>b. Inr (Some b)))"

definition push_optional_fixed :: "bytes option \<Rightarrow> bytes" where
  "push_optional_fixed v = (case v of None \<Rightarrow> [0] | Some b \<Rightarrow> 1 # b)"

definition push_u16 :: "nat \<Rightarrow> bytes dresult" where
  "push_u16 n = (if n < 65536 then Inr (to_be16 (word_of_nat n)) else Inl (Invalid ''canonical count overflow''))"

definition push_string :: "bytes \<Rightarrow> bytes dresult" where
  "push_string s = try_then (push_u16 (length s)) (\<lambda>n. Inr (n @ s))"

definition safe_id :: "bytes \<Rightarrow> bool" where
  "safe_id s \<longleftrightarrow> s \<noteq> [] \<and> length s \<le> 63 \<and> (is_lower (hd s) \<or> is_digit (hd s))
     \<and> list_all (\<lambda>b. is_lower b \<or> is_digit b \<or> b = 0x2D) s \<and> last s \<noteq> 0x2D"

definition canonical_domain :: "bytes \<Rightarrow> bool" where
  "canonical_domain s =
     (if length s > 253 \<or> ipv4_from_str s \<noteq> None \<or> ipv6_from_str s \<noteq> None then False
      else
        let labels = split_on 0x2E s in length labels \<ge> 2 \<and> list_all dns_label labels)"

fun role_entries :: "(bytes \<Rightarrow> bool) \<Rightarrow> bytes option \<Rightarrow> bytes list \<Rightarrow> bytes dresult" where
  "role_entries A prior [] = Inr []"
| "role_entries A prior (e # es) =
     (if (case prior of None \<Rightarrow> False | Some v \<Rightarrow> v \<ge> e) \<or> \<not> A e then Inl (Invalid ''provider multiaddress or order'')
      else try_then (push_string e) (\<lambda>s. try_then (role_entries A (Some e) es) (\<lambda>r. Inr (s @ r))))"

definition canonical_role :: "(bytes \<Rightarrow> bool) \<Rightarrow> bytes list \<Rightarrow> bytes dresult" where
  "canonical_role A es =
     (if length es > MAX_PROVIDER_ROLE_ENTRIES then Inl (Invalid ''provider role count'')
      else try_then (push_u16 (length es)) (\<lambda>n. try_then (role_entries A None es) (\<lambda>r. Inr (n @ r))))"

definition flag :: "bool \<Rightarrow> u8" where "flag b = (if b then 1 else 0)"

fun rendezvous_entries :: "prims \<Rightarrow> (bytes \<times> bytes) option \<Rightarrow> ProviderRendezvous list \<Rightarrow> bytes dresult" where
  "rendezvous_entries C prior [] = Inr []"
| "rendezvous_entries C prior (e # es) =
     try_then (parse_hex 32 (pr_static_key e)) (\<lambda>key.
     case provider_new C (pr_origin e) key of
       None \<Rightarrow> Inl (Invalid ''rendezvous provider'')
     | Some provider \<Rightarrow>
         if \<not> pr_standard e \<and> \<not> pr_private_via_tor e
           \<or> (case prior of None \<Rightarrow> False | Some p \<Rightarrow> p \<ge> (pr_origin e, pr_static_key e))
         then Inl (Invalid ''rendezvous access or order'')
         else
           try_then (push_string (rp_origin provider)) (\<lambda>s.
           try_then (rendezvous_entries C (Some (pr_origin e, pr_static_key e)) es) (\<lambda>r.
           Inr (s @ rp_static_key provider @ [flag (pr_standard e), flag (pr_private_via_tor e)] @ r))))"

fun operator_entries :: "prims \<Rightarrow> (bytes \<Rightarrow> bool) \<Rightarrow> bytes option \<Rightarrow> ProviderOperator list \<Rightarrow> bytes dresult" where
  "operator_entries C A prior [] = Inr []"
| "operator_entries C A prior (e # es) =
     (if \<not> safe_id (operator_id e) \<or> \<not> canonical_domain (administrative_domain e)
        \<or> (case prior of None \<Rightarrow> False | Some p \<Rightarrow> p \<ge> operator_id e)
      then Inl (Invalid ''operator identity or order'')
      else
        try_then (push_string (operator_id e)) (\<lambda>i.
        try_then (push_string (administrative_domain e)) (\<lambda>d.
        try_then (canonical_role A (op_bootstrap e)) (\<lambda>b.
        try_then (canonical_role A (op_relays e)) (\<lambda>l.
        try_then (canonical_role A (op_mailboxes e)) (\<lambda>m.
        if length (op_rendezvous e) > MAX_PROVIDER_ROLE_ENTRIES then Inl (Invalid ''rendezvous count'')
        else
          try_then (push_u16 (length (op_rendezvous e))) (\<lambda>n.
          try_then (rendezvous_entries C None (op_rendezvous e)) (\<lambda>v.
          try_then (operator_entries C A (Some (operator_id e)) es) (\<lambda>r.
          Inr (i @ d @ b @ l @ m @ n @ v @ r))))))))))"

definition canonical_document :: "prims \<Rightarrow> (bytes \<Rightarrow> bool) \<Rightarrow> ProviderDirectory \<Rightarrow> bytes dresult" where
  "canonical_document C A d =
     (if pd_version d \<noteq> PROVIDER_DIRECTORY_VERSION \<or> pd_generation d = 0 \<or> pd_valid_from d > pd_valid_until d
        \<or> saturating_sub (pd_valid_until d) (pd_valid_from d) > MAX_PROVIDER_DIRECTORY_VALIDITY_SECS
        \<or> pd_operators d = [] \<or> length (pd_operators d) > MAX_PROVIDER_OPERATORS
      then Inl (Invalid ''version, generation, validity, or operator count'')
      else
        try_then (parse_optional (pd_previous_digest d)) (\<lambda>previous.
        try_then (parse_hex 32 (pd_signing_key d)) (\<lambda>signing.
        try_then (parse_optional (pd_next_signing_key d)) (\<lambda>next.
        if (next \<noteq> None) \<noteq> (pd_next_key_not_before d \<noteq> None)
          \<or> (case pd_next_key_not_before d of None \<Rightarrow> False | Some g \<Rightarrow> g \<le> pd_generation d)
          \<or> next = Some signing
        then Inl (Invalid ''next signing key'')
        else
          try_then (push_u16 (length (pd_operators d))) (\<lambda>n.
          try_then (operator_entries C A None (pd_operators d)) (\<lambda>ops.
          Inr (ascii ''KPD1'' @ [pd_version d] @ to_be64 (pd_generation d) @ to_be64 (pd_valid_from d)
               @ to_be64 (pd_valid_until d) @ push_optional_fixed previous @ signing @ push_optional_fixed next
               @ to_be64 (case pd_next_key_not_before d of None \<Rightarrow> 0 | Some g \<Rightarrow> g) @ n @ ops)))))))"

section \<open>Verification\<close>

definition validate_trusted_keys :: "bytes list \<Rightarrow> unit dresult" where
  "validate_trusted_keys keys =
     (if keys = [] \<or> length keys > MAX_TRUSTED_DIRECTORY_KEYS then Inl (Invalid ''trusted root count'')
      else if zeros 32 \<in> set keys \<or> \<not> distinct keys then Inl (Invalid ''trusted root key'')
      else Inr ())"

definition rotated :: "VerifiedDirectory \<Rightarrow> bytes \<Rightarrow> u64 \<Rightarrow> bool" where
  "rotated previous key generation \<longleftrightarrow>
     vd_next_signing_key previous = Some key
     \<and> (case pd_next_key_not_before (vd_document previous) of None \<Rightarrow> False | Some g \<Rightarrow> generation \<ge> g)"

definition link_ok :: "VerifiedDirectory option \<Rightarrow> bytes list \<Rightarrow> ProviderDirectory \<Rightarrow> bytes \<Rightarrow> unit dresult" where
  "link_ok previous trusted d key =
     (case previous of
        None \<Rightarrow>
          if pd_previous_digest d \<noteq> None \<or> key \<notin> set trusted then Inl (Invalid ''untrusted genesis'') else Inr ()
      | Some p \<Rightarrow>
          if pd_generation d \<le> pd_generation (vd_document p) \<or> pd_previous_digest d \<noteq> Some (hex_string (vd_digest p))
          then Inl (Invalid ''rollback, fork, or missing parent binding'')
          else if key \<noteq> vd_signing_key p \<and> \<not> rotated p key (pd_generation d)
          then Inl (Invalid ''unauthorized signing-key transition'')
          else Inr ())"

definition verify_successor ::
  "prims \<Rightarrow> (bytes \<Rightarrow> bool) \<Rightarrow> ProviderDirectory \<Rightarrow> VerifiedDirectory option \<Rightarrow> bytes list \<Rightarrow> VerifiedDirectory dresult" where
  "verify_successor C A d previous trusted =
     try_then (canonical_document C A d) (\<lambda>canonical.
     try_then (parse_hex 32 (pd_signing_key d)) (\<lambda>key.
     try_then (parse_hex 64 (pd_signature d)) (\<lambda>signature.
     case verify_ed25519_domain_signature C key DIRECTORY_SIGNATURE_DOMAIN canonical signature of
       Inl _ \<Rightarrow> Inl (Invalid ''signature'')
     | Inr _ \<Rightarrow>
         try_then (link_ok previous trusted d key) (\<lambda>_.
         try_then (parse_optional (pd_next_signing_key d)) (\<lambda>next.
         Inr \<lparr>vd_document = d, vd_signing_key = key, vd_next_signing_key = next,
              vd_digest = sha256 C (canonical @ signature)\<rparr>)))))"

fun verify_documents ::
  "prims \<Rightarrow> (bytes \<Rightarrow> bool) \<Rightarrow> bytes list \<Rightarrow> VerifiedDirectory list \<Rightarrow> ProviderDirectory list \<Rightarrow> VerifiedDirectory list dresult" where
  "verify_documents C A trusted verified [] = Inr verified"
| "verify_documents C A trusted verified (d # ds) =
     try_then (verify_successor C A d (if verified = [] then None else Some (last verified)) trusted) (\<lambda>v.
     verify_documents C A trusted (verified @ [v]) ds)"

definition verify_directory_chain ::
  "prims \<Rightarrow> (bytes \<Rightarrow> bool) \<Rightarrow> ProviderDirectory list \<Rightarrow> bytes list \<Rightarrow> VerifiedDirectory list dresult" where
  "verify_directory_chain C A ds trusted =
     (if length ds > MAX_PROVIDER_DIRECTORY_CHAIN then Inl (Invalid ''cached chain length'')
      else verify_documents C A trusted [] ds)"

section \<open>Effective providers\<close>

fun dedup_preserving_order :: "'a list \<Rightarrow> 'a list \<Rightarrow> 'a list" where
  "dedup_preserving_order seen [] = []"
| "dedup_preserving_order seen (x # xs) =
     (if x \<in> set seen then dedup_preserving_order seen xs else x # dedup_preserving_order (x # seen) xs)"

fun eligible :: "OperatingMode \<Rightarrow> ProviderRendezvous \<Rightarrow> bool" where
  "eligible Standard e \<longleftrightarrow> pr_standard e"
| "eligible Private e \<longleftrightarrow> pr_private_via_tor e"
| "eligible Sovereign e \<longleftrightarrow> False"

fun resolve_rendezvous ::
  "prims \<Rightarrow> OperatingMode \<Rightarrow> RendezvousProvider list \<Rightarrow> ProviderRendezvous list \<Rightarrow> RendezvousProvider list dresult" where
  "resolve_rendezvous C mode resolved [] = Inr resolved"
| "resolve_rendezvous C mode resolved (e # es) =
     (if \<not> eligible mode e then resolve_rendezvous C mode resolved es
      else
        try_then (parse_hex 32 (pr_static_key e)) (\<lambda>key.
        case provider_new C (pr_origin e) key of
          None \<Rightarrow> Inl (Invalid ''rendezvous provider'')
        | Some p \<Rightarrow>
            if rp_provider_id p \<in> rp_provider_id ` set resolved then resolve_rendezvous C mode resolved es
            else if length resolved = MAX_RENDEZVOUS_PROVIDERS then Inr resolved
            else resolve_rendezvous C mode (resolved @ [p]) es))"

definition effective_providers ::
  "prims \<Rightarrow> OperatingMode \<Rightarrow> ProviderDirectory option \<Rightarrow> ManualProviderSet \<Rightarrow> EffectiveProviderSet dresult" where
  "effective_providers C mode directory manual =
     (let operators = (case directory of Some d \<Rightarrow> if mode \<noteq> Sovereign then pd_operators d else [] | None \<Rightarrow> []);
          bootstrap = mn_bootstrap manual @ concat (map op_bootstrap operators);
          relays = (case mn_relay manual of None \<Rightarrow> [] | Some r \<Rightarrow> [r]) @ concat (map op_relays operators);
          mailboxes = mn_mailboxes manual @ concat (map op_mailboxes operators);
          rendezvous = mn_rendezvous manual @ concat (map op_rendezvous operators) in
      try_then (if mode = Sovereign then Inr [] else resolve_rendezvous C mode [] rendezvous) (\<lambda>resolved.
      Inr \<lparr>ef_bootstrap = dedup_preserving_order [] bootstrap,
           ef_relay = (case dedup_preserving_order [] relays of [] \<Rightarrow> None | r # _ \<Rightarrow> Some r),
           ef_mailboxes = dedup_preserving_order [] mailboxes, ef_rendezvous = resolved\<rparr>))"

fun validate_manual_rendezvous :: "prims \<Rightarrow> ProviderRendezvous list \<Rightarrow> unit dresult" where
  "validate_manual_rendezvous C [] = Inr ()"
| "validate_manual_rendezvous C (e # es) =
     (if \<not> pr_standard e \<and> \<not> pr_private_via_tor e then Inl (Invalid ''manual rendezvous provider'')
      else
        try_then (parse_hex 32 (pr_static_key e)) (\<lambda>key.
        if provider_new C (pr_origin e) key = None then Inl (Invalid ''manual rendezvous provider'')
        else validate_manual_rendezvous C es))"

definition validate_manual :: "prims \<Rightarrow> (bytes \<Rightarrow> bool) \<Rightarrow> ManualProviderSet \<Rightarrow> unit dresult" where
  "validate_manual C A manual =
     (if length (mn_bootstrap manual) > MAX_PROVIDER_OPERATORS * MAX_PROVIDER_ROLE_ENTRIES
        \<or> length (mn_mailboxes manual) > MAX_PROVIDER_OPERATORS * MAX_PROVIDER_ROLE_ENTRIES
        \<or> length (mn_rendezvous manual) > MAX_RENDEZVOUS_PROVIDERS
        \<or> list_ex (\<lambda>e. \<not> A e) (mn_bootstrap manual)
        \<or> (case mn_relay manual of None \<Rightarrow> False | Some e \<Rightarrow> \<not> A e)
        \<or> list_ex (\<lambda>e. \<not> A e) (mn_mailboxes manual)
      then Inl (Invalid ''manual provider set'')
      else validate_manual_rendezvous C (mn_rendezvous manual))"

section \<open>Files\<close>

record FileState =
  fl_readable :: bool
  fl_regular :: bool
  fl_len :: nat
  fl_bytes :: bytes

record json =
  from_document :: "bytes \<Rightarrow> ProviderDirectory option"
  from_cache :: "bytes \<Rightarrow> ProviderDirectoryCache option"
  to_cache :: "ProviderDirectoryCache \<Rightarrow> bytes option"

datatype write_outcome = NoParent | NotReplaced | Replaced | ReplacedUnsynced

definition read_bounded :: "FileState option \<Rightarrow> bytes dresult" where
  "read_bounded file =
     (case file of
        None \<Rightarrow> Inl Io
      | Some f \<Rightarrow>
          if \<not> fl_readable f then Inl Io
          else if \<not> fl_regular f \<or> fl_len f > MAX_PROVIDER_DIRECTORY_FILE_BYTES then Inl (Invalid ''file type or size'')
          else
            let bytes = take (MAX_PROVIDER_DIRECTORY_FILE_BYTES + 1) (fl_bytes f) in
            if length bytes > MAX_PROVIDER_DIRECTORY_FILE_BYTES then Inl (Invalid ''file size'') else Inr bytes)"

definition load_document :: "json \<Rightarrow> FileState option \<Rightarrow> ProviderDirectory dresult" where
  "load_document J file = try_then (read_bounded file) (\<lambda>bytes. ok_or (from_document J bytes) Encoding)"

definition load_cache :: "json \<Rightarrow> FileState option \<Rightarrow> ProviderDirectoryCache dresult" where
  "load_cache J file =
     (if file = None then Inr \<lparr>ca_version = 0, ca_chain = []\<rparr>
      else
        try_then (read_bounded file) (\<lambda>bytes.
        try_then (ok_or (from_cache J bytes) Encoding) (\<lambda>cache.
        if ca_version cache \<noteq> PROVIDER_DIRECTORY_VERSION \<or> length (ca_chain cache) > MAX_PROVIDER_DIRECTORY_CHAIN
        then Inl (Invalid ''cache version or chain length'') else Inr cache)))"

definition write_cache ::
  "json \<Rightarrow> write_outcome \<Rightarrow> FileState option \<Rightarrow> VerifiedDirectory list \<Rightarrow> FileState option \<times> unit dresult" where
  "write_cache J outcome file chain =
     (if outcome = NoParent then (file, Inl Io)
      else (case to_cache J \<lparr>ca_version = PROVIDER_DIRECTORY_VERSION, ca_chain = map vd_document chain\<rparr> of
              None \<Rightarrow> (file, Inl Encoding)
            | Some bytes \<Rightarrow>
                if length bytes > MAX_PROVIDER_DIRECTORY_FILE_BYTES then (file, Inl (Invalid ''cache size''))
                else
                  let new = Some \<lparr>fl_readable = True, fl_regular = True, fl_len = length bytes, fl_bytes = bytes\<rparr> in
                  (case outcome of
                     Replaced \<Rightarrow> (new, Inr ())
                   | ReplacedUnsynced \<Rightarrow> (new, Inl Io)
                   | _ \<Rightarrow> (file, Inl Io))))"

section \<open>Resolution\<close>

definition resolution ::
  "prims \<Rightarrow> OperatingMode \<Rightarrow> ProviderDirectory option \<Rightarrow> ProviderDirectoryStatus \<Rightarrow> ManualProviderSet
     \<Rightarrow> ProviderDirectoryResolution dresult" where
  "resolution C mode directory status manual =
     try_then (effective_providers C mode directory manual) (\<lambda>providers.
     Inr \<lparr>rs_directory = directory, rs_status = status, rs_providers = providers\<rparr>)"

text \<open>The cache and, unless the call fails, the chain and whether the candidate was accepted or rejected.\<close>

definition consider_candidate ::
  "prims \<Rightarrow> (bytes \<Rightarrow> bool) \<Rightarrow> json \<Rightarrow> write_outcome \<Rightarrow> bytes list \<Rightarrow> FileState option \<Rightarrow> VerifiedDirectory list
     \<Rightarrow> ProviderDirectory option \<Rightarrow> FileState option \<times> (VerifiedDirectory list \<times> bool \<times> bool) dresult" where
  "consider_candidate C A J outcome trusted cache chain candidate =
     (case candidate of
        None \<Rightarrow> (cache, Inr (chain, False, True))
      | Some document \<Rightarrow>
          (let current = (if chain = [] then None else Some (last chain)) in
           case verify_successor C A document current trusted of
             Inl _ \<Rightarrow> (cache, Inr (chain, False, True))
           | Inr v \<Rightarrow>
               if (case current of None \<Rightarrow> False | Some c \<Rightarrow> vd_digest c = vd_digest v) then (cache, Inr (chain, True, False))
               else if (case current of None \<Rightarrow> True
                        | Some c \<Rightarrow> pd_generation (vd_document v) > pd_generation (vd_document c)) then
                 (if length (chain @ [v]) > MAX_PROVIDER_DIRECTORY_CHAIN
                  then (cache, Inl (Invalid ''signing-key transition chain exceeds the retained bound''))
                  else (case write_cache J outcome cache (chain @ [v]) of
                          (cache, Inl e) \<Rightarrow> (cache, Inl e)
                        | (cache, Inr _) \<Rightarrow> (cache, Inr (chain @ [v], True, False))))
               else (cache, Inr (chain, False, True))))"

definition usable :: "u64 \<Rightarrow> VerifiedDirectory \<Rightarrow> bool" where
  "usable now v \<longleftrightarrow>
     saturating_add now PROVIDER_DIRECTORY_CLOCK_SKEW_SECS \<ge> pd_valid_from (vd_document v)
     \<and> now \<le> saturating_add (pd_valid_until (vd_document v)) PROVIDER_DIRECTORY_STALE_GRACE_SECS"

definition directory_status ::
  "u64 \<Rightarrow> VerifiedDirectory list \<Rightarrow> bool \<Rightarrow> bool \<Rightarrow> bool \<Rightarrow> VerifiedDirectory option \<Rightarrow> ProviderDirectoryStatus" where
  "directory_status now chain had_usable_cache accepted rejected selected =
     (case selected of
        None \<Rightarrow> if rejected then Conflict else Unavailable
      | Some v \<Rightarrow>
          if now > pd_valid_until (vd_document v) then Stale
          else if rejected \<and> had_usable_cache then RetainedLastValid
          else if accepted \<and> chain \<noteq> [] \<and> vd_digest (last chain) = vd_digest v then Current
          else RetainedLastValid)"

definition resolve_provider_directory ::
  "prims \<Rightarrow> (bytes \<Rightarrow> bool) \<Rightarrow> json \<Rightarrow> write_outcome \<Rightarrow> OperatingMode \<Rightarrow> FileState option option \<Rightarrow> FileState option \<Rightarrow> bytes list
     \<Rightarrow> ManualProviderSet \<Rightarrow> u64 \<Rightarrow> FileState option \<times> ProviderDirectoryResolution dresult" where
  "resolve_provider_directory C A J outcome mode candidate cache trusted manual now =
     (case validate_manual C A manual of
        Inl e \<Rightarrow> (cache, Inl e)
      | Inr _ \<Rightarrow>
          (case candidate of
             None \<Rightarrow> (cache, resolution C mode None Unavailable manual)
           | Some path \<Rightarrow>
               if trusted = [] then (cache, Inl (Invalid ''directory data configured without a trusted root''))
               else (case validate_trusted_keys trusted of
                       Inl e \<Rightarrow> (cache, Inl e)
                     | Inr _ \<Rightarrow>
                         (case try_then (load_cache J cache) (\<lambda>c. verify_directory_chain C A (ca_chain c) trusted) of
                            Inl _ \<Rightarrow> (cache, resolution C mode None Conflict manual)
                          | Inr chain \<Rightarrow>
                              (case consider_candidate C A J outcome trusted cache chain (ok (load_document J path)) of
                                 (cache, Inl e) \<Rightarrow> (cache, Inl e)
                               | (cache, Inr (chain', accepted, rejected)) \<Rightarrow>
                                   let selected = find (usable now) (rev chain');
                                       status = directory_status now chain' (chain \<noteq> []) accepted rejected selected in
                                   (cache, resolution C mode (map_option vd_document selected) status manual))))))"

section \<open>Hexadecimal\<close>

definition is_hex :: "u8 \<Rightarrow> bool" where
  "is_hex b \<longleftrightarrow> is_digit b \<or> (0x61 \<le> b \<and> b \<le> 0x66)"

lemma hex_range:
  fixes n :: nat
  assumes "48 \<le> n \<and> n \<le> 57 \<or> 97 \<le> n \<and> n \<le> 102"
  shows "n = 48 \<or> n = 49 \<or> n = 50 \<or> n = 51 \<or> n = 52 \<or> n = 53 \<or> n = 54 \<or> n = 55 \<or> n = 56 \<or> n = 57
    \<or> n = 97 \<or> n = 98 \<or> n = 99 \<or> n = 100 \<or> n = 101 \<or> n = 102 \<or> False"
  using assms by presburger

lemma hex_cases:
  assumes "is_hex b"
  shows "b \<in> set (ascii ''0123456789abcdef'')"
proof -
  have "48 \<le> unat b \<and> unat b \<le> 57 \<or> 97 \<le> unat b \<and> unat b \<le> 102"
    using assms by (auto simp: is_hex_def is_digit_def word_le_nat_alt)
  then have "unat b \<in> set [48,49,50,51,52,53,54,55,56,57,97,98,99,100,101,102]" 
    unfolding list.set insert_iff empty_iff by (rule hex_range)
  then have "(word_of_nat (unat b) :: u8) \<in> word_of_nat ` set [48,49,50,51,52,53,54,55,56,57,97,98,99,100,101,102]" by (rule imageI)
  then have "b \<in> set (map word_of_nat [48,49,50,51,52,53,54,55,56,57,97,98,99,100,101,102])"
    unfolding set_map by simp
  moreover have "map word_of_nat [48,49,50,51,52,53,54,55,56,57,97,98,99,100,101,102] = ascii ''0123456789abcdef''" by code_simp
  ultimately show ?thesis by metis
qed

lemma hex_nibble_digit: "is_hex b \<Longrightarrow> hex_digit (hex_nibble b) = b \<and> hex_nibble b < 16"
proof -
  have "list_all (\<lambda>b. hex_digit (hex_nibble b) = b \<and> hex_nibble b < 16) (ascii ''0123456789abcdef'')" by code_simp
  then show "is_hex b \<Longrightarrow> ?thesis" using hex_cases by (auto simp: list_all_iff)
qed

lemma word_nat_inverse: "word_of_nat (unat w) = (w :: u8)"
  by simp

lemma nibbles:
  assumes "(a :: u8) < 16" "b < 16"
  shows "drop_bit 4 (push_bit 4 a OR b) = a \<and> (push_bit 4 a OR b) AND 0x0F = b"
proof -
  have "\<forall>i\<in>set [0..<16]. \<forall>j\<in>set [0..<16]. drop_bit 4 (push_bit 4 (word_of_nat i :: u8) OR word_of_nat j) = word_of_nat i
      \<and> (push_bit 4 (word_of_nat i :: u8) OR word_of_nat j) AND 0x0F = word_of_nat j" by code_simp
  moreover have "unat a \<in> set [0..<16]" "unat b \<in> set [0..<16]" using assms by (auto simp: word_less_nat_alt)
  ultimately have "drop_bit 4 (push_bit 4 (word_of_nat (unat a) :: u8) OR word_of_nat (unat b)) = word_of_nat (unat a)
      \<and> (push_bit 4 (word_of_nat (unat a) :: u8) OR word_of_nat (unat b)) AND 0x0F = word_of_nat (unat b)" by blast
  then show ?thesis unfolding word_nat_inverse .
qed

lemma hex_pair:
  assumes "is_hex a" "is_hex b"
  shows "[hex_digit (drop_bit 4 (push_bit 4 (hex_nibble a) OR hex_nibble b)), hex_digit ((push_bit 4 (hex_nibble a) OR hex_nibble b) AND 0x0F)]
    = [a, b]"
  using nibbles [of "hex_nibble a" "hex_nibble b"] hex_nibble_digit [OF assms(1)] hex_nibble_digit [OF assms(2)] by metis

lemma hex_string_pairs: "list_all is_hex v \<Longrightarrow> even (length v) \<Longrightarrow> hex_string (hex_pairs v) = v"
proof (induction v rule: hex_pairs.induct)
  case (1 a b r)
  have "hex_string (hex_pairs r) = r" using 1 by simp
  then show ?case unfolding hex_pairs.simps hex_string_def list.map concat.simps using hex_pair [of a b] 1(2) by simp
qed (simp_all add: hex_string_def)

lemma length_hex_pairs: "length (hex_pairs v) = length v div 2"
  by (induction v rule: hex_pairs.induct) auto

text \<open>Accepted hexadecimal is canonical.\<close>

lemma parse_hexD:
  assumes "parse_hex n v = Inr b"
  shows "hex_string b = v \<and> length b = n"
proof -
  have "length v = n * 2" "list_all is_hex v" "b = hex_pairs v"
    using assms by (auto simp: parse_hex_def is_hex_def list_all_iff list_ex_iff split: if_splits)
  then show ?thesis using hex_string_pairs length_hex_pairs by simp
qed

lemma hex_digit_nibble: "d < 16 \<Longrightarrow> is_hex (hex_digit d) \<and> hex_nibble (hex_digit d) = d"
proof -
  have "\<forall>i\<in>set [0..<16]. is_hex (hex_digit (word_of_nat i)) \<and> hex_nibble (hex_digit (word_of_nat i)) = word_of_nat i" by code_simp
  moreover assume "d < 16"
  then have "unat d \<in> set [0..<16]" by (auto simp: word_less_nat_alt)
  ultimately have "is_hex (hex_digit (word_of_nat (unat d))) \<and> hex_nibble (hex_digit (word_of_nat (unat d))) = word_of_nat (unat d)" by blast
  then show ?thesis unfolding word_nat_inverse .
qed

lemma split_byte: "drop_bit 4 (x :: u8) < 16 \<and> x AND 0x0F < 16 \<and> push_bit 4 (drop_bit 4 x) OR (x AND 0x0F) = x"
proof -
  have "\<forall>i\<in>set [0..<256]. drop_bit 4 (word_of_nat i :: u8) < 16 \<and> word_of_nat i AND 0x0F < (16 :: u8)
      \<and> push_bit 4 (drop_bit 4 (word_of_nat i :: u8)) OR (word_of_nat i AND 0x0F) = word_of_nat i" by code_simp
  moreover have "unat x \<in> set [0..<256]" using unsigned_less [of x, where 'a = nat] by simp
  ultimately have "drop_bit 4 (word_of_nat (unat x) :: u8) < 16 \<and> word_of_nat (unat x) AND 0x0F < (16 :: u8)
      \<and> push_bit 4 (drop_bit 4 (word_of_nat (unat x) :: u8)) OR (word_of_nat (unat x) AND 0x0F) = word_of_nat (unat x)" by blast
  then show ?thesis unfolding word_nat_inverse .
qed

lemma hex_pairs_string: "hex_pairs (hex_string b) = b \<and> list_all is_hex (hex_string b) \<and> length (hex_string b) = 2 * length b"
proof (induction b)
  case (Cons x b)
  have x: "hex_string (x # b) = hex_digit (drop_bit 4 x) # hex_digit (x AND 0x0F) # hex_string b" by (simp add: hex_string_def)
  have "is_hex (hex_digit (drop_bit 4 x))" "is_hex (hex_digit (x AND 0x0F))" "hex_nibble (hex_digit (drop_bit 4 x)) = drop_bit 4 x"
    "hex_nibble (hex_digit (x AND 0x0F)) = x AND 0x0F" using hex_digit_nibble split_byte [of x] by blast+
  then show ?case unfolding x hex_pairs.simps using Cons.IH split_byte [of x] by simp
qed (simp add: hex_string_def)

lemma parse_hex_string: "length b = n \<Longrightarrow> parse_hex n (hex_string b) = Inr b"
  using hex_pairs_string [of b] by (auto simp: parse_hex_def is_hex_def list_all_iff list_ex_iff)

lemma parse_hex_inject: "parse_hex n v = Inr b \<Longrightarrow> parse_hex n v' = Inr b \<Longrightarrow> v = v'"
  using parse_hexD by metis

lemma parse_optional_inject: "parse_optional v = Inr b \<Longrightarrow> parse_optional v' = Inr b \<Longrightarrow> v = v'"
  by (auto simp: parse_optional_def result_simps split: option.splits dest: parse_hex_inject)

lemma parse_optional_length: "parse_optional v = Inr (Some b) \<Longrightarrow> length b = 32"
  by (auto simp: parse_optional_def result_simps split: option.splits dest: parse_hexD)

section \<open>The canonical bytes determine the document\<close>

lemma push_u16D: "push_u16 n = Inr b \<Longrightarrow> length b = 2 \<and> n < 65536"
  by (auto simp: push_u16_def split: if_splits)

lemma push_u16_inject: "push_u16 n = Inr b \<Longrightarrow> push_u16 n' = Inr b \<Longrightarrow> n = n'"
proof -
  assume "push_u16 n = Inr b" "push_u16 n' = Inr b"
  then have "word_of_nat n = (word_of_nat n' :: u16)" and l: "n < 65536" "n' < 65536" by (auto simp: push_u16_def split: if_splits)
  from arg_cong [OF this(1), of unat] l show ?thesis by simp
qed

lemma push_string_inject:
  assumes "push_string s = Inr a" "push_string s' = Inr a'" "a @ x = a' @ x'"
  shows "s = s' \<and> x = x'"
proof -
  obtain n n' where n: "push_u16 (length s) = Inr n" "push_u16 (length s') = Inr n'" "a = n @ s" "a' = n' @ s'"
    using assms(1,2) by (auto simp: push_string_def result_simps)
  then have "n = n'" "s @ x = s' @ x'" using assms(3) push_u16D [OF n(1)] push_u16D [OF n(2)] by auto
  moreover from this n have "length s = length s'" using push_u16_inject by blast
  ultimately show ?thesis by simp
qed

lemma role_entries_inject:
  assumes "role_entries A p es = Inr a" "role_entries A p' es' = Inr a'" "length es = length es'" "a @ x = a' @ x'"
  shows "es = es' \<and> x = x'"
  using assms(3,1,2,4)
proof (induction es es' arbitrary: p p' a a' rule: list_induct2)
  case (Cons e es e' es')
  then obtain s r s' r' where "push_string e = Inr s" "role_entries A (Some e) es = Inr r" "a = s @ r"
    "push_string e' = Inr s'" "role_entries A (Some e') es' = Inr r'" "a' = s' @ r'"
    by (auto simp: result_simps split: if_splits)
  then show ?case using push_string_inject [of e s e' s' "r @ x" "r' @ x'"] Cons.IH [of "Some e" r "Some e'" r'] Cons.prems(3) by auto
qed auto

lemma canonical_role_inject:
  assumes "canonical_role A es = Inr a" "canonical_role A es' = Inr a'" "a @ x = a' @ x'"
  shows "es = es' \<and> x = x'"
proof -
  obtain n r n' r' where n: "push_u16 (length es) = Inr n" "role_entries A None es = Inr r" "a = n @ r"
    "push_u16 (length es') = Inr n'" "role_entries A None es' = Inr r'" "a' = n' @ r'"
    using assms(1,2) by (auto simp: canonical_role_def result_simps split: if_splits)
  then have "n = n'" "r @ x = r' @ x'" using assms(3) push_u16D [OF n(1)] push_u16D [OF n(4)] by auto
  moreover from this have "length es = length es'" using n(1,4) push_u16_inject by blast
  ultimately show ?thesis using role_entries_inject [OF n(2,5)] by blast
qed

lemma flag_inject [simp]: "flag a = flag b \<longleftrightarrow> a = b"
  by (simp add: flag_def)

lemma rendezvous_entries_Cons:
  assumes "rendezvous_entries C p (e # es) = Inr a"
  shows "\<exists>k s r. parse_hex 32 (pr_static_key e) = Inr k \<and> provider_new C (pr_origin e) k \<noteq> None \<and> push_string (pr_origin e) = Inr s
    \<and> rendezvous_entries C (Some (pr_origin e, pr_static_key e)) es = Inr r
    \<and> a = s @ k @ [flag (pr_standard e), flag (pr_private_via_tor e)] @ r"
proof -
  from assms obtain k where k: "parse_hex 32 (pr_static_key e) = Inr k" by (auto simp: result_simps)
  then obtain v where v: "provider_new C (pr_origin e) k = Some v" using assms by (cases "provider_new C (pr_origin e) k") auto
  from provider_new_fields [OF v] show ?thesis using assms k v by (auto simp: result_simps split: if_splits)
qed

lemma rendezvous_entries_inject:
  assumes "rendezvous_entries C p es = Inr a" "rendezvous_entries C p' es' = Inr a'" "length es = length es'" "a @ x = a' @ x'"
  shows "es = es' \<and> x = x'"
  using assms(3,1,2,4)
proof (induction es es' arbitrary: p p' a a' rule: list_induct2)
  case (Cons e es e' es')
  obtain k s r where 1: "parse_hex 32 (pr_static_key e) = Inr k" "push_string (pr_origin e) = Inr s"
    "rendezvous_entries C (Some (pr_origin e, pr_static_key e)) es = Inr r"
    "a = s @ k @ [flag (pr_standard e), flag (pr_private_via_tor e)] @ r"
    using rendezvous_entries_Cons [OF Cons.prems(1)] by blast
  obtain k' s' r' where 2: "parse_hex 32 (pr_static_key e') = Inr k'" "push_string (pr_origin e') = Inr s'"
    "rendezvous_entries C (Some (pr_origin e', pr_static_key e')) es' = Inr r'"
    "a' = s' @ k' @ [flag (pr_standard e'), flag (pr_private_via_tor e')] @ r'"
    using rendezvous_entries_Cons [OF Cons.prems(2)] by blast
  have o: "pr_origin e = pr_origin e'" and rest: "k @ [flag (pr_standard e), flag (pr_private_via_tor e)] @ r @ x
      = k' @ [flag (pr_standard e'), flag (pr_private_via_tor e')] @ r' @ x'"
    using push_string_inject [OF 1(2) 2(2)] Cons.prems(3) by (simp_all add: 1(4) 2(4))
  then have k: "k = k'" "pr_standard e = pr_standard e'" "pr_private_via_tor e = pr_private_via_tor e'" "r @ x = r' @ x'"
    using parse_hexD [OF 1(1)] parse_hexD [OF 2(1)] by auto
  then have "pr_static_key e = pr_static_key e'" using parse_hex_inject 1(1) 2(1) by blast
  with o k(2,3) have "e = e'" by simp
  then show ?case using Cons.IH [OF 1(3) 2(3) k(4)] by simp
qed auto

lemma operator_entries_inject:
  assumes "operator_entries C A p es = Inr a" "operator_entries C A p' es' = Inr a'" "length es = length es'" "a @ x = a' @ x'"
  shows "es = es' \<and> x = x'"
  using assms(3,1,2,4)
proof (induction es es' arbitrary: p p' a a' rule: list_induct2)
  case (Cons e es e' es')
  obtain i d b l m n v r where 1: "push_string (operator_id e) = Inr i" "push_string (administrative_domain e) = Inr d"
    "canonical_role A (op_bootstrap e) = Inr b" "canonical_role A (op_relays e) = Inr l" "canonical_role A (op_mailboxes e) = Inr m"
    "push_u16 (length (op_rendezvous e)) = Inr n" "rendezvous_entries C None (op_rendezvous e) = Inr v"
    "operator_entries C A (Some (operator_id e)) es = Inr r" "a = i @ d @ b @ l @ m @ n @ v @ r"
    using Cons.prems(1) by (auto simp: result_simps split: if_splits)
  obtain i' d' b' l' m' n' v' r' where 2: "push_string (operator_id e') = Inr i'" "push_string (administrative_domain e') = Inr d'"
    "canonical_role A (op_bootstrap e') = Inr b'" "canonical_role A (op_relays e') = Inr l'" "canonical_role A (op_mailboxes e') = Inr m'"
    "push_u16 (length (op_rendezvous e')) = Inr n'" "rendezvous_entries C None (op_rendezvous e') = Inr v'"
    "operator_entries C A (Some (operator_id e')) es' = Inr r'" "a' = i' @ d' @ b' @ l' @ m' @ n' @ v' @ r'"
    using Cons.prems(2) by (auto simp: result_simps split: if_splits)
  note eq = Cons.prems(3) [unfolded 1(9) 2(9) append_assoc]
  note e1 = push_string_inject [OF 1(1) 2(1) eq]
  note e2 = push_string_inject [OF 1(2) 2(2) conjunct2 [OF e1]]
  note e3 = canonical_role_inject [OF 1(3) 2(3) conjunct2 [OF e2]]
  note e4 = canonical_role_inject [OF 1(4) 2(4) conjunct2 [OF e3]]
  note e5 = canonical_role_inject [OF 1(5) 2(5) conjunct2 [OF e4]]
  have n: "n = n'" "v @ r @ x = v' @ r' @ x'" using conjunct2 [OF e5] push_u16D [OF 1(6)] push_u16D [OF 2(6)] by auto
  then have "length (op_rendezvous e) = length (op_rendezvous e')" using push_u16_inject 1(6) 2(6) by blast
  note e6 = rendezvous_entries_inject [OF 1(7) 2(7) this n(2)]
  have "e = e'" using e1 e2 e3 e4 e5 e6 by simp
  then show ?case using Cons.IH [OF 1(8) 2(8) conjunct2 [OF e6]] by simp
qed auto

lemma push_optional_inject:
  assumes "push_optional_fixed v @ x = push_optional_fixed v' @ x'" "\<And>b. v = Some b \<Longrightarrow> length b = 32" "\<And>b. v' = Some b \<Longrightarrow> length b = 32"
  shows "v = v' \<and> x = x'"
  using assms by (cases v; cases v') (auto simp: push_optional_fixed_def)

text \<open>
  The bytes a directory signature covers determine the whole document but the signature: JSON layout, hexadecimal spelling
  and field boundaries leave no second reading.
\<close>

theorem directory_signature_binds:
  assumes "canonical_document C A d = Inr b" "canonical_document C A d' = Inr b"
  shows "d' = d\<lparr>pd_signature := pd_signature d'\<rparr>"
proof -
  have f: "\<exists>p s n c ops. parse_optional (pd_previous_digest d) = Inr p \<and> parse_hex 32 (pd_signing_key d) = Inr s
      \<and> parse_optional (pd_next_signing_key d) = Inr n \<and> (n \<noteq> None) = (pd_next_key_not_before d \<noteq> None)
      \<and> push_u16 (length (pd_operators d)) = Inr c \<and> operator_entries C A None (pd_operators d) = Inr ops
      \<and> b = ascii ''KPD1'' @ [pd_version d] @ to_be64 (pd_generation d) @ to_be64 (pd_valid_from d)
               @ to_be64 (pd_valid_until d) @ push_optional_fixed p @ s @ push_optional_fixed n
               @ to_be64 (case pd_next_key_not_before d of None \<Rightarrow> 0 | Some g \<Rightarrow> g) @ c @ ops"
    if "canonical_document C A d = Inr b" for d
    using that by (auto simp: canonical_document_def result_simps split: if_splits)
  from f [OF assms(1)] obtain p s n c ops where 1: "parse_optional (pd_previous_digest d) = Inr p"
    "parse_hex 32 (pd_signing_key d) = Inr s" "parse_optional (pd_next_signing_key d) = Inr n"
    "(n \<noteq> None) = (pd_next_key_not_before d \<noteq> None)" "push_u16 (length (pd_operators d)) = Inr c"
    "operator_entries C A None (pd_operators d) = Inr ops"
    "b = ascii ''KPD1'' @ [pd_version d] @ to_be64 (pd_generation d) @ to_be64 (pd_valid_from d)
       @ to_be64 (pd_valid_until d) @ push_optional_fixed p @ s @ push_optional_fixed n
       @ to_be64 (case pd_next_key_not_before d of None \<Rightarrow> 0 | Some g \<Rightarrow> g) @ c @ ops" by blast
  from f [OF assms(2)] obtain p' s' n' c' ops' where 2: "parse_optional (pd_previous_digest d') = Inr p'"
    "parse_hex 32 (pd_signing_key d') = Inr s'" "parse_optional (pd_next_signing_key d') = Inr n'"
    "(n' \<noteq> None) = (pd_next_key_not_before d' \<noteq> None)" "push_u16 (length (pd_operators d')) = Inr c'"
    "operator_entries C A None (pd_operators d') = Inr ops'"
    "b = ascii ''KPD1'' @ [pd_version d'] @ to_be64 (pd_generation d') @ to_be64 (pd_valid_from d')
       @ to_be64 (pd_valid_until d') @ push_optional_fixed p' @ s' @ push_optional_fixed n'
       @ to_be64 (case pd_next_key_not_before d' of None \<Rightarrow> 0 | Some g \<Rightarrow> g) @ c' @ ops'" by blast
  have h: "pd_version d = pd_version d'" "pd_generation d = pd_generation d'" "pd_valid_from d = pd_valid_from d'"
    "pd_valid_until d = pd_valid_until d'" and
    r: "push_optional_fixed p @ s @ push_optional_fixed n @ to_be64 (case pd_next_key_not_before d of None \<Rightarrow> 0 | Some g \<Rightarrow> g) @ c @ ops
      = push_optional_fixed p' @ s' @ push_optional_fixed n' @ to_be64 (case pd_next_key_not_before d' of None \<Rightarrow> 0 | Some g \<Rightarrow> g) @ c' @ ops'"
    using trans [OF sym [OF 1(7)] 2(7)] by auto
  note p = push_optional_inject [OF r]
  have p': "p = p'" "s @ push_optional_fixed n @ to_be64 (case pd_next_key_not_before d of None \<Rightarrow> 0 | Some g \<Rightarrow> g) @ c @ ops
      = s' @ push_optional_fixed n' @ to_be64 (case pd_next_key_not_before d' of None \<Rightarrow> 0 | Some g \<Rightarrow> g) @ c' @ ops'"
    using p parse_optional_length 1(1) 2(1) by blast+
  have s: "s = s'" "push_optional_fixed n @ to_be64 (case pd_next_key_not_before d of None \<Rightarrow> 0 | Some g \<Rightarrow> g) @ c @ ops
      = push_optional_fixed n' @ to_be64 (case pd_next_key_not_before d' of None \<Rightarrow> 0 | Some g \<Rightarrow> g) @ c' @ ops'"
    using p'(2) parse_hexD [OF 1(2)] parse_hexD [OF 2(2)] by auto
  have n: "n = n'" "to_be64 (case pd_next_key_not_before d of None \<Rightarrow> 0 | Some g \<Rightarrow> g) @ c @ ops
      = to_be64 (case pd_next_key_not_before d' of None \<Rightarrow> 0 | Some g \<Rightarrow> g) @ c' @ ops'"
    using push_optional_inject [OF s(2)] parse_optional_length 1(3) 2(3) by blast+
  have g: "(case pd_next_key_not_before d of None \<Rightarrow> 0 | Some g \<Rightarrow> g) = (case pd_next_key_not_before d' of None \<Rightarrow> 0 | Some g \<Rightarrow> g)"
    and c: "c = c'" "ops = ops'" using n(2) push_u16D [OF 1(5)] push_u16D [OF 2(5)] by auto
  have "pd_next_key_not_before d = pd_next_key_not_before d'" using g n(1) 1(4) 2(4) by (auto split: option.splits)
  moreover have "length (pd_operators d) = length (pd_operators d')" using push_u16_inject 1(5) 2(5) c(1) by blast
  then have "pd_operators d = pd_operators d'" using operator_entries_inject [OF 1(6) 2(6), of "[]" "[]"] c(2) by simp
  moreover have "pd_previous_digest d = pd_previous_digest d'" "pd_next_signing_key d = pd_next_signing_key d'"
    "pd_signing_key d = pd_signing_key d'"
    using parse_optional_inject parse_hex_inject 1(1-3) 2(1-3) p'(1) s(1) n(1) by blast+
  ultimately show ?thesis using h by simp
qed

end
