(* ===== verification/Directory_Chain.thy ===== *)
theory Directory_Chain
  imports Provider_Directory "HOL-Library.Sublist"
begin

text \<open>
  What the chain of provider directories guarantees: who may sign, that the cache never rolls back, what
  the modes keep of the user's own providers, and when a resolution succeeds.
\<close>

section \<open>Verified chains\<close>

definition predecessor :: "VerifiedDirectory list \<Rightarrow> VerifiedDirectory option" where
  "predecessor vs = (if vs = [] then None else Some (last vs))"

inductive chain_ok :: "prims \<Rightarrow> (bytes \<Rightarrow> bool) \<Rightarrow> bytes list \<Rightarrow> VerifiedDirectory list \<Rightarrow> bool" for C A trusted where
    no_documents: "chain_ok C A trusted []"
  | next_document: "chain_ok C A trusted vs \<Longrightarrow> verify_successor C A d (predecessor vs) trusted = Inr v
      \<Longrightarrow> chain_ok C A trusted (vs @ [v])"

inductive_simps chain_ok_snoc: "chain_ok C A trusted (vs @ [v])"

lemma verify_successorD:
  assumes "verify_successor C A d p trusted = Inr v"
  shows "vd_document v = d \<and> link_ok p trusted d (vd_signing_key v) = Inr ()
    \<and> parse_hex 32 (pd_signing_key d) = Inr (vd_signing_key v) \<and> parse_optional (pd_next_signing_key d) = Inr (vd_next_signing_key v)
    \<and> (\<exists>c s. canonical_document C A d = Inr c \<and> parse_hex 64 (pd_signature d) = Inr s
         \<and> verify_ed25519_domain_signature C (vd_signing_key v) DIRECTORY_SIGNATURE_DOMAIN c s = Inr ()
         \<and> vd_digest v = sha256 C (c @ s))"
proof -
  obtain c k s where 1: "canonical_document C A d = Inr c" "parse_hex 32 (pd_signing_key d) = Inr k" "parse_hex 64 (pd_signature d) = Inr s"
    using assms by (auto simp: verify_successor_def result_simps)
  have "verify_ed25519_domain_signature C k DIRECTORY_SIGNATURE_DOMAIN c s = Inr ()"
    using assms 1 by (cases "verify_ed25519_domain_signature C k DIRECTORY_SIGNATURE_DOMAIN c s") (auto simp: verify_successor_def)
  then show ?thesis using assms 1 by (auto simp: verify_successor_def result_simps)
qed

lemma chain_ok_step: "chain_ok C A trusted (vs @ [v]) \<longleftrightarrow>
  chain_ok C A trusted vs \<and> verify_successor C A (vd_document v) (predecessor vs) trusted = Inr v"
  using verify_successorD by (auto simp: chain_ok_snoc)

lemma verify_documents_sound:
  "chain_ok C A trusted vs \<Longrightarrow> verify_documents C A trusted vs ds = Inr ws
    \<Longrightarrow> chain_ok C A trusted ws \<and> map vd_document ws = map vd_document vs @ ds"
proof (induction ds arbitrary: vs)
  case (Cons d ds)
  then obtain v where v: "verify_successor C A d (predecessor vs) trusted = Inr v" "verify_documents C A trusted (vs @ [v]) ds = Inr ws"
    by (auto simp: result_simps predecessor_def)
  then show ?case using Cons.IH [OF next_document [OF Cons.prems(1) v(1)] v(2)] verify_successorD [OF v(1)] by simp
qed auto

lemma verify_documents_append:
  "verify_documents C A trusted vs (ds @ [d]) = try_then (verify_documents C A trusted vs ds) (\<lambda>ws.
     try_then (verify_successor C A d (predecessor ws) trusted) (\<lambda>v. Inr (ws @ [v])))"
proof (induction ds arbitrary: vs)
  case (Cons e ds)
  then show ?case by (cases "verify_successor C A e (if vs = [] then None else Some (last vs)) trusted") simp_all
qed (simp add: predecessor_def)

lemma verify_documents_complete: "chain_ok C A trusted ws \<Longrightarrow> verify_documents C A trusted [] (map vd_document ws) = Inr ws"
proof (induction rule: chain_ok.induct)
  case (next_document vs d v)
  then show ?case using verify_successorD [OF next_document(2)] by (simp add: verify_documents_append)
qed simp

lemma verify_directory_chain_iff:
  "verify_directory_chain C A ds trusted = Inr ws \<longleftrightarrow> length ds \<le> 16 \<and> chain_ok C A trusted ws \<and> map vd_document ws = ds"
  using verify_documents_sound [OF no_documents, of C A trusted ds ws] verify_documents_complete [of C A trusted ws]
  by (auto simp: verify_directory_chain_def)

definition authorised :: "bytes list \<Rightarrow> VerifiedDirectory list \<Rightarrow> VerifiedDirectory \<Rightarrow> bool" where
  "authorised trusted earlier v \<longleftrightarrow> vd_signing_key v \<in> set trusted
     \<or> (\<exists>u\<in>set earlier. rotated u (vd_signing_key v) (pd_generation (vd_document v)))"

lemma rotated_later: "rotated u k g \<Longrightarrow> g \<le> g' \<Longrightarrow> rotated u k g'"
  by (auto simp: rotated_def split: option.splits)

lemma link_ok_Some:
  "link_ok (Some p) trusted d k = Inr () \<longleftrightarrow> pd_generation (vd_document p) < pd_generation d
     \<and> pd_previous_digest d = Some (hex_string (vd_digest p)) \<and> (k = vd_signing_key p \<or> rotated p k (pd_generation d))"
  by (auto simp: link_ok_def not_le)

lemma last_authorised:
  "chain_ok C A trusted vs \<Longrightarrow> vs \<noteq> [] \<Longrightarrow> authorised trusted (butlast vs) (last vs)
     \<and> (\<forall>u\<in>set (butlast vs). pd_generation (vd_document u) < pd_generation (vd_document (last vs)))"
proof (induction rule: chain_ok.induct)
  case (next_document vs d v)
  note d = verify_successorD [OF next_document(2)]
  show ?case
  proof (cases "vs = []")
    case True
    then show ?thesis using d by (auto simp: predecessor_def link_ok_def authorised_def split: if_splits)
  next
    case False
    then have l: "pd_generation (vd_document (last vs)) < pd_generation d"
      "vd_signing_key v = vd_signing_key (last vs) \<or> rotated (last vs) (vd_signing_key v) (pd_generation d)"
      using d by (simp_all add: predecessor_def link_ok_Some)
    have old: "set vs = insert (last vs) (set (butlast vs))" using False by (metis append_butlast_last_id list.simps(15) rotate1.simps(2) set_rotate1)
    have "authorised trusted vs v"
      using l(2) next_document(3) False d l(1) old rotated_later less_imp_le unfolding authorised_def by (metis insert_iff)
    moreover have "\<forall>u\<in>set vs. pd_generation (vd_document u) < pd_generation d"
      using next_document(3) False l(1) less_trans unfolding old by blast
    ultimately show ?thesis using d by simp
  qed
qed simp

text \<open>
  C29. In a chain that verifies, generations strictly increase, each document names its predecessor by digest and carries
  a valid signature, and the signing key is one of the trusted roots or was announced by an earlier document that allows
  it from this generation on.
\<close>

theorem directory_chain_authorised:
  assumes "verify_directory_chain C A ds trusted = Inr ws" "i < length ds"
  shows "vd_document (ws ! i) = ds ! i \<and> authorised trusted (take i ws) (ws ! i)
    \<and> (\<forall>j<i. pd_generation (ds ! j) < pd_generation (ds ! i))
    \<and> (if i = 0 then pd_previous_digest (ds ! i) = None
       else pd_previous_digest (ds ! i) = Some (hex_string (vd_digest (ws ! (i - 1)))))
    \<and> (\<exists>c s. canonical_document C A (ds ! i) = Inr c \<and> parse_hex 64 (pd_signature (ds ! i)) = Inr s
         \<and> verify_ed25519_domain_signature C (vd_signing_key (ws ! i)) DIRECTORY_SIGNATURE_DOMAIN c s = Inr ())"
proof -
  have ws: "chain_ok C A trusted ws" "map vd_document ws = ds" using assms(1) by (simp_all add: verify_directory_chain_iff)
  then have l: "length ws = length ds" "\<And>j. j < length ds \<Longrightarrow> vd_document (ws ! j) = ds ! j" by auto
  have pre: "chain_ok C A trusted (take n ws)" for n
  proof (induction "length ws - n" arbitrary: n)
    case 0
    then show ?case using ws(1) by simp
  next
    case (Suc k)
    then have "chain_ok C A trusted (take (Suc n) ws)" "n < length ws" by simp_all
    then show ?case by (simp add: take_Suc_conv_app_nth chain_ok_step)
  qed
  have t: "take (Suc i) ws = take i ws @ [ws ! i]" using assms(2) l(1) by (simp add: take_Suc_conv_app_nth)
  have "verify_successor C A (ds ! i) (predecessor (take i ws)) trusted = Inr (ws ! i)"
    using pre [of "Suc i"] assms(2) l by (simp add: t chain_ok_step)
  note v = verify_successorD [OF this]
  have a: "authorised trusted (take i ws) (ws ! i)" "\<forall>u\<in>set (take i ws). pd_generation (vd_document u) < pd_generation (vd_document (ws ! i))"
    using last_authorised [OF pre, of "Suc i"] by (simp_all add: t)
  have "pd_generation (ds ! j) < pd_generation (ds ! i)" if "j < i" for j
  proof -
    have "ws ! j \<in> set (take i ws)" using that assms(2) l(1) by (auto simp: in_set_conv_nth intro!: exI [of _ j])
    then show ?thesis using a(2) l(2) that assms(2) by fastforce
  qed
  moreover have "if i = 0 then pd_previous_digest (ds ! i) = None
       else pd_previous_digest (ds ! i) = Some (hex_string (vd_digest (ws ! (i - 1))))"
  proof (cases i)
    case 0
    then show ?thesis using v by (auto simp: predecessor_def link_ok_def split: if_splits)
  next
    case (Suc k)
    then have "predecessor (take i ws) = Some (ws ! k)" using assms(2) l(1) by (auto simp: predecessor_def take_Suc_conv_app_nth)
    then show ?thesis using v Suc by (simp add: link_ok_Some)
  qed
  ultimately show ?thesis using v a(1) by blast
qed

section \<open>The cache never rolls back\<close>

lemma consider_candidate_cases:
  assumes "consider_candidate C A J outcome trusted cache chain candidate = (cache', r)"
  shows "cache' = cache \<or> (\<exists>d v. candidate = Some d \<and> verify_successor C A d (predecessor chain) trusted = Inr v \<and> length chain < 16
    \<and> cache' = fst (write_cache J outcome cache (chain @ [v])))"
  using assms by (auto simp: consider_candidate_def Let_def predecessor_def split: option.splits sum.splits if_splits prod.splits)

definition json_sound :: "json \<Rightarrow> bool" where
  "json_sound J \<longleftrightarrow> (\<forall>c b. to_cache J c = Some b \<longrightarrow> from_cache J b = Some c)"

lemma write_cache_loads:
  assumes "json_sound J" "length chain \<le> 16"
  shows "fst (write_cache J outcome cache chain) = cache
    \<or> load_cache J (fst (write_cache J outcome cache chain)) = Inr \<lparr>ca_version = 1, ca_chain = map vd_document chain\<rparr>"
  using assms
  by (auto simp: write_cache_def load_cache_def read_bounded_def json_sound_def Let_def split: option.splits write_outcome.splits)

text \<open>One call of the resolution, with any mode, candidate, manual providers, clock and fate of the write.\<close>

definition directory_step :: "prims \<Rightarrow> (bytes \<Rightarrow> bool) \<Rightarrow> json \<Rightarrow> bytes list \<Rightarrow> FileState option \<Rightarrow> FileState option \<Rightarrow> bool" where
  "directory_step C A J trusted cache cache' \<longleftrightarrow>
     (\<exists>outcome mode candidate manual now. fst (resolve_provider_directory C A J outcome mode candidate cache trusted manual now) = cache')"

definition cached_chain :: "prims \<Rightarrow> (bytes \<Rightarrow> bool) \<Rightarrow> json \<Rightarrow> bytes list \<Rightarrow> FileState option \<Rightarrow> VerifiedDirectory list dresult" where
  "cached_chain C A J trusted cache = try_then (load_cache J cache) (\<lambda>c. verify_directory_chain C A (ca_chain c) trusted)"

lemma resolve_cache:
  assumes "cached_chain C A J trusted cache = Inr ws"
  shows "fst (resolve_provider_directory C A J outcome mode candidate cache trusted manual now) = cache
    \<or> fst (resolve_provider_directory C A J outcome mode candidate cache trusted manual now)
        = fst (consider_candidate C A J outcome trusted cache ws (ok (load_document J (the candidate))))"
  using assms unfolding resolve_provider_directory_def cached_chain_def [symmetric]
  by (auto simp: Let_def split: option.splits sum.splits prod.splits)

lemma directory_step_extends:
  assumes "json_sound J" "directory_step C A J trusted cache cache'" "cached_chain C A J trusted cache = Inr ws"
  shows "\<exists>ws'. cached_chain C A J trusted cache' = Inr ws' \<and> prefix ws ws'"
proof -
  obtain outcome mode candidate manual now where
    r: "fst (resolve_provider_directory C A J outcome mode candidate cache trusted manual now) = cache'"
    using assms(2) by (auto simp: directory_step_def)
  then have "cache' = cache \<or> (\<exists>path. cache' = fst (consider_candidate C A J outcome trusted cache ws (ok (load_document J path))))"
    using resolve_cache [OF assms(3), of outcome mode candidate manual now] by metis
  then consider "cache' = cache" | d v where "verify_successor C A d (predecessor ws) trusted = Inr v" "length ws < 16"
    "cache' = fst (write_cache J outcome cache (ws @ [v]))"
    using consider_candidate_cases [of C A J outcome trusted cache ws] by (metis prod.collapse)
  then show ?thesis
  proof cases
    case 1
    then show ?thesis using assms(3) by auto
  next
    case 2
    have ws: "chain_ok C A trusted ws" using assms(3) by (auto simp: cached_chain_def result_simps verify_directory_chain_iff)
    have "cache' = cache \<or> load_cache J cache' = Inr \<lparr>ca_version = 1, ca_chain = map vd_document (ws @ [v])\<rparr>"
      using write_cache_loads [OF assms(1), of "ws @ [v]"] 2(2,3) by simp
    moreover have "verify_directory_chain C A (map vd_document (ws @ [v])) trusted = Inr (ws @ [v])"
      using next_document [OF ws 2(1)] 2(2) unfolding verify_directory_chain_iff by simp
    ultimately show ?thesis using assms(3) by (auto simp: cached_chain_def)
  qed
qed

text \<open>
  C28. Starting without a cache, and whatever directories are offered and however its writes end, the cache always verifies
  and only ever grows: an accepted directory is never dropped or replaced by another history.
\<close>

theorem directory_never_rolls_back:
  assumes "json_sound J" "(directory_step C A J trusted)\<^sup>*\<^sup>* None cache" "(directory_step C A J trusted)\<^sup>*\<^sup>* cache cache'"
  shows "\<exists>ws ws'. cached_chain C A J trusted cache = Inr ws \<and> cached_chain C A J trusted cache' = Inr ws' \<and> prefix ws ws'"
proof -
  have more: "\<exists>ws'. cached_chain C A J trusted y = Inr ws' \<and> prefix ws ws'"
    if "(directory_step C A J trusted)\<^sup>*\<^sup>* x y" "cached_chain C A J trusted x = Inr ws" for x y ws
    using that
  proof (induction rule: rtranclp_induct)
    case (step y z)
    then obtain ws' where "cached_chain C A J trusted y = Inr ws'" "prefix ws ws'" by blast
    with directory_step_extends [OF assms(1) step.hyps(2)] show ?case by (meson prefix_order.trans)
  qed auto
  have "cached_chain C A J trusted None = Inr []" by (simp add: cached_chain_def load_cache_def verify_directory_chain_def)
  with more [OF assms(2)] more [OF assms(3)] show ?thesis by blast
qed

section \<open>A full chain and an unchanged candidate\<close>

text \<open>
  C31. After sixteen accepted directories the next one, valid as it is, makes the whole resolution fail, in every mode and with
  every set of manual providers, and leaves the cache as it is, so that the same happens on every later call.
\<close>

theorem full_chain_wedges:
  assumes "validate_manual C A manual = Inr ()" "validate_trusted_keys trusted = Inr ()"
    and "cached_chain C A J trusted cache = Inr ws" "length ws = 16" "load_document J path = Inr d"
    and "verify_successor C A d (predecessor ws) trusted = Inr v" "vd_digest v \<noteq> vd_digest (last ws)"
  shows "resolve_provider_directory C A J outcome mode (Some path) cache trusted manual now
    = (cache, Inl (Invalid ''signing-key transition chain exceeds the retained bound''))"
proof -
  have "ws \<noteq> []" using assms(4) by auto
  moreover have "pd_generation (vd_document (last ws)) < pd_generation (vd_document v)"
    using verify_successorD [OF assms(6)] calculation by (simp add: predecessor_def link_ok_Some)
  ultimately have "consider_candidate C A J outcome trusted cache ws (Some d)
      = (cache, Inl (Invalid ''signing-key transition chain exceeds the retained bound''))"
    using assms(4,6,7) by (simp add: consider_candidate_def predecessor_def)
  moreover have "trusted \<noteq> []" using assms(2) by (auto simp: validate_trusted_keys_def)
  ultimately show ?thesis
    using assms(1,2,3,5) unfolding resolve_provider_directory_def cached_chain_def [symmetric] by simp
qed

text \<open>
  C32. A candidate that is the newest cached directory is never reported as current: it is taken for a rollback of itself.
\<close>

theorem unchanged_candidate_not_current:
  assumes "load_cache J cache = Inr c" "ca_chain c \<noteq> []" "load_document J path = Inr (last (ca_chain c))"
    and "resolve_provider_directory C A J outcome mode (Some path) cache trusted manual now = (cache', Inr r)"
  shows "rs_status r \<noteq> Current \<and> cache' = cache"
proof (cases "cached_chain C A J trusted cache")
  case (Inl e)
  then show ?thesis
    using assms(4) unfolding resolve_provider_directory_def cached_chain_def [symmetric]
    by (auto simp: resolution_def result_simps split: sum.splits if_splits)
next
  case (Inr ws)
  then have ws: "map vd_document ws = ca_chain c" using assms(1) by (simp add: cached_chain_def verify_directory_chain_iff)
  then have "ws \<noteq> []" using assms(2) by auto
  then have "vd_document (last ws) = last (ca_chain c)" using ws last_map [of ws vd_document] by simp
  then have "verify_successor C A (last (ca_chain c)) (predecessor ws) trusted \<noteq> Inr v" for v
    using \<open>ws \<noteq> []\<close> verify_successorD [of C A "last (ca_chain c)" "predecessor ws" trusted v] by (auto simp: predecessor_def link_ok_Some)
  then obtain e where "verify_successor C A (last (ca_chain c)) (predecessor ws) trusted = Inl e"
    by (cases "verify_successor C A (last (ca_chain c)) (predecessor ws) trusted") auto
  then have "consider_candidate C A J outcome trusted cache ws (Some (last (ca_chain c))) = (cache, Inr (ws, False, True))"
    by (simp add: consider_candidate_def predecessor_def)
  then show ?thesis
    using assms(3,4) Inr \<open>ws \<noteq> []\<close> unfolding resolve_provider_directory_def cached_chain_def [symmetric]
    by (auto simp: Let_def resolution_def directory_status_def result_simps split: sum.splits if_splits option.splits)
qed

section \<open>Effective providers\<close>

lemma set_dedup: "set (dedup_preserving_order seen xs) = set xs - set seen"
  by (induction seen xs rule: dedup_preserving_order.induct) auto

lemma resolve_rendezvous_grows:
  "resolve_rendezvous C mode res es = Inr out \<Longrightarrow> length res \<le> 8 \<Longrightarrow> prefix res out \<and> length out \<le> 8"
proof (induction es arbitrary: res)
  case (Cons e es)
  show ?case
  proof (cases "eligible mode e")
    case True
    then obtain k p where "parse_hex 32 (pr_static_key e) = Inr k" "provider_new C (pr_origin e) k = Some p"
      using Cons.prems(1) by (auto simp: result_simps split: option.splits)
    then show ?thesis using Cons True by (fastforce split: if_splits dest: append_prefixD)
  qed (use Cons in auto)
qed auto

definition represented :: "prims \<Rightarrow> RendezvousProvider list \<Rightarrow> ProviderRendezvous \<Rightarrow> bool" where
  "represented C out x \<longleftrightarrow> (\<exists>p\<in>set out. \<exists>k. parse_hex 32 (pr_static_key x) = Inr k
     \<and> map_option rp_provider_id (provider_new C (pr_origin x) k) = Some (rp_provider_id p))"

lemma represented_later: "represented C out x \<Longrightarrow> prefix out out' \<Longrightarrow> represented C out' x"
  by (auto simp: represented_def dest!: set_mono_prefix)

lemma resolve_rendezvous_includes:
  assumes "resolve_rendezvous C mode res (es @ rest) = Inr out" "length res + length es \<le> 8" "x \<in> set es" "eligible mode x"
  shows "represented C out x"
  using assms(1-3)
proof (induction es arbitrary: res)
  case (Cons e es)
  show ?case
  proof (cases "eligible mode e")
    case True
    then obtain k p where p: "parse_hex 32 (pr_static_key e) = Inr k" "provider_new C (pr_origin e) k = Some p"
      using Cons.prems(1) by (auto simp: result_simps split: option.splits)
    define res' where "res' = (if rp_provider_id p \<in> rp_provider_id ` set res then res else res @ [p])"
    have r: "resolve_rendezvous C mode res' (es @ rest) = Inr out" "length res' + length es \<le> 8" "represented C res' e"
      using Cons.prems(1,2) True p by (auto simp: res'_def represented_def)
    then have "represented C out e" using resolve_rendezvous_grows [OF r(1)] represented_later by fastforce
    then show ?thesis using Cons.IH [OF r(1,2)] Cons.prems(3) by auto
  next
    case False
    then have "x \<noteq> e" using assms(4) by auto
    then show ?thesis using Cons False by auto
  qed
qed simp

lemma hd_dedup: "dedup_preserving_order [] (x # xs) = x # dedup_preserving_order [x] xs"
  by simp

text \<open>
  The user's own providers survive every mode and every directory: the directory only adds after them, never takes one of
  the eight rendezvous places from them, and adds nothing at all in sovereign mode.
\<close>

theorem manual_routes_kept:
  assumes "effective_providers C mode directory manual = Inr e" "length (mn_rendezvous manual) \<le> 8"
  shows "set (mn_bootstrap manual) \<subseteq> set (ef_bootstrap e) \<and> set (mn_mailboxes manual) \<subseteq> set (ef_mailboxes e)
    \<and> (\<forall>r. mn_relay manual = Some r \<longrightarrow> ef_relay e = Some r)
    \<and> (\<forall>x\<in>set (mn_rendezvous manual). eligible mode x \<longrightarrow> represented C (ef_rendezvous e) x)
    \<and> length (ef_rendezvous e) \<le> 8
    \<and> (mode = Sovereign \<longrightarrow> ef_rendezvous e = [] \<and> set (ef_bootstrap e) = set (mn_bootstrap manual)
        \<and> set (ef_mailboxes e) = set (mn_mailboxes manual) \<and> ef_relay e = mn_relay manual)"
proof -
  define ops where "ops = (case directory of Some d \<Rightarrow> if mode \<noteq> Sovereign then pd_operators d else [] | None \<Rightarrow> [])"
  obtain res where r: "(if mode = Sovereign then Inr [] else resolve_rendezvous C mode [] (mn_rendezvous manual @ concat (map op_rendezvous ops))) = Inr res"
    and e: "e = \<lparr>ef_bootstrap = dedup_preserving_order [] (mn_bootstrap manual @ concat (map op_bootstrap ops)),
           ef_relay = (case dedup_preserving_order [] ((case mn_relay manual of None \<Rightarrow> [] | Some r \<Rightarrow> [r]) @ concat (map op_relays ops)) of [] \<Rightarrow> None | r # _ \<Rightarrow> Some r),
           ef_mailboxes = dedup_preserving_order [] (mn_mailboxes manual @ concat (map op_mailboxes ops)), ef_rendezvous = res\<rparr>"
    using assms(1) unfolding effective_providers_def Let_def ops_def [symmetric] by (auto simp: result_simps)
  have "\<forall>x\<in>set (mn_rendezvous manual). eligible mode x \<longrightarrow> represented C res x"
    using r resolve_rendezvous_includes [of C mode "[]" "mn_rendezvous manual" "concat (map op_rendezvous ops)" res] assms(2)
    by (auto split: if_splits)
  moreover have "length res \<le> 8" using r resolve_rendezvous_grows [of C mode "[]"] by (auto split: if_splits)
  moreover have "mode = Sovereign \<Longrightarrow> ops = [] \<and> res = []" using r by (auto simp: ops_def split: option.splits)
  ultimately show ?thesis by (auto simp: e set_dedup split: option.splits)
qed

section \<open>Resolution goes through\<close>

definition good_entry :: "prims \<Rightarrow> ProviderRendezvous \<Rightarrow> bool" where
  "good_entry C x \<longleftrightarrow> (\<exists>k. parse_hex 32 (pr_static_key x) = Inr k \<and> provider_new C (pr_origin x) k \<noteq> None)"

lemma rendezvous_entries_good: "rendezvous_entries C p es = Inr a \<Longrightarrow> x \<in> set es \<Longrightarrow> good_entry C x"
proof (induction es arbitrary: p a)
  case (Cons e es)
  then show ?case using rendezvous_entries_Cons [OF Cons.prems(1)] by (auto simp: good_entry_def)
qed simp

lemma operator_entries_good: "operator_entries C A p ops = Inr a \<Longrightarrow> op \<in> set ops \<Longrightarrow> x \<in> set (op_rendezvous op) \<Longrightarrow> good_entry C x"
  by (induction ops arbitrary: p a) (auto simp: result_simps rendezvous_entries_good split: if_splits)

lemma document_entries_good:
  "canonical_document C A d = Inr c \<Longrightarrow> op \<in> set (pd_operators d) \<Longrightarrow> x \<in> set (op_rendezvous op) \<Longrightarrow> good_entry C x"
  by (auto simp: canonical_document_def result_simps split: if_splits dest: operator_entries_good)

lemma manual_entries_good: "validate_manual_rendezvous C es = Inr () \<Longrightarrow> x \<in> set es \<Longrightarrow> good_entry C x"
  by (induction es) (auto simp: good_entry_def result_simps split: if_splits)

lemma resolve_rendezvous_total: "(\<And>x. x \<in> set es \<Longrightarrow> good_entry C x) \<Longrightarrow> \<exists>out. resolve_rendezvous C mode res es = Inr out"
proof (induction es arbitrary: res)
  case (Cons e es)
  have "good_entry C e" using Cons.prems by simp
  then obtain k p where "parse_hex 32 (pr_static_key e) = Inr k" "provider_new C (pr_origin e) k = Some p"
    by (auto simp: good_entry_def)
  then show ?case using Cons by simp
qed simp

lemma effective_providers_total:
  assumes "validate_manual C A manual = Inr ()" "\<And>d. directory = Some d \<Longrightarrow> \<exists>c. canonical_document C A d = Inr c"
  shows "\<exists>e. effective_providers C mode directory manual = Inr e"
proof -
  define ops where "ops = (case directory of Some d \<Rightarrow> if mode \<noteq> Sovereign then pd_operators d else [] | None \<Rightarrow> [])"
  have "good_entry C x" if "x \<in> set (mn_rendezvous manual @ concat (map op_rendezvous ops))" for x
    using that assms manual_entries_good document_entries_good
    by (fastforce simp: ops_def validate_manual_def split: option.splits if_splits)
  then obtain out where "resolve_rendezvous C mode [] (mn_rendezvous manual @ concat (map op_rendezvous ops)) = Inr out"
    using resolve_rendezvous_total by blast
  then show ?thesis unfolding effective_providers_def Let_def ops_def [symmetric] by simp
qed

lemma chain_ok_documents: "chain_ok C A trusted ws \<Longrightarrow> v \<in> set ws \<Longrightarrow> \<exists>c. canonical_document C A (vd_document v) = Inr c"
  by (induction rule: chain_ok.induct) (auto dest: verify_successorD)

text \<open>
  C30. While the chain has room and the cache can be written, resolution goes through whatever the candidate is: missing,
  oversized, malformed, forged, forked or stale. A directory never stands in the way of the user's own providers.
\<close>

theorem resolution_goes_through:
  assumes "validate_manual C A manual = Inr ()" "validate_trusted_keys trusted = Inr ()"
    and "cached_chain C A J trusted cache = Inr ws" "length ws < 16"
    and "\<And>d. load_document J path = Inr d \<Longrightarrow> \<exists>b. to_cache J \<lparr>ca_version = 1, ca_chain = map vd_document ws @ [d]\<rparr> = Some b \<and> length b \<le> 262144"
  shows "\<exists>cache' r. resolve_provider_directory C A J Replaced mode (Some path) cache trusted manual now = (cache', Inr r)"
proof -
  have ws: "chain_ok C A trusted ws" using assms(3) by (auto simp: cached_chain_def result_simps verify_directory_chain_iff)
  have "\<exists>cache' ws' a r. consider_candidate C A J Replaced trusted cache ws (ok (load_document J path)) = (cache', Inr (ws', a, r))
      \<and> chain_ok C A trusted ws'"
  proof (cases "load_document J path")
    case (Inl e)
    then show ?thesis using ws by (auto simp: consider_candidate_def)
  next
    case (Inr d)
    obtain b where b: "to_cache J \<lparr>ca_version = 1, ca_chain = map vd_document ws @ [d]\<rparr> = Some b" "length b \<le> 262144"
      using assms(5) [OF Inr] by blast
    show ?thesis
    proof (cases "verify_successor C A d (predecessor ws) trusted")
      case (Inl e)
      then show ?thesis using ws Inr by (auto simp: consider_candidate_def predecessor_def)
    next
      case (Inr v)
      then have "chain_ok C A trusted (ws @ [v])" "vd_document v = d" using next_document [OF ws] verify_successorD by blast+
      then show ?thesis using ws Inr \<open>load_document J path = Inr d\<close> b assms(4)
        by (auto simp: consider_candidate_def write_cache_def predecessor_def Let_def split: option.splits)
    qed
  qed
  then obtain cache' ws' a r where c: "consider_candidate C A J Replaced trusted cache ws (ok (load_document J path)) = (cache', Inr (ws', a, r))"
    "chain_ok C A trusted ws'" by blast
  let ?d = "map_option vd_document (find (usable now) (rev ws'))"
  have "\<exists>c. canonical_document C A d = Inr c" if "?d = Some d" for d
    using that chain_ok_documents [OF c(2)] by (auto simp: find_Some_iff) (metis nth_mem set_rev length_rev)
  then obtain e where "effective_providers C mode ?d manual = Inr e" using effective_providers_total [OF assms(1)] by blast
  moreover have "trusted \<noteq> []" using assms(2) by (auto simp: validate_trusted_keys_def)
  ultimately show ?thesis
    using assms(1-3) c(1) unfolding resolve_provider_directory_def cached_chain_def [symmetric] by (simp add: resolution_def Let_def)
qed

section \<open>A concrete directory\<close>

text \<open>The digest of the toy hash is the generation, the validity and what follows them.\<close>

definition toy_directory_prims :: prims where
  "toy_directory_prims = \<lparr>vk_from_bytes = (\<lambda>_. True), ed_verify = (\<lambda>_ _ _. True), ed_sign = (\<lambda>sk _. sk),
     ed_public = (\<lambda>sk. sk), x_public = (\<lambda>sk. sk), x_dh = (\<lambda>_ _. zeros 32), sha256 = subslice 5 37,
     hmac = (\<lambda>_ b. b), hkdf = (\<lambda>_ k info n. take n (info @ k @ zeros n)),
     aead_encrypt = (\<lambda>_ _ _ p. p), aead_decrypt = (\<lambda>_ _ _ c. Some c)\<rparr>"

definition toy_key :: bytes where "toy_key = replicate 32 1"

definition toy_digest :: "nat \<Rightarrow> bytes" where
  "toy_digest n = to_be64 (word_of_nat n + 1) @ to_be64 0 @ to_be64 100
     @ (if n = 0 then 0 # take 7 toy_key else 1 # take 7 (to_be64 (word_of_nat (n - 1) + 1)))"

definition toy_operator :: ProviderOperator where
  "toy_operator = \<lparr>operator_id = ascii ''a'', administrative_domain = ascii ''a.b'', op_bootstrap = [], op_relays = [],
     op_mailboxes = [], op_rendezvous = []\<rparr>"

definition toy_document :: "nat \<Rightarrow> ProviderDirectory" where
  "toy_document n = \<lparr>pd_version = 1, pd_generation = word_of_nat n + 1, pd_valid_from = 0, pd_valid_until = 100,
     pd_previous_digest = (if n = 0 then None else Some (hex_string (toy_digest (n - 1)))), pd_signing_key = hex_string toy_key,
     pd_next_signing_key = None, pd_next_key_not_before = None, pd_operators = [toy_operator],
     pd_signature = hex_string (zeros 64)\<rparr>"

definition toy_verified :: "nat \<Rightarrow> VerifiedDirectory" where
  "toy_verified n = \<lparr>vd_document = toy_document n, vd_signing_key = toy_key, vd_next_signing_key = None, vd_digest = toy_digest n\<rparr>"

lemma length_toy_digest: "length (toy_digest n) = 32"
  by (simp add: toy_digest_def toy_key_def)

lemma toy_names_text: "ascii ''a.b'' = [0x61, 0x2E, 0x62]" "ascii ''a'' = [0x61]" by (simp_all add: ascii_def)

lemma toy_digits: "to_digit 10 0x61 = None" "to_digit 16 0x61 = Some 10" "to_digit 16 0x2E = None"
  by (simp_all add: to_digit_def is_digit_def is_lower_def is_upper_def)

lemma toy_octets: "read_octets 0 (Suc n) [0x61, 0x2E, 0x62] = None"
  by (simp add: read_number_def toy_digits)

lemma toy_groups: "read_groups 0 (Suc (Suc n)) [0x61, 0x2E, 0x62] = ([10], False, [0x2E, 0x62])"
proof -
  have "read_octets 0 4 [0x61, 0x2E, 0x62] = None" using toy_octets [of 3] by simp
  then show ?thesis by (simp add: read_number_def toy_digits number_of_def read_char_def)
qed

lemma toy_domain: "safe_id (ascii ''a'')" "canonical_domain (ascii ''a.b'')"
proof -
  have "ipv4_from_str [0x61, 0x2E, 0x62] = None" using toy_octets [of 3] by (simp add: ipv4_from_str_def)
  moreover have "read_groups 0 8 [0x61, 0x2E, 0x62] = ([10], False, [0x2E, 0x62])" using toy_groups [of 6] by simp
  then have "ipv6_from_str [0x61, 0x2E, 0x62] = None" by (simp add: ipv6_from_str_def read_char_def)
  ultimately show "canonical_domain (ascii ''a.b'')"
    by (simp add: toy_names_text canonical_domain_def dns_label_def is_lower_def is_digit_def)
  show "safe_id (ascii ''a'')" by (simp add: toy_names_text safe_id_def is_lower_def)
qed

lemma toy_operator_bytes: "\<exists>b. operator_entries toy_directory_prims (\<lambda>_. True) None [toy_operator] = Inr b"
  using toy_domain by (simp add: toy_operator_def canonical_role_def push_string_def push_u16_def)

lemma toy_canonical: "\<exists>r. canonical_document toy_directory_prims (\<lambda>_. True) (toy_document n)
  = Inr (ascii ''KPD1'' @ [1] @ to_be64 (word_of_nat n + 1) @ to_be64 0 @ to_be64 100
      @ push_optional_fixed (if n = 0 then None else Some (toy_digest (n - 1))) @ toy_key @ r) \<or> word_of_nat n + 1 = (0 :: u64)"
proof -
  obtain ops where "operator_entries toy_directory_prims (\<lambda>_. True) None [toy_operator] = Inr ops" using toy_operator_bytes by blast
  then show ?thesis
    by (auto simp: canonical_document_def toy_document_def parse_optional_def parse_hex_string length_toy_digest toy_key_def push_u16_def
        saturating_sub_def word_le_nat_alt word_less_nat_alt)
qed

lemma toy_generation: "n < 100 \<Longrightarrow> unat (word_of_nat n + 1 :: u64) = n + 1"
  by (simp add: unat_word_ariths)

lemma toy_successor_verifies:
  assumes "n < 100"
  shows "verify_successor toy_directory_prims (\<lambda>_. True) (toy_document n) (if n = 0 then None else Some (toy_verified (n - 1))) [toy_key]
    = Inr (toy_verified n)"
proof -
  have "word_of_nat n + 1 \<noteq> (0 :: u64)" using toy_generation [OF assms] by (metis add_is_0 one_neq_zero unat_0)
  then obtain r where c: "canonical_document toy_directory_prims (\<lambda>_. True) (toy_document n)
    = Inr (ascii ''KPD1'' @ [1] @ to_be64 (word_of_nat n + 1) @ to_be64 0 @ to_be64 100
      @ push_optional_fixed (if n = 0 then None else Some (toy_digest (n - 1))) @ toy_key @ r)" using toy_canonical by blast
  have d: "sha256 toy_directory_prims (ascii ''KPD1'' @ [1] @ to_be64 (word_of_nat n + 1) @ to_be64 0 @ to_be64 100
      @ push_optional_fixed (if n = 0 then None else Some (toy_digest (n - 1))) @ toy_key @ r @ s) = toy_digest n" for s
    by (auto simp: toy_directory_prims_def subslice_def toy_digest_def push_optional_fixed_def toy_key_def)
  have "unat (word_of_nat (n - 1) + 1 :: u64) = n" if "n \<noteq> 0" using toy_generation [of "n - 1"] assms that by simp
  then have l: "link_ok (if n = 0 then None else Some (toy_verified (n - 1))) [toy_key] (toy_document n) toy_key = Inr ()"
    using toy_generation [OF assms] by (auto simp: link_ok_def toy_document_def toy_verified_def word_le_nat_alt)
  have v: "verify_ed25519_domain_signature toy_directory_prims k dom m s = Inr ()" for k dom m s
    by (simp add: verify_ed25519_domain_signature_def verify_peer_domain_def toy_directory_prims_def)
  have f: "parse_hex 32 (pd_signing_key (toy_document n)) = Inr toy_key" "parse_hex 64 (pd_signature (toy_document n)) = Inr (zeros 64)"
    "parse_optional (pd_next_signing_key (toy_document n)) = Inr None"
    by (simp_all add: toy_document_def parse_hex_string toy_key_def parse_optional_def)
  show ?thesis unfolding verify_successor_def c f try_then_Inr v sum.case l using d by (simp add: toy_verified_def)
qed

lemma toy_chain_ok: "n \<le> 100 \<Longrightarrow> chain_ok toy_directory_prims (\<lambda>_. True) [toy_key] (map toy_verified [0..<n])"
proof (induction n)
  case (Suc n)
  have "predecessor (map toy_verified [0..<n]) = (if n = 0 then None else Some (toy_verified (n - 1)))"
    by (auto simp: predecessor_def last_map)
  then show ?case using next_document [OF Suc.IH, of "toy_document n" "toy_verified n"] toy_successor_verifies [of n] Suc.prems by simp
qed (simp add: no_documents)

definition toy_documents :: "nat \<Rightarrow> ProviderDirectory list" where "toy_documents n = map toy_document [0..<n]"

lemma toy_chain: "n \<le> 16 \<Longrightarrow> verify_directory_chain toy_directory_prims (\<lambda>_. True) (toy_documents n) [toy_key] = Inr (map toy_verified [0..<n])"
  using toy_chain_ok [of n] by (simp add: verify_directory_chain_iff toy_documents_def) (simp add: toy_verified_def)

text \<open>A file of \<open>n\<close> bytes holds the chain of \<open>n\<close> documents, or the document after them.\<close>

definition toy_json :: json where
  "toy_json = \<lparr>from_document = (\<lambda>b. Some (toy_document (length b))),
     from_cache = (\<lambda>b. Some \<lparr>ca_version = 1, ca_chain = toy_documents (length b)\<rparr>),
     to_cache = (\<lambda>c. if c = \<lparr>ca_version = 1, ca_chain = toy_documents (length (ca_chain c))\<rparr> then Some (zeros (length (ca_chain c))) else None)\<rparr>"

definition toy_file :: "nat \<Rightarrow> FileState" where "toy_file n = \<lparr>fl_readable = True, fl_regular = True, fl_len = n, fl_bytes = zeros n\<rparr>"

definition toy_manual :: ManualProviderSet where
  "toy_manual = \<lparr>mn_bootstrap = [[1]], mn_relay = Some [2], mn_mailboxes = [], mn_rendezvous = []\<rparr>"

lemma toy_loads:
  "n \<le> 100 \<Longrightarrow> load_document toy_json (Some (toy_file n)) = Inr (toy_document n)"
  "n \<le> 16 \<Longrightarrow> load_cache toy_json (Some (toy_file n)) = Inr \<lparr>ca_version = 1, ca_chain = toy_documents n\<rparr>"
  by (simp_all add: load_document_def load_cache_def read_bounded_def toy_json_def toy_file_def toy_documents_def)

lemma toy_cached:
  "n \<le> 16 \<Longrightarrow> cached_chain toy_directory_prims (\<lambda>_. True) toy_json [toy_key] (Some (toy_file n)) = Inr (map toy_verified [0..<n])"
  by (simp add: cached_chain_def toy_loads toy_chain)

lemma toy_inputs: "validate_manual toy_directory_prims (\<lambda>_. True) toy_manual = Inr ()" "validate_trusted_keys [toy_key] = Inr ()"
proof -
  have "toy_key \<noteq> zeros 32" by code_simp
  then show "validate_trusted_keys [toy_key] = Inr ()" by (simp add: validate_trusted_keys_def)
qed (simp add: validate_manual_def toy_manual_def)

lemma canonical_unsigned: "canonical_document C A (d\<lparr>pd_signature := s\<rparr>) = canonical_document C A d"
  by (cases d, hypsubst, unfold canonical_document_def ProviderDirectory.update_convs ProviderDirectory.select_convs, rule refl)

theorem directory_signature_binds_witness:
  "\<exists>b. canonical_document toy_directory_prims (\<lambda>_. True) (toy_document 0) = Inr b
     \<and> (toy_document 0)\<lparr>pd_signature := []\<rparr> = (toy_document 0)\<lparr>pd_signature := pd_signature ((toy_document 0)\<lparr>pd_signature := []\<rparr>)\<rparr>"
proof -
  have "word_of_nat 0 + 1 \<noteq> (0 :: u64)" by simp
  then obtain b where b: "canonical_document toy_directory_prims (\<lambda>_. True) (toy_document 0) = Inr b" using toy_canonical [of 0] by blast
  then have "canonical_document toy_directory_prims (\<lambda>_. True) ((toy_document 0)\<lparr>pd_signature := []\<rparr>) = Inr b"
    unfolding canonical_unsigned .
  from directory_signature_binds [OF b this] b show ?thesis by blast
qed

theorem directory_chain_authorised_witness:
  "authorised [toy_key] (take 1 (map toy_verified [0..<2])) (toy_verified 1) \<and> pd_generation (toy_documents 2 ! 0) < pd_generation (toy_documents 2 ! 1)"
proof -
  have "1 < length (toy_documents 2)" by (simp add: toy_documents_def)
  from directory_chain_authorised [OF toy_chain this] show ?thesis by simp
qed

lemma toy_first_candidate:
  "consider_candidate toy_directory_prims (\<lambda>_. True) toy_json Replaced [toy_key] None [] (Some (toy_document 0))
     = (Some (toy_file 1), Inr ([toy_verified 0], True, False))"
proof -
  have "to_cache toy_json \<lparr>ca_version = 1, ca_chain = [vd_document (toy_verified 0)]\<rparr> = Some (zeros 1)"
    by (simp add: toy_json_def toy_documents_def toy_verified_def)
  then show ?thesis using toy_successor_verifies [of 0] by (simp add: consider_candidate_def write_cache_def toy_file_def)
qed

lemma toy_first_step: "directory_step toy_directory_prims (\<lambda>_. True) toy_json [toy_key] None (Some (toy_file 1))"
proof -
  have "cached_chain toy_directory_prims (\<lambda>_. True) toy_json [toy_key] None = Inr []"
    by (simp add: cached_chain_def load_cache_def verify_directory_chain_def)
  then have "fst (resolve_provider_directory toy_directory_prims (\<lambda>_. True) toy_json Replaced Standard (Some (Some (toy_file 0))) None [toy_key]
      toy_manual 50) = Some (toy_file 1)"
    unfolding resolve_provider_directory_def cached_chain_def [symmetric] by (simp add: toy_inputs toy_loads toy_first_candidate Let_def)
  then show ?thesis unfolding directory_step_def by blast
qed

theorem directory_never_rolls_back_witness:
  "\<exists>ws. cached_chain toy_directory_prims (\<lambda>_. True) toy_json [toy_key] (Some (toy_file 1)) = Inr ws \<and> prefix [toy_verified 0] ws"
proof -
  have "json_sound toy_json" by (auto simp: json_sound_def toy_json_def split: if_splits)
  moreover have "(directory_step toy_directory_prims (\<lambda>_. True) toy_json [toy_key])\<^sup>*\<^sup>* None (Some (toy_file 1))"
    by (rule r_into_rtranclp) (rule toy_first_step)
  ultimately have "\<exists>ws ws'. cached_chain toy_directory_prims (\<lambda>_. True) toy_json [toy_key] (Some (toy_file 1)) = Inr ws
      \<and> cached_chain toy_directory_prims (\<lambda>_. True) toy_json [toy_key] (Some (toy_file 1)) = Inr ws' \<and> prefix ws ws'"
    by (rule directory_never_rolls_back) (rule rtranclp.rtrancl_refl)
  with toy_cached [of 1]
  show ?thesis by auto
qed

theorem full_chain_wedges_witness:
  "resolve_provider_directory toy_directory_prims (\<lambda>_. True) toy_json Replaced Sovereign (Some (Some (toy_file 16))) (Some (toy_file 16)) [toy_key]
     toy_manual 50 = (Some (toy_file 16), Inl (Invalid ''signing-key transition chain exceeds the retained bound''))"
proof -
  have p: "predecessor (map toy_verified [0..<16]) = Some (toy_verified 15)" by (simp add: predecessor_def last_map)
  have v: "verify_successor toy_directory_prims (\<lambda>_. True) (toy_document 16) (predecessor (map toy_verified [0..<16])) [toy_key] = Inr (toy_verified 16)"
    using toy_successor_verifies [of 16] by (simp add: p)
  have "vd_digest (toy_verified 16) \<noteq> vd_digest (last (map toy_verified [0..<16]))" by (simp add: toy_verified_def toy_digest_def last_map)
  from full_chain_wedges [OF toy_inputs toy_cached _ toy_loads(1) v this] show ?thesis by simp
qed

lemma toy_effective: "\<exists>e. effective_providers toy_directory_prims mode (Some (toy_document 0)) toy_manual = Inr e"
proof (rule effective_providers_total [OF toy_inputs(1)])
  show "\<exists>c. canonical_document toy_directory_prims (\<lambda>_. True) d = Inr c" if "Some (toy_document 0) = Some d" for d
    using toy_canonical [of 0] that by auto
qed

lemma toy_unchanged:
  "\<exists>r. resolve_provider_directory toy_directory_prims (\<lambda>_. True) toy_json Replaced Standard (Some (Some (toy_file 0))) (Some (toy_file 1)) [toy_key]
     toy_manual 50 = (Some (toy_file 1), Inr r)"
proof -
  have c: "cached_chain toy_directory_prims (\<lambda>_. True) toy_json [toy_key] (Some (toy_file 1)) = Inr [toy_verified 0]"
    using toy_cached [of 1] by simp
  have "verify_successor toy_directory_prims (\<lambda>_. True) (toy_document 0) (Some (toy_verified 0)) [toy_key] \<noteq> Inr v" for v
    using verify_successorD [of toy_directory_prims "\<lambda>_. True" "toy_document 0" "Some (toy_verified 0)" "[toy_key]" v]
    by (auto simp: link_ok_Some toy_verified_def)
  then obtain e where "verify_successor toy_directory_prims (\<lambda>_. True) (toy_document 0) (Some (toy_verified 0)) [toy_key] = Inl e"
    by (metis Inl_Inr_False sumE)
  then have k: "consider_candidate toy_directory_prims (\<lambda>_. True) toy_json Replaced [toy_key] (Some (toy_file 1)) [toy_verified 0]
      (Some (toy_document 0)) = (Some (toy_file 1), Inr ([toy_verified 0], False, True))"
    by (simp add: consider_candidate_def)
  have u: "usable 50 (toy_verified 0)"
    by (simp add: usable_def toy_verified_def toy_document_def saturating_add_def checked_add_def)
  obtain e where "effective_providers toy_directory_prims Standard (Some (toy_document 0)) toy_manual = Inr e" using toy_effective by blast
  then show ?thesis
    unfolding resolve_provider_directory_def cached_chain_def [symmetric]
    using u by (simp add: c k toy_inputs toy_loads Let_def resolution_def del: One_nat_def) (simp add: toy_verified_def)
qed

theorem unchanged_candidate_not_current_witness:
  "\<exists>r. resolve_provider_directory toy_directory_prims (\<lambda>_. True) toy_json Replaced Standard (Some (Some (toy_file 0))) (Some (toy_file 1)) [toy_key]
     toy_manual 50 = (Some (toy_file 1), Inr r) \<and> rs_status r \<noteq> Current"
proof -
  obtain r where r: "resolve_provider_directory toy_directory_prims (\<lambda>_. True) toy_json Replaced Standard (Some (Some (toy_file 0))) (Some (toy_file 1))
     [toy_key] toy_manual 50 = (Some (toy_file 1), Inr r)" using toy_unchanged by blast
  from unchanged_candidate_not_current [OF toy_loads(2) _ _ r] r show ?thesis by (simp add: toy_documents_def toy_loads)
qed

theorem manual_routes_kept_witness:
  "\<exists>e. effective_providers toy_directory_prims Sovereign (Some (toy_document 0)) toy_manual = Inr e \<and> set (ef_bootstrap e) = {[1]} \<and> ef_relay e = Some [2]"
proof -
  obtain e where e: "effective_providers toy_directory_prims Sovereign (Some (toy_document 0)) toy_manual = Inr e" using toy_effective by blast
  from manual_routes_kept [OF e] e show ?thesis by (simp add: toy_manual_def)
qed

theorem resolution_goes_through_witness:
  "\<exists>cache' r. resolve_provider_directory toy_directory_prims (\<lambda>_. True) toy_json Replaced Private (Some (Some (toy_file 0))) None [toy_key] toy_manual 50
     = (cache', Inr r)"
proof -
  have c: "cached_chain toy_directory_prims (\<lambda>_. True) toy_json [toy_key] None = Inr []"
    by (simp add: cached_chain_def load_cache_def verify_directory_chain_def)
  have b: "to_cache toy_json \<lparr>ca_version = 1, ca_chain = [toy_document 0]\<rparr> = Some (zeros 1)"
    by (simp add: toy_json_def toy_documents_def)
  show ?thesis
    by (rule resolution_goes_through [OF toy_inputs c]) (auto simp: toy_loads b)
qed

end
