(* ===== verification/Delivery.thy ===== *)
theory Delivery
  imports Fragmentation Token Padding
begin

text \<open>
  The path of one message through \<^verbatim>\<open>kult-node/src/lib.rs\<close>: sealing it for a route with a live session, \<^verbatim>\<open>send_via\<close>, which hands
  an envelope to a link and splits it where the link is narrow, \<^verbatim>\<open>match_session\<close>, which finds the session of an arriving
  envelope by its token, and opening it.

  A transport is its MTU and a function that answers each send, given what this call handed over before. The hash map of
  sessions is the list in which it iterates. Store, queues and receipts of the node are not part of the path.
\<close>

section \<open>Sending\<close>

datatype SendReceipt = HandedToLink | AckedByNextHop

text \<open>The errors the path can raise; the transport's own are opaque.\<close>

datatype 't NodeError = Protocol ProtocolError | Transport 't

definition fragment_envelope :: "Envelope \<Rightarrow> bytes \<Rightarrow> Envelope result" where
  "fragment_envelope e body =
     (case env_retention_until e of
        Some deadline \<Rightarrow> envelope_new_retained Fragment (env_token e) deadline body
      | None \<Rightarrow> Inr (envelope_new Fragment (env_token e) body))"

fun send_fragments ::
  "(Envelope list \<Rightarrow> Envelope \<Rightarrow> 't + SendReceipt) \<Rightarrow> Envelope \<Rightarrow> Envelope list \<Rightarrow> SendReceipt \<Rightarrow> bytes list
     \<Rightarrow> Envelope list \<times> ('t NodeError + SendReceipt)" where
  "send_fragments send e sent receipt [] = (sent, Inr receipt)"
| "send_fragments send e sent receipt (body # bodies) =
     (case fragment_envelope e body of
        Inl x \<Rightarrow> (sent, Inl (Protocol x))
      | Inr f \<Rightarrow>
          (case send sent f of
             Inl x \<Rightarrow> (sent @ [f], Inl (Transport x))
           | Inr r \<Rightarrow>
               send_fragments send e (sent @ [f]) (if r = HandedToLink then HandedToLink else receipt) bodies))"

text \<open>The envelopes handed to the transport, in order, and the result.\<close>

definition send_via ::
  "(bytes \<Rightarrow> bytes) \<Rightarrow> nat \<Rightarrow> (Envelope list \<Rightarrow> Envelope \<Rightarrow> 't + SendReceipt) \<Rightarrow> Envelope
     \<Rightarrow> Envelope list \<times> ('t NodeError + SendReceipt \<times> bytes list option)" where
  "send_via b3 mtu send e =
     (case try_encode e of
        Inl x \<Rightarrow> ([], Inl (Protocol x))
      | Inr encoded \<Rightarrow>
          if length encoded \<le> mtu then
            (case send [] e of Inl x \<Rightarrow> ([e], Inl (Transport x)) | Inr receipt \<Rightarrow> ([e], Inr (receipt, None)))
          else if env_kind e = Fragment then ([], Inl (Protocol MtuTooSmall))
          else if mtu < ENVELOPE_HEADER_LEN then ([], Inl (Protocol MtuTooSmall))
          else (case fragment b3 encoded (mtu - ENVELOPE_HEADER_LEN) of
                  Inl x \<Rightarrow> ([], Inl (Protocol x))
                | Inr bodies \<Rightarrow>
                    (case send_fragments send e [] AckedByNextHop bodies of
                       (sent, Inl x) \<Rightarrow> (sent, Inl x)
                     | (sent, Inr receipt) \<Rightarrow> (sent, Inr (receipt, Some bodies)))))"

section \<open>Sessions\<close>

definition TOKEN_LOOKBACK_EPOCHS :: u64 where [simp]: "TOKEN_LOOKBACK_EPOCHS = 35"
definition TOKEN_LOOKAHEAD_EPOCHS :: u64 where [simp]: "TOKEN_LOOKAHEAD_EPOCHS = 2"

definition recognises :: "prims \<Rightarrow> bytes \<Rightarrow> bytes \<Rightarrow> u64 \<Rightarrow> bytes \<Rightarrow> Session \<Rightarrow> bool" where
  "recognises C me device now token s =
     (let today = epoch_day now;
          lo = saturating_sub today TOKEN_LOOKBACK_EPOCHS;
          hi = today + TOKEN_LOOKAHEAD_EPOCHS in
      list_ex (\<lambda>epoch. delivery_token C (mailbox s) epoch me = token
          \<or> (device \<noteq> me \<and> delivery_token C (mailbox s) epoch device = token))
        (map word_of_nat [unat lo..<Suc (unat hi)]))"

definition match_session :: "prims \<Rightarrow> bytes \<Rightarrow> bytes \<Rightarrow> (bytes \<times> Session) list \<Rightarrow> bytes \<Rightarrow> u64 \<Rightarrow> bytes option" where
  "match_session C me device sessions token now =
     map_option fst (find (\<lambda>(peer, s). recognises C me device now token s) sessions)"

text \<open>
  One route of a send with a live session: the padded body is encrypted and addressed. \<open>None\<close> is a panic; the session is the
  one the send commits.
\<close>

definition seal_route ::
  "prims \<Rightarrow> Session \<Rightarrow> u64 \<Rightarrow> bytes \<Rightarrow> bytes \<Rightarrow> u64 option \<Rightarrow> bytes \<Rightarrow> bytes \<Rightarrow> (Session \<times> Envelope result) option" where
  "seal_route C before now padded route retention header_nonce nonce =
     (case encrypt C before now padded [] header_nonce nonce of
        None \<Rightarrow> None
      | Some (msg, after) \<Rightarrow>
          let token = delivery_token C (mailbox after) (epoch_day now) route in
          Some (after,
            case retention of
              Some deadline \<Rightarrow> envelope_new_retained Message token deadline (message_encode msg)
            | None \<Rightarrow> Inr (envelope_new Message token (message_encode msg))))"

text \<open>
  An arriving message under the session it was matched to: the session kept afterwards and the body, if there is one. An
  envelope that does not decrypt leaves the session as it was.
\<close>

definition open_route :: "prims \<Rightarrow> bytes \<Rightarrow> Session \<Rightarrow> u64 \<Rightarrow> Envelope \<Rightarrow> (Session \<times> bytes option) option" where
  "open_route C priv before now e =
     (case message_decode (env_body e) of
        Inl _ \<Rightarrow> Some (before, None)
      | Inr msg \<Rightarrow>
          (case decrypt C priv before now msg [] of
             None \<Rightarrow> None
           | Some (after, Inl _) \<Rightarrow> Some (before, None)
           | Some (after, Inr plaintext) \<Rightarrow>
               (case unpad plaintext of
                  Inl _ \<Rightarrow> Some (after, None)
                | Inr body \<Rightarrow> Some (after, Some body))))"

section \<open>Links\<close>

text \<open>What a link receives belongs to the envelope and fits.\<close>

definition fits :: "nat \<Rightarrow> Envelope \<Rightarrow> Envelope \<Rightarrow> bool" where
  "fits mtu e f \<longleftrightarrow> env_token f = env_token e \<and> env_retention_until f = env_retention_until e
     \<and> (\<exists>b. try_encode f = Inr b \<and> length b \<le> mtu \<and> envelope_decode b = Inr f)"

lemma fragment_envelope_iff:
  assumes "wf_envelope e"
  shows "fragment_envelope e body = Inr
     \<lparr>env_kind = Fragment, env_token = env_token e, env_retention_until = env_retention_until e, env_body = body\<rparr>"
proof (cases "env_retention_until e")
  case None
  then show ?thesis by (simp add: fragment_envelope_def envelope_new_def)
next
  case (Some r)
  then have "\<not> (r = 0 \<or> r mod RETENTION_BUCKET_SECS \<noteq> 0)"
    using assms unfolding wf_envelope_def by (simp only: option.case simp_thms de_Morgan_disj)
  with Some show ?thesis unfolding fragment_envelope_def envelope_new_retained_def Some option.case by (simp only: if_False)
qed

lemma fragment_length:
  assumes "fragment b3 payload mtu = Inr bodies" "\<forall>x. length (b3 x) = 32" "body \<in> set bodies"
  shows "length body \<le> mtu"
proof -
  have c: "length c \<le> n" if "c \<in> set (chunks n xs)" for n and xs c :: bytes
    using that
  proof (induction n xs rule: chunks.induct)
    case (1 n xs)
    then show ?case by (subst (asm) chunks.simps) (auto split: if_splits)
  qed
  show ?thesis
    using assms c [of _ "mtu - 8" payload]
    by (auto simp: fragment_def Let_def msg_id_def enumerate_eq_zip split: if_splits dest!: set_zip_rightD)
       (metis Nat.le_diff_conv2 nat_less_le not_le add.commute)+
qed

lemma sent_fits:
  assumes "wf_envelope e" "length body + 42 \<le> mtu" "mtu \<le> 131072"
  shows "fits mtu e \<lparr>env_kind = Fragment, env_token = env_token e, env_retention_until = env_retention_until e, env_body = body\<rparr>"
    (is "fits mtu e ?f")
proof -
  have w: "wf_envelope ?f" using assms(1) by (simp add: wf_envelope_def)
  have l: "encoded_len ?f \<le> mtu" using assms(2) by (simp add: encoded_len_def header_len_def)
  then have "try_encode ?f = Inr (envelope_encode ?f)" using assms(3) by (simp add: try_encode_def)
  with envelope_decode_encode [OF w this] length_envelope_encode [OF w] l show ?thesis by (simp add: fits_def)
qed

lemma send_fragments_bodies:
  assumes "wf_envelope e"
  shows "\<exists>k\<le>length bodies. fst (send_fragments send e sent receipt bodies) = sent @ map (\<lambda>b. \<lparr>env_kind = Fragment,
      env_token = env_token e, env_retention_until = env_retention_until e, env_body = b\<rparr>) (take k bodies)
    \<and> (\<forall>r. snd (send_fragments send e sent receipt bodies) = Inr r \<longrightarrow> k = length bodies)"
proof (induction bodies arbitrary: sent receipt)
  case (Cons b bodies)
  let ?f = "\<lparr>env_kind = Fragment, env_token = env_token e, env_retention_until = env_retention_until e, env_body = b\<rparr>"
  show ?case
  proof (cases "send sent ?f")
    case (Inl x)
    then show ?thesis by (auto simp: fragment_envelope_iff [OF assms] intro!: exI [of _ 1])
  next
    case (Inr r)
    with Cons.IH [of "sent @ [?f]" "if r = HandedToLink then HandedToLink else receipt"] obtain k where
      "k \<le> length bodies" "fst (send_fragments send e (sent @ [?f]) (if r = HandedToLink then HandedToLink else receipt) bodies)
        = (sent @ [?f]) @ map (\<lambda>b. \<lparr>env_kind = Fragment, env_token = env_token e, env_retention_until = env_retention_until e,
            env_body = b\<rparr>) (take k bodies)"
      "\<forall>q. snd (send_fragments send e (sent @ [?f]) (if r = HandedToLink then HandedToLink else receipt) bodies) = Inr q \<longrightarrow> k = length bodies"
      by blast
    then show ?thesis using Inr by (intro exI [of _ "Suc k"]) (simp add: fragment_envelope_iff [OF assms])
  qed
qed simp

text \<open>
  C19. Every envelope the node hands to a link encodes within the MTU of the link, decodes to itself on the other side, and
  shows the address and the retention hint of the envelope it is part of.
\<close>

theorem send_via_fits:
  assumes "wf_envelope e" "\<forall>x. length (b3 x) = 32"
  shows "\<forall>f\<in>set (fst (send_via b3 mtu send e)). fits mtu e f"
proof (cases "try_encode e")
  case (Inl x)
  then show ?thesis by (simp add: send_via_def)
next
  case (Inr b)
  note d = envelope_decode_encode [OF assms(1) Inr]
  have b: "length b \<le> 131072" using Inr length_envelope_encode [OF assms(1)] by (auto simp: try_encode_def split: if_splits)
  show ?thesis
  proof (cases "length b \<le> mtu \<or> env_kind e = Fragment \<or> mtu < 42")
    case True
    then show ?thesis using Inr d by (auto simp: send_via_def fits_def split: sum.splits)
  next
    case False
    show ?thesis
    proof (cases "fragment b3 b (mtu - 42)")
      case (Inl x)
      then show ?thesis using Inr False by (simp add: send_via_def)
    next
      case (Inr bodies)
      obtain k where k: "fst (send_fragments send e [] AckedByNextHop bodies) = map (\<lambda>b. \<lparr>env_kind = Fragment,
          env_token = env_token e, env_retention_until = env_retention_until e, env_body = b\<rparr>) (take k bodies)"
        using send_fragments_bodies [OF assms(1), of bodies send "[]" AckedByNextHop] by auto
      have "fst (send_via b3 mtu send e) = fst (send_fragments send e [] AckedByNextHop bodies)"
        using Inr \<open>try_encode e = Inr b\<close> False by (auto simp: send_via_def split: prod.splits sum.splits)
      moreover have "length x + 42 \<le> mtu" if "x \<in> set bodies" for x
        using fragment_length [OF Inr assms(2) that] False by linarith
      ultimately show ?thesis using sent_fits [OF assms(1)] False b by (auto simp: k dest: in_set_takeD)
    qed
  qed
qed

text \<open>What the fragmenting branch hands over when it succeeds.\<close>

lemma send_via_bodies:
  assumes "wf_envelope e" "send_via b3 mtu send e = (sent, Inr (receipt, Some bodies))"
  shows "map env_body sent = bodies \<and> fragment b3 (envelope_encode e) (mtu - 42) = Inr bodies \<and> try_encode e = Inr (envelope_encode e)"
proof -
  have t: "try_encode e = Inr (envelope_encode e)" using assms(2) by (auto simp: send_via_def try_encode_def split: if_splits)
  have f: "fragment b3 (envelope_encode e) (mtu - 42) = Inr bodies"
    and s: "send_fragments send e [] AckedByNextHop bodies = (sent, Inr receipt)"
    using assms(2) by (auto simp: send_via_def t split: if_splits sum.splits prod.splits)
  from send_fragments_bodies [OF assms(1), of bodies send "[]" AckedByNextHop] f t show ?thesis
    by (auto simp: s comp_def)
qed

text \<open>
  C2. An envelope that a narrow link carries in pieces arrives whole: the pieces handed over, in any order and number among
  foreign ones, complete to the encoding that decodes to the envelope.
\<close>

theorem link_carries_envelope:
  assumes "\<forall>x. length (b3 x) = 32" "wf_envelope e" "send_via b3 mtu send e = (sent, Inr (receipt, Some bodies))"
    and "starts_run (msg_id b3 (envelope_encode e)) bodies t0 st (evs @ [(x, t)])"
    and "x \<in> env_body ` set sent" "x \<notin> fst ` set evs" "env_body ` set sent \<subseteq> insert x (fst ` set evs)"
  shows "\<exists>payload. last (snd (feed b3 st (evs @ [(x, t)]))) = Inr (Some payload) \<and> envelope_decode payload = Inr e"
proof -
  let ?b = "envelope_encode e" let ?mid = "msg_id b3 ?b"
  note s = send_via_bodies [OF assms(2,3)]
  then have set: "set bodies = env_body ` set sent" by force
  obtain cs j where cs: "bodies = frag_list ?mid cs" "concat cs = ?b" "length cs \<le> MAX_FRAGMENTS"
      "length (concat cs) \<le> MAX_ENVELOPE_BYTES" "length ?mid = 4"
    and j: "j < length cs" "x = frag_list ?mid cs ! j" "j \<notin> arrived ?mid cs evs" "insert j (arrived ?mid cs evs) = {..<length cs}"
    using own_fragments [OF assms(1), of ?b "mtu - 42" bodies x evs] s assms(5-7) unfolding set by blast
  have "last (snd (feed b3 st (evs @ [(x, t)]))) = Inr (Some ?b)"
    using completed_run [OF cs(5,3,4) _ assms(4) [unfolded cs(1)] j] by (simp add: cs(2))
  with envelope_decode_encode [OF assms(2)] s show ?thesis by blast
qed

text \<open>
  A link of at least 178 bytes, such as a LoRa frame, carries every envelope the protocol can encode: sending fails only
  where the link itself refuses.
\<close>

theorem narrow_link_suffices:
  assumes "wf_envelope e" "encoded_len e \<le> 131072" "env_kind e \<noteq> Fragment" "178 \<le> mtu"
    and "\<And>sent f. \<exists>r. send sent f = Inr r"
  shows "\<exists>sent r. send_via b3 mtu send e = (sent, Inr r)"
proof -
  have t: "try_encode e = Inr (envelope_encode e)" and l: "length (envelope_encode e) \<le> 131072"
    using assms(1,2) length_envelope_encode [OF assms(1)] by (simp_all add: try_encode_def)
  have ok: "\<exists>out r. send_fragments send e sent receipt bodies = (out, Inr r)" for sent receipt bodies
  proof (induction bodies arbitrary: sent receipt)
    case (Cons b bodies)
    obtain f where f: "fragment_envelope e b = Inr f" using fragment_envelope_iff [OF assms(1)] by blast
    obtain r where "send sent f = Inr r" using assms(5) by blast
    with f Cons.IH show ?case by simp
  qed simp
  have "(length (envelope_encode e) + (mtu - 50) - 1) div (mtu - 50) \<le> 1024"
  proof -
    have "(length (envelope_encode e) + (mtu - 50) - 1) div (mtu - 50) < 1025"
      using l assms(4) by (intro less_mult_imp_div_less) simp
    then show ?thesis by simp
  qed
  then have "\<exists>bodies. fragment b3 (envelope_encode e) (mtu - 42) = Inr bodies"
    using l assms(4) by (auto simp: fragment_def Let_def max_def)
  then obtain bodies where "fragment b3 (envelope_encode e) (mtu - 42) = Inr bodies" by blast
  moreover obtain r where "send [] e = Inr r" using assms(5) by blast
  moreover obtain out q where "send_fragments send e [] AckedByNextHop bodies = (out, Inr q)" using ok by blast
  ultimately show ?thesis using t assms(3,4) by (auto simp: send_via_def)
qed

section \<open>Routes\<close>

lemma epoch_day_bound: "unat (epoch_day now) + 2 < 2 ^ 64"
proof -
  have "unat (epoch_day now) = unat now div 86400" by (simp add: epoch_day_def unat_div)
  then show ?thesis using unsigned_less [of now, where 'a = nat] by simp
qed

lemma recognises_day:
  assumes "route = me \<or> route = device" "unat (epoch_day sent) \<le> unat (epoch_day now) + 2"
    and "unat (epoch_day now) \<le> unat (epoch_day sent) + 35"
  shows "recognises C me device now (delivery_token C (mailbox s) (epoch_day sent) route) s"
proof -
  let ?lo = "saturating_sub (epoch_day now) 35" and ?hi = "epoch_day now + 2"
  have "unat ?hi = unat (epoch_day now) + 2" using epoch_day_bound [of now] by (simp add: unat_word_ariths)
  moreover have "unat ?lo = unat (epoch_day now) - 35" by (simp add: saturating_sub_unat)
  ultimately have "unat (epoch_day sent) \<in> {unat ?lo..<Suc (unat ?hi)}" using assms(2,3) by auto
  then have "epoch_day sent \<in> set (map word_of_nat [unat ?lo..<Suc (unat ?hi)])"
    unfolding set_map set_upt by (intro image_eqI [of _ _ "unat (epoch_day sent)"]) simp_all
  with assms(1) show ?thesis
    unfolding recognises_def Let_def list_ex_iff TOKEN_LOOKBACK_EPOCHS_def TOKEN_LOOKAHEAD_EPOCHS_def by blast
qed

lemma match_sessionI:
  assumes "(peer, s) \<in> set sessions" "recognises C me device now token s"
    and "\<And>q u. (q, u) \<in> set sessions \<Longrightarrow> recognises C me device now token u \<Longrightarrow> q = peer"
  shows "match_session C me device sessions token now = Some peer"
proof -
  have "find (\<lambda>(peer, s). recognises C me device now token s) sessions \<noteq> None"
    using assms(1,2) by (auto simp: find_None_iff)
  then obtain q u where "find (\<lambda>(peer, s). recognises C me device now token s) sessions = Some (q, u)" by auto
  moreover from this have "(q, u) \<in> set sessions" "recognises C me device now token u" by (auto simp: find_Some_iff in_set_conv_nth)
  ultimately show ?thesis using assms(3) by (simp add: match_session_def)
qed

lemma unpad_pad: "pad body = Inr padded \<Longrightarrow> unpad padded = Inr body"
  using unpad_iff_pad [of padded body] by (auto simp: pad_def pad_to_minimum_eq unpad_eq find_Some_iff)

lemma seal_routeD:
  assumes "seal_route C s now padded route retention hn nonce = Some (s', Inr e)" "\<forall>k x. length (hmac C k x) = 32"
  obtains m where "encrypt C s now padded [] hn nonce = Some (m, s')" "env_body e = message_encode m" "wf_envelope e"
    "env_token e = delivery_token C (mailbox s) (epoch_day now) route"
proof -
  obtain m where m: "encrypt C s now padded [] hn nonce = Some (m, s')"
    and e: "(case retention of Some d \<Rightarrow> envelope_new_retained Message (delivery_token C (mailbox s') (epoch_day now) route) d (message_encode m)
       | None \<Rightarrow> Inr (envelope_new Message (delivery_token C (mailbox s') (epoch_day now) route) (message_encode m))) = Inr e"
    using assms(1) by (auto simp: seal_route_def Let_def split: option.splits prod.splits)
  have "env_body e = message_encode m" "env_token e = delivery_token C (mailbox s) (epoch_day now) route"
    using e encrypt_mailbox [OF m] by (auto simp: envelope_new_retained_def envelope_new_def split: option.splits if_splits)
  moreover have "wf_envelope e"
  proof (cases retention)
    case None
    then show ?thesis using e assms(2) by (auto simp: wf_envelope_def delivery_token_def envelope_new_def)
  next
    case (Some d)
    have "\<not> (d = 0 \<or> d mod RETENTION_BUCKET_SECS \<noteq> 0)"
      using e unfolding Some option.case envelope_new_retained_def by (auto simp only: split: if_splits)
    moreover have "env_retention_until e = Some d" "length (env_token e) = 32"
      using e assms(2) unfolding Some option.case envelope_new_retained_def by (auto simp: delivery_token_def split: if_splits)
    ultimately show ?thesis unfolding wf_envelope_def by (simp only: option.case simp_thms de_Morgan_disj)
  qed
  ultimately show thesis using m that by blast
qed

lemma encrypt_decodes:
  assumes "encrypt C s now pt ad hn nonce = Some (m, s')" "sound_aead C" "length nonce = 24"
  shows "message_decode (message_encode m) = Inr m"
  using assms unfolding message_decode_iff
  by (auto simp: encrypt_def Let_def aead_encrypt_with_nonce_def sound_aead_def split: option.splits prod.splits if_splits)

lemma sent_kept: "(net_step C)\<^sup>*\<^sup>* w w' \<Longrightarrow> set (from_alice w) \<subseteq> set (from_alice w')"
proof (induction rule: rtranclp_induct)
  case (step w' w'')
  from step.hyps(2) have "set (from_alice w') \<subseteq> set (from_alice w'')" by cases auto
  with step.IH show ?case by blast
qed simp

section \<open>A concrete link\<close>

definition toy_envelope :: Envelope where
  "toy_envelope = \<lparr>env_kind = Message, env_token = zeros 32, env_retention_until = Some 3600, env_body = zeros 60\<rparr>"

definition toy_pieces :: "bytes list" where
  "toy_pieces = [frag_body (zeros 4) 2 0 (take 51 (envelope_encode toy_envelope)),
     frag_body (zeros 4) 2 1 (drop 51 (envelope_encode toy_envelope))]"

abbreviation toy_link :: "Envelope list \<Rightarrow> Envelope \<Rightarrow> unit + SendReceipt" where
  "toy_link \<equiv> \<lambda>_ _. Inr HandedToLink"

abbreviation toy_piece :: "bytes \<Rightarrow> Envelope" where
  "toy_piece b \<equiv> \<lparr>env_kind = Fragment, env_token = zeros 32, env_retention_until = Some 3600, env_body = b\<rparr>"

lemma toy_envelope_wf: "wf_envelope toy_envelope"
  by (simp add: toy_envelope_def wf_envelope_def)

lemma toy_envelope_length: "length (envelope_encode toy_envelope) = 102"
  using length_envelope_encode [OF toy_envelope_wf] by (simp add: encoded_len_def header_len_def toy_envelope_def)

lemma toy_fragmented: "fragment (\<lambda>_. zeros 32) (envelope_encode toy_envelope) 59 = Inr toy_pieces"
proof -
  define b where "b = envelope_encode toy_envelope"
  have b: "length b = 102" "b \<noteq> []" using toy_envelope_length by (auto simp: b_def)
  have "chunks 51 b = [take 51 b, drop 51 b]" using b by (simp add: chunks.simps)
  then show ?thesis using b unfolding toy_pieces_def b_def [symmetric] by (simp add: fragment_def Let_def msg_id_def frag_body_def)
qed

lemma toy_sends: "send_via (\<lambda>_. zeros 32) 101 toy_link toy_envelope = (map toy_piece toy_pieces, Inr (HandedToLink, Some toy_pieces))"
proof -
  have "try_encode toy_envelope = Inr (envelope_encode toy_envelope)"
    by (simp add: try_encode_def encoded_len_def header_len_def toy_envelope_def)
  moreover have "fragment_envelope toy_envelope b = Inr (toy_piece b)" for b
    by (subst fragment_envelope_iff [OF toy_envelope_wf]) (simp add: toy_envelope_def)
  moreover have "env_kind toy_envelope \<noteq> Fragment" by (simp add: toy_envelope_def)
  ultimately show ?thesis by (simp add: send_via_def toy_envelope_length toy_fragmented toy_pieces_def)
qed

theorem send_via_fits_witness: "fits 101 toy_envelope (toy_piece (toy_pieces ! 0))"
proof -
  have "\<forall>f\<in>set (fst (send_via (\<lambda>_. zeros 32) 101 toy_link toy_envelope)). fits 101 toy_envelope f"
    by (rule send_via_fits [OF toy_envelope_wf]) simp
  then show ?thesis by (simp add: toy_sends toy_pieces_def)
qed

lemma toy_pieces_distinct: "toy_pieces ! 0 \<noteq> toy_pieces ! 1"
  by (simp add: toy_pieces_def frag_body_def to_le16_def numeral_2_eq_2)

theorem link_carries_envelope_witness:
  "\<exists>payload. last (snd (feed (\<lambda>_. zeros 32) reassembler_new ([(toy_pieces ! 1, 5)] @ [(toy_pieces ! 0, 6)]))) = Inr (Some payload)
    \<and> envelope_decode payload = Inr toy_envelope"
proof -
  have p: "toy_pieces = [toy_pieces ! 0, toy_pieces ! 1]" by (simp add: toy_pieces_def)
  then have s: "set toy_pieces = {toy_pieces ! 0, toy_pieces ! 1}" by (metis list.set(1,2))
  have run: "starts_run (msg_id (\<lambda>_. zeros 32) (envelope_encode toy_envelope)) toy_pieces 5 reassembler_new
      ([(toy_pieces ! 1, 5)] @ [(toy_pieces ! 0, 6)])"
    using s by (simp add: starts_run_def reassembler_ok_def reassembler_new_def pending_def run_ok_def timely_def saturating_sub_def)
  show ?thesis
    by (rule link_carries_envelope [OF _ toy_envelope_wf toy_sends run]) (use s toy_pieces_distinct in \<open>auto simp: image_image\<close>)
qed

theorem narrow_link_suffices_witness: "\<exists>sent r. send_via (\<lambda>_. zeros 32) 233 toy_link toy_envelope = (sent, Inr r)"
  by (rule narrow_link_suffices [OF toy_envelope_wf]) (simp_all add: toy_envelope_def encoded_len_def header_len_def)

end
