(* ===== verification/Spec2Isabelle.thy ===== *)
theory Spec2Isabelle
  imports Padding Bundle Fragmentation Content Capability Attachment_Bulk Base32 Device_Sync Ratchet_Net
    Group_Sender Handshake Call_Media Authority_Sync Token Airtime Rendezvous_Service Directory_Chain Delivery
begin

text \<open>
  A verification library for Komms, an end-to-end encrypted messenger that works over internet,
  radio and courier carriers.

  \<^bold>\<open>The program.\<close> The workspace has a cryptographic core (\<^verbatim>\<open>src/crates/kult-crypto\<close>), a protocol layer
  (\<^verbatim>\<open>kult-protocol\<close>: envelopes, padding, fragmentation, typed content, group and device control), a transport
  layer (\<^verbatim>\<open>kult-transport\<close>), a rendezvous service (\<^verbatim>\<open>kult-rendezvous\<close>), an encrypted store (\<^verbatim>\<open>kult-store\<close>), a node
  that composes them (\<^verbatim>\<open>kult-node\<close>), further services, bindings and applications. Two peers agree on a session by
  a handshake over a prekey bundle; a message is framed as typed content, padded, encrypted by the session or by
  a group chain, sealed into an envelope, and the envelope is carried whole, inside a courier bundle or as
  fragments. The devices of an account are governed by a signed manifest or a quorum authority and
  synchronise by signed events. The library models the deterministic code that every peer must agree
  on byte for byte, that parses untrusted input, or that keeps the state the guarantees rest on.

  \<^bold>\<open>How code is rendered.\<close> A struct is a record, an enum a datatype, a function a HOL function of the same name,
  with a prefix where two modules share it. Machine integers are words of their width, byte strings lists of 8-bit words;
  \<^verbatim>\<open>usize\<close> is \<open>nat\<close>. \<^verbatim>\<open>Result\<close> is a sum with the error on the left and \<^verbatim>\<open>?\<close> is \<open>try_then\<close>. A method on
  \<^verbatim>\<open>&mut self\<close> returns the state it leaves behind, also when it fails. Where the code could panic the model returns an
  option and \<open>None\<close> is the panic. Random bytes are arguments or streams. Code of other crates (signatures, key
  agreement, hashes, authenticated encryption, ML-KEM, postcard, JSON, multiaddresses) enters as parameters; what is
  relied on is a named hypothesis, and a concrete instance satisfies it in every witness.

  \<^bold>\<open>Shared theories.\<close>

  \<^item> \<open>Komms_Prelude\<close>: machine integers, results, slices, little-endian integers, UTF-8, cursors, the protocol errors
    (\<^verbatim>\<open>kult-protocol/src/error.rs\<close>) and the contract \<open>strict_codec\<close>: a decoder accepts exactly what the encoder emits.
    \<open>Big_Endian\<close> adds network-order integers.
  \<^item> \<open>BTree_Map\<close>: ordered maps as sorted association lists, behind the contract \<open>ordered_map\<close>, interpreted as \<open>bt\<close>.
  \<^item> \<open>Crypto_Base\<close>: \<^verbatim>\<open>identity.rs\<close>, \<^verbatim>\<open>sealed.rs\<close>, \<^verbatim>\<open>error.rs\<close> and part of \<^verbatim>\<open>util.rs\<close> of \<^verbatim>\<open>kult-crypto\<close>, the record \<open>prims\<close> of
    primitives with its soundness conditions, and the proof that a signature is good for one purpose and one message.

  \<^bold>\<open>Wire formats\<close> (\<^verbatim>\<open>kult-protocol/src\<close>). Each theory has the data, encoder and decoder of its module; most of them
  interpret \<open>strict_codec\<close>, and the rest prove the corresponding equivalence directly.

  \<^item> \<open>Padding\<close>, \<open>Admission\<close>, \<open>Envelope\<close>, \<open>Bundle\<close>, \<open>Capability\<close>, \<open>Token\<close>: the modules of the same name. Unpadding accepts exactly
    padded text; a courier bundle imports to exactly what was exported; the proof-of-work solver is sound; both ends of
    a session compute the same delivery token exactly for the same day and addressee.
  \<^item> \<open>Content\<close>, with \<open>Attachment\<close>, \<open>Mention\<close>, \<open>Edit\<close>, \<open>Ephemeral\<close>, \<open>Poll\<close>, \<open>Group_Authority\<close>, \<open>Call_Control\<close> (\<^verbatim>\<open>call.rs\<close>) for the
    payloads of its eight kinds: one canonical codec, iterators that never panic on decoded values, and what an
    accepted authority state guarantees about owner, transfers and signer.
  \<^item> \<open>Attachment_Bulk\<close>: transfer records, with a unique description of the missing chunks.
  \<^item> \<open>Base32\<close>: \<^verbatim>\<open>kult-crypto/src/util.rs\<close> and account addresses: an address parses exactly when it is the one of its digest.
  \<^item> \<open>Fragmentation\<close>: splitting and the stateful reassembler; its tables stay bounded under any input, and fragments
    reassemble in any order, with duplicates and foreign fragments in between.

  \<^bold>\<open>Sessions\<close> (\<^verbatim>\<open>kult-crypto/src\<close>).

  \<^item> \<open>Prekeys\<close> (\<^verbatim>\<open>prekeys.rs\<close>, \<^verbatim>\<open>admission.rs\<close>) and \<open>Handshake\<close>: bundles, admission policies and the key agreement, whose two
    ends start the sessions below.
  \<^item> \<open>Ratchet\<close> (\<^verbatim>\<open>ratchet.rs\<close>) models one session; \<open>Ratchet_Net\<close> two of them and a network that loses, reorders, repeats and
    tampers but cannot forge, as an inductive step relation. Reachable states satisfy an invariant that links both ends;
    it gives authenticity without replay and delivery of what is within reach.
  \<^item> \<open>Group_Sender\<close> (\<^verbatim>\<open>group.rs\<close>) and \<open>Call_Media\<close> (\<^verbatim>\<open>call.rs\<close>): the same for sender chains with many readers and for call
    media; the bitmap window of the latter refines a set of seen numbers.

  \<^bold>\<open>Devices.\<close>

  \<^item> \<open>Device_Manifest\<close> (\<^verbatim>\<open>kult-crypto/src/device.rs\<close>): certificates, the manifest, its mutations and the successor rule.
  \<^item> \<open>Device_Authority\<close>, \<open>Authority_Protocol\<close> (\<^verbatim>\<open>device_authority.rs\<close>): chains of transitions signed by a majority. The contract
    \<open>quorum_system\<close>, interpreted as \<open>majority\<close>, says that two quorums meet; a fork therefore needs a device that
    signs twice. Independent approvals merge, revocation is permanent, and recovery by the offline root has an exact condition of success.
  \<^item> \<open>Device_Sync\<close> (\<^verbatim>\<open>kult-protocol/src/device_sync.rs\<close>) refines the rule that each slot holds the greatest authorised event;
    \<open>Authority_Sync\<close> composes it with the authority: what is revoked stays silent.

  \<^bold>\<open>Transport and services.\<close>

  \<^item> \<open>Airtime\<close> (\<^verbatim>\<open>kult-transport/src/airtime.rs\<close>): frame times and the duty-cycle budget with the rounding of its floats.
  \<^item> \<open>Rendezvous_Service\<close> (\<^verbatim>\<open>kult-rendezvous/src/lib.rs\<close>): the whole service as a state machine: memory bounds, rate limits,
    uniform responses, and exactly when a registration is served.
  \<^item> \<open>Provider_Origin\<close>, \<open>Provider_Directory\<close>, \<open>Directory_Chain\<close> (\<^verbatim>\<open>kult-transport/src/rendezvous.rs\<close>, \<^verbatim>\<open>provider_directory.rs\<close>):
    canonical provider origins, signed directories and their cached chain. Only authorised keys extend the chain, the cache
    never rolls back, the user's own providers are kept, and resolution goes through while the chain has room; a full chain
    makes it fail.

  \<^bold>\<open>The node.\<close> \<open>Delivery\<close> has the path of one message through \<^verbatim>\<open>kult-node/src/lib.rs\<close>: sealing for a route, \<^verbatim>\<open>send_via\<close>, \<^verbatim>\<open>match_session\<close> and
  opening. What is handed to a link fits it, and an envelope arrives whole over a narrow one. This theory composes
  the path: a message sealed in any reachable state of a session is found by its token and opens to its body.

  \<^bold>\<open>Termination and bounds.\<close> Loops are total functions with a measure, and no definition uses fuel. The one loop that may run forever,
  the draw of a non-zero certificate serial or transition id, is a partial function that returns as soon as the generator yields one.
  Counters keep their width; \<^verbatim>\<open>+= 1\<close> wraps as in a release build. Sums of slice lengths are \<open>nat\<close>, since vectors in memory
  are far shorter than \<open>2 ^ 64\<close>.

  \<^bold>\<open>Not modelled.\<close> In \<^verbatim>\<open>kult-crypto\<close>: \<^verbatim>\<open>anonbox.rs\<close>, \<^verbatim>\<open>attachment.rs\<close>, \<^verbatim>\<open>kdf.rs\<close>, \<^verbatim>\<open>fingerprint.rs\<close>, \<^verbatim>\<open>mnemonic.rs\<close> and \<^verbatim>\<open>recovery_authority.rs\<close>,
  which compose external primitives without state; \<^verbatim>\<open>discovery.rs\<close> and \<^verbatim>\<open>device_link_authority.rs\<close> beyond their signing
  domains; key generation and zeroisation. In \<^verbatim>\<open>kult-protocol\<close>: \<^verbatim>\<open>group.rs\<close>, \<^verbatim>\<open>receipt.rs\<close>, \<^verbatim>\<open>discovery.rs\<close>, \<^verbatim>\<open>wake.rs\<close> and \<^verbatim>\<open>rendezvous.rs\<close>
  beyond its two service requests, mostly structures that postcard encodes. The store and the mailbox are transactions
  of an external SQL engine; the rest of the node, the carriers, the service binaries, the bindings and the applications are
  asynchronous input and output around the modelled code.
\<close>

section \<open>A message from end to end\<close>

text \<open>
  C1. A body is padded, encrypted in any state the two sessions can reach, and sealed for a route. Whatever happens on the
  network afterwards, when the envelope arrives while its key is within reach and its day within the window of tokens, the receiver
  finds the session by the token and opens the envelope to exactly the body. The primitives are assumed sound, the arriving
  message unforged, and no other session to recognise the token.
\<close>

theorem message_travels:
  assumes "sound_aead C" "sound_dh C" "\<forall>k x. length (hmac C k x) = 32"
    and "w0 = net_start C priv_a priv_b sid root_key hka nhkb mbox ex" "nhks (alice w0) \<noteq> hka" "(net_step C)\<^sup>*\<^sup>* w0 w"
    and "pad body = Inr padded" "seal_route C (alice w) sealed_at padded dest retention hn nonce = Some (a, Inr e)"
    and "length hn = 24" "length nonce = 24" "ns (alice w) \<noteq> - 1"
    and "p = sent_packet C (alice w) padded [] (projr (message_decode (env_body e)))"
    and "u = w\<lparr>alice := a, from_alice := from_alice w @ [p]\<rparr>" "(net_step C)\<^sup>*\<^sup>* u w'"
    and "unforged C (bob w') (from_alice w') (pk_msg p) []" "within_reach (purge_expired now (bob w')) p"
    and "dest = me \<or> dest = dev" "unat (epoch_day sealed_at) \<le> unat (epoch_day now) + 2"
    and "unat (epoch_day now) \<le> unat (epoch_day sealed_at) + 35" "(pid, bob w') \<in> set sessions"
    and "\<And>q s. (q, s) \<in> set sessions \<Longrightarrow> recognises C me dev now (env_token e) s \<Longrightarrow> q = pid"
  shows "net_step C w u \<and> wf_envelope e \<and> match_session C me dev sessions (env_token e) now = Some pid
    \<and> (\<exists>b. open_route C priv (bob w') now e = Some (b, Some body))"
proof -
  obtain m where m: "encrypt C (alice w) sealed_at padded [] hn nonce = Some (m, a)" "env_body e = message_encode m" "wf_envelope e"
      "env_token e = delivery_token C (mailbox (alice w)) (epoch_day sealed_at) dest"
    using seal_routeD [OF assms(8,3)] by blast
  have d: "message_decode (env_body e) = Inr m" using encrypt_decodes [OF m(1) assms(1,10)] m(2) by simp
  then have p: "p = sent_packet C (alice w) padded [] m" using assms(12) by simp
  have step: "net_step C w u" using alice_sends [OF m(1) assms(9,11)] assms(13) p by simp
  have reach: "(net_step C)\<^sup>*\<^sup>* w0 w'" using assms(6,14) step by (meson rtranclp.rtrancl_into_rtrancl rtranclp_trans)
  have "net_ok C w'" using net_ok_reachable [OF assms(1,2) reach] net_ok_start [OF assms(2,4,5)] by blast
  then obtain K K' G H where l: "linked C K (alice w') (from_alice w') G K' (bob w') (from_bob w') H" by (auto simp: net_ok_def)
  have "p \<in> set (from_alice w')" using sent_kept [OF assms(14)] assms(13) by auto
  from linked_delivery [OF l this] assms(15,16) obtain b where "decrypt C priv (bob w') now m [] = Some (b, Inr padded)"
    unfolding p sent_packet_def by auto
  with d unpad_pad [OF assms(7)] have "open_route C priv (bob w') now e = Some (b, Some body)" by (simp add: open_route_def)
  moreover have "mailbox (alice w) = mailbox (bob w')"
    using net_mailbox [OF assms(6) [unfolded assms(4)]] net_mailbox [OF reach [unfolded assms(4)]] by simp
  then have "match_session C me dev sessions (env_token e) now = Some pid"
    using match_sessionI [OF assms(20) _ assms(21)] recognises_day [OF assms(17-19), of C "bob w'"] m(4) by simp
  ultimately show ?thesis using step m(3) by blast
qed

text \<open>A first message of one byte between the two sessions of the toy exchange.\<close>

definition travel_padded :: bytes where "travel_padded = [5, 0x80] @ replicate 190 0"

definition travel_message :: RatchetMessage where
  "travel_message = \<lparr>enc_header = zeros 24 @ header_encode toy_header @ zeros 16, msg_nonce = zeros 24, msg_ct = travel_padded @ zeros 16\<rparr>"

definition travel_packet :: packet where
  "travel_packet = \<lparr>pk_hk = [1], pk_mk = zeros 64 @ [7], pk_header = toy_header, pk_plain = travel_padded, pk_ad = [],
     pk_msg = travel_message\<rparr>"

definition travel_sent :: net where
  "travel_sent = toy_start\<lparr>alice := (alice toy_start)\<lparr>cks := Some (zeros 64 @ [7]), ns := 1\<rparr>, from_alice := [travel_packet]\<rparr>"

definition travel_envelope :: Envelope where
  "travel_envelope = envelope_new Message (zeros 32) (message_encode travel_message)"

lemma travel_pad: "pad [5] = Inr travel_padded"
  by (simp add: pad_def pad_to_minimum_eq travel_padded_def PAD_BUCKETS_def)

lemma travel_seal: "seal_route toy_ratchet (alice toy_start) 0 travel_padded (zeros 32) None (zeros 24) (zeros 24)
    = Some (alice travel_sent, Inr travel_envelope)"
proof -
  have "encrypt toy_ratchet (alice toy_start) 0 travel_padded [] (zeros 24) (zeros 24) = Some (travel_message, alice travel_sent)"
    by (simp add: encrypt_def travel_sent_def toy_start_def net_start_def init_initiator_def purge_expired_def aead_seal_def
        aead_encrypt_with_nonce_def travel_message_def toy_header_def length_header_encode)
  then show ?thesis by (simp add: seal_route_def travel_envelope_def delivery_token_def toy_ratchet_def)
qed

lemma travel_decoded: "message_decode (env_body travel_envelope) = Inr travel_message"
  by (simp add: message_decode_iff travel_envelope_def envelope_new_def travel_message_def length_header_encode toy_header_def)

lemma travel_unforged: "unforged toy_ratchet (bob travel_sent) (from_alice travel_sent) (pk_msg travel_packet) []"
  by (simp add: unforged_def header_keys_def authentic_header_def authentic_payload_def travel_sent_def toy_start_def
      net_start_def init_responder_def travel_packet_def)

theorem message_travels_witness:
  "match_session toy_ratchet (zeros 32) (zeros 32) [([9], bob travel_sent)] (env_token travel_envelope) 0 = Some [9]
    \<and> (\<exists>b. open_route toy_ratchet [8] (bob travel_sent) 0 travel_envelope = Some (b, Some [5]))"
proof -
  have p: "travel_packet = sent_packet toy_ratchet (alice toy_start) travel_padded [] (projr (message_decode (env_body travel_envelope)))"
    by (simp add: travel_decoded sent_packet_def travel_packet_def toy_start_def net_start_def init_initiator_def toy_header_def)
  have u: "travel_sent = toy_start\<lparr>alice := alice travel_sent, from_alice := from_alice toy_start @ [travel_packet]\<rparr>"
    by (simp add: travel_sent_def toy_start_def net_start_def)
  have h: "\<forall>k x. length (hmac toy_ratchet k x) = 32" by (simp add: toy_ratchet_def)
  have n: "ns (alice toy_start) \<noteq> - 1" by (simp add: toy_start_def net_start_def init_initiator_def)
  have w: "within_reach (purge_expired 0 (bob travel_sent)) travel_packet"
    by (simp add: within_reach_def travel_sent_def toy_start_def net_start_def init_responder_def travel_packet_def toy_header_def
        purge_expired_def)
  show ?thesis
    using message_travels [OF toy_ratchet_sound h toy_start_def toy_fresh rtranclp.rtrancl_refl travel_pad travel_seal _ _ n p u
        rtranclp.rtrancl_refl travel_unforged w, of "zeros 32" "zeros 32" "[9]" "[([9], bob travel_sent)]" "[8]"]
    by simp
qed

end
